(* ===== verification/Chaaya_Prelude.thy ===== *)
theory Chaaya_Prelude
  imports Main "HOL-Library.Word"
begin

text \<open>
  Shared ground of the development: names for the machine types of the C sources, the
  collections of simplification rules the component proofs share, and generic lemmas on words,
  lists and options that more than one component needs.
\<close>

unbundle bit_operations_syntax

section \<open>Machine types of the C sources\<close>

type_synonym u8 = "8 word"
type_synonym u16 = "16 word"
type_synonym u32 = "32 word"
type_synonym u64 = "64 word"
type_synonym u128 = "128 word"

text \<open>The largest \<open>size_t\<close>; sizes and indices are natural numbers.\<close>

definition SIZE_MAX :: nat where "SIZE_MAX = 2 ^ 64 - 1"

named_theorems limb_simps \<open>values of limb operations as natural numbers\<close>
named_theorems value_simps \<open>classification of NaN-boxed words\<close>

section \<open>Words\<close>

lemma unat_u64_bound: "unat (w :: u64) < 18446744073709551616"
  using unsigned_less [of w] by simp

lemma unat_u64_max [simp]: "unat (- 1 :: u64) = 18446744073709551615"
  by (simp add: unsigned_minus_1_eq_mask mask_eq_exp_minus_1)

lemma unat_u128_bound: "unat (w :: u128) < 340282366920938463463374607431768211456"
  using unsigned_less [of w] by simp

lemma unat_ucast_u128 [simp]: "unat (ucast (w :: u64) :: u128) = unat w"
  by (simp add: unsigned_ucast_eq take_bit_nat_eq_self_iff unat_u64_bound
      less_trans [OF unat_u64_bound])

lemma unat_ucast_u64 [limb_simps]: "unat (ucast (w :: u128) :: u64) = unat w mod 2 ^ 64"
  by (simp add: unsigned_ucast_eq take_bit_eq_mod)

lemma unat_drop_bit_u128 [limb_simps]: "unat (drop_bit 64 (w :: u128)) = unat w div 2 ^ 64"
  using unat_drop_bit_eq [of 64 w] by (simp only: drop_bit_eq_div)

lemma unat_u128_plus:
  "unat (a :: u128) + unat b < 2 ^ 128 \<Longrightarrow> unat (a + b) = unat a + unat b"
  by (simp add: unat_word_ariths)

lemma unat_u128_times:
  "unat (a :: u128) * unat b < 2 ^ 128 \<Longrightarrow> unat (a * b) = unat a * unat b"
  by (simp add: unat_word_ariths)

section \<open>Results\<close>

text \<open>A C function that reports an error returns the error or its result.\<close>

type_synonym 'a result = "string + 'a"

fun rbind :: "'a result \<Rightarrow> ('a \<Rightarrow> 'b result) \<Rightarrow> 'b result" where
  "rbind (Inl e) f = Inl e"
| "rbind (Inr x) f = f x"

section \<open>Options\<close>

fun option_map_all :: "('a \<Rightarrow> 'b option) \<Rightarrow> 'a list \<Rightarrow> 'b list option" where
  "option_map_all f [] = Some []"
| "option_map_all f (x # xs) =
     (case f x of None \<Rightarrow> None
      | Some y \<Rightarrow> (case option_map_all f xs of None \<Rightarrow> None | Some ys \<Rightarrow> Some (y # ys)))"

lemma option_map_all_length: "option_map_all f xs = Some ys \<Longrightarrow> length ys = length xs"
  by (induction xs arbitrary: ys) (auto split: option.splits)

lemma option_map_all_cong [fundef_cong]:
  "xs = ys \<Longrightarrow> (\<And>x. x \<in> set ys \<Longrightarrow> f x = g x) \<Longrightarrow> option_map_all f xs = option_map_all g ys"
  by (induction xs arbitrary: ys) (auto split: option.splits)

lemma option_map_all_iff: "option_map_all f xs = Some ys \<longleftrightarrow> map f xs = map Some ys"
proof (induction xs arbitrary: ys)
  case (Cons x xs)
  then show ?case by (cases ys; cases "option_map_all f xs") (auto split: option.splits)
qed auto

end
