(* ===== verification/Chaaya_Value.thy ===== *)
theory Chaaya_Value
  imports Chaaya_Prelude
begin

text \<open>
  The NaN-boxed value words of \<open>src/include/chaaya/value.h\<close> and \<open>src/src/value.c\<close>: constructors,
  classifiers and accessors of flonums, fixnums, characters, immediates and pointers.
  A C \<open>int64_t\<close> is the word of its bits, read by \<open>sint\<close>; a C \<open>double\<close> is the word of its
  IEEE-754 bits, as the \<open>memcpy\<close> of the source makes it.
\<close>

section \<open>Layout constants\<close>

type_synonym chvalue = u64

definition CH_NANBOX_PTR :: chvalue where "CH_NANBOX_PTR = 0xFFFC000000000000"
definition CH_NANBOX_FIX :: chvalue where "CH_NANBOX_FIX = 0xFFFD000000000000"
definition CH_NANBOX_IMM :: chvalue where "CH_NANBOX_IMM = 0xFFFE000000000000"
definition CH_NANBOX_THRESHOLD :: chvalue where "CH_NANBOX_THRESHOLD = CH_NANBOX_PTR"
definition CH_NANBOX_PAYLOAD :: chvalue where "CH_NANBOX_PAYLOAD = 0x0000FFFFFFFFFFFF"
definition CH_CANONICAL_NAN :: chvalue where "CH_CANONICAL_NAN = 0x7FF8000000000000"

definition CH_NIL :: chvalue where "CH_NIL = CH_NANBOX_IMM OR 0"
definition CH_FALSE :: chvalue where "CH_FALSE = CH_NANBOX_IMM OR 1"
definition CH_TRUE :: chvalue where "CH_TRUE = CH_NANBOX_IMM OR 2"
definition CH_VOID :: chvalue where "CH_VOID = CH_NANBOX_IMM OR 3"
definition CH_EOF_OBJ :: chvalue where "CH_EOF_OBJ = CH_NANBOX_IMM OR 4"
definition CH_UNDEFINED :: chvalue where "CH_UNDEFINED = CH_NANBOX_IMM OR 5"

lemmas nanbox_defs = CH_NANBOX_PTR_def CH_NANBOX_FIX_def CH_NANBOX_IMM_def
  CH_NANBOX_THRESHOLD_def CH_NANBOX_PAYLOAD_def CH_CANONICAL_NAN_def

lemmas immediate_defs = CH_NIL_def CH_FALSE_def CH_TRUE_def CH_VOID_def CH_EOF_OBJ_def
  CH_UNDEFINED_def

definition CH_FIXNUM_MIN :: int where "CH_FIXNUM_MIN = - (2 ^ 47)"
definition CH_FIXNUM_MAX :: int where "CH_FIXNUM_MAX = 2 ^ 47 - 1"

section \<open>Classifiers\<close>

definition ch_is_flonum :: "chvalue \<Rightarrow> bool" where
  "ch_is_flonum v \<longleftrightarrow> v < CH_NANBOX_THRESHOLD"

definition ch_is_fixnum :: "chvalue \<Rightarrow> bool" where
  "ch_is_fixnum v \<longleftrightarrow> drop_bit 48 v = 0xFFFD"

definition ch_is_pointer :: "chvalue \<Rightarrow> bool" where
  "ch_is_pointer v \<longleftrightarrow> drop_bit 48 v = 0xFFFC"

definition ch_is_immediate :: "chvalue \<Rightarrow> bool" where
  "ch_is_immediate v \<longleftrightarrow> drop_bit 48 v = 0xFFFE"

definition ch_is_nil :: "chvalue \<Rightarrow> bool" where "ch_is_nil v \<longleftrightarrow> v = CH_NIL"
definition ch_is_false :: "chvalue \<Rightarrow> bool" where "ch_is_false v \<longleftrightarrow> v = CH_FALSE"
definition ch_is_true_value :: "chvalue \<Rightarrow> bool" where "ch_is_true_value v \<longleftrightarrow> v \<noteq> CH_FALSE"

section \<open>Constructors and accessors\<close>

definition ch_make_fixnum :: "u64 \<Rightarrow> chvalue" where
  "ch_make_fixnum n = CH_NANBOX_FIX OR (n AND CH_NANBOX_PAYLOAD)"

definition ch_to_fixnum :: "chvalue \<Rightarrow> u64" where
  "ch_to_fixnum v =
     (let payload = v AND CH_NANBOX_PAYLOAD
      in if payload AND push_bit 47 1 \<noteq> 0 then payload OR 0xFFFF000000000000 else payload)"

definition ch_make_flonum :: "u64 \<Rightarrow> chvalue" where
  "ch_make_flonum bits =
     (if bits AND 0x7FF0000000000000 = 0x7FF0000000000000 \<and> bits AND 0x000FFFFFFFFFFFFF \<noteq> 0
      then CH_CANONICAL_NAN else bits)"

definition ch_to_flonum :: "chvalue \<Rightarrow> u64" where
  "ch_to_flonum v = v"

definition ch_make_char :: "u32 \<Rightarrow> chvalue" where
  "ch_make_char cp = CH_NANBOX_IMM OR (0x100 + (ucast cp AND 0x1FFFFF))"

definition ch_is_char :: "chvalue \<Rightarrow> bool" where
  "ch_is_char v \<longleftrightarrow>
     (if \<not> ch_is_immediate v then False
      else let payload = v AND CH_NANBOX_PAYLOAD
           in 0x100 \<le> payload \<and> payload \<le> 0x100 + 0x1FFFFF)"

definition ch_to_char :: "chvalue \<Rightarrow> u32" where
  "ch_to_char v = ucast ((v AND CH_NANBOX_PAYLOAD) - 0x100)"

text \<open>An object address is the \<open>uintptr_t\<close> of the C pointer.\<close>

definition ch_make_pointer :: "u64 \<Rightarrow> chvalue" where
  "ch_make_pointer obj = CH_NANBOX_PTR OR (obj AND CH_NANBOX_PAYLOAD)"

definition ch_to_object :: "chvalue \<Rightarrow> u64" where
  "ch_to_object v = v AND CH_NANBOX_PAYLOAD"

definition ch_eq :: "chvalue \<Rightarrow> chvalue \<Rightarrow> bool" where
  "ch_eq a b \<longleftrightarrow> a = b"

section \<open>The boxed word: a 16-bit class over a 48-bit payload\<close>

lemma u64_take_bit_self: "take_bit n (w::u64) = w \<longleftrightarrow> unat w < 2 ^ n"
  by (metis take_bit_nat_eq_self_iff unsigned_take_bit_eq word_eq_iff_unsigned)

lemma bit_u64_high: "unat (k::u64) < 2 ^ l \<Longrightarrow> bit k n \<Longrightarrow> n < l"
  by (metis bit_take_bit_iff u64_take_bit_self)

lemma min_47_63: "min (47::nat) (min 63 n) = min 47 n"
  by simp

lemma sint_signed_take_bit_47: "sint (signed_take_bit 47 (w::u64)) = signed_take_bit 47 (sint w)"
  by (rule bit_eqI) (auto simp: bit_simps min_47_63)

lemma signed_take_bit_47_self:
  "CH_FIXNUM_MIN \<le> sint n \<Longrightarrow> sint n \<le> CH_FIXNUM_MAX \<Longrightarrow> signed_take_bit 47 n = n"
  for n :: u64
proof -
  assume "CH_FIXNUM_MIN \<le> sint n" "sint n \<le> CH_FIXNUM_MAX"
  then have "signed_take_bit 47 (sint n) = sint n"
    by (intro signed_take_bit_int_eq_self) (auto simp: CH_FIXNUM_MIN_def CH_FIXNUM_MAX_def)
  then have "sint (signed_take_bit 47 n) = sint n" by (simp add: sint_signed_take_bit_47)
  then show ?thesis by (rule signed_word_eqI)
qed

lemma payload_mask: "v AND CH_NANBOX_PAYLOAD = take_bit 48 v"
  by (simp add: CH_NANBOX_PAYLOAD_def take_bit_eq_mask mask_eq_exp_minus_1)

definition box_word :: "u64 \<Rightarrow> u64 \<Rightarrow> u64" where
  "box_word k n = push_bit 48 k OR take_bit 48 n"

lemma drop_box_word [value_simps]: "unat k < 2 ^ 16 \<Longrightarrow> drop_bit 48 (box_word k n) = k"
proof (rule bit_word_eqI)
  fix m assume k: "unat k < 2 ^ 16" and "m < LENGTH(64)"
  show "bit (drop_bit 48 (box_word k n)) m = bit k m"
    using bit_u64_high [OF k, of m] by (auto simp: box_word_def bit_simps)
qed

lemma take_box_word [value_simps]: "take_bit 48 (box_word k n) = take_bit 48 n"
  by (rule bit_word_eqI) (auto simp: box_word_def bit_simps)

lemma ch_to_fixnum_signed: "ch_to_fixnum v = signed_take_bit 47 v"
proof (rule bit_word_eqI)
  fix m assume "m < LENGTH(64)"
  have b: "(take_bit 48 v AND push_bit 47 1 \<noteq> 0) = bit v 47"
    using bit_iff_and_push_bit_not_eq_0 [of "take_bit 48 v" 47] by (simp add: bit_take_bit_iff)
  have h: "(0xFFFF000000000000 :: u64) = NOT (mask 48)"
    by (simp add: mask_eq_exp_minus_1)
  show "bit (ch_to_fixnum v) m = bit (signed_take_bit 47 v) m"
    unfolding ch_to_fixnum_def payload_mask Let_def b h
    by (auto simp: bit_simps min_def dest: le_antisym)
qed

lemma ch_make_fixnum_box: "ch_make_fixnum n = box_word 0xFFFD n"
  by (simp add: ch_make_fixnum_def payload_mask box_word_def CH_NANBOX_FIX_def push_bit_eq_mult)

lemma ch_make_pointer_box: "ch_make_pointer n = box_word 0xFFFC n"
  by (simp add: ch_make_pointer_def payload_mask box_word_def CH_NANBOX_PTR_def push_bit_eq_mult)

lemma char_mask: "x AND 0x1FFFFF = take_bit 21 (x::u64)"
  by (simp add: take_bit_eq_mask mask_eq_exp_minus_1)

lemma unat_char_payload: "unat (0x100 + take_bit 21 (x::u64)) = 256 + unat x mod 2 ^ 21"
proof -
  have "unat (take_bit 21 x) = unat x mod 2 ^ 21"
    using unsigned_take_bit_eq [of 21 x, where ?'a = nat] by (simp only: take_bit_eq_mod)
  moreover have "unat x mod 2 ^ 21 < 2 ^ 21" by simp
  ultimately show ?thesis by (simp add: unat_word_ariths)
qed

lemma char_payload_small: "take_bit 48 (0x100 + take_bit 21 (x :: u64)) = 0x100 + take_bit 21 x"
proof -
  have "unat (0x100 + take_bit 21 x) < 2 ^ 48"
    using mod_less_divisor [of "2^21" "unat x"] by (simp only: unat_char_payload) simp
  then show ?thesis by (simp only: u64_take_bit_self)
qed

lemma ch_make_char_box: "ch_make_char c = box_word 0xFFFE (0x100 + take_bit 21 (ucast c))"
  by (simp only: ch_make_char_def char_mask box_word_def CH_NANBOX_IMM_def char_payload_small)
    (simp add: push_bit_eq_mult)

lemma immediate_box:
  "CH_NIL = box_word 0xFFFE 0" "CH_FALSE = box_word 0xFFFE 1" "CH_TRUE = box_word 0xFFFE 2"
  "CH_VOID = box_word 0xFFFE 3" "CH_EOF_OBJ = box_word 0xFFFE 4" "CH_UNDEFINED = box_word 0xFFFE 5"
  by (simp_all add: immediate_defs CH_NANBOX_IMM_def box_word_def push_bit_eq_mult)

lemma ch_is_flonum_iff: "ch_is_flonum v \<longleftrightarrow> unat (drop_bit 48 v) < 0xFFFC"
proof -
  have "unat (drop_bit 48 v) = unat v div 2 ^ 48"
    using unat_drop_bit_eq [of 48 v] by (simp only: drop_bit_eq_div)
  then show ?thesis
    by (simp add: ch_is_flonum_def CH_NANBOX_THRESHOLD_def CH_NANBOX_PTR_def word_less_nat_alt
        div_less_iff_less_mult)
qed

lemma high_word_bound: "unat (drop_bit 48 (v::u64)) < 2 ^ 16"
proof -
  have "unat (drop_bit 48 v) = unat v div 2 ^ 48"
    using unat_drop_bit_eq [of 48 v] by (simp only: drop_bit_eq_div)
  then show ?thesis using unat_u64_bound [of v] by (simp add: div_less_iff_less_mult)
qed

lemma ch_classes:
  "ch_is_fixnum v \<longleftrightarrow> unat (drop_bit 48 v) = 0xFFFD"
  "ch_is_pointer v \<longleftrightarrow> unat (drop_bit 48 v) = 0xFFFC"
  "ch_is_immediate v \<longleftrightarrow> unat (drop_bit 48 v) = 0xFFFE"
  by (simp_all add: ch_is_fixnum_def ch_is_pointer_def ch_is_immediate_def
      word_eq_iff_unsigned [where ?'a = nat])

section \<open>What the layout guarantees\<close>

lemma class_make [value_simps]:
  "ch_is_fixnum (ch_make_fixnum n)" "ch_is_pointer (ch_make_pointer a)"
  "ch_is_immediate (ch_make_char c)"
  by (simp_all add: ch_classes ch_make_fixnum_box ch_make_pointer_box ch_make_char_box
      drop_box_word)

lemma fixnum_not_other [simp]:
  "ch_is_fixnum v \<Longrightarrow> \<not> ch_is_flonum v" "ch_is_fixnum v \<Longrightarrow> \<not> ch_is_pointer v"
  "ch_is_fixnum v \<Longrightarrow> \<not> ch_is_immediate v"
  by (simp_all add: ch_classes ch_is_flonum_iff)

lemma ch_to_make_fixnum: "ch_to_fixnum (ch_make_fixnum n) = signed_take_bit 47 n"
proof -
  have "signed_take_bit 47 (box_word 0xFFFD n) = signed_take_bit 47 n"
    using take_box_word [of "0xFFFD" n] by (simp add: signed_take_bit_eq_iff_take_bit_eq)
  then show ?thesis by (simp add: ch_to_fixnum_signed ch_make_fixnum_box)
qed

lemma flonum_bits: "\<not> (bits AND 0x7FF0000000000000 = 0x7FF0000000000000 \<and>
    bits AND 0x000FFFFFFFFFFFFF \<noteq> 0) \<Longrightarrow> unat (drop_bit 48 (bits :: u64)) < 0xFFFC"
proof (rule ccontr)
  assume nn: "\<not> (bits AND 0x7FF0000000000000 = 0x7FF0000000000000 \<and>
    bits AND 0x000FFFFFFFFFFFFF \<noteq> 0)"
  assume "\<not> unat (drop_bit 48 bits) < 0xFFFC"
  moreover have "unat (drop_bit 48 bits) = unat bits div 2 ^ 48"
    using unat_drop_bit_eq [of 48 bits] by (simp only: drop_bit_eq_div)
  moreover have "unat (drop_bit 50 bits) = unat bits div 2 ^ 50"
    using unat_drop_bit_eq [of 50 bits] by (simp only: drop_bit_eq_div)
  ultimately have "unat (drop_bit 50 bits) = 0x3FFF"
    using unat_u64_bound [of bits] by (simp add: not_less less_eq_div_iff_mult_less_eq div_nat_eqI)
  then have d: "drop_bit 50 bits = mask 14"
    by (simp add: word_eq_iff_unsigned [where ?'a = nat] mask_eq_exp_minus_1)
  have b: "bit bits (50 + m)" if "m < 14" for m
  proof -
    have "bit (drop_bit 50 bits) m" using that by (simp add: d bit_mask_iff)
    then show ?thesis by (simp add: bit_drop_bit_eq)
  qed
  have "bits AND push_bit 52 (mask 11) = push_bit 52 (mask 11)"
  proof (rule bit_word_eqI)
    fix m assume "m < LENGTH(64)"
    show "bit (bits AND push_bit 52 (mask 11)) m = bit (push_bit 52 (mask 11) :: u64) m"
      using b [of "m - 50"] by (auto simp: bit_simps)
  qed
  moreover have "bit (bits AND mask 52) 50" using b [of 0] by (simp add: bit_simps)
  then have "bits AND mask 52 \<noteq> 0" by (metis bit_0_eq bot_apply bot_bool_def)
  ultimately show False using nn by (simp add: mask_eq_exp_minus_1 push_bit_eq_mult)
qed

text \<open>
  An \<open>int64_t\<close> in the i48 fixnum range survives boxing: \<open>ch_to_fixnum\<close> after
  \<open>ch_make_fixnum\<close> gives it back, and the boxed word is classified as a fixnum.
\<close>
theorem fixnum_roundtrip:
  assumes "CH_FIXNUM_MIN \<le> sint n" and "sint n \<le> CH_FIXNUM_MAX"
  shows "ch_to_fixnum (ch_make_fixnum n) = n \<and> ch_is_fixnum (ch_make_fixnum n)"
  using assms by (simp add: ch_to_make_fixnum signed_take_bit_47_self value_simps)

theorem fixnum_roundtrip_witness:
  "ch_to_fixnum (ch_make_fixnum (- 42)) = - 42 \<and> ch_is_fixnum (ch_make_fixnum (- 42))"
  by (rule fixnum_roundtrip) (simp_all add: CH_FIXNUM_MIN_def CH_FIXNUM_MAX_def)

text \<open>
  C27. No two value classes overlap: every word whose high half-word is not the unused
  \<open>0xFFFF\<close> is exactly one of flonum, heap pointer, fixnum and immediate, and the constructors
  land in their class (flonums even for NaN bit patterns that would collide with the boxes).
\<close>
theorem value_classes_partition:
  "(drop_bit 48 v \<noteq> 0xFFFF \<longleftrightarrow>
      ch_is_flonum v \<or> ch_is_pointer v \<or> ch_is_fixnum v \<or> ch_is_immediate v) \<and>
   \<not> (ch_is_flonum v \<and> ch_is_pointer v) \<and> \<not> (ch_is_flonum v \<and> ch_is_fixnum v) \<and>
   \<not> (ch_is_flonum v \<and> ch_is_immediate v) \<and> \<not> (ch_is_pointer v \<and> ch_is_fixnum v) \<and>
   \<not> (ch_is_pointer v \<and> ch_is_immediate v) \<and> \<not> (ch_is_fixnum v \<and> ch_is_immediate v) \<and>
   ch_is_flonum (ch_make_flonum bits) \<and> ch_is_fixnum (ch_make_fixnum n) \<and>
   ch_is_pointer (ch_make_pointer a) \<and> ch_is_char (ch_make_char c)"
proof -
  have "ch_is_flonum (ch_make_flonum bits)"
    using flonum_bits [of bits]
    by (auto simp: ch_make_flonum_def ch_is_flonum_iff CH_CANONICAL_NAN_def)
  moreover have "ch_is_char (ch_make_char c)"
  proof -
    have "unat (ch_make_char c AND CH_NANBOX_PAYLOAD) =
        256 + unat (ucast c :: u64) mod 2 ^ 21"
      by (simp only: payload_mask ch_make_char_box take_box_word char_payload_small
          unat_char_payload)
    then show ?thesis
      by (simp add: ch_is_char_def class_make Let_def word_le_nat_alt)
  qed
  moreover have "drop_bit 48 v \<noteq> 0xFFFF \<longleftrightarrow> unat (drop_bit 48 v) \<noteq> 0xFFFF"
    by (simp add: word_eq_iff_unsigned [where ?'a = nat])
  ultimately show ?thesis
    using high_word_bound [of v] class_make [unfolded ch_classes]
    by (auto simp: ch_classes ch_is_flonum_iff)
qed

end
