(* ===== verification/Chaaya_Limbs.thy ===== *)
theory Chaaya_Limbs
  imports Chaaya_Value
begin

text \<open>
  Magnitude arithmetic of \<open>src/src/bignum.c\<close>: little-endian arrays of 64-bit limbs, with the
  128-bit intermediate words of the source. A pair of a C array and its active length is the
  list of its active limbs; an index loop over the array is a recursion over the list. What a
  list stands for is \<open>limbs_val\<close>, and every operation is proved to compute on it.
\<close>

section \<open>Limb arrays\<close>

type_synonym limb = u64
type_synonym limbs = "limb list"

fun limbs_val :: "limbs \<Rightarrow> nat" where
  "limbs_val [] = 0"
| "limbs_val (x # xs) = unat x + 2 ^ 64 * limbs_val xs"

text \<open>The low and high halves of a 128-bit intermediate.\<close>

definition lo64 :: "u128 \<Rightarrow> limb" where "lo64 w = ucast w"
definition hi64 :: "u128 \<Rightarrow> u128" where "hi64 w = drop_bit 64 w"

definition normalize_limbs :: "limbs \<Rightarrow> limbs" where
  "normalize_limbs xs = rev (dropWhile (\<lambda>x. x = 0) (rev xs))"

definition fits_fixnum_mag :: "limbs \<Rightarrow> bool \<Rightarrow> bool" where
  "fits_fixnum_mag xs positive \<longleftrightarrow>
     (case xs of
        [] \<Rightarrow> True
      | [m] \<Rightarrow> if positive then m \<le> word_of_int CH_FIXNUM_MAX else m \<le> push_bit 47 1
      | _ \<Rightarrow> False)"

definition limbs_to_i64 :: "limbs \<Rightarrow> bool \<Rightarrow> u64" where
  "limbs_to_i64 xs positive =
     (case xs of [] \<Rightarrow> 0 | m # _ \<Rightarrow> if positive then m else - m)"

section \<open>Comparison\<close>

text \<open>The loop of \<open>cmp_mag\<close> runs from the top limb down.\<close>

fun cmp_from_top :: "limbs \<Rightarrow> limbs \<Rightarrow> int" where
  "cmp_from_top (x # xs) (y # ys) =
     (if x \<noteq> y then (if y < x then 1 else - 1) else cmp_from_top xs ys)"
| "cmp_from_top _ _ = 0"

definition cmp_mag :: "limbs \<Rightarrow> limbs \<Rightarrow> int" where
  "cmp_mag a b =
     (if length a \<noteq> length b then (if length b < length a then 1 else - 1)
      else cmp_from_top (rev a) (rev b))"

definition cmp_mag_shifted :: "limbs \<Rightarrow> limbs \<Rightarrow> nat \<Rightarrow> int" where
  "cmp_mag_shifted rem den s =
     (let need = length den + s
      in if length rem < need then - 1
         else if need < length rem then 1
         else cmp_mag (drop s rem) den)"

section \<open>Addition and subtraction\<close>

fun add_loop :: "limbs \<Rightarrow> limbs \<Rightarrow> u128 \<Rightarrow> limbs" where
  "add_loop [] [] carry = (if carry \<noteq> 0 then [lo64 carry] else [])"
| "add_loop (x # xs) [] carry =
     (let s = carry + ucast x in lo64 s # add_loop xs [] (hi64 s))"
| "add_loop [] (y # ys) carry =
     (let s = carry + ucast y in lo64 s # add_loop [] ys (hi64 s))"
| "add_loop (x # xs) (y # ys) carry =
     (let s = carry + ucast x + ucast y in lo64 s # add_loop xs ys (hi64 s))"

definition add_mag :: "limbs \<Rightarrow> limbs \<Rightarrow> limbs" where
  "add_mag a b = add_loop a b 0"

definition sub_step :: "limb \<Rightarrow> u128 \<Rightarrow> limb \<times> u128" where
  "sub_step x bv =
     (let av = ucast x :: u128
      in if bv \<le> av then (lo64 (av - bv), 0) else (lo64 (push_bit 64 1 + av - bv), 1))"

fun sub_loop :: "limbs \<Rightarrow> limbs \<Rightarrow> u128 \<Rightarrow> limbs" where
  "sub_loop [] _ borrow = []"
| "sub_loop (x # xs) [] borrow =
     (let (d, borrow') = sub_step x (ucast (0 :: limb) + borrow) in d # sub_loop xs [] borrow')"
| "sub_loop (x # xs) (y # ys) borrow =
     (let (d, borrow') = sub_step x (ucast y + borrow) in d # sub_loop xs ys borrow')"

definition sub_mag :: "limbs \<Rightarrow> limbs \<Rightarrow> limbs" where
  "sub_mag a b = normalize_limbs (sub_loop a b 0)"

section \<open>Multiplication\<close>

text \<open>
  One pass of the inner loop of \<open>mul_mag\<close>: \<open>r\<close> is the accumulator from index \<open>i\<close> on. The
  accumulator has \<open>al + bl\<close> limbs, so the pass never runs off its end.
\<close>

fun mul_row :: "limb \<Rightarrow> limbs \<Rightarrow> limbs \<Rightarrow> u128 \<Rightarrow> limbs" where
  "mul_row a (b # bs) (r # rs) carry =
     (let prod = ucast a * ucast b + ucast r + carry
      in lo64 prod # mul_row a bs rs (hi64 prod))"
| "mul_row a [] (r # rs) carry = (if carry \<noteq> 0 then (r + lo64 carry) # rs else r # rs)"
| "mul_row a _ [] carry = []"

fun mul_rows :: "limbs \<Rightarrow> limbs \<Rightarrow> limbs \<Rightarrow> limbs" where
  "mul_rows [] bs r = r"
| "mul_rows (a # as) bs r =
     (case mul_row a bs r 0 of [] \<Rightarrow> [] | r0 # rest \<Rightarrow> r0 # mul_rows as bs rest)"

definition mul_mag :: "limbs \<Rightarrow> limbs \<Rightarrow> limbs" where
  "mul_mag a b =
     (if a = [] \<or> b = [] then []
      else normalize_limbs (mul_rows a b (replicate (length a + length b) 0)))"

fun scalar_loop :: "limbs \<Rightarrow> limb \<Rightarrow> u128 \<Rightarrow> limbs" where
  "scalar_loop [] k carry = (if carry \<noteq> 0 then [lo64 carry] else [])"
| "scalar_loop (x # xs) k carry =
     (let p = ucast x * ucast k + carry in lo64 p # scalar_loop xs k (hi64 p))"

definition mul_mag_scalar :: "limbs \<Rightarrow> limb \<Rightarrow> limbs" where
  "mul_mag_scalar den k = normalize_limbs (scalar_loop den k 0)"

section \<open>Halves of a 128-bit word\<close>

lemma lo_hi_split [limb_simps]: "unat (lo64 w) + 2 ^ 64 * unat (hi64 w) = unat w"
  by (simp add: lo64_def hi64_def unat_ucast_u64 unat_drop_bit_u128 del: unat_drop_bit_eq)

lemma unat_lo64: "unat (lo64 w) = unat w mod 2 ^ 64"
  by (simp add: lo64_def unat_ucast_u64)

lemma unat_hi64: "unat (hi64 w) = unat w div 2 ^ 64"
  by (simp only: hi64_def unat_drop_bit_u128)

lemma unat_lo64_small: "unat w < 2 ^ 64 \<Longrightarrow> unat (lo64 w) = unat w"
  by (simp add: unat_lo64)

lemma unat_hi64_bound [simp]: "unat (hi64 w) < 18446744073709551616"
  using unat_u128_bound [of w] by (simp add: unat_hi64 div_less_iff_less_mult)

lemma lo64_zero [simp]: "lo64 0 = 0"
  by (simp add: lo64_def)

section \<open>Values of limb lists\<close>

lemma limbs_val_append: "limbs_val (xs @ ys) = limbs_val xs + 2 ^ (64 * length xs) * limbs_val ys"
  by (induction xs) (simp_all add: algebra_simps power_add)

lemma limbs_val_zeros [simp]: "limbs_val (replicate n 0) = 0"
  by (induction n) simp_all

lemma limbs_val_bound: "limbs_val xs < 2 ^ (64 * length xs)"
proof (induction xs)
  case (Cons x xs)
  have "limbs_val xs + 1 \<le> 2 ^ (64 * length xs)" using Cons by simp
  then have "2 ^ 64 * (limbs_val xs + 1) \<le> 2 ^ 64 * 2 ^ (64 * length xs)"
    by (rule mult_le_mono2)
  with unat_u64_bound [of x] show ?case by (simp add: power_add)
qed simp

definition normalized :: "limbs \<Rightarrow> bool" where
  "normalized xs \<longleftrightarrow> (xs \<noteq> [] \<longrightarrow> last xs \<noteq> 0)"

lemma normalized_Nil [simp]: "normalized []"
  by (simp add: normalized_def)

lemma normalized_normalize [simp]: "normalized (normalize_limbs xs)"
  unfolding normalized_def normalize_limbs_def
  by (metis (mono_tags, lifting) dropWhile_eq_Nil_conv hd_dropWhile last_rev rev_is_Nil_conv)

lemma normalize_split: "\<exists>n. xs = normalize_limbs xs @ replicate n 0"
proof -
  let ?zs = "takeWhile (\<lambda>x. x = 0) (rev xs)"
  have "rev xs = ?zs @ dropWhile (\<lambda>x. x = 0) (rev xs)" by simp
  then have "xs = normalize_limbs xs @ rev ?zs"
    unfolding normalize_limbs_def by (metis rev_append rev_rev_ident)
  moreover have "?zs = replicate (length ?zs) 0"
    by (metis (mono_tags, lifting) replicate_length_same set_takeWhileD)
  ultimately show ?thesis by (metis rev_replicate)
qed

lemma limbs_val_normalize [simp]: "limbs_val (normalize_limbs xs) = limbs_val xs"
proof -
  obtain n where "xs = normalize_limbs xs @ replicate n 0" using normalize_split by blast
  then have "limbs_val xs = limbs_val (normalize_limbs xs @ replicate n 0)" by simp
  then show ?thesis by (simp add: limbs_val_append)
qed

lemma normalize_normalized [simp]: "normalized xs \<Longrightarrow> normalize_limbs xs = xs"
  by (cases xs rule: rev_cases) (auto simp: normalized_def normalize_limbs_def)

lemma length_normalize: "length (normalize_limbs xs) \<le> length xs"
  using length_dropWhile_le [of "\<lambda>x. x = 0" "rev xs"] by (simp add: normalize_limbs_def)

lemma normalized_lower:
  assumes "normalized xs" "xs \<noteq> []" shows "2 ^ (64 * (length xs - 1)) \<le> limbs_val xs"
proof -
  obtain ys y where xs: "xs = ys @ [y]" using assms(2) by (cases xs rule: rev_cases) auto
  with assms have "y \<noteq> 0" by (simp add: normalized_def)
  then have "1 \<le> unat y" by (simp add: Suc_le_eq unat_gt_0)
  then have "2 ^ (64 * length ys) * 1 \<le> 2 ^ (64 * length ys) * unat y" by (rule mult_le_mono2)
  also have "\<dots> \<le> limbs_val xs" by (simp add: xs limbs_val_append)
  finally show ?thesis by (simp add: xs)
qed

lemma normalized_val_0 [simp]: "normalized xs \<Longrightarrow> limbs_val xs = 0 \<longleftrightarrow> xs = []"
  using normalized_lower [of xs] by (metis le_zero_eq limbs_val.simps(1) power_eq_0_iff zero_neq_numeral)

lemma normalized_length_less:
  assumes "normalized ys" "length xs < length ys" shows "limbs_val xs < limbs_val ys"
proof -
  have "limbs_val xs < 2 ^ (64 * length xs)" by (rule limbs_val_bound)
  also have "(2::nat) ^ (64 * length xs) \<le> 2 ^ (64 * (length ys - 1))"
    using assms(2) by (intro power_increasing) auto
  also have "\<dots> \<le> limbs_val ys" using assms by (intro normalized_lower) auto
  finally show ?thesis .
qed

section \<open>Comparison\<close>

definition cmp_nat :: "nat \<Rightarrow> nat \<Rightarrow> int" where
  "cmp_nat m n = (if n < m then 1 else if m < n then - 1 else 0)"

lemma cmp_nat_simps [simp]:
  "cmp_nat m n < 0 \<longleftrightarrow> m < n" "0 \<le> cmp_nat m n \<longleftrightarrow> n \<le> m" "cmp_nat m n = 0 \<longleftrightarrow> m = n"
  "0 < cmp_nat m n \<longleftrightarrow> n < m"
  by (auto simp: cmp_nat_def)

lemma cmp_from_top_val:
  "length a = length b \<Longrightarrow>
   cmp_from_top (rev a) (rev b) = cmp_nat (limbs_val a) (limbs_val b)"
proof (induction a arbitrary: b rule: rev_induct)
  case Nil
  then show ?case by (simp add: cmp_nat_def)
next
  case (snoc x xs)
  then obtain ys y where b: "b = ys @ [y]" and len: "length xs = length ys"
    by (cases b rule: rev_cases) auto
  let ?P = "2 ^ (64 * length ys) :: nat"
  have lt: "limbs_val xs < ?P" "limbs_val ys < ?P"
    using limbs_val_bound [of xs] limbs_val_bound [of ys] by (simp_all add: len)
  have step: "limbs_val us + ?P * m < limbs_val vs + ?P * n"
    if "m < n" "limbs_val us < ?P" for us vs m n
  proof -
    have "limbs_val us + ?P * m < ?P * (m + 1)" using that by simp
    also have "\<dots> \<le> ?P * n" using that by (intro mult_le_mono2) simp
    finally show ?thesis by simp
  qed
  consider "x = y" | "unat x < unat y" | "unat y < unat x"
    by (metis linorder_neqE_nat unsigned_word_eqI)
  then show ?case
  proof cases
    case 1
    then show ?thesis using snoc.IH [OF len]
      by (simp add: b len limbs_val_append cmp_nat_def)
  next
    case 2
    then show ?thesis using step [OF 2, of xs ys] lt
      by (auto simp: b len limbs_val_append cmp_nat_def word_less_nat_alt)
  next
    case 3
    then show ?thesis using step [OF 3, of ys xs] lt
      by (auto simp: b len limbs_val_append cmp_nat_def word_less_nat_alt)
  qed
qed

lemma cmp_mag_val:
  "normalized a \<Longrightarrow> normalized b \<Longrightarrow> cmp_mag a b = cmp_nat (limbs_val a) (limbs_val b)"
  using normalized_length_less [of a b] normalized_length_less [of b a]
  by (auto simp: cmp_mag_def cmp_from_top_val cmp_nat_def)

section \<open>The loops compute on values\<close>

lemma unat_128_add2: "unat c < 2 ^ 64 \<Longrightarrow> unat (c + ucast (x :: limb) :: u128) = unat c + unat x"
  using unat_u64_bound [of x] by (subst unat_u128_plus) simp_all

lemma unat_128_add3:
  "unat c < 2 ^ 64 \<Longrightarrow> unat (c + ucast (x :: limb) + ucast (y :: limb) :: u128) =
     unat c + unat x + unat y"
  using unat_u64_bound [of x] unat_u64_bound [of y]
  by (subst unat_u128_plus) (simp_all add: unat_128_add2)

lemma limb_product_bound: "unat (x :: limb) * unat (y :: limb) \<le> (2 ^ 64 - 1) * (2 ^ 64 - 1)"
  using unat_u64_bound [of x] unat_u64_bound [of y] by (intro mult_le_mono) simp_all

lemma unat_128_mul: "unat (ucast (x :: limb) * ucast (y :: limb) :: u128) = unat x * unat y"
  using limb_product_bound [of x y] by (subst unat_u128_times) simp_all

lemma unat_128_mul_add:
  "unat c < 2 ^ 64 \<Longrightarrow>
   unat (ucast (x :: limb) * ucast (y :: limb) + c :: u128) = unat x * unat y + unat c"
  using limb_product_bound [of x y] by (subst unat_u128_plus) (simp_all add: unat_128_mul)

lemma unat_128_mul_add2:
  "unat c < 2 ^ 64 \<Longrightarrow>
   unat (ucast (x :: limb) * ucast (y :: limb) + ucast (z :: limb) + c :: u128) =
     unat x * unat y + unat z + unat c"
  using limb_product_bound [of x y] unat_u64_bound [of z]
  by (subst unat_u128_plus; simp add: unat_128_mul_add)

lemma limbs_val_snoc_carry:
  "unat c < 2 ^ 64 \<Longrightarrow> limbs_val (if c \<noteq> 0 then [lo64 c] else []) = unat c"
  by (simp add: unat_lo64)

lemma add_loop_val:
  "unat c < 2 ^ 64 \<Longrightarrow> limbs_val (add_loop xs ys c) = limbs_val xs + limbs_val ys + unat c"
proof (induction xs ys c rule: add_loop.induct)
  case (1 c)
  then show ?case using limbs_val_snoc_carry [of c] by simp
next
  case (2 x xs c)
  then show ?case using lo_hi_split [of "c + ucast x"] by (simp add: Let_def unat_128_add2)
next
  case (3 y ys c)
  then show ?case using lo_hi_split [of "c + ucast y"] by (simp add: Let_def unat_128_add2)
next
  case (4 x xs y ys c)
  then show ?case using lo_hi_split [of "c + ucast x + ucast y"]
    by (simp add: Let_def unat_128_add3)
qed

theorem add_mag_val: "limbs_val (add_mag a b) = limbs_val a + limbs_val b"
  by (simp add: add_mag_def add_loop_val)

lemma scalar_loop_val:
  "unat c < 2 ^ 64 \<Longrightarrow> limbs_val (scalar_loop xs k c) = limbs_val xs * unat k + unat c"
proof (induction xs k c rule: scalar_loop.induct)
  case (1 k c)
  then show ?case using limbs_val_snoc_carry [of c] by simp
next
  case (2 x xs k c)
  then show ?case using lo_hi_split [of "ucast x * ucast k + c"]
    by (simp add: Let_def unat_128_mul_add add_mult_distrib add_mult_distrib2)
qed

theorem mul_mag_scalar_val: "limbs_val (mul_mag_scalar den k) = limbs_val den * unat k"
  by (simp add: mul_mag_scalar_def scalar_loop_val)

lemma mul_row_val:
  assumes "unat c < 2 ^ 64" "length bs < length r" "r ! length bs = 0"
  shows "limbs_val (mul_row a bs r c) = unat a * limbs_val bs + limbs_val r + unat c \<and>
         length (mul_row a bs r c) = length r \<and>
         drop (Suc (length bs)) (mul_row a bs r c) = drop (Suc (length bs)) r"
  using assms
proof (induction a bs r c rule: mul_row.induct)
  case (1 a b bs r rs c)
  then show ?case using lo_hi_split [of "ucast a * ucast b + ucast r + c"]
    by (simp add: Let_def unat_128_mul_add2 add_mult_distrib2)
next
  case (2 a r rs c)
  then show ?case by (simp add: unat_lo64)
qed simp

lemma mul_rows_val:
  assumes "length r = length as + length bs" "\<forall>x \<in> set (drop (length bs) r). x = 0"
  shows "limbs_val (mul_rows as bs r) = limbs_val as * limbs_val bs + limbs_val r"
  using assms
proof (induction as arbitrary: r)
  case Nil
  then show ?case by simp
next
  case (Cons a as)
  let ?m = "mul_row a bs r 0"
  have lt: "length bs < length r" using Cons.prems(1) by simp
  then have z: "r ! length bs = 0" using Cons.prems(2) by (metis Cons_nth_drop_Suc list.set_intros(1))
  note m = mul_row_val [of 0 bs r a, simplified, OF lt z]
  obtain r0 rest where r0: "?m = r0 # rest" using m lt by (cases ?m) auto
  have "drop (length bs) rest = drop (Suc (length bs)) r" using m r0 by simp
  then have "\<forall>x \<in> set (drop (length bs) rest). x = 0"
    using Cons.prems(2) set_drop_subset_set_drop [of "length bs" "Suc (length bs)" r] by auto
  moreover have "length rest = length as + length bs" using m r0 Cons.prems(1) by simp
  ultimately have "limbs_val (mul_rows as bs rest) = limbs_val as * limbs_val bs + limbs_val rest"
    by (intro Cons.IH)
  then show ?case using m r0 by (simp add: algebra_simps)
qed

theorem mul_mag_val: "limbs_val (mul_mag a b) = limbs_val a * limbs_val b"
  by (auto simp: mul_mag_def mul_rows_val)

lemma sub_step_val:
  assumes "sub_step x bv = (d, b')" "unat bv \<le> 2 ^ 64"
  shows "unat d + unat bv = unat x + 2 ^ 64 * unat b' \<and> unat b' \<le> 1"
proof (cases "bv \<le> ucast x")
  case True
  then have "unat bv \<le> unat x" by (simp add: word_le_nat_alt)
  moreover have "unat (ucast x - bv :: u128) = unat x - unat bv"
    using True by (simp add: unat_sub)
  ultimately show ?thesis using assms True unat_u64_bound [of x]
    by (auto simp: sub_step_def Let_def unat_lo64)
next
  case False
  then have lt: "unat x < unat bv" by (simp add: word_le_nat_alt)
  have e: "(push_bit 64 1 :: u128) = 18446744073709551616" by (simp add: push_bit_eq_mult)
  have p: "unat (18446744073709551616 + ucast x :: u128) = 2 ^ 64 + unat x"
    using unat_u64_bound [of x] by (subst unat_u128_plus) simp_all
  have "bv \<le> 18446744073709551616 + ucast x" using assms(2) by (simp add: word_le_nat_alt p)
  then have "unat (18446744073709551616 + ucast x - bv) = 2 ^ 64 + unat x - unat bv"
    by (simp add: unat_sub p)
  then show ?thesis using assms False lt
    by (auto simp: sub_step_def Let_def unat_lo64 e)
qed

lemma sub_loop_val:
  assumes "length ys \<le> length xs" "unat c \<le> 1" "limbs_val ys + unat c \<le> limbs_val xs"
  shows "limbs_val (sub_loop xs ys c) + limbs_val ys + unat c = limbs_val xs"
  using assms
proof (induction xs arbitrary: ys c)
  case Nil
  then show ?case by simp
next
  case (Cons x xs)
  define y ys' where "y = (if ys = [] then 0 else hd ys)" and "ys' = tl ys"
  then have ys: "limbs_val ys = unat y + 2 ^ 64 * limbs_val ys'" "length ys' \<le> length xs"
    using Cons.prems(1) by (cases ys; simp)+
  obtain d b where s: "sub_step x (ucast y + c) = (d, b)" by fastforce
  have loop: "sub_loop (x # xs) ys c = d # sub_loop xs ys' b"
    using s by (cases ys) (simp_all add: y_def ys'_def)
  have c: "unat (ucast y + c) = unat y + unat c"
    using Cons.prems(2) unat_u64_bound [of y] by (subst unat_u128_plus) simp_all
  have v: "unat d + unat (ucast y + c) = unat x + 2 ^ 64 * unat b \<and> unat b \<le> 1"
    using s by (rule sub_step_val) (use c Cons.prems(2) unat_u64_bound [of y] in simp)
  have "limbs_val ys' + unat b \<le> limbs_val xs"
    using v c ys Cons.prems(2,3) unat_u64_bound [of x] unat_u64_bound [of y] unat_u64_bound [of d]
    by simp
  then have "limbs_val (sub_loop xs ys' b) + limbs_val ys' + unat b = limbs_val xs"
    using v ys(2) by (intro Cons.IH) auto
  then show ?case using v c ys(1) by (simp add: loop)
qed

theorem sub_mag_val:
  assumes "length b \<le> length a" "limbs_val b \<le> limbs_val a"
  shows "limbs_val (sub_mag a b) = limbs_val a - limbs_val b"
  using sub_loop_val [of b a 0] assms by (simp add: sub_mag_def)

end
