(* ===== verification/Chaaya_Division.thy ===== *)
theory Chaaya_Division
  imports Chaaya_Limbs
begin

text \<open>
  Division of magnitudes, \<open>div_mag\<close> of \<open>src/src/bignum.c\<close> and its helpers: the power-of-two
  path, the single-limb path and the multi-limb long division with its per-digit binary search
  and its guard of 256 subtractions.
\<close>

section \<open>Divisors that are powers of two\<close>

text \<open>\<open>__builtin_ctzll\<close>: the number of zero bits below the lowest set bit.\<close>

definition ctzll :: "limb \<Rightarrow> nat" where
  "ctzll w = length (takeWhile Not (map (bit w) [0..<64]))"

fun pow2_loop :: "nat \<Rightarrow> bool \<Rightarrow> nat \<Rightarrow> limbs \<Rightarrow> nat option" where
  "pow2_loop i seen e [] = (if seen then Some e else None)"
| "pow2_loop i seen e (w # ws) =
     (if w = 0 then pow2_loop (Suc i) seen e ws
      else if seen \<or> w AND (w - 1) \<noteq> 0 then None
      else pow2_loop (Suc i) True ((i * 64 + ctzll w) mod 2 ^ 32) ws)"

definition mag_is_pow2 :: "limbs \<Rightarrow> nat option" where
  "mag_is_pow2 den = pow2_loop 0 False 0 den"

definition mag_shift_right_copy :: "limbs \<Rightarrow> nat \<Rightarrow> limbs" where
  "mag_shift_right_copy num bits =
     (if bits = 0 \<or> num = [] then normalize_limbs num
      else let drp = bits div 64; rbits = bits mod 64; nl = length num
           in if nl \<le> drp then []
              else normalize_limbs
                (map (\<lambda>i. let lo = num ! (i + drp);
                              hi = (if i + drp + 1 < nl then num ! (i + drp + 1) else 0)
                          in if rbits = 0 then lo
                             else drop_bit rbits lo OR push_bit (64 - rbits) hi)
                  [0..<nl - drp]))"

definition mag_mod_pow2 :: "limbs \<Rightarrow> nat \<Rightarrow> limbs" where
  "mag_mod_pow2 num bits =
     (if bits = 0 \<or> num = [] then []
      else let keep = min ((bits + 63) div 64) (length num);
               r = take keep num; rbits = bits mod 64
           in normalize_limbs
                (if rbits \<noteq> 0 \<and> 0 < keep \<and> bits < keep * 64
                 then r[keep - 1 := (r ! (keep - 1)) AND (push_bit rbits 1 - 1)] else r))"

section \<open>A single-limb divisor\<close>

text \<open>The limbs come top first, as the loop visits them; so do the quotient limbs.\<close>

fun short_div_loop :: "limbs \<Rightarrow> limb \<Rightarrow> u128 \<Rightarrow> limbs \<times> u128" where
  "short_div_loop [] d rem = ([], rem)"
| "short_div_loop (x # xs) d rem =
     (let cur = push_bit 64 rem OR ucast x;
          (q, r) = short_div_loop xs d (cur mod ucast d)
      in (lo64 (cur div ucast d) # q, r))"

definition short_div :: "limbs \<Rightarrow> limb \<Rightarrow> limbs \<times> u128" where
  "short_div num d =
     (let (q, r) = short_div_loop (rev num) d 0 in (normalize_limbs (rev q), r))"

section \<open>Long division\<close>

fun borrow_loop :: "limbs \<Rightarrow> u128 \<Rightarrow> limbs \<times> u128" where
  "borrow_loop [] borrow = ([], borrow)"
| "borrow_loop (x # xs) borrow =
     (if borrow = 0 then (x # xs, 0)
      else if borrow \<le> ucast x then ((x - lo64 borrow) # xs, 0)
      else let (r, b) = borrow_loop xs 1
           in (lo64 (push_bit 64 1 + ucast x - borrow) # r, b))"

fun sub_prod_loop :: "limbs \<Rightarrow> limbs \<Rightarrow> u128 \<Rightarrow> limbs \<times> u128" where
  "sub_prod_loop xs [] borrow = borrow_loop xs borrow"
| "sub_prod_loop [] (p # ps) borrow = ([], borrow)"
| "sub_prod_loop (x # xs) (p # ps) borrow =
     (let (d, b') = sub_step x (ucast p + borrow);
          (r, b) = sub_prod_loop xs ps b'
      in (d # r, b))"

text \<open>The C status code and the updated remainder.\<close>

definition sub_scaled_shifted :: "limbs \<Rightarrow> limbs \<Rightarrow> nat \<Rightarrow> limb \<Rightarrow> int \<times> limbs" where
  "sub_scaled_shifted rem den s k =
     (if k = 0 then (0, rem)
      else let prod = normalize_limbs (scalar_loop den k 0)
           in if cmp_mag_shifted rem prod s < 0 then (- 1, rem)
              else let (hi, borrow) = sub_prod_loop (drop s rem) prod 0;
                       rem' = take s rem @ hi
                   in if borrow \<noteq> 0 then (- 1, rem') else (0, normalize_limbs rem'))"

definition top_two :: "limbs \<Rightarrow> u128" where
  "top_two xs = (case rev xs of [] \<Rightarrow> 0 | [a] \<Rightarrow> ucast a
     | a # b # _ \<Rightarrow> push_bit 64 (ucast a) OR ucast b)"

definition estimate_quotient_digit :: "limbs \<Rightarrow> limbs \<Rightarrow> nat \<Rightarrow> limb" where
  "estimate_quotient_digit rem den s =
     (if den = [] \<or> length rem \<le> s then 1
      else let r = normalize_limbs rem
           in if length r \<le> s then 1
              else let den_top = top_two den
                   in if den_top = 0 then 1
                      else let q = top_two r div den_top
                           in if q = 0 then 1 else if ucast (- 1 :: limb) < q then - 1
                              else lo64 q)"

text \<open>
  The binary search for one digit. \<open>hi - lo + 1\<close> wraps when \<open>hi - lo\<close> is the largest
  64-bit value: then \<open>mid\<close> is \<open>lo\<close> and the loop makes no progress, so the search is a
  partial function and \<open>None\<close> is not returning.
\<close>

partial_function (option) digit_search ::
    "limbs \<Rightarrow> limbs \<Rightarrow> nat \<Rightarrow> limb \<Rightarrow> limb \<Rightarrow> limb option" where
  [code]: "digit_search rem den s lo hi =
     (if lo < hi
      then let mid = lo + (hi - lo + 1) div 2
           in if 0 \<le> cmp_mag_shifted rem (mul_mag_scalar den mid) s
              then digit_search rem den s mid hi
              else digit_search rem den s lo (mid - 1)
      else Some lo)"

text \<open>The loop over \<open>guard\<close>: at most so many subtractions for the digit at \<open>s\<close>.\<close>

fun guard_loop :: "nat \<Rightarrow> limbs \<Rightarrow> limbs \<Rightarrow> nat \<Rightarrow> limb \<Rightarrow> (limbs \<times> limb) option" where
  "guard_loop 0 rem den s q = Some (rem, q)"
| "guard_loop (Suc n) rem den s q =
     (if cmp_mag_shifted rem den s < 0 then Some (rem, q)
      else case digit_search rem den s 0 (estimate_quotient_digit rem den s) of
             None \<Rightarrow> None
           | Some lo \<Rightarrow>
               if lo = 0 then Some (rem, q)
               else (case sub_scaled_shifted rem den s lo of (st, rem') \<Rightarrow>
                       if st \<noteq> 0 then Some (rem', q)
                       else guard_loop n rem' den s (q + lo)))"

fun long_div_loop :: "nat \<Rightarrow> limbs \<Rightarrow> limbs \<Rightarrow> limbs \<Rightarrow> (limbs \<times> limbs) option" where
  "long_div_loop 0 rem den q = Some (rem, q)"
| "long_div_loop (Suc s) rem den q =
     (case guard_loop 256 rem den s (q ! s) of
        None \<Rightarrow> None
      | Some (rem', d) \<Rightarrow> long_div_loop s rem' den (q[s := d]))"

text \<open>
  \<open>div_mag\<close>: the outer \<open>None\<close> is not returning, the inner one the status \<open>-1\<close> of a zero
  divisor, else quotient and remainder.
\<close>

definition div_mag :: "limbs \<Rightarrow> limbs \<Rightarrow> (limbs \<times> limbs) option option" where
  "div_mag num den =
     (if den = [] then Some None
      else case mag_is_pow2 den of
        Some e \<Rightarrow> Some (Some (mag_shift_right_copy num e, mag_mod_pow2 num e))
      | None \<Rightarrow>
          if cmp_mag num den < 0 then Some (Some ([], num))
          else if length den = 1
            then (let (q, r) = short_div num (den ! 0)
                  in Some (Some (q, if r = 0 then [] else [lo64 r])))
            else (let max_q = length num - length den + 1
                  in case long_div_loop max_q num den (replicate max_q 0) of
                       None \<Rightarrow> None
                     | Some (rem, q) \<Rightarrow> Some (Some (normalize_limbs q, normalize_limbs rem))))"

section \<open>Shifted values\<close>

lemma limbs_val_take_drop:
  "s \<le> length xs \<Longrightarrow> limbs_val xs = limbs_val (take s xs) + 2 ^ (64 * s) * limbs_val (drop s xs)"
  using limbs_val_append [of "take s xs" "drop s xs"] by simp

lemma limbs_val_drop: "limbs_val (drop s xs) = limbs_val xs div 2 ^ (64 * s)"
proof (cases "s \<le> length xs")
  case True
  then show ?thesis
    using limbs_val_take_drop [OF True] limbs_val_bound [of "take s xs"] by simp
next
  case False
  then have "(2::nat) ^ (64 * length xs) \<le> 2 ^ (64 * s)" by (intro power_increasing) auto
  with limbs_val_bound [of xs] have "limbs_val xs < 2 ^ (64 * s)" by (rule less_le_trans)
  with False show ?thesis by simp
qed

lemma normalized_val_pos: "normalized xs \<Longrightarrow> xs \<noteq> [] \<Longrightarrow> 0 < limbs_val xs"
  by (metis gr0I normalized_val_0)

lemma normalized_drop: "normalized xs \<Longrightarrow> normalized (drop s xs)"
  by (auto simp: normalized_def)

lemma normalized_mul_scalar [simp]: "normalized (mul_mag_scalar den k)"
  by (simp add: mul_mag_scalar_def)

lemma normalized_shift_length:
  assumes "normalized den" "den \<noteq> []" "length rem < length den + s"
  shows "limbs_val rem < limbs_val den * 2 ^ (64 * s)"
proof -
  have "limbs_val rem < 2 ^ (64 * length rem)" by (rule limbs_val_bound)
  also have "(2::nat) ^ (64 * length rem) \<le> 2 ^ (64 * (length den - 1) + 64 * s)"
    using assms by (intro power_increasing) auto
  also have "\<dots> = 2 ^ (64 * (length den - 1)) * 2 ^ (64 * s)" by (simp add: power_add)
  also have "\<dots> \<le> limbs_val den * 2 ^ (64 * s)"
    using normalized_lower [OF assms(1,2)] by (rule mult_le_mono1)
  finally show ?thesis .
qed

lemma normalized_shift_length':
  assumes "normalized rem" "length den + s < length rem"
  shows "limbs_val den * 2 ^ (64 * s) < limbs_val rem"
proof -
  have "limbs_val den * 2 ^ (64 * s) < 2 ^ (64 * length den) * 2 ^ (64 * s)"
    using limbs_val_bound [of den] by simp
  also have "\<dots> = 2 ^ (64 * length den + 64 * s)" by (simp add: power_add)
  also have "\<dots> \<le> 2 ^ (64 * (length rem - 1))" using assms(2) by (intro power_increasing) auto
  also have "\<dots> \<le> limbs_val rem" using assms by (intro normalized_lower) auto
  finally show ?thesis .
qed

lemma cmp_mag_shifted_nonneg:
  assumes "normalized rem" "normalized den" "den \<noteq> []"
  shows "0 \<le> cmp_mag_shifted rem den s \<longleftrightarrow> limbs_val den * 2 ^ (64 * s) \<le> limbs_val rem"
proof -
  consider "length rem < length den + s" | "length den + s < length rem"
    | "length rem = length den + s" by linarith
  then show ?thesis
  proof cases
    case 1
    then show ?thesis using normalized_shift_length [OF assms(2,3) 1]
      by (simp add: cmp_mag_shifted_def)
  next
    case 2
    then show ?thesis using normalized_shift_length' [OF assms(1) 2]
      by (simp add: cmp_mag_shifted_def)
  next
    case 3
    have "0 \<le> cmp_mag_shifted rem den s \<longleftrightarrow> limbs_val den \<le> limbs_val (drop s rem)"
      using 3 assms by (simp add: cmp_mag_shifted_def cmp_mag_val normalized_drop)
    then show ?thesis by (simp add: limbs_val_drop less_eq_div_iff_mult_less_eq)
  qed
qed

lemma cmp_mag_shifted_neg:
  assumes "normalized rem" "normalized den" "den \<noteq> []"
  shows "cmp_mag_shifted rem den s < 0 \<longleftrightarrow> limbs_val rem < limbs_val den * 2 ^ (64 * s)"
  using cmp_mag_shifted_nonneg [OF assms, of s] by linarith

section \<open>The digit search\<close>

lemma mul_scalar_nonempty:
  "normalized den \<Longrightarrow> den \<noteq> [] \<Longrightarrow> k \<noteq> 0 \<Longrightarrow> mul_mag_scalar den k \<noteq> []"
  using normalized_val_0 [of "mul_mag_scalar den k"]
  by (simp add: mul_mag_scalar_val unat_eq_zero) 

lemma search_mid:
  fixes lo hi :: limb
  assumes "lo < hi" "unat hi - unat lo < 2 ^ 64 - 1"
  shows "unat (lo + (hi - lo + 1) div 2) = unat lo + (unat hi - unat lo + 1) div 2"
proof -
  have lt: "unat lo < unat hi" using assms(1) by (simp add: word_less_nat_alt)
  have d: "unat (hi - lo) = unat hi - unat lo" using assms(1) by (simp add: unat_sub)
  have "unat (hi - lo + 1) = unat hi - unat lo + 1"
    using assms(2) by (simp add: unat_word_ariths d)
  then have "unat ((hi - lo + 1) div 2) = (unat hi - unat lo + 1) div 2"
    by (simp add: unat_div)
  then show ?thesis
    using lt unat_u64_bound [of hi] by (simp add: unat_word_ariths)
qed

lemma digit_search_spec:
  assumes "normalized rem" "normalized den" "den \<noteq> []"
    and "unat lo \<le> limbs_val rem div (limbs_val den * 2 ^ (64 * s))"
    and "lo \<le> hi" "unat hi - unat lo < 2 ^ 64 - 1"
  shows "\<exists>r. digit_search rem den s lo hi = Some r \<and>
    unat r = min (unat hi) (limbs_val rem div (limbs_val den * 2 ^ (64 * s)))"
  using assms(4-)
proof (induction "unat hi - unat lo" arbitrary: lo hi rule: less_induct)
  case less
  let ?Q = "limbs_val rem div (limbs_val den * 2 ^ (64 * s))"
  show ?case
  proof (cases "lo < hi")
    case False
    then have "lo = hi" using less.prems(2) by simp
    then show ?thesis using less.prems(1) by (simp add: digit_search.simps min_absorb1)
  next
    case True
    define mid where "mid = lo + (hi - lo + 1) div 2"
    have lt: "unat lo < unat hi" using True by (simp add: word_less_nat_alt)
    have m: "unat mid = unat lo + (unat hi - unat lo + 1) div 2"
      unfolding mid_def using True less.prems(3) by (rule search_mid)
    have mlo: "unat lo < unat mid" and mhi: "unat mid \<le> unat hi" using m lt by auto
    have "limbs_val den * 2 ^ (64 * s) > 0"
      using normalized_val_pos [OF assms(2,3)] by simp
    have ok: "0 \<le> cmp_mag_shifted rem (mul_mag_scalar den mid) s \<longleftrightarrow> unat mid \<le> ?Q"
    proof -
      have "mid \<noteq> 0" using mlo by auto
      then have "0 \<le> cmp_mag_shifted rem (mul_mag_scalar den mid) s \<longleftrightarrow>
          limbs_val den * unat mid * 2 ^ (64 * s) \<le> limbs_val rem"
        using assms(1-3) cmp_mag_shifted_nonneg mul_scalar_nonempty
        by (simp add: mul_mag_scalar_val)
      also have "\<dots> \<longleftrightarrow> unat mid \<le> ?Q"
        using \<open>limbs_val den * 2 ^ (64 * s) > 0\<close>
        by (simp add: less_eq_div_iff_mult_less_eq ac_simps)
      finally show ?thesis .
    qed
    show ?thesis
    proof (cases "unat mid \<le> ?Q")
      case le: True
      have "\<exists>r. digit_search rem den s mid hi = Some r \<and> unat r = min (unat hi) ?Q"
        using le mlo mhi less.prems lt by (intro less.hyps) (auto simp: word_le_nat_alt)
      then show ?thesis using True ok le
        by (subst digit_search.simps) (simp add: Let_def flip: mid_def)
    next
      case nle: False
      have m1: "unat (mid - 1) = unat mid - 1"
        using mlo by (simp add: unat_sub word_le_nat_alt)
      have "\<exists>r. digit_search rem den s lo (mid - 1) = Some r \<and> unat r = min (unat (mid - 1)) ?Q"
        using mlo mhi less.prems lt by (intro less.hyps) (auto simp: word_le_nat_alt m1)
      then show ?thesis using True ok nle m1 mhi
        by (subst digit_search.simps) (auto simp add: Let_def simp flip: mid_def)
    qed
  qed
qed
section \<open>Subtracting a scaled divisor\<close>

lemma borrow_loop_val:
  assumes "unat c \<le> 1" "unat c \<le> limbs_val xs" "borrow_loop xs c = (r, b)"
  shows "b = 0 \<and> limbs_val r + unat c = limbs_val xs \<and> length r = length xs"
  using assms
proof (induction xs arbitrary: c r b)
  case Nil
  then show ?case by (simp add: unat_eq_zero)
next
  case (Cons x xs)
  consider "c = 0" | "c \<noteq> 0" "c \<le> ucast x" | "c \<noteq> 0" "\<not> c \<le> ucast x" by blast
  then show ?case
  proof cases
    case 1
    then show ?thesis using Cons.prems by simp
  next
    case 2
    then have "unat c \<le> unat x" by (simp add: word_le_nat_alt)
    moreover have "unat (lo64 c) = unat c" using Cons.prems(1) by (simp add: unat_lo64)
    ultimately have "unat (x - lo64 c) = unat x - unat c"
      by (subst unat_sub) (simp_all add: word_le_nat_alt)
    then show ?thesis using 2 Cons.prems \<open>unat c \<le> unat x\<close> by auto
  next
    case 3
    then have "unat x < unat c" by (simp add: word_le_nat_alt)
    then have x: "unat x = 0" and c: "unat c = 1" using Cons.prems(1) by simp_all
    then have xc: "x = 0" "c = 1" by (simp_all add: unat_eq_zero unsigned_word_eqI [where ?'a = nat])
    obtain r' b' where l: "borrow_loop xs 1 = (r', b')" by fastforce
    have "1 \<le> limbs_val xs" using Cons.prems(2) x c by simp
    then have IH: "b' = 0" "limbs_val r' + 1 = limbs_val xs" "length r' = length xs"
      using Cons.IH [of 1 r' b'] l by simp_all
    have "unat (lo64 (push_bit 64 1 + ucast x - c)) = 2 ^ 64 - 1"
      by (simp add: xc unat_lo64 push_bit_eq_mult)
    then show ?thesis using 3 Cons.prems l IH xc by auto
  qed
qed

lemma sub_prod_loop_val:
  assumes "length ps \<le> length xs" "unat c \<le> 1" "limbs_val ps + unat c \<le> limbs_val xs"
    and "sub_prod_loop xs ps c = (r, b)"
  shows "b = 0 \<and> limbs_val r + limbs_val ps + unat c = limbs_val xs \<and> length r = length xs"
  using assms
proof (induction ps arbitrary: xs c r b)
  case Nil
  then show ?case using borrow_loop_val [of c xs r b] by (cases xs) simp_all
next
  case (Cons p ps)
  obtain x xs' where xs: "xs = x # xs'" using Cons.prems(1) by (cases xs) auto
  obtain d c' where s: "sub_step x (ucast p + c) = (d, c')" by fastforce
  obtain r' b' where l: "sub_prod_loop xs' ps c' = (r', b')" by fastforce
  have c: "unat (ucast p + c) = unat p + unat c"
    using Cons.prems(2) unat_u64_bound [of p] by (subst unat_u128_plus) simp_all
  have v: "unat d + unat (ucast p + c) = unat x + 2 ^ 64 * unat c' \<and> unat c' \<le> 1"
    using s by (rule sub_step_val) (use c Cons.prems(2) unat_u64_bound [of p] in simp)
  have "limbs_val ps + unat c' \<le> limbs_val xs'"
    using v c Cons.prems(2,3) unat_u64_bound [of x] unat_u64_bound [of p] unat_u64_bound [of d]
    by (simp add: xs)
  then have "b' = 0 \<and> limbs_val r' + limbs_val ps + unat c' = limbs_val xs' \<and>
      length r' = length xs'"
    using v Cons.prems(1) l by (intro Cons.IH [of xs' c']) (auto simp: xs)
  then show ?case using v c s l Cons.prems(4) by (auto simp: xs)
qed

lemma sub_scaled_shifted_spec:
  assumes "normalized rem" "normalized den" "den \<noteq> []" "k \<noteq> 0"
    and "limbs_val den * unat k * 2 ^ (64 * s) \<le> limbs_val rem"
  shows "\<exists>rem'. sub_scaled_shifted rem den s k = (0, rem') \<and> normalized rem' \<and>
    limbs_val rem' = limbs_val rem - limbs_val den * unat k * 2 ^ (64 * s)"
proof -
  define prod where "prod = mul_mag_scalar den k"
  have pv: "limbs_val prod = limbs_val den * unat k" by (simp add: prod_def mul_mag_scalar_val)
  have pn: "normalized prod" "prod \<noteq> []"
    using assms by (simp_all add: prod_def mul_scalar_nonempty)
  have ge: "0 \<le> cmp_mag_shifted rem prod s"
    using assms pn by (simp add: cmp_mag_shifted_nonneg pv)
  then have len: "length prod + s \<le> length rem"
    by (auto simp: cmp_mag_shifted_def Let_def split: if_splits)
  obtain hi b where l: "sub_prod_loop (drop s rem) prod 0 = (hi, b)" by fastforce
  have "limbs_val prod \<le> limbs_val (drop s rem)"
    using assms(5) by (simp add: limbs_val_drop less_eq_div_iff_mult_less_eq pv)
  then have h: "b = 0" "limbs_val hi + limbs_val prod = limbs_val (drop s rem)"
    using sub_prod_loop_val [OF _ _ _ l] len by simp_all
  let ?rem' = "normalize_limbs (take s rem @ hi)"
  have "sub_scaled_shifted rem den s k = (0, ?rem')"
    using assms(4) ge l h(1)
    by (simp add: sub_scaled_shifted_def flip: mul_mag_scalar_def prod_def)
  moreover have "limbs_val ?rem' + limbs_val prod * 2 ^ (64 * s) = limbs_val rem"
  proof -
    have "limbs_val rem = limbs_val (take s rem) + 2 ^ (64 * s) * limbs_val (drop s rem)"
      using len by (intro limbs_val_take_drop) simp
    also have "limbs_val (drop s rem) = limbs_val hi + limbs_val prod" using h(2) by simp
    finally show ?thesis using len
      by (simp add: limbs_val_append min_absorb1 algebra_simps)
  qed
  ultimately show ?thesis by (auto simp: pv)
qed

section \<open>The digit estimate\<close>

lemma or_shift_value:
  "unat (r :: u128) < 2 ^ 64 \<Longrightarrow> unat (push_bit 64 r OR ucast (x :: limb)) = unat r * 2 ^ 64 + unat x"
proof -
  assume r: "unat r < 2 ^ 64"
  have "push_bit 64 r OR ucast x = push_bit 64 r + (ucast x :: u128)"
  proof (rule disjunctive_add [symmetric])
    fix n show "\<not> bit (push_bit 64 r) n \<or> \<not> bit (ucast x :: u128) n"
      by (auto simp: bit_simps dest: bit_imp_le_length)
  qed
  moreover have "unat (push_bit 64 r) = unat r * 2 ^ 64"
    using r by (simp add: push_bit_eq_mult unat_word_ariths)
  ultimately show ?thesis
    using r unat_u64_bound [of x] by (simp add: unat_u128_plus)
qed

lemma top_two_val:
  assumes "2 \<le> length xs"
  shows "unat (top_two xs) = limbs_val xs div 2 ^ (64 * (length xs - 2))"
proof -
  obtain ys b a where xs: "xs = ys @ [b, a]"
    using assms by (metis One_nat_def Suc_1 append.assoc append_Cons append_Nil length_0_conv
        length_append_singleton not_less_eq_eq rev_exhaust zero_le le_zero_eq)
  have "unat (top_two xs) = unat a * 2 ^ 64 + unat b"
    using unat_u64_bound [of a] by (simp add: xs top_two_def or_shift_value)
  also have "\<dots> = limbs_val (drop (length ys) xs)" by (simp add: xs)
  also have "\<dots> = limbs_val xs div 2 ^ (64 * length ys)" by (rule limbs_val_drop)
  also have "length ys = length xs - 2" by (simp add: xs)
  finally show ?thesis .
qed
lemma estimate_nonzero: "estimate_quotient_digit rem den s \<noteq> 0"
proof -
  have "lo64 q \<noteq> 0" if "q \<noteq> 0" "\<not> ucast (- 1 :: limb) < q" for q :: u128
  proof -
    have "unat q \<le> unat (ucast (- 1 :: limb) :: u128)"
      using that(2) by (simp add: word_less_nat_alt)
    also have "\<dots> = 2 ^ 64 - 1" by simp
    finally have "unat (lo64 q) = unat q" by (simp add: unat_lo64)
    then show ?thesis using that(1) by (metis unat_eq_zero unsigned_0)
  qed
  then show ?thesis by (simp add: estimate_quotient_digit_def Let_def)
qed

lemma digit_search_stuck:
  assumes "s < length rem" shows "digit_search rem den s 0 (- 1) = None"
proof (rule ccontr)
  assume "digit_search rem den s 0 (- 1) \<noteq> None"
  then obtain r where "digit_search rem den s 0 (- 1) = Some r" by auto
  moreover have "digit_search rem den s 0 (- 1) = Some r \<Longrightarrow> False" for r
  proof -
    have "rem' = rem \<and> s' = s \<longrightarrow> \<not> (lo = 0 \<and> hi = - 1)"
      if "digit_search rem' den' s' lo hi = Some r" for rem' den' s' lo hi r
    proof (rule digit_search.raw_induct
        [where P = "\<lambda>rem' den' s' lo hi r. rem' = rem \<and> s' = s \<longrightarrow> \<not> (lo = 0 \<and> hi = - 1)", OF _ that])
      fix f rem' den' s' lo hi r
      assume IH: "\<And>rem' den' s' lo hi r. f rem' den' s' lo hi = Some r \<Longrightarrow>
          rem' = rem \<and> s' = s \<longrightarrow> \<not> (lo = 0 \<and> hi = - 1)"
        and step: "(if lo < hi
          then let mid = lo + (hi - lo + 1) div 2
               in if 0 \<le> cmp_mag_shifted rem' (mul_mag_scalar den' mid) s'
                  then f rem' den' s' mid hi else f rem' den' s' lo (mid - 1)
          else Some lo) = Some r"
      show "rem' = rem \<and> s' = s \<longrightarrow> \<not> (lo = 0 \<and> hi = - 1)"
      proof (intro impI notI)
        assume a: "rem' = rem \<and> s' = s" and b: "lo = 0 \<and> hi = - 1"
        have "mul_mag_scalar den' 0 = []"
          using normalized_val_0 [of "mul_mag_scalar den' 0"] by (simp add: mul_mag_scalar_val)
        then have "0 \<le> cmp_mag_shifted rem (mul_mag_scalar den' 0) s"
          using assms by (simp add: cmp_mag_shifted_def)
        then have "f rem den' s 0 (- 1) = Some r" using step a b by (simp add: word_less_nat_alt)
        then show False using IH by blast
      qed
    qed
    then show "digit_search rem den s 0 (- 1) = Some r \<Longrightarrow> False" by blast
  qed
  ultimately show False by blast
qed

lemma digit_search_result:
  assumes "normalized rem" "normalized den" "den \<noteq> []"
    and "limbs_val den * 2 ^ (64 * s) \<le> limbs_val rem"
    and "digit_search rem den s 0 hi = Some lo"
  shows "unat lo = min (unat hi) (limbs_val rem div (limbs_val den * 2 ^ (64 * s)))"
proof -
  have "0 \<le> cmp_mag_shifted rem den s" using assms by (simp add: cmp_mag_shifted_nonneg)
  then have "length den + s \<le> length rem" by (simp add: cmp_mag_shifted_def Let_def split: if_splits)
  then have "s < length rem" using assms(3) by (cases den) auto
  then have "hi \<noteq> - 1" using assms(5) digit_search_stuck [of s rem den] by auto
  moreover have "unat hi \<le> 2 ^ 64 - 1" using unat_u64_bound [of hi] by simp
  ultimately have "unat hi < 2 ^ 64 - 1"
    using unsigned_word_eqI [of hi "- 1", where ?'a = nat] by fastforce
  then show ?thesis using digit_search_spec [OF assms(1-3), of 0 s hi] assms(5) by auto
qed
text \<open>The divisor as it stands at digit \<open>s\<close>.\<close>

definition scaled :: "limbs \<Rightarrow> nat \<Rightarrow> nat" where
  "scaled den s = limbs_val den * 2 ^ (64 * s)"

lemma scaled_pos: "normalized den \<Longrightarrow> den \<noteq> [] \<Longrightarrow> 0 < scaled den s"
  by (simp add: scaled_def normalized_val_pos)

lemma estimate_upper:
  assumes "normalized rem" "normalized den" "2 \<le> length den" "length rem = length den + s"
  shows "limbs_val rem div scaled den s \<le> unat (estimate_quotient_digit rem den s)"
proof -
  let ?Q = "limbs_val rem div scaled den s"
  have dn: "den \<noteq> []" using assms(3) by auto
  have "unat (top_two den) * 2 ^ (64 * (length den - 2)) \<le> limbs_val den"
    by (simp add: top_two_val [OF assms(3)])
  then have "?Q * (unat (top_two den) * 2 ^ (64 * (length den - 2))) * 2 ^ (64 * s)
      \<le> ?Q * limbs_val den * 2 ^ (64 * s)"
    by (intro mult_le_mono) simp_all
  also have "\<dots> = ?Q * scaled den s" by (simp add: scaled_def)
  also have "\<dots> \<le> limbs_val rem" by simp
  finally have le0: "?Q * (unat (top_two den) * 2 ^ (64 * (length den - 2))) * 2 ^ (64 * s)
      \<le> limbs_val rem" .
  have "?Q * unat (top_two den) * 2 ^ (64 * (length rem - 2)) \<le> limbs_val rem"
  proof -
    have "64 * (length rem - 2) = 64 * (length den - 2) + 64 * s" using assms(3,4) by simp
    then show ?thesis using le0 by (simp add: power_add ac_simps)
  qed
  then have le: "?Q * unat (top_two den) \<le> unat (top_two rem)"
    using assms(3,4) by (simp add: top_two_val less_eq_div_iff_mult_less_eq)
  have "0 < unat (top_two den)"
  proof -
    have "(2::nat) ^ (64 * (length den - 2)) \<le> 2 ^ (64 * (length den - 1))"
      by (intro power_increasing) auto
    also have "\<dots> \<le> limbs_val den" using assms(2) dn by (rule normalized_lower)
    finally show ?thesis using assms(3) by (simp add: top_two_val div_greater_zero_iff)
  qed
  then have nz: "top_two den \<noteq> 0" by auto
  let ?q = "top_two rem div top_two den"
  have q: "?Q \<le> unat ?q"
    using le \<open>0 < unat (top_two den)\<close> by (simp add: unat_div less_eq_div_iff_mult_less_eq)
  have "?Q < 2 ^ 64"
  proof -
    have "limbs_val rem < 2 ^ (64 * length rem)" by (rule limbs_val_bound)
    also have "64 * length rem = 64 + (64 * (length den - 1) + 64 * s)" using assms(3,4) by simp
    also have "(2::nat) ^ \<dots> = 2 ^ 64 * (2 ^ (64 * (length den - 1)) * 2 ^ (64 * s))"
      by (simp only: power_add)
    also have "\<dots> \<le> 2 ^ 64 * scaled den s"
      unfolding scaled_def using normalized_lower [OF assms(2) dn] by (intro mult_le_mono) simp_all
    finally show ?thesis using scaled_pos [OF assms(2) dn] by (simp add: div_less_iff_less_mult)
  qed
  moreover have "unat (lo64 ?q) = unat ?q" if "\<not> ucast (- 1 :: limb) < ?q"
    using that by (simp add: word_less_nat_alt unat_lo64)
  ultimately show ?thesis
    using q assms dn nz by (auto simp: estimate_quotient_digit_def Let_def unat_div)
qed

lemma estimate_not_max:
  assumes "normalized rem" "2 ^ 64 + 1 < unat (top_two den)"
  shows "estimate_quotient_digit rem den s \<noteq> - 1"
proof
  assume e: "estimate_quotient_digit rem den s = - 1"
  let ?q = "top_two rem div top_two den"
  have "unat ?q < 2 ^ 64 - 1"
  proof -
    have "unat (top_two rem) < (2 ^ 64 - 1) * (2 ^ 64 + 2)"
      using unat_u128_bound [of "top_two rem"] by simp
    also have "\<dots> \<le> (2 ^ 64 - 1) * unat (top_two den)"
      using assms(2) by (intro mult_le_mono) simp_all
    finally show ?thesis
      using assms(2) by (simp add: unat_div div_less_iff_less_mult)
  qed
  moreover have "lo64 ?q = - 1 \<Longrightarrow> unat ?q mod 2 ^ 64 = 2 ^ 64 - 1"
    by (drule arg_cong [where f = unat]) (simp add: unat_lo64)
  ultimately show False
    using e assms(1) by (auto simp: estimate_quotient_digit_def Let_def word_less_nat_alt split: if_splits)
qed
section \<open>One digit\<close>

lemma guard_loop_done:
  "normalized rem \<Longrightarrow> normalized den \<Longrightarrow> den \<noteq> [] \<Longrightarrow> limbs_val rem < scaled den s \<Longrightarrow>
   guard_loop n rem den s q = Some (rem, q)"
  by (cases n) (simp_all add: cmp_mag_shifted_neg scaled_def)

lemma guard_loop_step:
  assumes "normalized rem" "normalized den" "den \<noteq> []" "scaled den s \<le> limbs_val rem"
    and "digit_search rem den s 0 (estimate_quotient_digit rem den s) = Some lo"
  shows "\<exists>rem'. guard_loop (Suc n) rem den s q = guard_loop n rem' den s (q + lo) \<and>
    normalized rem' \<and> limbs_val rem' = limbs_val rem - unat lo * scaled den s \<and>
    unat lo * scaled den s \<le> limbs_val rem \<and> 0 < unat lo \<and>
    unat lo = min (unat (estimate_quotient_digit rem den s)) (limbs_val rem div scaled den s)"
proof -
  let ?e = "estimate_quotient_digit rem den s"
  have lo: "unat lo = min (unat ?e) (limbs_val rem div scaled den s)"
    using digit_search_result [OF assms(1-3) _ assms(5)] assms(4) by (simp add: scaled_def)
  have "0 < limbs_val rem div scaled den s"
    using assms(4) scaled_pos [OF assms(2,3)] by (simp add: div_greater_zero_iff)
  moreover have "0 < unat ?e" using estimate_nonzero [of rem den s] by (simp add: unat_gt_0)
  ultimately have pos: "0 < unat lo" using lo by simp
  then have nz: "lo \<noteq> 0" by auto
  have le: "unat lo * scaled den s \<le> limbs_val rem"
    using lo scaled_pos [OF assms(2,3), of s]
    by (metis less_eq_div_iff_mult_less_eq min.cobounded2)
  obtain rem' where r: "sub_scaled_shifted rem den s lo = (0, rem')" "normalized rem'"
      "limbs_val rem' = limbs_val rem - limbs_val den * unat lo * 2 ^ (64 * s)"
    using sub_scaled_shifted_spec [OF assms(1-3) nz, of s] le by (auto simp: scaled_def ac_simps)
  have "\<not> cmp_mag_shifted rem den s < 0"
    using assms(1-4) by (simp add: cmp_mag_shifted_neg scaled_def)
  then have "guard_loop (Suc n) rem den s q = guard_loop n rem' den s (q + lo)"
    using assms(5) nz r(1) by simp
  then show ?thesis using r lo le pos by (auto simp: scaled_def ac_simps)
qed

lemma guard_loop_result:
  assumes "normalized rem" "normalized den" "den \<noteq> []"
    and "guard_loop n rem den s q = Some (rem', q')"
  shows "normalized rem' \<and> (\<exists>k. limbs_val rem = limbs_val rem' + k * scaled den s \<and>
    (0 < n \<and> scaled den s \<le> limbs_val rem \<longrightarrow> 0 < k))"
  using assms
proof (induction n arbitrary: rem q)
  case 0
  then show ?case by simp
next
  case (Suc n)
  show ?case
  proof (cases "limbs_val rem < scaled den s")
    case True
    then show ?thesis using Suc.prems guard_loop_done [OF Suc.prems(1-3) True, of "Suc n" q]
      by (auto intro: exI [of _ 0])
  next
    case False
    then have "\<not> cmp_mag_shifted rem den s < 0"
      using Suc.prems by (simp add: cmp_mag_shifted_neg scaled_def)
    then obtain lo where "digit_search rem den s 0 (estimate_quotient_digit rem den s) = Some lo"
      using Suc.prems(4) by (auto split: option.splits)
    from guard_loop_step [OF Suc.prems(1-3) _ this, of n q] False obtain rem1 where
      r1: "guard_loop (Suc n) rem den s q = guard_loop n rem1 den s (q + lo)" "normalized rem1"
        "limbs_val rem1 = limbs_val rem - unat lo * scaled den s"
        "unat lo * scaled den s \<le> limbs_val rem" "0 < unat lo"
      by auto
    obtain k where "normalized rem'" "limbs_val rem1 = limbs_val rem' + k * scaled den s"
      using Suc.IH [OF r1(2) Suc.prems(2,3)] Suc.prems(4) r1(1) by auto
    then show ?thesis using r1(3-5)
      by (auto intro!: exI [of _ "k + unat lo"] simp: add_mult_distrib)
  qed
qed

text \<open>Where remainder and scaled divisor line up, one search finds the whole digit.\<close>

lemma guard_loop_aligned:
  assumes "normalized rem" "normalized den" "2 \<le> length den" "length rem \<le> length den + s"
    and "guard_loop (Suc n) rem den s q = Some (rem', q')"
  shows "normalized rem' \<and> limbs_val rem' = limbs_val rem mod scaled den s \<and>
    q' = q + of_nat (limbs_val rem div scaled den s) \<and>
    limbs_val rem div scaled den s < 2 ^ 64"
proof (cases "limbs_val rem < scaled den s")
  case True
  have "den \<noteq> []" using assms(3) by auto
  then show ?thesis using True assms guard_loop_done [OF assms(1,2) _ True, of "Suc n" q] by simp
next
  case False
  have dn: "den \<noteq> []" using assms(3) by auto
  have "\<not> length rem < length den + s"
    using normalized_shift_length [OF assms(2) dn] False by (auto simp: scaled_def)
  then have len: "length rem = length den + s" using assms(4) by simp
  have "\<not> cmp_mag_shifted rem den s < 0"
    using False assms dn by (simp add: cmp_mag_shifted_neg scaled_def)
  then obtain lo where lo: "digit_search rem den s 0 (estimate_quotient_digit rem den s) = Some lo"
    using assms(5) by (auto split: option.splits)
  from guard_loop_step [OF assms(1,2) dn _ lo, of n q] False obtain rem1 where
    r1: "guard_loop (Suc n) rem den s q = guard_loop n rem1 den s (q + lo)" "normalized rem1"
      "limbs_val rem1 = limbs_val rem - unat lo * scaled den s"
      "unat lo = min (unat (estimate_quotient_digit rem den s)) (limbs_val rem div scaled den s)"
    by auto
  then have u: "unat lo = limbs_val rem div scaled den s"
    using estimate_upper [OF assms(1-3) len] by simp
  then have v: "limbs_val rem1 = limbs_val rem mod scaled den s"
    using r1(3) by (simp add: minus_div_mult_eq_mod)
  then have "limbs_val rem1 < scaled den s" using scaled_pos [OF assms(2) dn] by simp
  from guard_loop_done [OF r1(2) assms(2) dn this, of n "q + lo"]
  have "rem' = rem1 \<and> q' = q + lo" using assms(5) r1(1) by simp
  moreover have "lo = of_nat (limbs_val rem div scaled den s)"
    by (simp flip: u)
  moreover have "limbs_val rem div scaled den s < 2 ^ 64"
    using unat_u64_bound [of lo] by (simp add: u)
  ultimately show ?thesis using r1(2) v by simp
qed

lemma guard_loop_returns:
  assumes "normalized rem" "normalized den" "den \<noteq> []" "2 ^ 64 + 1 < unat (top_two den)"
  shows "guard_loop n rem den s q \<noteq> None"
  using assms(1)
proof (induction n arbitrary: rem q)
  case 0
  then show ?case by simp
next
  case (Suc n)
  show ?case
  proof (cases "limbs_val rem < scaled den s")
    case True
    then show ?thesis using guard_loop_done [OF Suc.prems assms(2,3) True, of "Suc n" q] by simp
  next
    case False
    let ?e = "estimate_quotient_digit rem den s"
    have "?e \<noteq> - 1" using Suc.prems assms(4) by (rule estimate_not_max)
    then have "unat ?e - unat (0 :: limb) < 2 ^ 64 - 1"
      using unsigned_word_eqI [of ?e "- 1", where ?'a = nat] unat_u64_bound [of ?e] by fastforce
    then obtain lo where "digit_search rem den s 0 ?e = Some lo"
      using digit_search_spec [OF Suc.prems assms(2,3), of 0 s ?e] by auto
    from guard_loop_step [OF Suc.prems assms(2,3) _ this, of n q] False
    show ?thesis using Suc.IH by auto
  qed
qed
section \<open>All digits\<close>

lemma long_div_loop_result:
  assumes "normalized rem" "normalized den" "den \<noteq> []"
    and "long_div_loop s rem den q = Some (rem', q')"
  shows "normalized rem' \<and> (\<exists>k. limbs_val rem = limbs_val rem' + k * limbs_val den \<and>
    (0 < s \<and> limbs_val den \<le> limbs_val rem \<longrightarrow> 0 < k))"
  using assms
proof (induction s arbitrary: rem q)
  case 0
  then show ?case by simp
next
  case (Suc s)
  obtain rem1 d where g: "guard_loop 256 rem den s (q ! s) = Some (rem1, d)"
    and l: "long_div_loop s rem1 den (q[s := d]) = Some (rem', q')"
    using Suc.prems(4) by (auto split: option.splits)
  obtain k1 where k1: "normalized rem1" "limbs_val rem = limbs_val rem1 + k1 * scaled den s"
    "scaled den s \<le> limbs_val rem \<longrightarrow> 0 < k1"
    using guard_loop_result [OF Suc.prems(1-3) g] by auto
  obtain k2 where k2: "normalized rem'" "limbs_val rem1 = limbs_val rem' + k2 * limbs_val den"
    "0 < s \<and> limbs_val den \<le> limbs_val rem1 \<longrightarrow> 0 < k2"
    using Suc.IH [OF k1(1) Suc.prems(2,3) l] by blast
  have "limbs_val rem = limbs_val rem' + (k2 + k1 * 2 ^ (64 * s)) * limbs_val den"
    using k1(2) k2(2) by (simp add: scaled_def algebra_simps)
  moreover have "0 < k2 + k1 * 2 ^ (64 * s)" if "limbs_val den \<le> limbs_val rem"
  proof (cases "k1 = 0")
    case True
    then have "\<not> scaled den s \<le> limbs_val rem" using k1(3) by auto
    then have "0 < s" using that by (cases s) (auto simp: scaled_def)
    then show ?thesis using k1(2) k2(3) True that by auto
  qed simp
  ultimately show ?case using k2(1) by blast
qed

lemma long_div_loop_returns:
  assumes "normalized rem" "normalized den" "den \<noteq> []" "2 ^ 64 + 1 < unat (top_two den)"
  shows "long_div_loop s rem den q \<noteq> None"
  using assms(1)
proof (induction s arbitrary: rem q)
  case 0
  then show ?case by simp
next
  case (Suc s)
  obtain rem1 d where g: "guard_loop 256 rem den s (q ! s) = Some (rem1, d)"
    using guard_loop_returns [OF Suc.prems assms(2-4), of 256 s "q ! s"] by auto
  then have "normalized rem1" using guard_loop_result [OF Suc.prems assms(2,3) g] by simp
  then show ?case using Suc.IH g by auto
qed

section \<open>The single-limb path\<close>

lemma short_div_loop_val:
  assumes "d \<noteq> 0" "unat r < unat (d :: limb)" "short_div_loop xs d r = (q, r')"
  shows "limbs_val (rev xs) + 2 ^ (64 * length xs) * unat r = limbs_val (rev q) * unat d + unat r' \<and>
    unat r' < unat d \<and> length q = length xs"
  using assms
proof (induction xs arbitrary: r q r')
  case Nil
  then show ?case by simp
next
  case (Cons x xs)
  let ?cur = "push_bit 64 r OR ucast x :: u128"
  obtain q1 where l: "short_div_loop xs d (?cur mod ucast d) = (q1, r')" and
    q: "q = lo64 (?cur div ucast d) # q1"
    using Cons.prems(3) by (auto simp: Let_def split: prod.splits)
  have d0: "0 < unat d" using assms(1) by (simp add: unat_gt_0)
  have cur: "unat ?cur = unat r * 2 ^ 64 + unat x"
    using Cons.prems(2) unat_u64_bound [of d] by (intro or_shift_value) simp
  have m: "unat (?cur mod ucast d) = unat ?cur mod unat d" by (simp add: unat_mod)
  have "unat ?cur < unat d * 2 ^ 64"
  proof -
    have "unat ?cur < (unat r + 1) * 2 ^ 64" using unat_u64_bound [of x] by (simp add: cur)
    also have "\<dots> \<le> unat d * 2 ^ 64" using Cons.prems(2) by (intro mult_le_mono) simp_all
    finally show ?thesis .
  qed
  then have dv: "unat (lo64 (?cur div ucast d)) = unat ?cur div unat d"
    using d0 by (simp add: unat_lo64 unat_div div_less_iff_less_mult mult.commute)
  have lt: "unat (?cur mod ucast d) < unat d" using m d0 by simp
  from Cons.IH [OF assms(1) lt l] have IH:
    "limbs_val (rev xs) + 2 ^ (64 * length xs) * (unat ?cur mod unat d) =
       limbs_val (rev q1) * unat d + unat r'" "unat r' < unat d" "length q1 = length xs"
    by (simp_all add: m)
  define Q M where "Q = unat ?cur div unat d" and "M = unat ?cur mod unat d"
  have "unat ?cur = Q * unat d + M" by (simp add: Q_def M_def)
  then have c: "2 ^ (64 * length xs) * unat ?cur = 2 ^ (64 * length xs) * (Q * unat d + M)" by simp
  have "limbs_val (rev (x # xs)) + 2 ^ (64 * length (x # xs)) * unat r =
      limbs_val (rev xs) + 2 ^ (64 * length xs) * unat ?cur"
    by (simp add: limbs_val_append cur algebra_simps power_add)
  also have "\<dots> = limbs_val (rev xs) + 2 ^ (64 * length xs) * M + 2 ^ (64 * length xs) * Q * unat d"
    unfolding c by (simp add: algebra_simps)
  also have "\<dots> = limbs_val (rev q1) * unat d + unat r' + 2 ^ (64 * length xs) * Q * unat d"
    using IH(1) by (simp add: M_def)
  also have "\<dots> = limbs_val (rev q) * unat d + unat r'"
    using dv IH(3) by (simp add: q limbs_val_append algebra_simps flip: Q_def)
  finally show ?case using IH(2,3) by (simp add: q)
qed

lemma short_div_spec:
  assumes "d \<noteq> 0" "short_div num d = (q, r)"
  shows "limbs_val q = limbs_val num div unat d \<and> unat r = limbs_val num mod unat d \<and> normalized q"
proof -
  obtain q0 where l: "short_div_loop (rev num) d 0 = (q0, r)" and q: "q = normalize_limbs (rev q0)"
    using assms(2) by (auto simp: short_div_def split: prod.splits)
  have "0 < unat d" using assms(1) by (simp add: unat_gt_0)
  with short_div_loop_val [OF assms(1) _ l]
  have e: "limbs_val num = limbs_val q * unat d + unat r" and lt: "unat r < unat d"
    by (simp_all add: q)
  show ?thesis using lt by (simp add: e q)
qed

section \<open>The power-of-two path\<close>

lemma add_div_mod_64:
  fixes e n :: nat
  shows "e mod 64 + n mod 64 < 64 \<Longrightarrow> (e + n) div 64 = n div 64 + e div 64"
    "e mod 64 + n mod 64 < 64 \<Longrightarrow> (e + n) mod 64 = e mod 64 + n mod 64"
    "64 \<le> e mod 64 + n mod 64 \<Longrightarrow> (e + n) div 64 = n div 64 + e div 64 + 1"
    "64 \<le> e mod 64 + n mod 64 \<Longrightarrow> (e + n) mod 64 = e mod 64 + n mod 64 - 64"
proof -
  have d: "(e + n) div 64 = e div 64 + n div 64 + (e mod 64 + n mod 64) div 64"
    by (rule div_add1_eq)
  have m: "(e + n) mod 64 = (e mod 64 + n mod 64) mod 64" by (simp add: mod_add_eq)
  show "e mod 64 + n mod 64 < 64 \<Longrightarrow> (e + n) div 64 = n div 64 + e div 64"
    "e mod 64 + n mod 64 < 64 \<Longrightarrow> (e + n) mod 64 = e mod 64 + n mod 64"
    using d m by simp_all
  { assume "64 \<le> e mod 64 + n mod 64"
    moreover have "e mod 64 < 64" "n mod 64 < 64" by simp_all
    ultimately obtain b where b: "e mod 64 + n mod 64 = 64 + b" "b < 64"
      by (metis add_less_imp_less_left add_strict_mono le_Suc_ex)
    show "(e + n) div 64 = n div 64 + e div 64 + 1" "(e + n) mod 64 = e mod 64 + n mod 64 - 64"
      using d m b by simp_all }
qed

lemma bit_limbs_val:
  "bit (limbs_val xs) n \<longleftrightarrow> n div 64 < length xs \<and> bit (xs ! (n div 64)) (n mod 64)"
proof (induction xs arbitrary: n)
  case Nil
  then show ?case by simp
next
  case (Cons x xs)
  have "unat x + 2 ^ 64 * limbs_val xs = unat x OR push_bit 64 (limbs_val xs)"
  proof -
    have "unat x + push_bit 64 (limbs_val xs) = unat x OR push_bit 64 (limbs_val xs)"
    proof (rule disjunctive_add)
      fix m show "\<not> bit (unat x) m \<or> \<not> bit (push_bit 64 (limbs_val xs)) m"
        by (auto simp: bit_simps dest: bit_imp_le_length)
    qed
    then show ?thesis by (simp add: push_bit_eq_mult mult.commute)
  qed
  then have "bit (limbs_val (x # xs)) n \<longleftrightarrow> bit x n \<or> 64 \<le> n \<and> bit (limbs_val xs) (n - 64)"
    by (simp add: bit_or_iff bit_push_bit_iff bit_unsigned_iff)
  also have "\<dots> \<longleftrightarrow> n div 64 < length (x # xs) \<and> bit ((x # xs) ! (n div 64)) (n mod 64)"
  proof (cases "n < 64")
    case True
    then show ?thesis by simp
  next
    case False
    then have "n div 64 = Suc ((n - 64) div 64)" "n mod 64 = (n - 64) mod 64"
      by (simp_all add: le_div_geq le_mod_geq)
    moreover have "\<not> bit x n" using False bit_imp_le_length [of x n] by auto
    ultimately show ?thesis using False by (simp add: Cons.IH)
  qed
  finally show ?case .
qed

lemma mag_shift_right_val: "limbs_val (mag_shift_right_copy num e) = limbs_val num div 2 ^ e"
proof (cases "e = 0 \<or> num = []")
  case True
  then show ?thesis by (auto simp: mag_shift_right_copy_def)
next
  case False
  let ?d = "e div 64" and ?r = "e mod 64" and ?nl = "length num"
  have e: "e = 64 * ?d + ?r" by simp
  show ?thesis
  proof (cases "?nl \<le> ?d")
    case True
    have "limbs_val num < 2 ^ (64 * ?nl)" by (rule limbs_val_bound)
    also have "(2::nat) ^ (64 * ?nl) \<le> 2 ^ e" using True e by (intro power_increasing) auto
    finally show ?thesis using True False by (simp add: mag_shift_right_copy_def Let_def)
  next
    case lt: False
    define f where "f = (\<lambda>i. let lo = num ! (i + ?d);
        hi = (if i + ?d + 1 < ?nl then num ! (i + ?d + 1) else 0)
      in if ?r = 0 then lo else drop_bit ?r lo OR push_bit (64 - ?r) hi)"
    have val: "limbs_val (mag_shift_right_copy num e) = limbs_val (map f [0..<?nl - ?d])"
      using False lt by (simp add: mag_shift_right_copy_def Let_def f_def)
    have "bit (limbs_val (map f [0..<?nl - ?d])) n \<longleftrightarrow> bit (limbs_val num div 2 ^ e) n" for n
    proof -
      let ?i = "n div 64" and ?m = "n mod 64"
      have rhs: "bit (limbs_val num div 2 ^ e) n \<longleftrightarrow> bit (limbs_val num) (e + n)"
        by (metis bit_drop_bit_eq comp_apply drop_bit_eq_div add.commute)
      have lhs: "bit (limbs_val (map f [0..<?nl - ?d])) n \<longleftrightarrow> ?i < ?nl - ?d \<and> bit (f ?i) ?m"
        by (auto simp: bit_limbs_val)
      have rng: "?i < ?nl - ?d \<longleftrightarrow> ?i + ?d < ?nl" by (simp add: less_diff_conv)
      show ?thesis
      proof (cases "?r + ?m < 64")
        case True
        then have "(e + n) div 64 = ?i + ?d" "(e + n) mod 64 = ?r + ?m"
          using True by (simp_all add: add_div_mod_64)
        moreover have "bit (f ?i) ?m \<longleftrightarrow> bit (num ! (?i + ?d)) (?r + ?m)" if "?i < ?nl - ?d"
          using True by (auto simp: f_def Let_def bit_simps)
        ultimately show ?thesis unfolding lhs rhs bit_limbs_val [of num] rng by auto
      next
        case False
        then have q: "(e + n) div 64 = ?i + ?d + 1" "(e + n) mod 64 = ?r + ?m - 64"
          using False by (simp_all add: add_div_mod_64)
        have r0: "?r \<noteq> 0" using False by (metis add_0 mod_less_divisor zero_less_numeral)
        have h: "\<not> bit (num ! (?i + ?d)) (?r + ?m)" 
          using False bit_imp_le_length [of "num ! (?i + ?d)" "?r + ?m"] by auto
        have "bit (f ?i) ?m \<longleftrightarrow> ?i + ?d + 1 < ?nl \<and> bit (num ! (?i + ?d + 1)) (?r + ?m - 64)"
        proof -
          have eq: "?m - (64 - ?r) = ?r + ?m - 64" "64 - ?r \<le> ?m" using False by simp_all
          have "bit (f ?i) ?m \<longleftrightarrow>
              bit (if ?i + ?d + 1 < ?nl then num ! (?i + ?d + 1) else 0) (?m - (64 - ?r))"
            using r0 h eq(2) by (simp add: f_def Let_def bit_or_iff bit_drop_bit_eq bit_push_bit_iff)
          then show ?thesis by (simp only: eq(1)) simp
        qed
        then show ?thesis unfolding lhs rhs bit_limbs_val [of num] rng q by auto
      qed
    qed
    then show ?thesis unfolding val by (rule bit_eqI)
  qed
qed

lemma mag_mod_pow2_val: "limbs_val (mag_mod_pow2 num e) = limbs_val num mod 2 ^ e"
proof (cases "e = 0 \<or> num = []")
  case True
  then show ?thesis by (auto simp: mag_mod_pow2_def)
next
  case False
  let ?nl = "length num" and ?r = "e mod 64"
  define keep where "keep = min ((e + 63) div 64) ?nl"
  define r where "r = (if ?r \<noteq> 0 \<and> 0 < keep \<and> e < keep * 64
    then (take keep num)[keep - 1 := (take keep num ! (keep - 1)) AND (push_bit ?r 1 - 1)]
    else take keep num)"
  have len: "length r = keep" by (simp add: r_def keep_def)
  have val: "limbs_val (mag_mod_pow2 num e) = limbs_val r"
    using False by (simp add: mag_mod_pow2_def Let_def r_def keep_def)
  have "bit (limbs_val r) n \<longleftrightarrow> bit (limbs_val num mod 2 ^ e) n" for n
  proof -
    let ?i = "n div 64" and ?m = "n mod 64"
    have rhs: "bit (limbs_val num mod 2 ^ e) n \<longleftrightarrow>
        n < e \<and> ?i < ?nl \<and> bit (num ! ?i) ?m"
      by (simp add: bit_limbs_val bit_take_bit_iff flip: take_bit_eq_mod)
    have lhs: "bit (limbs_val r) n \<longleftrightarrow> ?i < keep \<and> bit (r ! ?i) ?m"
      by (simp add: bit_limbs_val len)
    have up: "?i < (e + 63) div 64" if "n < e" using that by (simp add: div_less_iff_less_mult) 
    consider "\<not> ?i < keep" | "?i < keep" "?r \<noteq> 0" "e < keep * 64" "?i = keep - 1"
      | "?i < keep" "\<not> (?r \<noteq> 0 \<and> e < keep * 64 \<and> ?i = keep - 1)" by blast
    then show ?thesis
    proof cases
      case 1
      then show ?thesis using up lhs rhs by (auto simp: keep_def)
    next
      case 2
      have "(e + 63) div 64 \<le> Suc (e div 64)" by (simp add: less_Suc_eq_le [symmetric] div_less_iff_less_mult)
      then have "keep \<le> Suc (e div 64)" by (simp add: keep_def)
      moreover have "e div 64 < keep" using 2(3) by (simp add: div_less_iff_less_mult)
      ultimately have i: "?i = e div 64" using 2(4) by simp
      have "n = 64 * ?i + ?m" "e = 64 * (e div 64) + ?r" by simp_all
      then have ne: "n < e \<longleftrightarrow> ?m < ?r" using i by linarith
      have "r ! ?i = num ! ?i AND mask ?r"
        using 2 by (simp add: r_def keep_def mask_eq_exp_minus_1 push_bit_eq_mult)
      then have "bit (r ! ?i) ?m \<longleftrightarrow> n < e \<and> bit (num ! ?i) ?m"
        using ne by (auto simp: bit_and_iff bit_mask_iff)
      then show ?thesis using 2(1) lhs rhs by (auto simp: keep_def)
    next
      case 3
      have "r ! ?i = num ! ?i" using 3 by (auto simp: r_def)
      moreover have "n < e"
      proof -
        have k: "keep \<le> (e + 63) div 64" by (simp add: keep_def)
        consider "?r = 0" | "keep * 64 \<le> e" | "?r \<noteq> 0" "?i < keep - 1" using 3 by linarith
        then show ?thesis
        proof cases
          case 1
          then have "e = 64 * (e div 64)" by auto
          have q: "(64 * q + 63) div 64 = q" for q :: nat by simp
          have "e + 63 = 64 * (e div 64) + 63" using \<open>e = 64 * (e div 64)\<close> by linarith
          then have "(e + 63) div 64 = e div 64" by (simp only: q)
          then have "?i < e div 64" using 3(1) k by linarith
          then show ?thesis using \<open>e = 64 * (e div 64)\<close> by linarith
        next
          case 2
          then show ?thesis using 3(1) by linarith
        next
          case 3
          then show ?thesis using k by linarith
        qed
      qed
      ultimately show ?thesis using 3(1) lhs rhs by (auto simp: keep_def)
    qed
  qed
  then show ?thesis unfolding val by (rule bit_eqI)
qed

lemma ctzll_first:
  assumes "w \<noteq> 0" shows "bit w (ctzll w) \<and> (\<forall>m < ctzll w. \<not> bit w m) \<and> ctzll w < 64"
proof -
  let ?bs = "map (bit w) [0..<64]"
  obtain n where "bit w n" using assms bit_word_eqI [of w 0] by auto
  then have "n < 64" using bit_imp_le_length [of w n] by simp
  then have ex: "\<exists>b \<in> set ?bs. b" using \<open>bit w n\<close> by (intro bexI [of _ "bit w n"]) auto
  have lt: "length (takeWhile Not ?bs) < length ?bs"
    using ex by (metis length_takeWhile_le le_neq_implies_less takeWhile_eq_all_conv takeWhile_eq_take
        take_all_iff length_map order.refl)
  then have "?bs ! ctzll w" 
    unfolding ctzll_def using nth_length_takeWhile [of Not ?bs] by blast
  moreover have "\<not> ?bs ! m" if "m < ctzll w" for m
    using that unfolding ctzll_def
    by (metis nth_mem set_takeWhileD takeWhile_nth)
  ultimately show ?thesis using lt unfolding ctzll_def by simp
qed

lemma pow2_word:
  fixes w :: limb
  assumes "w \<noteq> 0" "w AND (w - 1) = 0" shows "w = 2 ^ ctzll w"
proof -
  let ?c = "ctzll w"
  have c: "bit w ?c" "\<And>m. m < ?c \<Longrightarrow> \<not> bit w m" "?c < 64" using ctzll_first [OF assms(1)] by auto
  have "w = unset_bit ?c w OR push_bit ?c 1"
    by (rule bit_word_eqI) (use c(1) in \<open>auto simp: bit_simps\<close>)
  also have "\<dots> = unset_bit ?c w + push_bit ?c 1"
    by (rule disjunctive_add [symmetric]) (auto simp: bit_simps)
  finally have w: "w = unset_bit ?c w + push_bit ?c 1" .
  have "w - 1 = unset_bit ?c w + mask ?c"
    by (subst w) (simp add: mask_eq_exp_minus_1 push_bit_eq_mult)
  also have "\<dots> = unset_bit ?c w OR mask ?c"
    by (rule disjunctive_add) (use c(2) in \<open>auto simp: bit_simps\<close>)
  finally have "w AND (unset_bit ?c w OR mask ?c) = 0" using assms(2) by simp
  moreover have "w AND (unset_bit ?c w OR mask ?c) = unset_bit ?c w"
    by (rule bit_word_eqI) (use c(2) in \<open>auto simp: bit_simps\<close>)
  ultimately have "unset_bit ?c w = 0" by simp
  then show ?thesis using w by (simp add: push_bit_eq_mult)
qed

lemma unat_pow2_word: "n < 64 \<Longrightarrow> unat (2 ^ n :: limb) = 2 ^ n"
proof -
  assume n: "n < 64"
  have lt: "(2::nat) ^ n < 2 ^ 64" using n by (intro power_strict_increasing) auto
  have "unat (of_nat (2 ^ n) :: limb) = take_bit 64 (2 ^ n)" by (simp only: unsigned_of_nat) simp
  also have "\<dots> = 2 ^ n" using lt by (simp only: take_bit_nat_eq_self)
  finally show ?thesis by simp
qed

lemma pow2_loop_seen:
  "pow2_loop i True e xs = Some e' \<Longrightarrow> e' = e \<and> limbs_val xs = 0"
  by (induction i True e xs rule: pow2_loop.induct) (auto split: if_splits)

lemma pow2_loop_val:
  assumes "pow2_loop i False e xs = Some e'" "(i + length xs) * 64 \<le> 2 ^ 32"
  shows "limbs_val xs * 2 ^ (64 * i) = 2 ^ e'"
  using assms
proof (induction xs arbitrary: i)
  case Nil
  then show ?case by simp
next
  case (Cons w ws)
  show ?case
  proof (cases "w = 0")
    case True
    then have "limbs_val ws * 2 ^ (64 * Suc i) = 2 ^ e'"
      using Cons.prems by (intro Cons.IH) simp_all
    then show ?thesis using True by (simp add: power_add algebra_simps)
  next
    case False
    then have w: "w AND (w - 1) = 0" and
      l: "pow2_loop (Suc i) True ((i * 64 + ctzll w) mod 2 ^ 32) ws = Some e'"
      using Cons.prems(1) by (auto split: if_splits)
    have c: "ctzll w < 64" using ctzll_first [OF False] by simp
    have "i * 64 + ctzll w < 2 ^ 32" using Cons.prems(2) c by simp
    then have "e' = i * 64 + ctzll w" "limbs_val ws = 0" using pow2_loop_seen [OF l] by simp_all
    moreover have "unat w = 2 ^ ctzll w" using pow2_word [OF False w] unat_pow2_word [OF c] by metis
    ultimately show ?thesis by (simp add: power_add algebra_simps)
  qed
qed

lemma mag_is_pow2_val:
  "mag_is_pow2 den = Some e \<Longrightarrow> length den \<le> 2 ^ 26 \<Longrightarrow> limbs_val den = 2 ^ e"
  using pow2_loop_val [of 0 0 den e] by (simp add: mag_is_pow2_def)

lemma normalized_shift [simp]: "normalized (mag_shift_right_copy num e)"
  by (simp add: mag_shift_right_copy_def Let_def)

lemma normalized_mod_pow2 [simp]: "normalized (mag_mod_pow2 num e)"
  by (simp add: mag_mod_pow2_def Let_def)

section \<open>What \<open>div_mag\<close> returns\<close>

lemma normalized_single: "normalized (if r = 0 then [] else [lo64 r])" if "unat r < 2 ^ 64" for r
proof (cases "r = 0")
  case False
  then have "unat r \<noteq> 0" by (simp add: unat_eq_zero)
  then have "unat (lo64 r) \<noteq> 0" using unat_lo64_small [OF that] by simp
  then have "lo64 r \<noteq> 0" by auto
  then show ?thesis using False by (simp add: normalized_def)
qed (simp add: normalized_def)

text \<open>
  Exact division: a divisor of one limb, a power of two, or one as long as the dividend.
\<close>
theorem div_mag_exact:
  assumes "normalized num" "normalized den" "den \<noteq> []" "length den \<le> 2 ^ 26"
    and "length den = 1 \<or> (\<exists>e. mag_is_pow2 den = Some e) \<or> length num \<le> length den"
    and "div_mag num den = Some (Some (q, r))"
  shows "limbs_val q = limbs_val num div limbs_val den \<and>
    limbs_val r = limbs_val num mod limbs_val den \<and> normalized q \<and> normalized r"
proof (cases "mag_is_pow2 den")
  case (Some e)
  then have "limbs_val den = 2 ^ e" using assms(4) by (rule mag_is_pow2_val)
  then show ?thesis using Some assms by (auto simp: div_mag_def mag_shift_right_val mag_mod_pow2_val)
next
  case None
  show ?thesis
  proof (cases "cmp_mag num den < 0")
    case True
    then have "limbs_val num < limbs_val den" using assms by (simp add: cmp_mag_val)
    then show ?thesis using True None assms by (auto simp: div_mag_def)
  next
    case ge: False
    show ?thesis
    proof (cases "length den = 1")
      case True
      then obtain d where d: "den = [d]" "d \<noteq> 0"
        using assms(2) by (cases den) (auto simp: normalized_def)
      obtain q0 r0 where s: "short_div num d = (q0, r0)" by fastforce
      note sp = short_div_spec [OF d(2) s]
      have q: "q = q0" and r: "r = (if r0 = 0 then [] else [lo64 r0])"
        using assms(6) s d None ge by (simp_all add: div_mag_def)
      have "0 < unat d" using d(2) by (simp add: unat_gt_0)
      then have "unat r0 < unat d" using sp by simp
      then have lt: "unat r0 < 2 ^ 64" using unat_u64_bound [of d] by simp
      have "limbs_val r = unat r0" using unat_lo64_small [OF lt] by (simp add: r)
      then show ?thesis using sp normalized_single [OF lt] by (simp add: q r d(1))
    next
      case False
      then have l2: "2 \<le> length den" using assms(3) by (cases den) (auto simp: Suc_le_eq)
      have "limbs_val den \<le> limbs_val num" using ge assms by (simp add: cmp_mag_val)
      then have "\<not> length num < length den"
        using normalized_length_less [OF assms(2)] by fastforce
      then have len: "length num = length den" using assms(5) None False by auto
      then obtain rem d where g: "guard_loop 256 num den 0 0 = Some (rem, d)"
        and q: "q = normalize_limbs [d]" and r: "r = normalize_limbs rem"
        using assms(3,6) None ge False by (auto simp: div_mag_def split: option.splits prod.splits)
      have "normalized rem \<and> limbs_val rem = limbs_val num mod limbs_val den \<and>
          d = of_nat (limbs_val num div limbs_val den) \<and> limbs_val num div limbs_val den < 2 ^ 64"
        using guard_loop_aligned [OF assms(1,2) l2, of 0 255 0 rem d] g len by (simp add: scaled_def)
      then show ?thesis by (simp add: q r unat_of_nat)
    qed
  qed
qed

text \<open>Every division that returns leaves a remainder congruent to the dividend.\<close>
theorem div_mag_remainder:
  assumes "normalized num" "normalized den" "den \<noteq> []" "length den \<le> 2 ^ 26"
    and "div_mag num den = Some (Some (q, r))"
  shows "normalized r \<and> (\<exists>k. limbs_val num = limbs_val r + k * limbs_val den \<and>
    (limbs_val den \<le> limbs_val num \<longrightarrow> 0 < k))"
proof (cases "length den = 1 \<or> (\<exists>e. mag_is_pow2 den = Some e) \<or> length num \<le> length den")
  case True
  from div_mag_exact [OF assms(1-4) True assms(5)]
  have "normalized r" "limbs_val num = limbs_val r + limbs_val q * limbs_val den"
    "limbs_val den \<le> limbs_val num \<longrightarrow> 0 < limbs_val q"
    using normalized_val_pos [OF assms(2,3)] by (simp_all add: div_greater_zero_iff)
  then show ?thesis by blast
next
  case False
  have "\<not> cmp_mag num den < 0"
    using False assms normalized_length_less [of num den] by (simp add: cmp_mag_val)
  then obtain rem q' where l: "long_div_loop (length num - length den + 1) num den
      (replicate (length num - length den + 1) 0) = Some (rem, q')" and r: "r = normalize_limbs rem"
    using False assms(3,5)
    by (auto simp: div_mag_def Let_def split: option.splits prod.splits if_splits)
  show ?thesis using long_div_loop_result [OF assms(1-3) l] r by auto
qed

section \<open>Where the division stops short, and where it does not stop\<close>

lemma normalized_lengthI:
  assumes "normalized xs" "2 ^ (64 * n) \<le> limbs_val xs" "limbs_val xs < 2 ^ (64 * Suc n)"
  shows "length xs = Suc n"
proof -
  have ne: "xs \<noteq> []" using assms(2) by auto
  have "(2::nat) ^ (64 * n) < 2 ^ (64 * length xs)" using assms(2) limbs_val_bound [of xs] by linarith
  then have "n < length xs" by (subst (asm) power_strict_increasing_iff) simp_all
  moreover have "(2::nat) ^ (64 * (length xs - 1)) < 2 ^ (64 * Suc n)"
    using normalized_lower [OF assms(1) ne] assms(3) by linarith
  then have "length xs - 1 < Suc n" by (subst (asm) power_strict_increasing_iff) simp_all
  ultimately show ?thesis by simp
qed

lemma unat_le_one: assumes "unat w \<le> 1" shows "w = 0 \<or> w = (1 :: 'a::len word)"
proof -
  have "w = of_nat (unat w)" by simp
  moreover have "unat w = 0 \<or> unat w = 1" using assms by linarith
  ultimately show ?thesis by (elim disjE) simp_all
qed

lemma div_self_nat_le: "n div n \<le> (1 :: nat)"
  by (cases "n = 0") simp_all

text \<open>One limb more than the divisor and a quotient of one limb: the estimate is 1.\<close>

lemma estimate_one:
  assumes "normalized rem" "normalized den" "2 \<le> length den" "length rem = Suc (length den)"
    and "limbs_val rem < limbs_val den * 2 ^ 64"
  shows "estimate_quotient_digit rem den 0 = 1"
proof -
  let ?k = "64 * (length den - 2)"
  have "limbs_val rem div 2 ^ (64 * (length den - 1)) \<le> limbs_val den div 2 ^ ?k"
  proof -
    have e: "64 * (length den - 1) = 64 + ?k" using assms(3) by simp
    have "limbs_val rem div 2 ^ (64 * (length den - 1)) = limbs_val rem div 2 ^ 64 div 2 ^ ?k"
      unfolding e power_add by (rule div_mult2_eq)
    also have "\<dots> \<le> limbs_val den div 2 ^ ?k"
      using assms(5) by (intro div_le_mono) (simp add: less_imp_le div_le_mono [of _ _ "2 ^ 64 :: nat"]
        div_less_iff_less_mult)
    finally show ?thesis .
  qed
  then have le: "unat (top_two rem) \<le> unat (top_two den)"
    using assms(3,4) by (simp add: top_two_val numeral_2_eq_2)
  have "top_two rem div top_two den = 0 \<or> top_two rem div top_two den = 1"
  proof (cases "top_two rem = top_two den")
    case True
    have "unat (top_two den div top_two den) \<le> 1" by (simp only: unat_div div_self_nat_le)
    from unat_le_one [OF this] show ?thesis unfolding True .
  next
    case False
    then have "unat (top_two rem) < unat (top_two den)" using le by (simp add: order_le_less word_unat_eq_iff)
    then have "unat (top_two rem div top_two den) = 0" by (simp add: unat_div)
    then show ?thesis by (simp add: unat_eq_zero)
  qed
  moreover have "lo64 1 = 1" by (simp add: lo64_def)
  moreover have "\<not> ucast (- 1 :: limb) < (1 :: u128)" by code_simp
  ultimately show ?thesis using assms(1)
    by (auto simp: estimate_quotient_digit_def Let_def)
qed

lemma guard_loop_ones:
  assumes "normalized rem" "normalized den" "2 \<le> length den"
    and "2 ^ (64 * length den) + n * limbs_val den \<le> limbs_val rem"
    and "limbs_val rem < limbs_val den * 2 ^ 64"
  shows "\<exists>rem'. guard_loop n rem den 0 q = Some (rem', q + of_nat n) \<and> normalized rem' \<and>
    limbs_val rem' = limbs_val rem - n * limbs_val den"
  using assms(1,4,5)
proof (induction n arbitrary: rem q)
  case 0
  then show ?case by simp
next
  case (Suc n)
  have dn: "den \<noteq> []" using assms(3) by auto
  have lt: "limbs_val den < 2 ^ (64 * length den)" by (rule limbs_val_bound)
  have "limbs_val rem < 2 ^ (64 * Suc (length den))"
    using Suc.prems(3) lt by (simp add: power_add)
  then have len: "length rem = Suc (length den)"
    using Suc.prems by (intro normalized_lengthI) simp_all
  have e: "estimate_quotient_digit rem den 0 = 1"
    using Suc.prems(1) assms(2,3) len Suc.prems(3) by (rule estimate_one)
  have ge: "limbs_val den \<le> limbs_val rem" using Suc.prems(2) by simp
  obtain lo where lo: "digit_search rem den 0 0 1 = Some lo"
    using digit_search_spec [OF Suc.prems(1) assms(2) dn, of 0 0 1] by auto
  have "0 < limbs_val rem div limbs_val den"
    using ge normalized_val_pos [OF assms(2) dn] by (simp add: div_greater_zero_iff)
  with guard_loop_step [OF Suc.prems(1) assms(2) dn, of 0 lo n q] lo e ge obtain rem1 where
    r1: "guard_loop (Suc n) rem den 0 q = guard_loop n rem1 den 0 (q + lo)" "normalized rem1"
      "limbs_val rem1 = limbs_val rem - unat lo * limbs_val den" "unat lo = 1"
    by (auto simp: scaled_def)
  have "lo = 1" using r1(4) unat_le_one [of lo] by auto
  have "\<exists>rem'. guard_loop n rem1 den 0 (q + 1) = Some (rem', (q + 1) + of_nat n) \<and>
      normalized rem' \<and> limbs_val rem' = limbs_val rem1 - n * limbs_val den"
    using Suc.prems r1 by (intro Suc.IH) simp_all
  then show ?case using r1 \<open>lo = 1\<close> by (auto simp: algebra_simps)
qed

text \<open>
  The quotient \<open>div_mag\<close> gives for a dividend one limb longer than the divisor: the guard
  ends the loop after 256 subtractions of the divisor itself.
\<close>

theorem div_mag_stops_short:
  assumes "normalized num" "normalized den" "2 \<le> length den" "mag_is_pow2 den = None"
    and "2 ^ (64 * length den) + 256 * limbs_val den \<le> limbs_val num"
    and "limbs_val num < limbs_val den * 2 ^ 64"
  shows "\<exists>r. div_mag num den = Some (Some ([256], r)) \<and>
    limbs_val r = limbs_val num - 256 * limbs_val den"
proof -
  have dn: "den \<noteq> []" using assms(3) by auto
  have lt: "limbs_val den < 2 ^ (64 * length den)" by (rule limbs_val_bound)
  have "limbs_val num < 2 ^ (64 * Suc (length den))"
    using assms(6) lt by (simp add: power_add)
  then have len: "length num = Suc (length den)" using assms by (intro normalized_lengthI) simp_all
  have g1: "guard_loop 256 num den 1 0 = Some (num, 0)"
    using assms dn by (intro guard_loop_done) (simp_all add: scaled_def)
  obtain rem where g0: "guard_loop 256 num den 0 0 = Some (rem, of_nat 256)"
    "normalized rem" "limbs_val rem = limbs_val num - 256 * limbs_val den"
    using guard_loop_ones [OF assms(1-3), of 256 0] assms(5,6) by auto
  have "\<not> cmp_mag num den < 0" using assms by (simp add: cmp_mag_val)
  then have "div_mag num den = Some (Some (normalize_limbs [256, 0], normalize_limbs rem))"
    using assms(3,4) dn g0(1) g1 by (simp add: div_mag_def len eval_nat_numeral(3) [of num.One]
      numeral_2_eq_2 del: guard_loop.simps)
  moreover have "normalize_limbs [256 :: limb, 0] = [256]" by code_simp
  ultimately show ?thesis using g0(3) by simp
qed

theorem div_mag_returns:
  assumes "normalized num" "normalized den" "2 ^ 64 + 1 < unat (top_two den)"
  shows "div_mag num den \<noteq> None"
proof (cases "den = []")
  case False
  have "long_div_loop s num den q \<noteq> None" for s q
    using assms(1,2) False assms(3) by (rule long_div_loop_returns)
  then obtain a b where "long_div_loop (length num - length den + 1) num den
      (replicate (length num - length den + 1) 0) = Some (a, b)" by fastforce
  then show ?thesis using False unfolding div_mag_def Let_def
    by (simp del: long_div_loop.simps Suc_eq_plus1 One_nat_def Nat.add_0_right add_Suc_right replicate_Suc
        split: option.splits prod.splits)
qed (simp add: div_mag_def)

text \<open>An estimate of \<open>2 ^ 64 - 1\<close> never comes out of the digit search.\<close>

theorem div_mag_diverges: "div_mag [x, - 1, - 1] [5, 0, 1] = None"
proof -
  have e: "estimate_quotient_digit [x, - 1, - 1] [5, 0, 1] 0 = - 1"
  proof -
    have "top_two (normalize_limbs [x, - 1, - 1]) = - 1"
      by (simp add: normalize_limbs_def top_two_def) code_simp
    moreover have "top_two [5, 0, 1 :: limb] = 2 ^ 64" by code_simp
    moreover have "(- 1 :: u128) div 2 ^ 64 = ucast (- 1 :: limb)" by code_simp
    moreover have "lo64 (ucast (- 1 :: limb)) = - 1" by code_simp
    ultimately show ?thesis by (simp add: estimate_quotient_digit_def normalize_limbs_def Let_def)
  qed
  have p: "mag_is_pow2 [5, 0, 1] = None" by code_simp
  have "(1 :: limb) < - 1" by code_simp
  then have "\<not> cmp_mag [x, - 1, - 1] [5, 0, 1] < 0"
    by (simp add: cmp_mag_def)
  then show ?thesis using digit_search_stuck [of 0 "[x, - 1, - 1]" "[5, 0, 1]"] e p
    by (simp add: div_mag_def eval_nat_numeral cmp_mag_shifted_def)
qed

end
