(* ===== verification/Chaaya_Bignum.thy ===== *)
theory Chaaya_Bignum
  imports Chaaya_Division
begin

text \<open>
  \<open>src/src/bignum.c\<close>, exact integers: construction, demotion to fixnums, comparison,
  arithmetic, and decimal text. An exact number is the tree of its objects: an immediate
  word, a \<open>ChBignum\<close> with its limbs and sign, or a \<open>ChRational\<close> with its two parts.
  Limb arrays are freshly allocated by each operation, so the tree loses only object
  identity; the shadow-stack calls of the collector and the failure of \<open>malloc\<close>
  (\<open>abort\<close>) have no counterpart.
\<close>

datatype exnum = Imm chvalue | Big limbs bool | Rat exnum exnum

abbreviation undef :: exnum where "undef \<equiv> Imm CH_UNDEFINED"

definition fixnum :: "u64 \<Rightarrow> exnum" where "fixnum n = Imm (ch_make_fixnum n)"

definition is_fixnum :: "exnum \<Rightarrow> bool" where
  "is_fixnum v = (case v of Imm w \<Rightarrow> ch_is_fixnum w | _ \<Rightarrow> False)"

definition is_bignum :: "exnum \<Rightarrow> bool" where
  "is_bignum v = (case v of Big _ _ \<Rightarrow> True | _ \<Rightarrow> False)"

definition is_rational_obj :: "exnum \<Rightarrow> bool" where
  "is_rational_obj v = (case v of Rat _ _ \<Rightarrow> True | _ \<Rightarrow> False)"

definition is_exact_integer :: "exnum \<Rightarrow> bool" where
  "is_exact_integer v \<longleftrightarrow> is_fixnum v \<or> is_bignum v"

section \<open>Construction\<close>

definition make_bignum_from_limbs :: "limbs \<Rightarrow> bool \<Rightarrow> exnum" where
  "make_bignum_from_limbs ls positive =
     (let copy = normalize_limbs ls in Big copy (if copy = [] then True else positive))"

definition make_bignum_from_i64 :: "u64 \<Rightarrow> exnum" where
  "make_bignum_from_i64 n =
     (if n = 0 then make_bignum_from_limbs [] True
      else let positive = 0 < sint n;
               mag = (if positive then n else lo64 (- (scast n :: u128)))
           in make_bignum_from_limbs [mag] positive)"

definition ch_make_integer :: "u64 \<Rightarrow> exnum" where
  "ch_make_integer n =
     (if CH_FIXNUM_MIN \<le> sint n \<and> sint n \<le> CH_FIXNUM_MAX then fixnum n
      else make_bignum_from_i64 n)"

definition ch_value_from_u64 :: "u64 \<Rightarrow> exnum" where
  "ch_value_from_u64 mag =
     (if mag \<le> word_of_int CH_FIXNUM_MAX then fixnum mag else make_bignum_from_limbs [mag] True)"

text \<open>The in-place trim of the object is the trimmed tree.\<close>

definition ch_bignum_normalize :: "exnum \<Rightarrow> exnum" where
  "ch_bignum_normalize v =
     (case v of
        Big ls positive \<Rightarrow>
          (let ls' = normalize_limbs ls
           in if ls' = [] then fixnum 0
              else if fits_fixnum_mag ls' positive then fixnum (limbs_to_i64 ls' positive)
              else Big ls' positive)
      | _ \<Rightarrow> v)"

text \<open>
  The view the arithmetic reads: limbs and sign. (The C function returns a pointer into its
  own result structure for a fixnum; the view is the value that pointer is meant to show.)
\<close>

record mag_view =
  mv_limbs :: limbs
  mv_positive :: bool

definition view_of :: "exnum \<Rightarrow> mag_view" where
  "view_of v =
     (case v of
        Imm w \<Rightarrow>
          (let n = ch_to_fixnum w
           in if n = 0 then \<lparr>mv_limbs = [], mv_positive = True\<rparr>
              else if 0 < sint n then \<lparr>mv_limbs = [n], mv_positive = True\<rparr>
              else \<lparr>mv_limbs = [- n], mv_positive = False\<rparr>)
      | Big ls p \<Rightarrow> \<lparr>mv_limbs = ls, mv_positive = p\<rparr>
      | Rat _ _ \<Rightarrow> \<lparr>mv_limbs = [], mv_positive = False\<rparr>)"

definition make_from_mag :: "limbs \<Rightarrow> bool \<Rightarrow> exnum" where
  "make_from_mag ls positive =
     (let ls' = normalize_limbs ls
      in if ls' = [] then fixnum 0
         else if fits_fixnum_mag ls' positive then fixnum (limbs_to_i64 ls' positive)
         else Big ls' positive)"

section \<open>Comparison and arithmetic\<close>

definition ch_bignum_compare :: "exnum \<Rightarrow> exnum \<Rightarrow> int" where
  "ch_bignum_compare a b =
     (let va = view_of a; vb = view_of b
      in if mv_limbs va = [] \<and> mv_limbs vb = [] then 0
         else if mv_positive va \<noteq> mv_positive vb then (if mv_positive va then 1 else - 1)
         else let c = cmp_mag (mv_limbs va) (mv_limbs vb)
              in if mv_positive va then c else - c)"

definition ch_bignum_negate :: "exnum \<Rightarrow> exnum" where
  "ch_bignum_negate a =
     (case a of
        Imm w \<Rightarrow>
          (let n = ch_to_fixnum w
           in if sint n = CH_FIXNUM_MIN then make_bignum_from_limbs [push_bit 47 1] True
              else fixnum (- n))
      | Big ls p \<Rightarrow> if ls = [] then fixnum 0 else make_bignum_from_limbs ls (\<not> p)
      | Rat _ _ \<Rightarrow> undef)"

definition ch_bignum_abs :: "exnum \<Rightarrow> exnum" where
  "ch_bignum_abs a =
     (case a of
        Imm w \<Rightarrow>
          (let n = ch_to_fixnum w
           in if sint n = CH_FIXNUM_MIN then make_bignum_from_limbs [push_bit 47 1] True
              else fixnum (if sint n < 0 then - n else n))
      | Big ls p \<Rightarrow> if p \<or> ls = [] then a else make_bignum_from_limbs ls True
      | Rat _ _ \<Rightarrow> undef)"

definition ch_bignum_add :: "exnum \<Rightarrow> exnum \<Rightarrow> exnum" where
  "ch_bignum_add a b =
     (let va = view_of a; vb = view_of b
      in if mv_positive va = mv_positive vb
         then make_from_mag (add_mag (mv_limbs va) (mv_limbs vb)) (mv_positive va)
         else let c = cmp_mag (mv_limbs va) (mv_limbs vb)
              in if c = 0 then fixnum 0
                 else if 0 < c
                   then make_from_mag (sub_mag (mv_limbs va) (mv_limbs vb)) (mv_positive va)
                 else make_from_mag (sub_mag (mv_limbs vb) (mv_limbs va)) (mv_positive vb))"

definition ch_bignum_sub :: "exnum \<Rightarrow> exnum \<Rightarrow> exnum" where
  "ch_bignum_sub a b = ch_bignum_add a (ch_bignum_negate b)"

definition ch_bignum_mul :: "exnum \<Rightarrow> exnum \<Rightarrow> exnum" where
  "ch_bignum_mul a b =
     (let va = view_of a; vb = view_of b;
          ls = mul_mag (mv_limbs va) (mv_limbs vb);
          positive = (mv_positive va = mv_positive vb \<or> ls = [])
      in if ls = [] then fixnum 0 else make_from_mag ls positive)"

text \<open>As for \<open>div_mag\<close>, \<open>None\<close> is a division that does not return.\<close>

definition ch_bignum_quotient :: "exnum \<Rightarrow> exnum \<Rightarrow> exnum option" where
  "ch_bignum_quotient a b =
     (let va = view_of a; vb = view_of b
      in if mv_limbs vb = [] then Some undef
         else case div_mag (mv_limbs va) (mv_limbs vb) of
           None \<Rightarrow> None
         | Some None \<Rightarrow> Some undef
         | Some (Some (q, r)) \<Rightarrow>
             Some (if q = [] then fixnum 0
                   else make_from_mag q (mv_positive va = mv_positive vb \<or> q = [])))"

definition ch_bignum_remainder :: "exnum \<Rightarrow> exnum \<Rightarrow> exnum option" where
  "ch_bignum_remainder a b =
     (let va = view_of a; vb = view_of b
      in if mv_limbs vb = [] then Some undef
         else case div_mag (mv_limbs va) (mv_limbs vb) of
           None \<Rightarrow> None
         | Some None \<Rightarrow> Some undef
         | Some (Some (q, r)) \<Rightarrow>
             Some (if r = [] then fixnum 0 else make_from_mag r (mv_positive va)))"

section \<open>Values\<close>

text \<open>The integer a value stands for.\<close>

definition exact_int :: "exnum \<Rightarrow> int" where
  "exact_int v = (case v of Imm w \<Rightarrow> sint (ch_to_fixnum w)
     | Big ls p \<Rightarrow> (if p then int (limbs_val ls) else - int (limbs_val ls))
     | Rat _ _ \<Rightarrow> 0)"

definition view_int :: "mag_view \<Rightarrow> int" where
  "view_int m = (if mv_positive m then int (limbs_val (mv_limbs m)) else - int (limbs_val (mv_limbs m)))"

text \<open>An integer object: a fixnum, or a bignum with no leading zero limb and no negative zero.\<close>

definition wf_int :: "exnum \<Rightarrow> bool" where
  "wf_int v = (case v of Imm w \<Rightarrow> ch_is_fixnum w | Big ls p \<Rightarrow> normalized ls \<and> (ls = [] \<longrightarrow> p)
     | Rat _ _ \<Rightarrow> False)"

text \<open>Canonical: every integer of the fixnum range is a fixnum.\<close>

definition canonical_int :: "exnum \<Rightarrow> bool" where
  "canonical_int v \<longleftrightarrow> wf_int v \<and>
     (is_fixnum v \<or> exact_int v < CH_FIXNUM_MIN \<or> CH_FIXNUM_MAX < exact_int v)"

definition wf_view :: "mag_view \<Rightarrow> bool" where
  "wf_view m \<longleftrightarrow> normalized (mv_limbs m) \<and> (mv_limbs m = [] \<longrightarrow> mv_positive m)"

lemma sint_fixnum_bounds: "- (2 ^ 47) \<le> sint (signed_take_bit 47 (w::u64))" "sint (signed_take_bit 47 (w::u64)) < 2 ^ 47"
  unfolding sint_signed_take_bit_47
  by (simp_all only: signed_take_bit_int_greater_eq_minus_exp signed_take_bit_int_less_exp)

lemma fixnum_bounds: "CH_FIXNUM_MIN \<le> sint (ch_to_fixnum w)" "sint (ch_to_fixnum w) \<le> CH_FIXNUM_MAX"
  using sint_fixnum_bounds [of w] unfolding ch_to_fixnum_signed CH_FIXNUM_MIN_def CH_FIXNUM_MAX_def by simp_all

lemma fixnum_value:
  "CH_FIXNUM_MIN \<le> sint n \<Longrightarrow> sint n \<le> CH_FIXNUM_MAX \<Longrightarrow> exact_int (fixnum n) = sint n"
  by (simp add: exact_int_def fixnum_def ch_to_make_fixnum signed_take_bit_47_self CH_FIXNUM_MIN_def CH_FIXNUM_MAX_def)

lemma fixnum_canonical [simp]: "canonical_int (fixnum n)" "wf_int (fixnum n)" "is_fixnum (fixnum n)"
  by (simp_all add: canonical_int_def wf_int_def is_fixnum_def fixnum_def value_simps)

lemma sint_u64_bounds: "- (2 ^ 63) \<le> sint (w :: u64)" "sint (w :: u64) < 2 ^ 63"
  using sint_greater_eq [of w] sint_less [of w] by simp_all

lemma sint_u64_neg: "sint (w :: u64) < 0 \<Longrightarrow> int (unat w) = sint w + 2 ^ 64"
proof -
  assume n: "sint w < 0"
  have "int (unat w) = sint w mod 2 ^ 64" by (simp add: uint_sint take_bit_eq_mod flip: uint_nat)
  also have "\<dots> = (sint w + 2 ^ 64) mod 2 ^ 64" by simp
  also have "\<dots> = sint w + 2 ^ 64" using n sint_u64_bounds [of w] by (intro mod_pos_pos_trivial) simp_all
  finally show ?thesis .
qed

lemma sint_u64_nonneg: "0 \<le> sint (w :: u64) \<Longrightarrow> int (unat w) = sint w"
proof -
  assume n: "0 \<le> sint w"
  have "int (unat w) = sint w mod 2 ^ 64" by (simp add: uint_sint take_bit_eq_mod flip: uint_nat)
  also have "\<dots> = sint w" using n sint_u64_bounds [of w] by (intro mod_pos_pos_trivial) simp_all
  finally show ?thesis .
qed

lemma sint_of_unat: "unat (w :: u64) < 2 ^ 63 \<Longrightarrow> sint w = int (unat w)"
proof (cases "sint w < 0")
  case True
  assume "unat w < 2 ^ 63"
  then have "int (unat w) < int (2 ^ 63)" by (simp only: of_nat_less_iff)
  then show ?thesis using sint_u64_neg [OF True] sint_u64_bounds [of w] by simp
qed (use sint_u64_nonneg [of w] in simp)

lemma int_unat_le: "unat (w :: u64) \<le> n \<Longrightarrow> uint w \<le> int n"
  by (simp only: of_nat_le_iff uint_nat)

lemma uint_ge_neg [simp]: "- numeral k \<le> uint (m :: u64)" "- uint (m :: u64) \<le> numeral k"
proof -
  have "- numeral k \<le> (0 :: int)" by simp
  then show "- numeral k \<le> uint m" using uint_ge_0 [of m] by (rule order_trans)
  then show "- uint m \<le> numeral k" by linarith
qed

lemma sint_u64_0: "sint (w :: u64) = 0 \<longleftrightarrow> w = 0"
  by (metis signed_0 signed_word_eqI)

lemma sint_minus_u64: "- (2 ^ 63) < sint w \<Longrightarrow> sint (- w :: u64) = - sint w"
proof -
  assume b: "- (2 ^ 63) < sint w"
  have "sint (- w) = signed_take_bit 63 (- sint w)" by (simp add: sint_word_ariths)
  also have "\<dots> = - sint w" using b sint_u64_bounds [of w] by (intro signed_take_bit_int_eq_self) simp_all
  finally show ?thesis .
qed

lemma view_of_int: "wf_int v \<Longrightarrow> wf_view (view_of v) \<and> view_int (view_of v) = exact_int v"
proof (cases v)
  case (Imm w)
  let ?n = "ch_to_fixnum w"
  have b: "- (2 ^ 63) < sint ?n" using fixnum_bounds(1) [of w] by (simp add: CH_FIXNUM_MIN_def)
  show ?thesis
    using Imm sint_u64_nonneg [of ?n] sint_u64_nonneg [of "- ?n"] sint_minus_u64 [OF b]
    by (auto simp: view_of_def wf_view_def view_int_def exact_int_def normalized_def Let_def
          not_less order_le_less sint_u64_0)
qed (auto simp: wf_int_def view_of_def wf_view_def view_int_def exact_int_def)

lemma make_from_mag_correct:
  "canonical_int (make_from_mag ls p) \<and>
   exact_int (make_from_mag ls p) = (if p then int (limbs_val ls) else - int (limbs_val ls))"
proof -
  let ?l = "normalize_limbs ls"
  consider "?l = []" | m where "?l = [m]" "fits_fixnum_mag ?l p" | "?l \<noteq> []" "\<not> fits_fixnum_mag ?l p"
    by (cases ?l; cases "tl ?l") (auto simp: fits_fixnum_mag_def)
  then show ?thesis
  proof cases
    case 1
    then have "limbs_val ls = 0" using limbs_val_normalize [of ls] by simp
    then show ?thesis using 1 by (simp add: make_from_mag_def fixnum_value CH_FIXNUM_MIN_def CH_FIXNUM_MAX_def)
  next
    case 2
    have v: "limbs_val ls = unat m" using 2(1) limbs_val_normalize [of ls] by simp
    let ?n = "limbs_to_i64 ?l p"
    have u: "unat m \<le> (if p then 2 ^ 47 - 1 else 2 ^ 47)"
      using 2 by (auto simp: fits_fixnum_mag_def word_le_nat_alt CH_FIXNUM_MAX_def split: if_splits)
    then have "sint m = int (unat m)" by (intro sint_of_unat) (simp split: if_splits)
    then have s: "sint ?n = (if p then int (unat m) else - int (unat m))"
      using 2(1) u sint_minus_u64 [of m] uint_ge_0 [of m] by (auto simp: limbs_to_i64_def)
    have "0 \<le> uint m" "uint m \<le> int (if p then 2 ^ 47 - 1 else 2 ^ 47)"
      using u by (simp, intro int_unat_le)
    moreover have "sint ?n = (if p then uint m else - uint m)" using s by simp
    ultimately have "- (2 ^ 47) \<le> sint ?n \<and> sint ?n \<le> 2 ^ 47 - 1" by (cases p) simp_all
    then have "exact_int (fixnum ?n) = sint ?n"
      by (intro fixnum_value) (simp_all add: CH_FIXNUM_MIN_def CH_FIXNUM_MAX_def)
    then show ?thesis using 2 s v by (simp add: make_from_mag_def Let_def)
  next
    case 3
    have big: "int (limbs_val ls) > (if p then 2 ^ 47 - 1 else 2 ^ 47)"
    proof (cases "length ?l = 1")
      case True
      then obtain m where m: "?l = [m]" by (cases ?l) auto
      then show ?thesis using 3(2) limbs_val_normalize [of ls]
        by (auto simp: fits_fixnum_mag_def word_le_nat_alt CH_FIXNUM_MAX_def split: if_splits)
    next
      case False
      then have "2 ^ (64 * 1) \<le> (2::nat) ^ (64 * (length ?l - 1))"
        using 3(1) by (intro power_increasing) (cases ?l, auto simp: Suc_le_eq)
      also have "\<dots> \<le> limbs_val ls" using normalized_lower [of ?l] 3(1) by simp
      finally show ?thesis by simp
    qed
    then show ?thesis using 3
      by (auto simp: make_from_mag_def canonical_int_def wf_int_def exact_int_def is_fixnum_def
          CH_FIXNUM_MIN_def CH_FIXNUM_MAX_def)
  qed
qed

section \<open>Correctness of the integer arithmetic\<close>

lemma compare_int:
  assumes "wf_int a" "wf_int b"
  shows "ch_bignum_compare a b = sgn (exact_int a - exact_int b)"
proof -
  have a: "wf_view (view_of a)" "view_int (view_of a) = exact_int a" using view_of_int [OF assms(1)] by auto
  have b: "wf_view (view_of b)" "view_int (view_of b) = exact_int b" using view_of_int [OF assms(2)] by auto
  show ?thesis using a(1) b(1)
    unfolding a(2) [symmetric] b(2) [symmetric] ch_bignum_compare_def Let_def view_int_def wf_view_def
    using normalized_val_pos [of "mv_limbs (view_of a)"] normalized_val_pos [of "mv_limbs (view_of b)"]
    by (auto simp: cmp_mag_val cmp_nat_def sgn_if)
qed

lemma add_int:
  assumes "wf_int a" "wf_int b"
  shows "canonical_int (ch_bignum_add a b) \<and> exact_int (ch_bignum_add a b) = exact_int a + exact_int b"
proof -
  have a: "wf_view (view_of a)" "view_int (view_of a) = exact_int a" using view_of_int [OF assms(1)] by auto
  have b: "wf_view (view_of b)" "view_int (view_of b) = exact_int b" using view_of_int [OF assms(2)] by auto
  have l: "length xs \<le> length ys" if "normalized xs" "limbs_val xs \<le> limbs_val ys" for xs ys
    using normalized_length_less [of xs ys] that by linarith
  have z: "exact_int (fixnum 0) = 0" by (simp add: fixnum_value CH_FIXNUM_MIN_def CH_FIXNUM_MAX_def)
  show ?thesis using a(1) b(1) l
    unfolding a(2) [symmetric] b(2) [symmetric] ch_bignum_add_def Let_def view_int_def wf_view_def
    by (auto simp: cmp_mag_val cmp_nat_def make_from_mag_correct add_mag_val sub_mag_val z of_nat_diff)
qed

lemma mul_int:
  assumes "wf_int a" "wf_int b"
  shows "canonical_int (ch_bignum_mul a b) \<and> exact_int (ch_bignum_mul a b) = exact_int a * exact_int b"
proof -
  have a: "view_int (view_of a) = exact_int a" using view_of_int [OF assms(1)] by auto
  have b: "view_int (view_of b) = exact_int b" using view_of_int [OF assms(2)] by auto
  let ?m = "mul_mag (mv_limbs (view_of a)) (mv_limbs (view_of b))"
  have z: "exact_int (fixnum 0) = 0" by (simp add: fixnum_value CH_FIXNUM_MIN_def CH_FIXNUM_MAX_def)
  have "?m = [] \<Longrightarrow> limbs_val ?m = 0" by simp
  then have "?m = [] \<longrightarrow> limbs_val (mv_limbs (view_of a)) * limbs_val (mv_limbs (view_of b)) = 0"
    unfolding mul_mag_val by blast
  then show ?thesis
    unfolding a(1) [symmetric] b(1) [symmetric] ch_bignum_mul_def Let_def view_int_def
    by (auto simp: make_from_mag_correct mul_mag_val z)
qed

lemma make_bignum_int:
  "wf_int (make_bignum_from_limbs ls p) \<and>
   exact_int (make_bignum_from_limbs ls p) = (if p then int (limbs_val ls) else - int (limbs_val ls))"
  using limbs_val_normalize [of ls]
  by (auto simp: make_bignum_from_limbs_def wf_int_def exact_int_def Let_def simp del: limbs_val_normalize)

lemma minus_fixnum_min:
  "wf_int (make_bignum_from_limbs [push_bit 47 1] True) \<and>
   exact_int (make_bignum_from_limbs [push_bit 47 1] True) = - CH_FIXNUM_MIN"
  using make_bignum_int [of "[push_bit 47 1]" True] by (simp add: CH_FIXNUM_MIN_def)

lemma negate_int:
  assumes "wf_int a"
  shows "wf_int (ch_bignum_negate a) \<and> exact_int (ch_bignum_negate a) = - exact_int a"
proof (cases a)
  case (Imm w)
  let ?n = "ch_to_fixnum w"
  note b = fixnum_bounds [of w]
  have "sint (- ?n) = - sint ?n" using b by (intro sint_minus_u64) (simp add: CH_FIXNUM_MIN_def)
  then have "sint ?n \<noteq> CH_FIXNUM_MIN \<Longrightarrow> exact_int (fixnum (- ?n)) = - sint ?n"
    using b by (subst fixnum_value) (auto simp: CH_FIXNUM_MIN_def CH_FIXNUM_MAX_def)
  then show ?thesis using Imm minus_fixnum_min
    by (auto simp: ch_bignum_negate_def exact_int_def [of "Imm w"] Let_def)
next
  case (Big ls p)
  then show ?thesis using make_bignum_int [of ls "\<not> p"]
    by (auto simp: ch_bignum_negate_def exact_int_def [of "Big ls p"] exact_int_def [of "Big [] p"] fixnum_value CH_FIXNUM_MIN_def CH_FIXNUM_MAX_def)
qed (use assms in \<open>simp add: wf_int_def\<close>)

lemma abs_int:
  assumes "wf_int a"
  shows "wf_int (ch_bignum_abs a) \<and> exact_int (ch_bignum_abs a) = \<bar>exact_int a\<bar>"
proof (cases a)
  case (Imm w)
  let ?n = "ch_to_fixnum w"
  note b = fixnum_bounds [of w]
  have "sint (- ?n) = - sint ?n" using b by (intro sint_minus_u64) (simp add: CH_FIXNUM_MIN_def)
  then have "sint ?n \<noteq> CH_FIXNUM_MIN \<Longrightarrow> sint ?n < 0 \<Longrightarrow> exact_int (fixnum (- ?n)) = - sint ?n"
    using b by (subst fixnum_value) (auto simp: CH_FIXNUM_MIN_def CH_FIXNUM_MAX_def)
  moreover have "exact_int (fixnum ?n) = sint ?n" using b by (rule fixnum_value)
  moreover have "CH_FIXNUM_MIN < 0" by (simp add: CH_FIXNUM_MIN_def)
  ultimately show ?thesis using Imm minus_fixnum_min
    by (auto simp: ch_bignum_abs_def exact_int_def [of "Imm w"] Let_def)
next
  case (Big ls p)
  then show ?thesis using make_bignum_int [of ls True] assms
    by (auto simp: ch_bignum_abs_def exact_int_def [of "Big ls p"] exact_int_def [of "Big [] p"])
qed (use assms in \<open>simp add: wf_int_def\<close>)

section \<open>Canonical results\<close>

lemma limbs_val_inj:
  "normalized xs \<Longrightarrow> normalized ys \<Longrightarrow> limbs_val xs = limbs_val ys \<Longrightarrow> xs = ys"
proof -
  assume n: "normalized xs" "normalized ys" and v: "limbs_val xs = limbs_val ys"
  have "length xs = length ys"
    using normalized_length_less [OF n(1), of ys] normalized_length_less [OF n(2), of xs] v by linarith
  then show ?thesis using v
  proof (induction xs ys rule: list_induct2)
    case (Cons x xs y ys)
    have "unat x = unat y"
      using arg_cong [OF Cons.prems, of "\<lambda>n. n mod 2 ^ 64"] unat_u64_bound [of x] unat_u64_bound [of y]
      by simp
    then show ?case using Cons by (simp add: word_unat_eq_iff)
  qed simp
qed

lemma high_low_eqI: "drop_bit 48 v = drop_bit 48 w \<Longrightarrow> take_bit 48 v = take_bit 48 w \<Longrightarrow> v = (w :: u64)"
  by (metis bits_ident)

lemma fixnum_word_eqI:
  assumes "ch_is_fixnum v" "ch_is_fixnum w" "sint (ch_to_fixnum v) = sint (ch_to_fixnum w)"
  shows "v = w"
proof (rule high_low_eqI)
  show "drop_bit 48 v = drop_bit 48 w" using assms(1,2) by (simp add: ch_classes word_unat_eq_iff)
  have "ch_to_fixnum v = ch_to_fixnum w" using assms(3) by (rule signed_word_eqI)
  then have "take_bit (Suc 47) v = take_bit (Suc 47) w"
    unfolding ch_to_fixnum_signed signed_take_bit_eq_iff_take_bit_eq .
  then show "take_bit 48 v = take_bit 48 w" by simp
qed

lemma fixnum_range: "is_fixnum v \<Longrightarrow> CH_FIXNUM_MIN \<le> exact_int v \<and> exact_int v \<le> CH_FIXNUM_MAX"
  using fixnum_bounds by (auto simp: is_fixnum_def exact_int_def split: exnum.splits)

lemma canonical_unique:
  assumes "canonical_int a" "canonical_int b" "exact_int a = exact_int b" shows "a = b"
proof -
  have "is_fixnum a \<longleftrightarrow> is_fixnum b"
    using assms fixnum_range [of a] fixnum_range [of b] by (auto simp: canonical_int_def)
  then consider (fx) v w where "a = Imm v" "b = Imm w" "ch_is_fixnum v" "ch_is_fixnum w"
    | (big) ls p ms q where "a = Big ls p" "b = Big ms q"
    using assms(1,2) by (cases a; cases b) (auto simp: canonical_int_def wf_int_def is_fixnum_def)
  then show ?thesis
  proof cases
    case fx
    then show ?thesis using assms(3) fixnum_word_eqI by (simp add: exact_int_def)
  next
    case big
    then have n: "normalized ls" "normalized ms" "ls = [] \<longrightarrow> p" "ms = [] \<longrightarrow> q"
      using assms(1,2) by (auto simp: canonical_int_def wf_int_def)
    then have "p = q \<and> limbs_val ls = limbs_val ms"
      using assms(3) big normalized_val_pos [of ls] normalized_val_pos [of ms]
      by (auto simp: exact_int_def split: if_splits)
    then show ?thesis using big n limbs_val_inj by blast
  qed
qed

lemma make_integer_int:
  "exact_int (ch_make_integer n) = sint n \<and> canonical_int (ch_make_integer n)"
proof (cases "CH_FIXNUM_MIN \<le> sint n \<and> sint n \<le> CH_FIXNUM_MAX")
  case True
  then show ?thesis by (simp add: ch_make_integer_def fixnum_value)
next
  case False
  let ?m = "if 0 < sint n then n else lo64 (- (scast n :: u128))"
  have "n \<noteq> 0" using False by (auto simp: CH_FIXNUM_MIN_def CH_FIXNUM_MAX_def)
  moreover have "int (unat ?m) = \<bar>sint n\<bar>"
  proof (cases "0 < sint n")
    case True
    then show ?thesis using sint_u64_nonneg [of n] by simp
  next
    case neg: False
    have "take_bit 64 (- signed_take_bit 63 k) = take_bit 64 (- k)" for k :: int
    proof -
      have "take_bit 64 (- signed_take_bit 63 k) = take_bit 64 (- take_bit 64 (signed_take_bit 63 k))"
        by (simp add: take_bit_minus)
      also have "\<dots> = take_bit 64 (- take_bit 64 k)" by (simp add: take_bit_signed_take_bit)
      finally show ?thesis by (simp add: take_bit_minus)
    qed
    then have e: "lo64 (- (scast n :: u128)) = - n" unfolding lo64_def by transfer simp
    have b: "- (2 ^ 63) \<le> sint n" "sint n < 0" using sint_u64_bounds [of n] neg \<open>n \<noteq> 0\<close>
      by (auto simp: sint_u64_0 [symmetric])
    have "int (unat (- n)) = - sint n"
    proof (cases "sint n = - (2 ^ 63)")
      case True
      then have "n = - (2 ^ 63)" by (intro signed_word_eqI) simp
      then show ?thesis using True by simp
    next
      case False
      then show ?thesis using b sint_minus_u64 [of n] sint_u64_nonneg [of "- n"] by simp
    qed
    then show ?thesis using b e neg by simp
  qed
  ultimately show ?thesis using False make_bignum_int [of "[?m]" "0 < sint n"]
    by (auto simp: ch_make_integer_def make_bignum_from_i64_def Let_def canonical_int_def)
qed

lemma value_from_u64_int:
  "exact_int (ch_value_from_u64 n) = uint n \<and> canonical_int (ch_value_from_u64 n)"
proof (cases "n \<le> word_of_int CH_FIXNUM_MAX")
  case True
  then have "unat n \<le> 2 ^ 47 - 1" by (simp add: word_le_nat_alt CH_FIXNUM_MAX_def)
  then have "uint n \<le> int (2 ^ 47 - 1)" by (rule int_unat_le)
  moreover have "sint n = uint n" using \<open>unat n \<le> 2 ^ 47 - 1\<close> sint_of_unat [of n] by simp
  ultimately have "exact_int (fixnum n) = uint n"
    using uint_ge_0 [of n] by (subst fixnum_value) (auto simp: CH_FIXNUM_MIN_def CH_FIXNUM_MAX_def)
  then show ?thesis using True by (simp add: ch_value_from_u64_def)
next
  case False
  then have "\<not> unat n \<le> 2 ^ 47 - 1" by (simp add: word_le_nat_alt CH_FIXNUM_MAX_def)
  then have "int (2 ^ 47 - 1) < int (unat n)" by (simp only: of_nat_less_iff)
  then have "exact_int (ch_value_from_u64 n) = uint n \<and> wf_int (ch_value_from_u64 n) \<and> CH_FIXNUM_MAX < uint n"
    using False make_bignum_int [of "[n]" True] by (simp add: ch_value_from_u64_def CH_FIXNUM_MAX_def)
  then show ?thesis by (simp add: canonical_int_def)
qed

lemma normalize_int:
  assumes "case v of Imm w \<Rightarrow> ch_is_fixnum w | Big _ _ \<Rightarrow> True | Rat _ _ \<Rightarrow> False"
  shows "canonical_int (ch_bignum_normalize v) \<and> exact_int (ch_bignum_normalize v) = exact_int v"
proof (cases v)
  case (Big ls p)
  then have "ch_bignum_normalize v = make_from_mag ls p"
    by (simp add: ch_bignum_normalize_def make_from_mag_def)
  then show ?thesis using make_from_mag_correct [of ls p] Big by (simp add: exact_int_def [of "Big ls p"])
qed (use assms in \<open>simp_all add: ch_bignum_normalize_def canonical_int_def wf_int_def is_fixnum_def\<close>)

text \<open>
  Negation keeps the canonical form but for one value: the bignum \<open>2 ^ 47\<close> becomes a bignum
  that stands for \<open>CH_FIXNUM_MIN\<close>.
\<close>

lemma negate_form:
  "wf_int a \<Longrightarrow> is_fixnum (ch_bignum_negate a) \<longleftrightarrow>
    is_fixnum a \<and> exact_int a \<noteq> CH_FIXNUM_MIN \<or> a = Big [] True"
  by (auto simp: ch_bignum_negate_def is_fixnum_def fixnum_def wf_int_def exact_int_def value_simps
      make_bignum_from_limbs_def Let_def split: exnum.splits if_splits)

lemma negate_canonical:
  assumes "canonical_int a" "exact_int a \<noteq> - CH_FIXNUM_MIN"
  shows "canonical_int (ch_bignum_negate a)"
  using assms negate_int [of a] negate_form [of a] fixnum_range [of a]
  by (auto simp: canonical_int_def CH_FIXNUM_MIN_def CH_FIXNUM_MAX_def)

lemma negate_not_canonical:
  assumes "canonical_int a" "exact_int a = - CH_FIXNUM_MIN"
  shows "\<not> canonical_int (ch_bignum_negate a) \<and> is_bignum (ch_bignum_negate a) \<and>
    exact_int (ch_bignum_negate a) = CH_FIXNUM_MIN"
proof -
  have w: "wf_int a" and nf: "\<not> is_fixnum a"
    using assms fixnum_range [of a] by (auto simp: canonical_int_def CH_FIXNUM_MIN_def CH_FIXNUM_MAX_def)
  have "a \<noteq> Big [] True" using assms(2) by (auto simp: exact_int_def CH_FIXNUM_MIN_def)
  then have "\<not> is_fixnum (ch_bignum_negate a)" using negate_form [OF w] nf by simp
  moreover have "wf_int (ch_bignum_negate a)" "exact_int (ch_bignum_negate a) = CH_FIXNUM_MIN"
    using negate_int [OF w] assms(2) by simp_all
  moreover from this(1) \<open>\<not> is_fixnum (ch_bignum_negate a)\<close> have "is_bignum (ch_bignum_negate a)"
    by (cases "ch_bignum_negate a") (auto simp: wf_int_def is_bignum_def is_fixnum_def)
  ultimately show ?thesis by (auto simp: canonical_int_def CH_FIXNUM_MIN_def CH_FIXNUM_MAX_def)
qed

section \<open>Quotient and remainder\<close>

text \<open>
  The divisors for which the division is exact: one limb, a power of two, or a dividend
  shorter than the divisor. (\<open>div_mag_stops_short\<close> and \<open>div_mag_diverges\<close> show what the
  digit loop does beyond them.)
\<close>

definition exact_division :: "limbs \<Rightarrow> limbs \<Rightarrow> bool" where
  "exact_division num den \<longleftrightarrow> length den \<le> 2 ^ 26 \<and>
     (length den = 1 \<or> mag_is_pow2 den \<noteq> None \<or> length num < length den)"

lemma div_mag_exact_returns:
  assumes "normalized num" "normalized den" "den \<noteq> []" "exact_division num den"
  shows "\<exists>q r. div_mag num den = Some (Some (q, r)) \<and> normalized q \<and> normalized r \<and>
    limbs_val q = limbs_val num div limbs_val den \<and> limbs_val r = limbs_val num mod limbs_val den"
proof -
  have "cmp_mag num den < 0" if "length num < length den"
    using that assms normalized_length_less [of den num] by (simp add: cmp_mag_val)
  then have "\<exists>q r. div_mag num den = Some (Some (q, r))"
    using assms(3,4) by (auto simp: div_mag_def exact_division_def split: prod.splits option.splits)
  then obtain q r where "div_mag num den = Some (Some (q, r))" by blast
  with div_mag_exact [OF assms(1-3) _ _ this] assms(4) show ?thesis
    by (auto simp: exact_division_def)
qed

text \<open>C truncates towards zero.\<close>

definition quot_trunc :: "int \<Rightarrow> int \<Rightarrow> int" where
  "quot_trunc a b = sgn a * sgn b * (\<bar>a\<bar> div \<bar>b\<bar>)"

definition rem_trunc :: "int \<Rightarrow> int \<Rightarrow> int" where
  "rem_trunc a b = sgn a * (\<bar>a\<bar> mod \<bar>b\<bar>)"

lemma trunc_div_mod: "quot_trunc a b * b + rem_trunc a b = a"
proof -
  have "sgn a * sgn b * q * b = sgn a * (q * \<bar>b\<bar>)" for q
    by (simp add: abs_sgn mult.commute mult.left_commute)
  then have "quot_trunc a b * b + rem_trunc a b = sgn a * (\<bar>a\<bar> div \<bar>b\<bar> * \<bar>b\<bar> + \<bar>a\<bar> mod \<bar>b\<bar>)"
    unfolding quot_trunc_def rem_trunc_def distrib_left by (simp only:)
  then show ?thesis by (simp add: sgn_mult_abs div_mult_mod_eq)
qed

definition view_mag :: "exnum \<Rightarrow> limbs" where "view_mag v = mv_limbs (view_of v)"

lemma view_abs:
  assumes "wf_int v"
  shows "int (limbs_val (view_mag v)) = \<bar>exact_int v\<bar> \<and> normalized (view_mag v) \<and>
    (view_mag v = [] \<longleftrightarrow> exact_int v = 0) \<and>
    (exact_int v \<noteq> 0 \<longrightarrow> (mv_positive (view_of v) \<longleftrightarrow> 0 < exact_int v))"
  using view_of_int [OF assms] unfolding view_mag_def wf_view_def
  by (auto simp: view_int_def abs_if dest: normalized_val_pos split: if_splits)

lemma make_from_mag_empty: "make_from_mag [] p = fixnum 0"
  by (simp add: make_from_mag_def normalize_limbs_def)

lemma quotient_form:
  assumes "wf_int b" "exact_int b \<noteq> 0" "div_mag (view_mag a) (view_mag b) = Some (Some (q, r))"
  shows "ch_bignum_quotient a b = Some (make_from_mag q (mv_positive (view_of a) = mv_positive (view_of b)))"
    and "ch_bignum_remainder a b = Some (make_from_mag r (mv_positive (view_of a)))"
  using view_abs [OF assms(1)] assms(2,3)
  by (simp_all add: ch_bignum_quotient_def ch_bignum_remainder_def Let_def view_mag_def make_from_mag_empty)

lemma sgn_pos_if: "(if 0 < (x :: int) then n else - n) = sgn x * n" if "x \<noteq> 0"
  using that by (simp add: sgn_if)

lemma quotient_int:
  assumes "wf_int a" "wf_int b" "exact_int b \<noteq> 0" "exact_division (view_mag a) (view_mag b)"
  shows "\<exists>q. ch_bignum_quotient a b = Some q \<and> canonical_int q \<and>
    exact_int q = quot_trunc (exact_int a) (exact_int b)"
proof -
  note va = view_abs [OF assms(1)] and vb = view_abs [OF assms(2)]
  have nb: "view_mag b \<noteq> []" using vb assms(3) by simp
  then obtain q r where d: "div_mag (view_mag a) (view_mag b) = Some (Some (q, r))"
    "limbs_val q = limbs_val (view_mag a) div limbs_val (view_mag b)"
    using div_mag_exact_returns [of "view_mag a" "view_mag b"] va vb assms(4) by auto
  have v: "int (limbs_val q) = \<bar>exact_int a\<bar> div \<bar>exact_int b\<bar>"
    using d(2) va vb by (simp add: zdiv_int)
  have "(if mv_positive (view_of a) = mv_positive (view_of b) then int (limbs_val q) else - int (limbs_val q))
      = quot_trunc (exact_int a) (exact_int b)"
    using va vb assms(3) by (cases "exact_int a = 0") (auto simp: quot_trunc_def v sgn_if)
  then show ?thesis using quotient_form(1) [OF assms(2,3) d(1)] make_from_mag_correct by simp
qed

lemma remainder_int:
  assumes "wf_int a" "wf_int b" "exact_int b \<noteq> 0" "exact_division (view_mag a) (view_mag b)"
  shows "\<exists>r. ch_bignum_remainder a b = Some r \<and> canonical_int r \<and>
    exact_int r = rem_trunc (exact_int a) (exact_int b)"
proof -
  note va = view_abs [OF assms(1)] and vb = view_abs [OF assms(2)]
  have nb: "view_mag b \<noteq> []" using vb assms(3) by simp
  then obtain q r where d: "div_mag (view_mag a) (view_mag b) = Some (Some (q, r))"
    "limbs_val r = limbs_val (view_mag a) mod limbs_val (view_mag b)"
    using div_mag_exact_returns [of "view_mag a" "view_mag b"] va vb assms(4) by auto
  have v: "int (limbs_val r) = \<bar>exact_int a\<bar> mod \<bar>exact_int b\<bar>"
    using d(2) va vb by (simp add: zmod_int)
  have "(if mv_positive (view_of a) then int (limbs_val r) else - int (limbs_val r))
      = rem_trunc (exact_int a) (exact_int b)"
    using va by (cases "exact_int a = 0") (auto simp: rem_trunc_def v sgn_if)
  then show ?thesis using quotient_form(2) [OF assms(2,3) d(1)] make_from_mag_correct by simp
qed

text \<open>Whatever the divisor, a remainder that comes back is congruent to the dividend.\<close>

lemma remainder_cong:
  assumes "wf_int a" "wf_int b" "exact_int b \<noteq> 0" "length (view_mag b) \<le> 2 ^ 26"
    and "ch_bignum_remainder a b = Some r"
  shows "canonical_int r \<and> exact_int b dvd exact_int a - exact_int r \<and>
    \<bar>exact_int r\<bar> \<le> \<bar>exact_int a\<bar> \<and> (\<bar>exact_int b\<bar> \<le> \<bar>exact_int a\<bar> \<longrightarrow> \<bar>exact_int r\<bar> < \<bar>exact_int a\<bar>) \<and>
    (0 < exact_int a \<longrightarrow> 0 \<le> exact_int r)"
proof -
  note va = view_abs [OF assms(1)] and vb = view_abs [OF assms(2)]
  have nb: "view_mag b \<noteq> []" using vb assms(3) by simp
  have "\<exists>q r. div_mag (view_mag a) (view_mag b) = Some (Some (q, r))"
    using assms(5) nb by (auto simp: ch_bignum_remainder_def view_mag_def Let_def div_mag_def
      split: option.splits prod.splits if_splits)
  then obtain q m where d: "div_mag (view_mag a) (view_mag b) = Some (Some (q, m))" by blast
  obtain k where k: "limbs_val (view_mag a) = limbs_val m + k * limbs_val (view_mag b)"
    "limbs_val (view_mag b) \<le> limbs_val (view_mag a) \<longrightarrow> 0 < k"
    using div_mag_remainder [OF _ _ nb assms(4) d] va vb by auto
  have r: "exact_int r = (if mv_positive (view_of a) then int (limbs_val m) else - int (limbs_val m))"
    "canonical_int r"
    using quotient_form(2) [OF assms(2,3) d] assms(5) make_from_mag_correct by simp_all
  have ka: "\<bar>exact_int a\<bar> = int (limbs_val m) + int k * \<bar>exact_int b\<bar>" using k(1) va vb
    by (metis of_nat_add of_nat_mult)
  have kb: "\<bar>exact_int b\<bar> \<le> \<bar>exact_int a\<bar> \<Longrightarrow> 0 < int k"
    using k(2) va vb by (simp flip: of_nat_le_iff)
  have m0: "exact_int a = 0 \<Longrightarrow> limbs_val m = 0" using k(1) va by simp
  have "exact_int b dvd \<bar>exact_int a\<bar> - int (limbs_val m)" unfolding ka by simp
  moreover have "\<bar>exact_int a\<bar> - int (limbs_val m) = exact_int a - exact_int r \<or>
      \<bar>exact_int a\<bar> - int (limbs_val m) = - (exact_int a - exact_int r)"
    using r(1) va m0 by (cases "exact_int a = 0") (auto simp: abs_if)
  ultimately have "exact_int b dvd exact_int a - exact_int r" by (metis dvd_minus_iff)
  moreover have "\<bar>exact_int r\<bar> = int (limbs_val m)" using r(1) by simp
  moreover have "0 < int k \<Longrightarrow> 0 < int k * \<bar>exact_int b\<bar>" using assms(3) by simp
  moreover have "0 < exact_int a \<Longrightarrow> 0 \<le> exact_int r" using r(1) va by simp
  ultimately show ?thesis using ka kb r(2) by auto
qed

section \<open>Decimal text\<close>

text \<open>\<open>printf\<close> of an unsigned number: decimal, and zero-padded to nine digits.\<close>

definition digit_char :: "nat \<Rightarrow> char" where "digit_char d = char_of (48 + d)"

fun fmt_llu :: "nat \<Rightarrow> string" where
  "fmt_llu n = (if n < 10 then [digit_char n] else fmt_llu (n div 10) @ [digit_char (n mod 10)])"

declare fmt_llu.simps [simp del]

definition fmt_09llu :: "nat \<Rightarrow> string" where
  "fmt_09llu n = replicate (9 - length (fmt_llu n)) CHR ''0'' @ fmt_llu n"

definition fmt_lld :: "u64 \<Rightarrow> string" where
  "fmt_lld n = (if sint n < 0 then CHR ''-'' # fmt_llu (nat (- sint n)) else fmt_llu (nat (sint n)))"

text \<open>
  The loop that divides the working copy by \<open>10 ^ 9\<close> and appends each chunk reversed; its
  inner loop is the one of the single-limb division.
\<close>

lemma short_div_measure:
  assumes "work \<noteq> []" "short_div work 1000000000 = (q, r)"
  shows "limbs_val q + length q < limbs_val work + length work"
proof -
  have s: "limbs_val q = limbs_val work div 1000000000 \<and> normalized q"
    using short_div_spec [OF _ assms(2)] by simp
  have l: "length q \<le> length work"
  proof (rule ccontr)
    assume "\<not> length q \<le> length work"
    then have "limbs_val work < limbs_val q" using s normalized_length_less [of q work] by simp
    then show False using s div_le_dividend [of "limbs_val work" 1000000000] by linarith
  qed
  show ?thesis
  proof (cases "limbs_val work = 0")
    case True
    then have "q = []" using normalized_val_0 [of q] s by auto
    then show ?thesis using assms(1) True by simp
  next
    case False
    then have "limbs_val q < limbs_val work" using s by simp
    then show ?thesis using l by linarith
  qed
qed

function to_string_loop :: "limbs \<Rightarrow> string \<Rightarrow> string" where
  "to_string_loop work digits =
     (if work = [] then digits
      else let (work', rem) = short_div work 1000000000;
               chunk = (if work' = [] then fmt_llu (unat rem) else fmt_09llu (unat rem))
           in to_string_loop work' (digits @ rev chunk))"
  by pat_completeness auto
termination
  by (relation "measure (\<lambda>(w, d). limbs_val w + length w)") (auto intro: short_div_measure [OF _ sym])

declare to_string_loop.simps [simp del]

definition ch_bignum_to_string :: "exnum \<Rightarrow> string" where
  "ch_bignum_to_string v =
     (if is_fixnum v then (case v of Imm w \<Rightarrow> fmt_lld (ch_to_fixnum w) | _ \<Rightarrow> [])
      else let m = view_of v
           in if mv_limbs m = [] then ''0''
              else let digits = to_string_loop (mv_limbs m) []
                   in (if mv_positive m then [] else ''-'') @ rev digits)"

text \<open>\<open>text\<close> is the first \<open>len\<close> characters of the argument; a null pointer has none.\<close>

definition is_digit :: "char \<Rightarrow> bool" where "is_digit c \<longleftrightarrow> (of_char c :: nat) \<in> {48..57}"

definition digit_val :: "char \<Rightarrow> nat" where "digit_val c = of_char c - 48"

definition parse_step :: "limbs \<Rightarrow> char \<Rightarrow> limbs" where
  "parse_step ls c = normalize_limbs (add_mag (mul_mag ls [10]) [of_nat (digit_val c)])"

definition ch_bignum_parse_decimal :: "string \<Rightarrow> exnum" where
  "ch_bignum_parse_decimal s =
     (if s = [] then undef
      else let positive = (hd s \<noteq> CHR ''-'');
               ds = (if hd s = CHR ''+'' \<or> hd s = CHR ''-'' then tl s else s)
           in if ds = [] then undef
              else if \<not> list_all is_digit ds then undef
              else let ls = foldl parse_step [] ds
                   in if ls = [] then fixnum 0 else make_from_mag ls positive)"

definition dec_val :: "string \<Rightarrow> nat" where
  "dec_val s = foldl (\<lambda>n c. 10 * n + digit_val c) 0 s"

lemma digit_val_small: "is_digit c \<Longrightarrow> digit_val c < 10"
  unfolding is_digit_def digit_val_def atLeastAtMost_iff by linarith

lemma foldl_parse_step:
  "list_all is_digit s \<Longrightarrow>
   limbs_val (foldl parse_step ls s) = foldl (\<lambda>n c. 10 * n + digit_val c) (limbs_val ls) s"
proof (induction s arbitrary: ls)
  case (Cons c s)
  have "limbs_val (parse_step ls c) = 10 * limbs_val ls + digit_val c"
    using Cons.prems digit_val_small [of c]
    by (simp add: parse_step_def add_mag_val mul_mag_val unat_of_nat mult.commute)
  then show ?case using Cons by simp
qed simp

lemma fmt_llu_digits: "list_all is_digit (fmt_llu n) \<and> fmt_llu n \<noteq> [] \<and> dec_val (fmt_llu n) = n"
proof (induction n rule: fmt_llu.induct)
  case (1 n)
  have d: "k < 10 \<Longrightarrow> is_digit (digit_char k) \<and> digit_val (digit_char k) = k" for k
    by (simp add: is_digit_def digit_char_def digit_val_def)
  show ?case
    using 1 d [of n] d [of "n mod 10"] by (subst (1 2 3) fmt_llu.simps) (auto simp: dec_val_def)
qed

lemma parse_loop_dec: "list_all is_digit s \<Longrightarrow> limbs_val (foldl parse_step [] s) = dec_val s"
  by (simp add: foldl_parse_step dec_val_def)

lemma parse_decimal_unsigned:
  assumes "ds \<noteq> []" "list_all is_digit ds"
  shows "canonical_int (ch_bignum_parse_decimal ds) \<and>
    exact_int (ch_bignum_parse_decimal ds) = int (dec_val ds)"
proof -
  have "hd ds \<noteq> CHR ''-''" "hd ds \<noteq> CHR ''+''"
    using assms by (auto simp: neq_Nil_conv is_digit_def)
  then have "ch_bignum_parse_decimal ds = make_from_mag (foldl parse_step [] ds) True"
    using assms by (simp add: ch_bignum_parse_decimal_def Let_def make_from_mag_empty)
  then show ?thesis using make_from_mag_correct [of _ True] parse_loop_dec [OF assms(2)] by simp
qed

lemma parse_decimal_signed:
  assumes "ds \<noteq> []" "list_all is_digit ds"
  shows "canonical_int (ch_bignum_parse_decimal (CHR ''-'' # ds)) \<and>
    exact_int (ch_bignum_parse_decimal (CHR ''-'' # ds)) = - int (dec_val ds)"
proof -
  have "ch_bignum_parse_decimal (CHR ''-'' # ds) = make_from_mag (foldl parse_step [] ds) False"
    using assms by (simp add: ch_bignum_parse_decimal_def Let_def make_from_mag_empty)
  then show ?thesis using make_from_mag_correct [of _ False] parse_loop_dec [OF assms(2)] by simp
qed

lemma dec_val_append: "dec_val (xs @ ys) = dec_val xs * 10 ^ length ys + dec_val ys"
proof -
  let ?f = "\<lambda>n c. 10 * n + digit_val c"
  have "foldl ?f k ys = k * 10 ^ length ys + foldl ?f 0 ys" for k
  proof (induction ys arbitrary: k)
    case (Cons y ys)
    have "foldl ?f k (y # ys) = (10 * k + digit_val y) * 10 ^ length ys + foldl ?f 0 ys"
      using Cons.IH [of "10 * k + digit_val y"] by simp
    moreover have "foldl ?f 0 (y # ys) = digit_val y * 10 ^ length ys + foldl ?f 0 ys"
      using Cons.IH [of "digit_val y"] by simp
    ultimately show ?case by (simp add: add_mult_distrib)
  qed simp
  then show ?thesis unfolding dec_val_def foldl_append .
qed

lemma length_fmt_llu: "n < 10 ^ k \<Longrightarrow> 0 < k \<Longrightarrow> length (fmt_llu n) \<le> k"
proof (induction n arbitrary: k rule: fmt_llu.induct)
  case (1 n)
  show ?case
  proof (cases "n < 10")
    case True
    then show ?thesis using 1 by (subst fmt_llu.simps) simp
  next
    case False
    then have "k \<noteq> 1" using "1.prems" by auto
    then have k: "0 < k - 1" "k = Suc (k - 1)" using "1.prems" by auto
    have "n < 10 * 10 ^ (k - 1)" using "1.prems"(1) by (subst (asm) k(2)) simp
    then have "n div 10 < 10 ^ (k - 1)" by (simp add: div_less_iff_less_mult mult.commute)
    then have "length (fmt_llu (n div 10)) \<le> k - 1" using "1.IH" [OF False] k(1) by blast
    then show ?thesis using False k(2) by (subst fmt_llu.simps) simp
  qed
qed

lemma fmt_09llu_props:
  assumes "n < 10 ^ 9"
  shows "list_all is_digit (fmt_09llu n) \<and> length (fmt_09llu n) = 9 \<and> dec_val (fmt_09llu n) = n"
proof -
  have z: "dec_val (replicate m CHR ''0'') = 0" for m
    by (induction m) (simp_all add: dec_val_def digit_val_def)
  have "is_digit CHR ''0''" by (simp add: is_digit_def)
  then show ?thesis
    using fmt_llu_digits [of n] length_fmt_llu [of n 9] assms z
    by (auto simp: fmt_09llu_def dec_val_append list_all_iff)
qed

lemma to_string_loop_val:
  assumes "normalized work" "work \<noteq> []"
  shows "\<exists>s. to_string_loop work digits = digits @ rev s \<and> list_all is_digit s \<and> s \<noteq> [] \<and>
    dec_val s = limbs_val work"
  using assms
proof (induction work digits rule: to_string_loop.induct)
  case (1 work digits)
  obtain work' rem where d: "short_div work 1000000000 = (work', rem)" by fastforce
  have v: "limbs_val work' = limbs_val work div 1000000000" "unat rem = limbs_val work mod 1000000000"
    "normalized work'"
    using short_div_spec [OF _ d] by simp_all
  show ?case
  proof (cases "work' = []")
    case True
    then have "limbs_val work = unat rem" using v by (auto simp: div_eq_0_iff)
    then have "to_string_loop work digits = digits @ rev (fmt_llu (limbs_val work))"
      using 1(3) d True by (subst to_string_loop.simps) (simp add: to_string_loop.simps)
    then show ?thesis using fmt_llu_digits [of "limbs_val work"] by blast
  next
    case False
    let ?c = "fmt_09llu (unat rem)"
    have c: "list_all is_digit ?c \<and> length ?c = 9 \<and> dec_val ?c = unat rem"
      using v(2) by (intro fmt_09llu_props) simp
    obtain s where s: "to_string_loop work' (digits @ rev ?c) = (digits @ rev ?c) @ rev s"
      "list_all is_digit s" "s \<noteq> []" "dec_val s = limbs_val work'"
      using "1.IH" [OF 1(3) d [symmetric] refl] False v(3) by auto
    have "to_string_loop work digits = digits @ rev (s @ ?c)"
      using 1(3) d False s(1) by (subst to_string_loop.simps) simp
    moreover have "dec_val (s @ ?c) = limbs_val work"
      using c s(4) v by (simp add: dec_val_append)
    ultimately show ?thesis using c s by (intro exI [of _ "s @ ?c"]) simp
  qed
qed

text \<open>What \<open>ch_bignum_to_string\<close> writes: a sign and the decimal digits of the value.\<close>

lemma to_string_form:
  assumes "wf_int v"
  shows "\<exists>ds. ds \<noteq> [] \<and> list_all is_digit ds \<and> int (dec_val ds) = \<bar>exact_int v\<bar> \<and>
    ch_bignum_to_string v = (if exact_int v < 0 then CHR ''-'' # ds else ds)"
proof (cases v)
  case (Imm w)
  then have "is_fixnum v" "exact_int v = sint (ch_to_fixnum w)"
    using assms by (simp_all add: is_fixnum_def wf_int_def exact_int_def)
  then show ?thesis
    using Imm fmt_llu_digits [of "nat (- sint (ch_to_fixnum w))"] fmt_llu_digits [of "nat (sint (ch_to_fixnum w))"]
    by (auto simp: ch_bignum_to_string_def fmt_lld_def)
next
  case (Big ls p)
  have n: "normalized ls" "ls = [] \<longrightarrow> p" using assms Big by (auto simp: wf_int_def)
  show ?thesis
  proof (cases "ls = []")
    case True
    then show ?thesis using Big n
      by (intro exI [of _ "''0''"])
        (simp add: ch_bignum_to_string_def is_fixnum_def view_of_def exact_int_def is_digit_def dec_val_def digit_val_def)
  next
    case False
    obtain s where s: "to_string_loop ls [] = rev s" "list_all is_digit s" "s \<noteq> []" "dec_val s = limbs_val ls"
      using to_string_loop_val [OF n(1) False, of "[]"] by auto
    then show ?thesis using Big False normalized_val_pos [OF n(1) False]
      by (intro exI [of _ s]) (simp add: ch_bignum_to_string_def is_fixnum_def view_of_def exact_int_def)
  qed
qed (use assms in \<open>simp add: wf_int_def\<close>)

lemma parse_to_string:
  assumes "canonical_int v" shows "ch_bignum_parse_decimal (ch_bignum_to_string v) = v"
proof -
  have w: "wf_int v" using assms by (simp add: canonical_int_def)
  obtain ds where ds: "ds \<noteq> []" "list_all is_digit ds" "int (dec_val ds) = \<bar>exact_int v\<bar>"
    "ch_bignum_to_string v = (if exact_int v < 0 then CHR ''-'' # ds else ds)"
    using to_string_form [OF w] by blast
  have "canonical_int (ch_bignum_parse_decimal (ch_bignum_to_string v)) \<and>
      exact_int (ch_bignum_parse_decimal (ch_bignum_to_string v)) = exact_int v"
    using parse_decimal_unsigned [OF ds(1,2)] parse_decimal_signed [OF ds(1,2)] ds(3,4) by auto
  then show ?thesis using assms by (intro canonical_unique) simp_all
qed

section \<open>Properties\<close>

lemma sub_int:
  assumes "wf_int a" "wf_int b"
  shows "canonical_int (ch_bignum_sub a b) \<and> exact_int (ch_bignum_sub a b) = exact_int a - exact_int b"
  using add_int [OF assms(1), of "ch_bignum_negate b"] negate_int [OF assms(2)]
  by (simp add: ch_bignum_sub_def)

text \<open>
  C23. Addition, subtraction and multiplication of exact integers are exact for operands of any
  size and sign (fixnum or bignum), and each result is canonical: a fixnum whenever its value
  is in the i48 range, else a bignum without leading zero limbs.
\<close>
theorem bignum_ring_operations:
  assumes "wf_int a" "wf_int b"
  shows "canonical_int (ch_bignum_add a b) \<and> exact_int (ch_bignum_add a b) = exact_int a + exact_int b \<and>
    canonical_int (ch_bignum_sub a b) \<and> exact_int (ch_bignum_sub a b) = exact_int a - exact_int b \<and>
    canonical_int (ch_bignum_mul a b) \<and> exact_int (ch_bignum_mul a b) = exact_int a * exact_int b"
  using add_int [OF assms] sub_int [OF assms] mul_int [OF assms] by blast

theorem bignum_ring_operations_witness:
  "exact_int (ch_bignum_mul (Big [0, 1] True) (Big [- 1, 7] False)) = - (2 ^ 64 * (2 ^ 67 - 1 + 0 * 2 ^ 64)) \<and>
   exact_int (ch_bignum_sub (Big [0, 1] True) (Big [0, 1] True)) = 0"
  using bignum_ring_operations [of "Big [0, 1] True" "Big [- 1, 7] False"]
    bignum_ring_operations [of "Big [0, 1] True" "Big [0, 1] True"]
  by (simp add: wf_int_def normalized_def exact_int_def)

text \<open>
  \<open>ch_bignum_compare\<close> is the sign of the difference of the two integers, and
  \<open>ch_bignum_abs\<close> and \<open>ch_bignum_negate\<close> give the absolute value and the negation.
\<close>
theorem bignum_order_operations:
  assumes "wf_int a" "wf_int b"
  shows "ch_bignum_compare a b = sgn (exact_int a - exact_int b) \<and>
    wf_int (ch_bignum_abs a) \<and> exact_int (ch_bignum_abs a) = \<bar>exact_int a\<bar> \<and>
    wf_int (ch_bignum_negate a) \<and> exact_int (ch_bignum_negate a) = - exact_int a"
  using compare_int [OF assms] abs_int [OF assms(1)] negate_int [OF assms(1)] by blast

theorem bignum_order_operations_witness:
  "ch_bignum_compare (Big [0, 1] False) (Big [3] True) = - 1 \<and>
   exact_int (ch_bignum_abs (Big [0, 1] False)) = 2 ^ 64"
  using bignum_order_operations [of "Big [0, 1] False" "Big [3] True"]
  by (simp add: wf_int_def normalized_def exact_int_def sgn_if)



text \<open>
  C28. Outside those cases the division is not exact. For a dividend one limb longer than the
  divisor and a quotient that fits one limb, \<open>ch_bignum_quotient\<close> returns 256 whatever the
  real quotient is, once that quotient exceeds 256 by enough: the digit estimate compares
  unaligned limbs, so each pass subtracts the divisor once and the guard stops the loop after
  256 passes.
\<close>
theorem bignum_quotient_wrong:
  assumes "wf_int a" "wf_int b" "0 < exact_int a" "0 < exact_int b"
    and "2 \<le> length (view_mag b)" "mag_is_pow2 (view_mag b) = None"
    and "2 ^ (64 * length (view_mag b)) + 256 * exact_int b \<le> exact_int a"
    and "exact_int a < exact_int b * 2 ^ 64"
  shows "ch_bignum_quotient a b = Some (fixnum 256)"
proof -
  note va = view_abs [OF assms(1)] and vb = view_abs [OF assms(2)]
  have a: "exact_int a = int (limbs_val (view_mag a))" and b: "exact_int b = int (limbs_val (view_mag b))"
    using va vb assms(3,4) by simp_all
  have "int (2 ^ (64 * length (view_mag b)) + 256 * limbs_val (view_mag b)) \<le> int (limbs_val (view_mag a))"
    using assms(7) a b by simp
  then have lo: "2 ^ (64 * length (view_mag b)) + 256 * limbs_val (view_mag b) \<le> limbs_val (view_mag a)"
    by (simp only: of_nat_le_iff)
  have "int (limbs_val (view_mag a)) < int (limbs_val (view_mag b) * 2 ^ 64)"
    using assms(8) a b by simp
  then have hi: "limbs_val (view_mag a) < limbs_val (view_mag b) * 2 ^ 64" by (simp only: of_nat_less_iff)
  obtain r where "div_mag (view_mag a) (view_mag b) = Some (Some ([256], r))"
    using div_mag_stops_short [OF _ _ assms(5,6) lo hi] va vb by auto
  then have "ch_bignum_quotient a b = Some (make_from_mag [256] True)"
    using quotient_form(1) [OF assms(2)] va vb assms(3,4) by simp
  moreover have "make_from_mag [256] True = fixnum 256" by code_simp
  ultimately show ?thesis by simp
qed

theorem bignum_quotient_wrong_witness:
  "ch_bignum_quotient (Big [0, 0, 2 ^ 62] True) (Big [3, 2 ^ 63] True) = Some (fixnum 256) \<and>
   exact_int (Big [0, 0, 2 ^ 62] True) div exact_int (Big [3, 2 ^ 63] True) = 2 ^ 63 - 1"
proof -
  have "mag_is_pow2 [3, 9223372036854775808] = None" by code_simp
  then show ?thesis
    using bignum_quotient_wrong [of "Big [0, 0, 2 ^ 62] True" "Big [3, 2 ^ 63] True"]
    by (simp add: wf_int_def normalized_def exact_int_def view_mag_def view_of_def)
qed

text \<open>
  Division of some integers does not return: for \<open>2 ^ 128 + 5\<close> as divisor and a three-limb
  dividend whose two high limbs are full the digit estimate is \<open>UINT64_MAX\<close>, for which
  \<open>hi - lo + 1\<close> wraps to 0 and the binary search never moves.
\<close>
theorem bignum_quotient_diverges:
  "ch_bignum_quotient (Big [x, - 1, - 1] p) (Big [5, 0, 1] q) = None \<and>
   ch_bignum_remainder (Big [x, - 1, - 1] p) (Big [5, 0, 1] q) = None"
  by (simp add: ch_bignum_quotient_def ch_bignum_remainder_def view_of_def div_mag_diverges)

text \<open>
  C24. Decimal text round trip: \<open>ch_bignum_parse_decimal\<close> gives back the very value that
  \<open>ch_bignum_to_string\<close> printed, for every canonical integer, in chunks of nine digits.
\<close>
theorem bignum_decimal_roundtrip:
  assumes "canonical_int v" shows "ch_bignum_parse_decimal (ch_bignum_to_string v) = v"
  using assms by (rule parse_to_string)

theorem bignum_decimal_roundtrip_witness:
  "ch_bignum_parse_decimal (ch_bignum_to_string (Big [0, 0, 5] False)) = Big [0, 0, 5] False"
  by (rule bignum_decimal_roundtrip)
    (simp add: canonical_int_def wf_int_def normalized_def exact_int_def CH_FIXNUM_MIN_def)

text \<open>
  Negation breaks the canonical form for exactly one value: the bignum \<open>2 ^ 47\<close> becomes a
  bignum for \<open>CH_FIXNUM_MIN\<close>, which every other operation represents as a fixnum.
\<close>
theorem bignum_negate_canonical_iff:
  assumes "canonical_int a"
  shows "canonical_int (ch_bignum_negate a) \<longleftrightarrow> exact_int a \<noteq> - CH_FIXNUM_MIN"
  using negate_canonical [OF assms] negate_not_canonical [OF assms] by blast

theorem bignum_negate_canonical_iff_witness:
  "\<not> canonical_int (ch_bignum_negate (Big [140737488355328] True))"
proof -
  have "canonical_int (Big [140737488355328] True)" "exact_int (Big [140737488355328] True) = - CH_FIXNUM_MIN"
    by (simp_all add: canonical_int_def wf_int_def normalized_def exact_int_def CH_FIXNUM_MAX_def CH_FIXNUM_MIN_def)
  then show ?thesis using bignum_negate_canonical_iff [of "Big [140737488355328] True"] by simp
qed

end
