(* ===== verification/Chaaya_Rational.thy ===== *)
theory Chaaya_Rational
  imports Complex_Main Chaaya_Bignum
begin

text \<open>
  \<open>src/src/rational.c\<close>: exact rationals over the integers of \<open>Chaaya_Bignum\<close>. A division that
  does not return (see \<open>bignum_quotient_diverges\<close>) makes its callers not return, so the
  operations that divide are \<open>exnum option\<close> with \<open>None\<close> for that.
\<close>

definition is_zero_int :: "exnum \<Rightarrow> bool" where
  "is_zero_int v \<longleftrightarrow> is_exact_integer v \<and> ch_bignum_compare v (fixnum 0) = 0"

definition is_one_int :: "exnum \<Rightarrow> bool" where
  "is_one_int v \<longleftrightarrow> is_exact_integer v \<and> ch_bignum_compare v (fixnum 1) = 0"

definition is_neg_int :: "exnum \<Rightarrow> bool" where
  "is_neg_int v \<longleftrightarrow> is_exact_integer v \<and> ch_bignum_compare v (fixnum 0) < 0"

section \<open>Greatest common divisor\<close>

partial_function (option) gcd_loop :: "exnum \<Rightarrow> exnum \<Rightarrow> exnum option" where
  [code]: "gcd_loop x y =
     (if is_zero_int y then Some x
      else case ch_bignum_remainder x y of
             None \<Rightarrow> None
           | Some r \<Rightarrow> if r = undef then Some undef else gcd_loop y (ch_bignum_abs r))"

definition ch_bignum_gcd :: "exnum \<Rightarrow> exnum \<Rightarrow> exnum option" where
  "ch_bignum_gcd a b = gcd_loop (ch_bignum_abs a) (ch_bignum_abs b)"

section \<open>Construction and parts\<close>

definition ch_exact_parts :: "exnum \<Rightarrow> exnum \<times> exnum" where
  "ch_exact_parts v = (case v of Rat n d \<Rightarrow> (n, d) | _ \<Rightarrow> (v, fixnum 1))"

definition ch_make_rational :: "exnum \<Rightarrow> exnum \<Rightarrow> exnum option" where
  "ch_make_rational num den =
     (if \<not> is_exact_integer num \<or> \<not> is_exact_integer den then Some undef
      else if is_zero_int den then Some undef
      else if is_zero_int num then Some (fixnum 0)
      else let (num, den) = (if is_neg_int den then (ch_bignum_negate num, ch_bignum_negate den)
                             else (num, den))
           in case ch_bignum_gcd num den of
                None \<Rightarrow> None
              | Some g \<Rightarrow>
                  (if \<not> is_zero_int g \<and> \<not> is_one_int g
                   then (case ch_bignum_quotient num g of
                           None \<Rightarrow> None
                         | Some n \<Rightarrow> (case ch_bignum_quotient den g of
                             None \<Rightarrow> None
                           | Some d \<Rightarrow> Some (if is_one_int d then n else Rat n d)))
                   else Some (if is_one_int den then num else Rat num den)))"

section \<open>Arithmetic\<close>

definition ch_exact_negate :: "exnum \<Rightarrow> exnum option" where
  "ch_exact_negate a =
     (if is_exact_integer a then Some (ch_bignum_negate a)
      else case a of Rat n d \<Rightarrow> ch_make_rational (ch_bignum_negate n) d | _ \<Rightarrow> Some undef)"

definition ch_exact_abs :: "exnum \<Rightarrow> exnum option" where
  "ch_exact_abs a =
     (if is_exact_integer a then Some (ch_bignum_abs a)
      else case a of Rat n d \<Rightarrow> ch_make_rational (ch_bignum_abs n) d | _ \<Rightarrow> Some undef)"

definition ch_exact_add :: "exnum \<Rightarrow> exnum \<Rightarrow> exnum option" where
  "ch_exact_add a b =
     (let (an, ad) = ch_exact_parts a; (bn, bd) = ch_exact_parts b;
          num = ch_bignum_add (ch_bignum_mul an bd) (ch_bignum_mul bn ad);
          den = ch_bignum_mul ad bd
      in ch_make_rational num den)"

definition ch_exact_sub :: "exnum \<Rightarrow> exnum \<Rightarrow> exnum option" where
  "ch_exact_sub a b = (case ch_exact_negate b of None \<Rightarrow> None | Some nb \<Rightarrow> ch_exact_add a nb)"

definition ch_exact_mul :: "exnum \<Rightarrow> exnum \<Rightarrow> exnum option" where
  "ch_exact_mul a b =
     (let (an, ad) = ch_exact_parts a; (bn, bd) = ch_exact_parts b
      in ch_make_rational (ch_bignum_mul an bn) (ch_bignum_mul ad bd))"

definition ch_exact_div :: "exnum \<Rightarrow> exnum \<Rightarrow> exnum option" where
  "ch_exact_div a b =
     (let (bn, bd) = ch_exact_parts b
      in if is_zero_int bn then Some undef
         else case ch_make_rational bd bn of
                None \<Rightarrow> None
              | Some recip \<Rightarrow> if recip = undef then Some undef else ch_exact_mul a recip)"

definition ch_exact_compare :: "exnum \<Rightarrow> exnum \<Rightarrow> int" where
  "ch_exact_compare a b =
     (if is_exact_integer a \<and> is_exact_integer b then ch_bignum_compare a b
      else let (an, ad) = ch_exact_parts a; (bn, bd) = ch_exact_parts b
           in ch_bignum_compare (ch_bignum_mul an bd) (ch_bignum_mul bn ad))"

definition ch_exact_to_string :: "exnum \<Rightarrow> string" where
  "ch_exact_to_string v =
     (if is_exact_integer v then ch_bignum_to_string v
      else case v of Rat n d \<Rightarrow> ch_bignum_to_string n @ ''/'' @ ch_bignum_to_string d | _ \<Rightarrow> ''?'')"

section \<open>Integers seen by the rational layer\<close>

lemma exact_integer_wf: "wf_int v \<Longrightarrow> is_exact_integer v"
  by (auto simp: wf_int_def is_exact_integer_def is_fixnum_def is_bignum_def split: exnum.splits)

lemma fixnum_small: "exact_int (fixnum 0) = 0" "exact_int (fixnum 1) = 1"
  by (simp_all add: fixnum_value CH_FIXNUM_MIN_def CH_FIXNUM_MAX_def)

lemma int_tests [simp]:
  assumes "wf_int v"
  shows "is_zero_int v \<longleftrightarrow> exact_int v = 0" "is_one_int v \<longleftrightarrow> exact_int v = 1"
    "is_neg_int v \<longleftrightarrow> exact_int v < 0"
  using assms
  by (simp_all add: is_zero_int_def is_one_int_def is_neg_int_def exact_integer_wf compare_int
      fixnum_small sgn_if)

lemma canonical_wf: "canonical_int v \<Longrightarrow> wf_int v"
  by (simp add: canonical_int_def)

lemma wf_not_undef: "wf_int v \<Longrightarrow> v \<noteq> undef"
proof -
  have "\<not> ch_is_fixnum CH_UNDEFINED" by code_simp
  then show "wf_int v \<Longrightarrow> v \<noteq> undef" by (auto simp: wf_int_def)
qed

definition one_limb :: "exnum \<Rightarrow> bool" where "one_limb v \<longleftrightarrow> \<bar>exact_int v\<bar> < 2 ^ 64"

lemma one_limb_length:
  assumes "wf_int v" "one_limb v" shows "length (view_mag v) \<le> 1"
proof (rule ccontr)
  assume "\<not> length (view_mag v) \<le> 1"
  then have "view_mag v \<noteq> []" "1 \<le> length (view_mag v) - 1" by auto
  then have "(2::nat) ^ (64 * 1) \<le> 2 ^ (64 * (length (view_mag v) - 1))" by (intro power_increasing) auto
  also have "\<dots> \<le> limbs_val (view_mag v)"
    using view_abs [OF assms(1)] \<open>view_mag v \<noteq> []\<close> by (intro normalized_lower) auto
  finally have "int (2 ^ 64) \<le> int (limbs_val (view_mag v))" by (simp only: of_nat_le_iff) simp
  then show False using view_abs [OF assms(1)] assms(2) by (simp add: one_limb_def)
qed

lemma one_limb_exact:
  assumes "wf_int b" "one_limb b" "exact_int b \<noteq> 0"
  shows "exact_division (view_mag a) (view_mag b)"
proof -
  have "view_mag b \<noteq> []" using view_abs [OF assms(1)] assms(3) by simp
  then have "length (view_mag b) = 1" using one_limb_length [OF assms(1,2)] by (cases "view_mag b") auto
  then show ?thesis by (simp add: exact_division_def)
qed

lemma gcd_loop_one_limb:
  assumes "wf_int x" "wf_int y" "0 \<le> exact_int x" "0 \<le> exact_int y" "one_limb y"
  shows "\<exists>g. gcd_loop x y = Some g \<and> wf_int g \<and> exact_int g = gcd (exact_int x) (exact_int y)"
  using assms
proof (induction "nat (exact_int y)" arbitrary: x y rule: less_induct)
  case less
  show ?case
  proof (cases "exact_int y = 0")
    case True
    then show ?thesis using less.prems by (subst gcd_loop.simps) simp
  next
    case False
    obtain r where r: "ch_bignum_remainder x y = Some r" "canonical_int r"
      "exact_int r = rem_trunc (exact_int x) (exact_int y)"
      using remainder_int [OF less.prems(1,2) False one_limb_exact [OF less.prems(2,5) False]] by blast
    have e: "exact_int r = exact_int x mod exact_int y"
      using r(3) less.prems(3,4) by (simp add: rem_trunc_def sgn_if)
    let ?z = "ch_bignum_abs r"
    have z: "wf_int ?z" "exact_int ?z = exact_int x mod exact_int y"
      using abs_int [OF canonical_wf [OF r(2)]] e less.prems(4) False by simp_all
    have lt: "exact_int ?z < exact_int y" using z less.prems(4) False by simp
    moreover have "0 \<le> exact_int ?z" using z less.prems(4) False by simp
    ultimately have "one_limb ?z" using less.prems(4,5) unfolding one_limb_def by linarith
    then obtain g where "gcd_loop y ?z = Some g" "wf_int g"
      "exact_int g = gcd (exact_int y) (exact_int x mod exact_int y)"
      using less.hyps [of ?z y] lt z less.prems(2,4) False by auto
    moreover have "r \<noteq> undef" using wf_not_undef canonical_wf r(2) by blast
    ultimately show ?thesis using r(1) less.prems(2) False
      by (subst gcd_loop.simps) (simp add: gcd_red_int [symmetric])
  qed
qed

text \<open>
  Beyond one limb the loop may not return, but what it returns is the greatest common divisor:
  every remainder, wrong quotient or not, is congruent to the dividend. The bound is the one
  of \<open>mag_is_pow2\<close>, whose exponent is a \<open>uint32_t\<close>.
\<close>

definition sized :: "exnum \<Rightarrow> bool" where "sized v \<longleftrightarrow> length (view_mag v) \<le> 2 ^ 26"

lemma sized_le:
  assumes "wf_int v" "wf_int w" "sized w" "\<bar>exact_int v\<bar> \<le> \<bar>exact_int w\<bar>" shows "sized v"
proof -
  have "int (limbs_val (view_mag v)) \<le> int (limbs_val (view_mag w))"
    using assms(4) view_abs [OF assms(1)] view_abs [OF assms(2)] by simp
  then have "limbs_val (view_mag v) \<le> limbs_val (view_mag w)" by (simp only: of_nat_le_iff)
  then have "\<not> length (view_mag w) < length (view_mag v)"
    using normalized_length_less [of "view_mag v" "view_mag w"] view_abs [OF assms(1)] by linarith
  then show ?thesis using assms(3) by (simp add: sized_def)
qed

lemma gcd_loop_partial:
  assumes "gcd_loop x y = Some g" "wf_int x" "wf_int y" "0 \<le> exact_int x" "0 \<le> exact_int y"
    "sized x" "sized y"
  shows "wf_int g \<and> exact_int g = gcd (exact_int x) (exact_int y)"
proof -
  let ?P = "\<lambda>x y g. wf_int x \<and> wf_int y \<and> 0 \<le> exact_int x \<and> 0 \<le> exact_int y \<and> sized x \<and> sized y \<longrightarrow>
      wf_int g \<and> exact_int g = gcd (exact_int x) (exact_int y)"
  have "?P x y g"
  proof (rule gcd_loop.raw_induct [of ?P "(x, y)" g, unfolded prod.case, OF _ assms(1)])
    fix f x y g
    assume IH: "\<And>x y g. f x y = Some g \<Longrightarrow> ?P x y g" and
      step: "(if is_zero_int y then Some x
        else case ch_bignum_remainder x y of None \<Rightarrow> None
          | Some r \<Rightarrow> if r = undef then Some undef else f y (ch_bignum_abs r)) = Some g"
    show "?P x y g"
    proof (intro impI, elim conjE)
      assume a: "wf_int x" "wf_int y" "0 \<le> exact_int x" "0 \<le> exact_int y" "sized x" "sized y"
      show "wf_int g \<and> exact_int g = gcd (exact_int x) (exact_int y)"
      proof (cases "exact_int y = 0")
        case True
        then show ?thesis using step a by simp
      next
        case False
        then obtain r where r: "ch_bignum_remainder x y = Some r"
          using step a(2) by (auto split: option.splits)
        note c = remainder_cong [OF a(1,2) False _ r]
        have rc: "canonical_int r" "exact_int y dvd exact_int x - exact_int r"
          "\<bar>exact_int r\<bar> \<le> \<bar>exact_int x\<bar>" using c a(6) by (simp_all add: sized_def)
        have "r \<noteq> undef" using wf_not_undef canonical_wf rc(1) by blast
        then have f: "f y (ch_bignum_abs r) = Some g" using step r a(2) False by simp
        have z: "wf_int (ch_bignum_abs r)" "exact_int (ch_bignum_abs r) = \<bar>exact_int r\<bar>"
          using abs_int [OF canonical_wf [OF rc(1)]] by simp_all
        then have "sized (ch_bignum_abs r)" using sized_le [OF z(1) a(1,5)] rc(3) by simp
        then have "wf_int g \<and> exact_int g = gcd (exact_int y) \<bar>exact_int r\<bar>"
          using IH [OF f] a z by simp
        moreover have "gcd (exact_int y) (exact_int r) = gcd (exact_int y) (exact_int x)"
        proof -
          obtain k where "exact_int x - exact_int r = exact_int y * k" using rc(2) by blast
          then have "exact_int x = k * exact_int y + exact_int r" by (simp add: algebra_simps)
          then show ?thesis by (simp only: gcd_add_mult)
        qed
        ultimately show ?thesis by (simp add: gcd.commute)
      qed
    qed
  qed
  then show ?thesis using assms by blast
qed

section \<open>Lowest terms\<close>

text \<open>The rational number a value stands for, and the form in which rationals are kept.\<close>

definition exact_rat :: "exnum \<Rightarrow> rat" where
  "exact_rat v = (case v of Rat n d \<Rightarrow> of_int (exact_int n) / of_int (exact_int d)
     | _ \<Rightarrow> of_int (exact_int v))"

definition wf_exact :: "exnum \<Rightarrow> bool" where
  "wf_exact v = (case v of
     Rat n d \<Rightarrow> wf_int n \<and> wf_int d \<and> 1 < exact_int d \<and> coprime (exact_int n) (exact_int d)
   | _ \<Rightarrow> wf_int v)"

lemma wf_int_rat [simp]: "\<not> wf_int (Rat n d)"
  by (simp add: wf_int_def)

lemma exact_rat_int: "wf_int v \<Longrightarrow> exact_rat v = of_int (exact_int v) \<and> wf_exact v"
  by (auto simp: exact_rat_def wf_exact_def wf_int_def split: exnum.splits)

lemma quot_trunc_dvd: "b dvd a \<Longrightarrow> b \<noteq> 0 \<Longrightarrow> quot_trunc a b = a div b"
proof -
  assume d: "b dvd a" and b: "b \<noteq> 0"
  have "rem_trunc a b = 0" using d by (simp add: rem_trunc_def)
  then have "quot_trunc a b * b = a" using trunc_div_mod [of a b] by simp
  then show ?thesis using b by (metis nonzero_mult_div_cancel_right)
qed

lemma make_rational_gcd:
  assumes n: "wf_int n" and d: "wf_int d" and "exact_int n \<noteq> 0" "0 < exact_int d"
    and g: "ch_bignum_gcd n d = Some g" "wf_int g" "exact_int g = gcd (exact_int n) (exact_int d)"
    and ex: "exact_int g \<noteq> 1 \<longrightarrow> exact_division (view_mag n) (view_mag g) \<and> exact_division (view_mag d) (view_mag g)"
  shows "\<exists>r. ch_make_rational n d = Some r \<and> wf_exact r \<and>
    exact_rat r = of_int (exact_int n) / of_int (exact_int d)"
proof -
  let ?n = "exact_int n" and ?d = "exact_int d" and ?g = "exact_int g"
  have g0: "0 < ?g" using g(3) assms(3) by simp
  define fin where "fin n' d' = (if is_one_int d' then n' else Rat n' d')" for n' d'
  have fin: "wf_exact (fin n' d') \<and> exact_rat (fin n' d') = of_int ?n / of_int ?d"
    if "wf_int n'" "wf_int d'" "exact_int n' * ?g = ?n" "exact_int d' * ?g = ?d" for n' d'
  proof -
    have "0 < exact_int d'" using that(4) assms(4) g0 by (metis zero_less_mult_pos2)
    moreover have "exact_int n' = ?n div ?g" "exact_int d' = ?d div ?g"
      using that(3,4) g0 by (metis less_irrefl nonzero_mult_div_cancel_right)+
    then have "coprime (exact_int n') (exact_int d')"
      using assms(3) unfolding g(3) by (simp add: div_gcd_coprime)
    moreover have "(of_int ?n / of_int ?d :: rat) = of_int (exact_int n') / of_int (exact_int d')"
      using g0 unfolding that(3) [symmetric] that(4) [symmetric] by simp
    ultimately show ?thesis using that(1,2) exact_rat_int [OF that(1)]
      by (auto simp: fin_def wf_exact_def exact_rat_def)
  qed
  have "ch_make_rational n d =
     (if ?g \<noteq> 1 then (case ch_bignum_quotient n g of None \<Rightarrow> None
        | Some n' \<Rightarrow> (case ch_bignum_quotient d g of None \<Rightarrow> None | Some d' \<Rightarrow> Some (fin n' d')))
      else Some (fin n d))"
    using n d assms(3,4) g g0
    by (simp add: ch_make_rational_def exact_integer_wf fin_def split: option.splits)
  moreover have "\<exists>n' d'. ch_bignum_quotient n g = Some n' \<and> ch_bignum_quotient d g = Some d' \<and>
      wf_int n' \<and> wf_int d' \<and> exact_int n' * ?g = ?n \<and> exact_int d' * ?g = ?d" if "?g \<noteq> 1"
  proof -
    note g1 = that
    have dv: "?g dvd ?n" "?g dvd ?d" by (simp_all add: g(3))
    obtain n' where "ch_bignum_quotient n g = Some n'" "canonical_int n'" "exact_int n' = quot_trunc ?n ?g"
      using quotient_int [OF n g(2)] g0 mp [OF ex g1] by auto
    moreover obtain d' where "ch_bignum_quotient d g = Some d'" "canonical_int d'" "exact_int d' = quot_trunc ?d ?g"
      using quotient_int [OF d g(2)] g0 mp [OF ex g1] by auto
    ultimately show ?thesis using dv g0 by (auto simp: quot_trunc_dvd canonical_wf)
  qed
  ultimately show ?thesis using fin [of n d] fin n d by fastforce
qed

lemma gcd_one_limb:
  assumes "wf_int n" "wf_int d" "one_limb d"
  shows "\<exists>g. ch_bignum_gcd n d = Some g \<and> wf_int g \<and> exact_int g = gcd (exact_int n) (exact_int d)"
proof -
  note an = abs_int [OF assms(1)] and ad = abs_int [OF assms(2)]
  have "one_limb (ch_bignum_abs d)" using assms(3) ad by (simp add: one_limb_def)
  then obtain g where "gcd_loop (ch_bignum_abs n) (ch_bignum_abs d) = Some g" "wf_int g"
    "exact_int g = gcd (exact_int (ch_bignum_abs n)) (exact_int (ch_bignum_abs d))"
    using gcd_loop_one_limb [of "ch_bignum_abs n" "ch_bignum_abs d"] an ad by auto
  then show ?thesis using an ad by (auto simp: ch_bignum_gcd_def)
qed

lemma make_rational_pos:
  assumes "wf_int n" "wf_int d" "exact_int n \<noteq> 0" "0 < exact_int d" "one_limb d"
  shows "\<exists>r. ch_make_rational n d = Some r \<and> wf_exact r \<and>
    exact_rat r = of_int (exact_int n) / of_int (exact_int d)"
proof -
  obtain g where g: "ch_bignum_gcd n d = Some g" "wf_int g" "exact_int g = gcd (exact_int n) (exact_int d)"
    using gcd_one_limb [OF assms(1,2,5)] by blast
  have "0 < exact_int g" "exact_int g \<le> exact_int d"
    using assms(4) unfolding g(3) by (simp_all add: gcd_le2_int)
  then have "one_limb g" "exact_int g \<noteq> 0" using assms(4,5) by (simp_all add: one_limb_def)
  then show ?thesis using make_rational_gcd [OF assms(1-4) g] one_limb_exact [OF g(2)] by blast
qed

text \<open>Any sign: the denominator is made positive first.\<close>

lemma make_rational_value:
  assumes "wf_int n" "wf_int d" "exact_int d \<noteq> 0" "one_limb d"
  shows "\<exists>r. ch_make_rational n d = Some r \<and> wf_exact r \<and>
    exact_rat r = of_int (exact_int n) / of_int (exact_int d)"
proof -
  consider "exact_int n = 0" | "exact_int n \<noteq> 0" "0 < exact_int d" | "exact_int n \<noteq> 0" "exact_int d < 0"
    using assms(3) by linarith
  then show ?thesis
  proof cases
    case 1
    then have "ch_make_rational n d = Some (fixnum 0)"
      using assms by (simp add: ch_make_rational_def exact_integer_wf)
    then show ?thesis using 1 exact_rat_int [of "fixnum 0"] by (simp add: fixnum_small)
  next
    case 2
    then show ?thesis using make_rational_pos assms by blast
  next
    case 3
    note nn = negate_int [OF assms(1)] and nd = negate_int [OF assms(2)]
    have "one_limb (ch_bignum_negate d)" using assms(4) nd by (simp add: one_limb_def)
    then obtain r where "ch_make_rational (ch_bignum_negate n) (ch_bignum_negate d) = Some r" "wf_exact r"
      "exact_rat r = of_int (- exact_int n) / of_int (- exact_int d)"
      using make_rational_pos [of "ch_bignum_negate n" "ch_bignum_negate d"] nn nd 3 by auto
    moreover have "ch_make_rational n d = ch_make_rational (ch_bignum_negate n) (ch_bignum_negate d)"
      using 3 nn nd assms by (simp add: ch_make_rational_def exact_integer_wf)
    ultimately show ?thesis by simp
  qed
qed

section \<open>Rational arithmetic\<close>

lemma parts_value:
  assumes "wf_exact v"
  shows "case ch_exact_parts v of (n, d) \<Rightarrow> wf_int n \<and> wf_int d \<and> 0 < exact_int d \<and>
    exact_rat v = of_int (exact_int n) / of_int (exact_int d)"
proof (cases v)
  case (Rat n d)
  then show ?thesis using assms by (simp add: ch_exact_parts_def wf_exact_def exact_rat_def)
qed (use assms in \<open>simp_all add: ch_exact_parts_def wf_exact_def exact_rat_def fixnum_small\<close>)

definition denom :: "exnum \<Rightarrow> int" where "denom v = exact_int (snd (ch_exact_parts v))"

lemma exact_add_value:
  assumes "wf_exact a" "wf_exact b" "denom a * denom b < 2 ^ 64"
  shows "\<exists>r. ch_exact_add a b = Some r \<and> wf_exact r \<and> exact_rat r = exact_rat a + exact_rat b"
proof -
  obtain an ad bn bd where p: "ch_exact_parts a = (an, ad)" "ch_exact_parts b = (bn, bd)" by fastforce
  note pa = parts_value [OF assms(1), unfolded p prod.case] and pb = parts_value [OF assms(2), unfolded p prod.case]
  let ?num = "ch_bignum_add (ch_bignum_mul an bd) (ch_bignum_mul bn ad)" and ?den = "ch_bignum_mul ad bd"
  have t: "wf_int (ch_bignum_mul an bd)" "wf_int (ch_bignum_mul bn ad)"
    "exact_int (ch_bignum_mul an bd) = exact_int an * exact_int bd"
    "exact_int (ch_bignum_mul bn ad) = exact_int bn * exact_int ad"
    using mul_int pa pb canonical_wf by auto
  have n: "wf_int ?num" "exact_int ?num = exact_int an * exact_int bd + exact_int bn * exact_int ad"
    using add_int [OF t(1,2)] t canonical_wf by auto
  have d: "wf_int ?den" "exact_int ?den = exact_int ad * exact_int bd"
    using mul_int pa pb canonical_wf by auto
  have pos: "0 < exact_int ad * exact_int bd" using pa pb by simp
  have "one_limb ?den" using assms(3) pos unfolding one_limb_def d(2) by (simp add: denom_def p abs_of_pos)
  then obtain r where r: "ch_make_rational ?num ?den = Some r" "wf_exact r"
    "exact_rat r = of_int (exact_int ?num) / of_int (exact_int ?den)"
    using make_rational_value [OF n(1) d(1)] pos d(2) pa pb by auto
  have "exact_rat r = exact_rat a + exact_rat b"
    using pa pb unfolding r(3) n(2) d(2) by (simp add: add_divide_eq_iff divide_add_eq_iff field_simps)
  then show ?thesis using r(1,2) by (simp add: ch_exact_add_def p)
qed

lemma exact_mul_value:
  assumes "wf_exact a" "wf_exact b" "denom a * denom b < 2 ^ 64"
  shows "\<exists>r. ch_exact_mul a b = Some r \<and> wf_exact r \<and> exact_rat r = exact_rat a * exact_rat b"
proof -
  obtain an ad bn bd where p: "ch_exact_parts a = (an, ad)" "ch_exact_parts b = (bn, bd)" by fastforce
  note pa = parts_value [OF assms(1), unfolded p prod.case] and pb = parts_value [OF assms(2), unfolded p prod.case]
  let ?num = "ch_bignum_mul an bn" and ?den = "ch_bignum_mul ad bd"
  have n: "wf_int ?num" "exact_int ?num = exact_int an * exact_int bn"
    and d: "wf_int ?den" "exact_int ?den = exact_int ad * exact_int bd"
    using mul_int pa pb canonical_wf by auto
  have pos: "0 < exact_int ad * exact_int bd" using pa pb by simp
  have "one_limb ?den" using assms(3) pos unfolding one_limb_def d(2) by (simp add: denom_def p abs_of_pos)
  then obtain r where r: "ch_make_rational ?num ?den = Some r" "wf_exact r"
    "exact_rat r = of_int (exact_int ?num) / of_int (exact_int ?den)"
    using make_rational_value [OF n(1) d(1)] pos d(2) pa pb by auto
  have "exact_rat r = exact_rat a * exact_rat b"
    using pa pb unfolding r(3) n(2) d(2) by simp
  then show ?thesis using r(1,2) by (simp add: ch_exact_mul_def p)
qed

text \<open>A fraction already in lowest terms is rebuilt as it is.\<close>

lemma make_rational_reduced:
  assumes "wf_int n" "wf_int d" "exact_int n \<noteq> 0" "1 < exact_int d" "one_limb d"
    and "coprime (exact_int n) (exact_int d)"
  shows "ch_make_rational n d = Some (Rat n d)"
proof -
  obtain g where "ch_bignum_gcd n d = Some g" "wf_int g" "exact_int g = gcd (exact_int n) (exact_int d)"
    using gcd_one_limb [OF assms(1,2,5)] by blast
  moreover have "gcd (exact_int n) (exact_int d) = 1" using assms(6) by (simp add: coprime_iff_gcd_eq_1)
  ultimately show ?thesis using assms by (simp add: ch_make_rational_def exact_integer_wf)
qed

lemma rat_parts:
  assumes "wf_exact (Rat n d)"
  shows "wf_int n \<and> wf_int d \<and> 1 < exact_int d \<and> coprime (exact_int n) (exact_int d) \<and> exact_int n \<noteq> 0"
  using assms by (auto simp: wf_exact_def)

lemma not_integer_rat: "wf_exact a \<Longrightarrow> \<not> is_exact_integer a \<Longrightarrow> \<exists>n d. a = Rat n d"
  using exact_integer_wf by (cases a) (auto simp: wf_exact_def)

lemma exact_negate_value:
  assumes "wf_exact a" "denom a < 2 ^ 64"
  shows "\<exists>r. ch_exact_negate a = Some r \<and> wf_exact r \<and> exact_rat r = - exact_rat a \<and> denom r = denom a"
proof (cases "is_exact_integer a")
  case True
  then have w: "wf_int a" using assms(1) by (cases a) (auto simp: wf_exact_def is_exact_integer_def is_fixnum_def is_bignum_def)
  have "denom v = 1" if "wf_int v" for v
    using that by (auto simp: denom_def ch_exact_parts_def fixnum_small wf_int_def split: exnum.splits)
  then show ?thesis using True negate_int [OF w] exact_rat_int [OF w] exact_rat_int [of "ch_bignum_negate a"] w
    by (simp add: ch_exact_negate_def)
next
  case False
  then obtain n d where a: "a = Rat n d" using not_integer_rat assms(1) by blast
  note p = rat_parts [OF assms(1) [unfolded a]]
  have nn: "wf_int (ch_bignum_negate n)" "exact_int (ch_bignum_negate n) = - exact_int n"
    using negate_int p by simp_all
  have "one_limb d" using p assms(2) by (simp add: one_limb_def a denom_def ch_exact_parts_def)
  then have "ch_exact_negate a = Some (Rat (ch_bignum_negate n) d)"
    using False p nn make_rational_reduced [of "ch_bignum_negate n" d] by (simp add: ch_exact_negate_def a)
  then show ?thesis using p nn by (simp add: a wf_exact_def exact_rat_def denom_def ch_exact_parts_def)
qed

lemma exact_sub_value:
  assumes "wf_exact a" "wf_exact b" "denom a * denom b < 2 ^ 64"
  shows "\<exists>r. ch_exact_sub a b = Some r \<and> wf_exact r \<and> exact_rat r = exact_rat a - exact_rat b"
proof -
  have "0 < denom a" "0 < denom b"
    using parts_value [OF assms(1)] parts_value [OF assms(2)] by (auto simp: denom_def split: prod.splits)
  then have "denom b \<le> denom a * denom b" by simp
  then obtain nb where nb: "ch_exact_negate b = Some nb" "wf_exact nb" "exact_rat nb = - exact_rat b" "denom nb = denom b"
    using exact_negate_value [OF assms(2)] assms(3) by auto
  then show ?thesis using exact_add_value [OF assms(1) nb(2)] assms(3) by (auto simp: ch_exact_sub_def)
qed

lemma exact_abs_value:
  assumes "wf_exact a" "denom a < 2 ^ 64"
  shows "\<exists>r. ch_exact_abs a = Some r \<and> wf_exact r \<and> exact_rat r = \<bar>exact_rat a\<bar>"
proof (cases "is_exact_integer a")
  case True
  then have w: "wf_int a" using assms(1) by (cases a) (auto simp: wf_exact_def is_exact_integer_def is_fixnum_def is_bignum_def)
  then show ?thesis using True abs_int [OF w] exact_rat_int [OF w] exact_rat_int [of "ch_bignum_abs a"]
    by (simp add: ch_exact_abs_def)
next
  case False
  then obtain n d where a: "a = Rat n d" using not_integer_rat assms(1) by blast
  note p = rat_parts [OF assms(1) [unfolded a]]
  have nn: "wf_int (ch_bignum_abs n)" "exact_int (ch_bignum_abs n) = \<bar>exact_int n\<bar>"
    using abs_int p by simp_all
  have "one_limb d" using p assms(2) by (simp add: one_limb_def a denom_def ch_exact_parts_def)
  then have "ch_exact_abs a = Some (Rat (ch_bignum_abs n) d)"
    using False p nn make_rational_reduced [of "ch_bignum_abs n" d] by (simp add: ch_exact_abs_def a)
  then show ?thesis using p nn by (simp add: a wf_exact_def exact_rat_def)
qed

lemma denom_pos: "wf_exact v \<Longrightarrow> 0 < denom v"
  using parts_value [of v] by (auto simp: denom_def split: prod.splits)

lemma denom_le:
  assumes "wf_exact r" "exact_rat r = of_int n / of_int d" "d \<noteq> 0"
  shows "denom r \<le> \<bar>d\<bar>"
proof -
  obtain rn rd where p: "ch_exact_parts r = (rn, rd)" by fastforce
  note pr = parts_value [OF assms(1), unfolded p prod.case]
  have co: "coprime (exact_int rn) (exact_int rd)"
    using assms(1) p by (auto simp: ch_exact_parts_def wf_exact_def fixnum_small split: exnum.splits)
  have "(of_int (exact_int rn * d) :: rat) = of_int (n * exact_int rd)"
    using pr assms(2,3) by (simp add: field_simps)
  then have "exact_int rn * d = n * exact_int rd" by (simp only: of_int_eq_iff)
  then have "exact_int rd dvd exact_int rn * d" by simp
  then have "exact_int rd dvd d" using co by (simp add: coprime_commute coprime_dvd_mult_right_iff)
  then have "\<bar>exact_int rd\<bar> \<le> \<bar>d\<bar>" using assms(3) by (intro dvd_imp_le_int)
  then show ?thesis by (simp add: denom_def p)
qed

text \<open>Division multiplies by the reciprocal, whose denominator is the numerator of the divisor.\<close>

lemma exact_div_value:
  assumes "wf_exact a" "wf_exact b" "exact_rat b \<noteq> 0"
    and "denom a * \<bar>exact_int (fst (ch_exact_parts b))\<bar> < 2 ^ 64"
  shows "\<exists>r. ch_exact_div a b = Some r \<and> wf_exact r \<and> exact_rat r = exact_rat a / exact_rat b"
proof -
  obtain bn bd where p: "ch_exact_parts b = (bn, bd)" by fastforce
  note pb = parts_value [OF assms(2), unfolded p prod.case]
  have n0: "exact_int bn \<noteq> 0" using assms(3) pb by auto
  have da: "0 < denom a" using assms(1) by (rule denom_pos)
  have small: "denom a * \<bar>exact_int bn\<bar> < 2 ^ 64" using assms(4) p by simp
  moreover have "1 * \<bar>exact_int bn\<bar> \<le> denom a * \<bar>exact_int bn\<bar>" using da by (intro mult_right_mono) auto
  ultimately have "one_limb bn" by (simp add: one_limb_def)
  then obtain c where c: "ch_make_rational bd bn = Some c" "wf_exact c"
    "exact_rat c = of_int (exact_int bd) / of_int (exact_int bn)"
    using make_rational_value [of bd bn] pb n0 by auto
  have "denom a * denom c \<le> denom a * \<bar>exact_int bn\<bar>"
    using denom_le [OF c(2,3) n0] da by (intro mult_left_mono) auto
  then obtain r where r: "ch_exact_mul a c = Some r" "wf_exact r" "exact_rat r = exact_rat a * exact_rat c"
    using exact_mul_value [OF assms(1) c(2)] small by auto
  have "c \<noteq> undef" using c(2) wf_not_undef [of undef] by (auto simp: wf_exact_def)
  moreover have "exact_rat r = exact_rat a / exact_rat b" using r(3) c(3) pb by simp
  ultimately show ?thesis using r c(1) n0 pb by (simp add: ch_exact_div_def p)
qed

lemma exact_compare_value:
  assumes "wf_exact a" "wf_exact b"
  shows "ch_exact_compare a b = (if exact_rat a < exact_rat b then - 1
    else if exact_rat a = exact_rat b then 0 else 1)"
proof -
  obtain an ad bn bd where p: "ch_exact_parts a = (an, ad)" "ch_exact_parts b = (bn, bd)" by fastforce
  note pa = parts_value [OF assms(1), unfolded p prod.case] and pb = parts_value [OF assms(2), unfolded p prod.case]
  have t: "wf_int (ch_bignum_mul an bd)" "wf_int (ch_bignum_mul bn ad)"
    "exact_int (ch_bignum_mul an bd) = exact_int an * exact_int bd"
    "exact_int (ch_bignum_mul bn ad) = exact_int bn * exact_int ad"
    using mul_int pa pb canonical_wf by auto
  have q: "exact_rat a < exact_rat b \<longleftrightarrow> exact_int an * exact_int bd < exact_int bn * exact_int ad"
    "exact_rat a = exact_rat b \<longleftrightarrow> exact_int an * exact_int bd = exact_int bn * exact_int ad"
    using pa pb by (simp_all add: divide_less_eq less_divide_eq field_simps flip: of_int_mult)
  have "ch_exact_compare a b = ch_bignum_compare (ch_bignum_mul an bd) (ch_bignum_mul bn ad)" (is "_ = ?c")
  proof (cases "is_exact_integer a \<and> is_exact_integer b")
    case True
    then have "wf_int a" "wf_int b" using assms
      by (auto simp: is_exact_integer_def is_fixnum_def is_bignum_def wf_exact_def split: exnum.splits)
    then show ?thesis using True p t compare_int
      by (auto simp: ch_exact_compare_def ch_exact_parts_def fixnum_small split: exnum.splits)
  next
    case False
    then show ?thesis by (auto simp: ch_exact_compare_def p)
  qed
  then show ?thesis unfolding q using compare_int [OF t(1,2)] t(3,4) by (simp add: sgn_if)
qed

section \<open>Properties\<close>

text \<open>
  \<open>ch_bignum_gcd\<close> never gives a wrong answer: whatever it returns is the greatest common
  divisor of the two integers, although the remainders it takes may be too large. With a
  one-limb second operand it always returns.
\<close>
theorem bignum_gcd_correct:
  assumes "wf_int a" "wf_int b" "sized a" "sized b"
  shows "(\<forall>g. ch_bignum_gcd a b = Some g \<longrightarrow> wf_int g \<and> exact_int g = gcd (exact_int a) (exact_int b)) \<and>
    (one_limb b \<longrightarrow> ch_bignum_gcd a b \<noteq> None)"
proof -
  note aa = abs_int [OF assms(1)] and ab = abs_int [OF assms(2)]
  have "sized (ch_bignum_abs a)" using sized_le [OF _ assms(1,3), of "ch_bignum_abs a"] aa by simp
  moreover have "sized (ch_bignum_abs b)" using sized_le [OF _ assms(2,4), of "ch_bignum_abs b"] ab by simp
  ultimately have "\<forall>g. ch_bignum_gcd a b = Some g \<longrightarrow>
      wf_int g \<and> exact_int g = gcd (exact_int a) (exact_int b)"
    using gcd_loop_partial [of "ch_bignum_abs a" "ch_bignum_abs b"] aa ab by (auto simp: ch_bignum_gcd_def)
  then show ?thesis using gcd_one_limb [OF assms(1,2)] by auto
qed

theorem bignum_gcd_correct_witness:
  "\<exists>g. ch_bignum_gcd (Big [0, 1, 6] True) (Big [2 ^ 63] False) = Some g \<and>
     exact_int g = gcd (exact_int (Big [0, 1, 6] True)) (exact_int (Big [2 ^ 63] False))"
  using bignum_gcd_correct [of "Big [0, 1, 6] True" "Big [2 ^ 63] False"]
  by (force simp: wf_int_def normalized_def sized_def view_mag_def view_of_def one_limb_def exact_int_def)





text \<open>
  \<open>ch_exact_compare\<close> orders exact numbers of any size as the rationals they stand for: it
  cross-multiplies and never divides.
\<close>
theorem rational_compare_order:
  assumes "wf_exact a" "wf_exact b"
  shows "ch_exact_compare a b = (if exact_rat a < exact_rat b then - 1
    else if exact_rat a = exact_rat b then 0 else 1)"
  using assms by (rule exact_compare_value)

theorem rational_compare_order_witness:
  "ch_exact_compare (Rat (Big [0, 1] False) (Big [3] True)) (Big [2 ^ 63] True) = - 1"
proof -
  have "coprime (2 ^ 64) (3 :: int)" by (simp add: coprime_iff_gcd_eq_1 gcd_non_0_int)
  then show ?thesis
    using rational_compare_order [of "Rat (Big [0, 1] False) (Big [3] True)" "Big [2 ^ 63] True"]
    by (simp add: wf_exact_def wf_int_def normalized_def exact_int_def exact_rat_def)
qed

section \<open>Binary64 values\<close>

text \<open>
  A \<open>double\<close> by its bits: biased exponent, mantissa with the implicit bit, and for finite
  bits the rational number they stand for. The C conversions compare doubles with doubles
  that are exact (integers below \<open>2 ^ 53\<close> or powers of two), so on finite values they
  are comparisons of these rationals.
\<close>

definition f64_raw_exp :: "u64 \<Rightarrow> int" where
  "f64_raw_exp u = uint (drop_bit 52 u AND 0x7FF)"

definition f64_finite :: "u64 \<Rightarrow> bool" where "f64_finite u \<longleftrightarrow> f64_raw_exp u \<noteq> 0x7FF"

definition f64_mantissa :: "u64 \<Rightarrow> u64" where
  "f64_mantissa u =
     (if f64_raw_exp u = 0 then u AND 0x000FFFFFFFFFFFFF
      else (u AND 0x000FFFFFFFFFFFFF) OR 0x0010000000000000)"

definition f64_exp :: "u64 \<Rightarrow> int" where
  "f64_exp u = (if f64_raw_exp u = 0 then 1 - 1023 - 52 else f64_raw_exp u - 1023 - 52)"

definition pow2_rat :: "int \<Rightarrow> rat" where
  "pow2_rat e = (if 0 \<le> e then 2 ^ nat e else 1 / 2 ^ nat (- e))"

definition f64_val :: "u64 \<Rightarrow> rat" where
  "f64_val u = (if bit u 63 then - 1 else 1) * (of_int (uint (f64_mantissa u)) * pow2_rat (f64_exp u))"

section \<open>From a flonum to an exact number\<close>

fun double_times :: "nat \<Rightarrow> exnum \<Rightarrow> exnum" where
  "double_times 0 v = v"
| "double_times (Suc n) v = double_times n (ch_bignum_add v v)"

text \<open>Trailing zero bits of the mantissa are cancelled against the exponent.\<close>

fun strip_zeros :: "u64 \<Rightarrow> nat \<Rightarrow> u64 \<times> nat" where
  "strip_zeros m 0 = (m, 0)"
| "strip_zeros m (Suc n) = (if m AND 1 = 0 then strip_zeros (drop_bit 1 m) n else (m, Suc n))"

definition INT64_MAX :: u64 where "INT64_MAX = 0x7FFFFFFFFFFFFFFF"

definition mantissa_num :: "u64 \<Rightarrow> exnum" where
  "mantissa_num m =
     ch_bignum_add
       (ch_bignum_mul (ch_make_integer (drop_bit 32 m)) (ch_make_integer (push_bit 32 1)))
       (ch_make_integer (m AND 0xFFFFFFFF))"

definition ch_exact_from_flonum :: "u64 \<Rightarrow> exnum option" where
  "ch_exact_from_flonum f =
     (if \<not> f64_finite f then Some undef
      else let v = f64_val f; t = \<lfloor>v\<rfloor>; negative = (v < 0) in
      if v = 0 then Some (fixnum 0)
      else if v = of_int t \<and> CH_FIXNUM_MIN \<le> t \<and> t \<le> CH_FIXNUM_MAX then Some (fixnum (word_of_int t))
      else if v = of_int t \<and> - (2 ^ 63) \<le> t \<and> t < 2 ^ 63 then Some (ch_make_integer (word_of_int t))
      else let mantissa = f64_mantissa f; exp = f64_exp f in
      if 0 \<le> exp
      then (let num = (if mantissa \<le> INT64_MAX then ch_make_integer mantissa else mantissa_num mantissa);
                num = double_times (nat exp) num
            in Some (if negative then ch_bignum_negate num else num))
      else (let (m, neg_exp) = strip_zeros mantissa (nat (- exp));
                num = (if m \<le> INT64_MAX then ch_make_integer (if negative then - m else m)
                       else if negative then ch_bignum_negate (mantissa_num m) else mantissa_num m)
            in ch_make_rational num (double_times neg_exp (fixnum 1))))"

lemma double_times_int:
  "wf_int v \<Longrightarrow> wf_int (double_times n v) \<and> exact_int (double_times n v) = exact_int v * 2 ^ n"
proof (induction n arbitrary: v)
  case (Suc n)
  have "wf_int (ch_bignum_add v v)" "exact_int (ch_bignum_add v v) = exact_int v * 2"
    using add_int [OF Suc.prems Suc.prems] canonical_wf by simp_all
  then show ?case using Suc.IH [of "ch_bignum_add v v"] by simp
qed simp

lemma fraction_field: "uint (u AND 0x000FFFFFFFFFFFFF :: u64) < 2 ^ 52"
proof -
  have "u AND 0x000FFFFFFFFFFFFF = take_bit 52 u" by (simp add: take_bit_eq_mask mask_eq_exp_minus_1)
  then have "uint (u AND 0x000FFFFFFFFFFFFF) = take_bit 52 (uint u)" by (simp add: unsigned_take_bit_eq)
  then show ?thesis using take_bit_int_less_exp [of 52 "uint u"] by simp
qed

lemma mantissa_bound: "uint (f64_mantissa f) < 2 ^ 53"
proof -
  let ?a = "f AND 0x000FFFFFFFFFFFFF" and ?b = "0x0010000000000000 :: u64"
  have "uint (?a OR ?b) = uint ?a OR uint ?b" by (simp only: unsigned_or_eq)
  moreover have "uint ?a OR uint ?b < 2 ^ 53"
    using fraction_field [of f] by (intro OR_upper) simp_all
  ultimately show ?thesis using fraction_field [of f] by (simp add: f64_mantissa_def)
qed

lemma mantissa_nonzero: "f64_raw_exp f \<noteq> 0 \<Longrightarrow> 2 ^ 52 \<le> uint (f64_mantissa f)"
proof -
  let ?a = "f AND 0x000FFFFFFFFFFFFF" and ?b = "0x0010000000000000 :: u64"
  assume "f64_raw_exp f \<noteq> 0"
  moreover have "uint (?a OR ?b) = uint ?b OR uint ?a" by (simp only: unsigned_or_eq or.commute)
  moreover have "uint ?b \<le> uint ?b OR uint ?a" by (rule or_greater_eq) simp
  ultimately show ?thesis by (simp add: f64_mantissa_def)
qed

lemma strip_zeros_val:
  assumes "strip_zeros m n = (m', n')"
  shows "uint m = uint m' * 2 ^ (n - n') \<and> n' \<le> n \<and> (n' = 0 \<or> odd (uint m')) \<and> uint m' \<le> uint m"
  using assms
proof (induction m n rule: strip_zeros.induct)
  case (2 m n)
  have odd: "m AND 1 = 0 \<longleftrightarrow> even (uint m)"
  proof -
    have "m AND 1 = 0 \<longleftrightarrow> even m" by (simp add: and_one_eq even_iff_mod_2_eq_zero)
    moreover have "odd m \<longleftrightarrow> odd (uint m)"
      using bit_uint_iff [of m 0] by (simp add: bit_0)
    ultimately show ?thesis by blast
  qed
  show ?case
  proof (cases "m AND 1 = 0")
    case True
    have d: "uint (drop_bit 1 m) = uint m div 2" by (simp add: drop_bit_Suc uint_div)
    note IH = "2.IH" [OF True]
    have e: "uint (drop_bit 1 m) = uint m' * 2 ^ (n - n')" "n' \<le> n" "n' = 0 \<or> odd (uint m')"
      "uint m' \<le> uint (drop_bit 1 m)" using IH "2.prems" True by auto
    have "uint m = 2 * uint (drop_bit 1 m)" using True odd d by simp
    moreover have "Suc n - n' = Suc (n - n')" using e(2) by simp
    moreover have "uint m div 2 \<le> uint m" using uint_ge_0 [of m] by linarith
    moreover have "uint m' \<le> uint m" using e(4) d \<open>uint m div 2 \<le> uint m\<close> by linarith
    ultimately show ?thesis using e(1-3) by simp
  next
    case False
    then show ?thesis using "2.prems" odd by auto
  qed
qed simp

lemma uint_neg_less [simp]: "- uint (m :: u64) < numeral k"
proof -
  have "- uint m \<le> 0" "(0 :: int) < numeral k" by simp_all
  then show ?thesis by (rule le_less_trans)
qed

lemma fixnum_one_wf: "exact_int (fixnum 1) = 1 \<and> wf_int (fixnum 1)"
  by (simp add: fixnum_small)

lemma sint_word_of_int: "- (2 ^ 63) \<le> t \<Longrightarrow> t < 2 ^ 63 \<Longrightarrow> sint (word_of_int t :: u64) = t"
  by (simp add: sint_sbintrunc' signed_take_bit_int_eq_self)

text \<open>A fraction with a power of two below and an odd number of one limb above is in lowest terms.\<close>

lemma make_rational_dyadic:
  assumes "wf_int n" "wf_int d" "one_limb n" "odd (exact_int n)" "exact_int d = 2 ^ k" "0 < k" "k \<le> 2 ^ 20"
  shows "ch_make_rational n d = Some (Rat n d)"
proof -
  have n0: "exact_int n \<noteq> 0" using assms(4) by auto
  have co: "coprime (exact_int n) (exact_int d)" using assms(4-6) by (simp add: coprime_commute)
  have one: "gcd (exact_int n) (exact_int d) = 1" using co by (simp add: coprime_iff_gcd_eq_1)
  have "\<exists>g. ch_bignum_gcd n d = Some g \<and> wf_int g \<and> exact_int g = 1"
  proof (cases "one_limb d")
    case True
    then show ?thesis using gcd_one_limb [OF assms(1,2) True] one by simp
  next
    case False
    note an = abs_int [OF assms(1)] and ad = abs_int [OF assms(2)]
    let ?n = "ch_bignum_abs n" and ?d = "ch_bignum_abs d"
    have lt: "exact_int ?n < exact_int ?d" "2 ^ 64 \<le> exact_int ?d"
      using an ad assms(3) False by (simp_all add: one_limb_def)
    have big: "1 < length (view_mag ?d)"
    proof (rule ccontr)
      assume "\<not> 1 < length (view_mag ?d)"
      then have "(2::nat) ^ (64 * length (view_mag ?d)) \<le> 2 ^ (64 * 1)" by (intro power_increasing) auto
      then have "limbs_val (view_mag ?d) < 2 ^ 64" using limbs_val_bound [of "view_mag ?d"] by simp
      then have "int (limbs_val (view_mag ?d)) < int (2 ^ 64)" by (simp only: of_nat_less_iff)
      then show False using view_abs [of ?d] ad lt(2) by simp
    qed
    moreover have "length (view_mag ?n) \<le> 1"
      using one_limb_length [of ?n] an assms(3) by (simp add: one_limb_def)
    ultimately have short: "length (view_mag ?n) < length (view_mag ?d)" by simp
    have sized: "length (view_mag ?d) \<le> 2 ^ 26"
    proof -
      have "2 ^ (64 * (length (view_mag ?d) - 1)) \<le> limbs_val (view_mag ?d)"
        using view_abs [of ?d] ad big by (intro normalized_lower) auto
      then have "int (2 ^ (64 * (length (view_mag ?d) - 1))) \<le> int (limbs_val (view_mag ?d))"
        by (simp only: of_nat_le_iff)
      also have "\<dots> = int (2 ^ k)" using view_abs [of ?d] ad assms(5) by simp
      finally have "(2::nat) ^ (64 * (length (view_mag ?d) - 1)) \<le> 2 ^ k" by (simp only: of_nat_le_iff)
      then have "64 * (length (view_mag ?d) - 1) \<le> k" by simp
      then show ?thesis using assms(7) by simp
    qed
    have "exact_division (view_mag ?n) (view_mag ?d)" using short sized by (simp add: exact_division_def)
    moreover have "exact_int ?d \<noteq> 0" using lt(2) by auto
    ultimately obtain r where r: "ch_bignum_remainder ?n ?d = Some r" "canonical_int r"
      "exact_int r = rem_trunc (exact_int ?n) (exact_int ?d)"
      using remainder_int [of ?n ?d] an ad by auto
    then have re: "exact_int r = \<bar>exact_int n\<bar>" using an ad lt n0 by (simp add: rem_trunc_def)
    note ar = abs_int [OF canonical_wf [OF r(2)]]
    have "one_limb (ch_bignum_abs r)" using ar re assms(3) by (simp add: one_limb_def)
    then obtain g where "gcd_loop ?d (ch_bignum_abs r) = Some g" "wf_int g"
      "exact_int g = gcd (exact_int ?d) (exact_int (ch_bignum_abs r))"
      using gcd_loop_one_limb [of ?d "ch_bignum_abs r"] ar ad re by auto
    moreover have "r \<noteq> undef" using wf_not_undef canonical_wf r(2) by blast
    moreover have "gcd_loop ?n ?d = (case ch_bignum_remainder ?n ?d of None \<Rightarrow> None
       | Some r \<Rightarrow> if r = undef then Some undef else gcd_loop ?d (ch_bignum_abs r))"
      using ad \<open>exact_int ?d \<noteq> 0\<close> by (subst gcd_loop.simps) simp
    ultimately show ?thesis using r(1) ar ad re one by (simp add: ch_bignum_gcd_def gcd.commute)
  qed
  then obtain g where "ch_bignum_gcd n d = Some g" "wf_int g" "exact_int g = 1" by blast
  moreover have "1 < exact_int d" unfolding assms(5) using assms(6) by simp
  ultimately show ?thesis using assms(1,2) n0 by (simp add: ch_make_rational_def exact_integer_wf)
qed

lemma f64_val_sign: "f64_val f = (if f64_val f < 0 then - 1 else 1) * (of_int (uint (f64_mantissa f)) * pow2_rat (f64_exp f))"
proof -
  have "0 \<le> (of_int (uint (f64_mantissa f)) :: rat)" by (simp only: of_int_0_le_iff uint_ge_0)
  then have "0 \<le> of_int (uint (f64_mantissa f)) * pow2_rat (f64_exp f)"
    by (intro mult_nonneg_nonneg) (simp_all add: pow2_rat_def)
  then show ?thesis unfolding f64_val_def by auto
qed

lemma mantissa_int:
  assumes "0 \<le> k" "k < 2 ^ 53" 
  shows "canonical_int (ch_make_integer (word_of_int k)) \<and> exact_int (ch_make_integer (word_of_int k)) = k \<and>
    canonical_int (ch_make_integer (- word_of_int k)) \<and> exact_int (ch_make_integer (- word_of_int k)) = - k"
proof -
  have "- (2 ^ 63) \<le> k" "k < 2 ^ 63" using assms by simp_all
  then have "sint (word_of_int k :: u64) = k" by (rule sint_word_of_int)
  moreover from this assms have "sint (- word_of_int k :: u64) = - k" by (subst sint_minus_u64) simp_all
  ultimately show ?thesis
    using make_integer_int [of "word_of_int k"] make_integer_int [of "- word_of_int k"] by simp
qed

text \<open>A flonum that is no 64-bit integer: an integer by its exponent, or a fraction with a power of two below.\<close>

lemma exact_from_large_flonum:
  assumes fin: "f64_finite f" and large: "f64_val f \<noteq> 0"
    "\<not> (f64_val f = of_int \<lfloor>f64_val f\<rfloor> \<and> - (2 ^ 63) \<le> \<lfloor>f64_val f\<rfloor> \<and> \<lfloor>f64_val f\<rfloor> < 2 ^ 63)"
    "\<not> (f64_val f = of_int \<lfloor>f64_val f\<rfloor> \<and> CH_FIXNUM_MIN \<le> \<lfloor>f64_val f\<rfloor> \<and> \<lfloor>f64_val f\<rfloor> \<le> CH_FIXNUM_MAX)"
    and nonneg: "0 \<le> f64_exp f"
  shows "\<exists>r. ch_exact_from_flonum f = Some r \<and> wf_exact r \<and> exact_rat r = f64_val f"
proof -
  let ?v = "f64_val f" and ?t = "\<lfloor>f64_val f\<rfloor>" and ?m = "uint (f64_mantissa f)" and ?e = "f64_exp f"
  have mx: "f64_mantissa f \<le> INT64_MAX"
    using mantissa_bound [of f] by (simp add: word_le_def INT64_MAX_def)
  have mw: "word_of_int ?m = f64_mantissa f" by simp
  note mi = mantissa_int [OF uint_ge_0 mantissa_bound [of f], unfolded mw]
  let ?n = "double_times (nat ?e) (ch_make_integer (f64_mantissa f))"
  have n: "wf_int ?n" "exact_int ?n = ?m * 2 ^ nat ?e"
    using double_times_int [of "ch_make_integer (f64_mantissa f)"] mi canonical_wf by auto
  let ?r = "if ?v < 0 then ch_bignum_negate ?n else ?n"
  have "ch_exact_from_flonum f = Some ?r"
    by (simp only: ch_exact_from_flonum_def Let_def fin not_True_eq_False if_False if_True mx nonneg
        if_not_P [OF large(1)] if_not_P [OF large(2)] if_not_P [OF large(3)])
  moreover have "wf_int ?r" "exact_int ?r = (if ?v < 0 then - 1 else 1) * (?m * 2 ^ nat ?e)"
    using n negate_int [OF n(1)] by auto
  moreover have "?v = of_int ((if ?v < 0 then - 1 else 1) * (?m * 2 ^ nat ?e))"
    using nonneg by (subst f64_val_sign) (simp add: pow2_rat_def)
  ultimately show ?thesis using exact_rat_int [of ?r] by metis
qed

lemma exact_from_fractional_flonum:
  assumes fin: "f64_finite f" and large: "f64_val f \<noteq> 0"
    "\<not> (f64_val f = of_int \<lfloor>f64_val f\<rfloor> \<and> - (2 ^ 63) \<le> \<lfloor>f64_val f\<rfloor> \<and> \<lfloor>f64_val f\<rfloor> < 2 ^ 63)"
    "\<not> (f64_val f = of_int \<lfloor>f64_val f\<rfloor> \<and> CH_FIXNUM_MIN \<le> \<lfloor>f64_val f\<rfloor> \<and> \<lfloor>f64_val f\<rfloor> \<le> CH_FIXNUM_MAX)"
    and neg: "\<not> 0 \<le> f64_exp f"
  shows "\<exists>r. ch_exact_from_flonum f = Some r \<and> wf_exact r \<and> exact_rat r = f64_val f"
proof -
  let ?v = "f64_val f" and ?t = "\<lfloor>f64_val f\<rfloor>" and ?m = "uint (f64_mantissa f)" and ?e = "f64_exp f"
  have mx: "f64_mantissa f \<le> INT64_MAX"
    using mantissa_bound [of f] by (simp add: word_le_def INT64_MAX_def)
  have mw: "word_of_int ?m = f64_mantissa f" by simp
  note mi = mantissa_int [OF uint_ge_0 mantissa_bound [of f], unfolded mw]
  let ?k = "nat (- ?e)"
  obtain m' n' where sz: "strip_zeros (f64_mantissa f) ?k = (m', n')" by fastforce
  note z = strip_zeros_val [OF sz]
  have m': "0 \<le> uint m'" "uint m' < 2 ^ 53" using z mantissa_bound [of f] by simp_all
  have mw': "word_of_int (uint m') = m'" by simp
  note mi' = mantissa_int [OF m', unfolded mw']
  have mx': "m' \<le> INT64_MAX" using m' by (simp add: word_le_def INT64_MAX_def)
  let ?s = "if ?v < 0 then - 1 else 1 :: int"
  define sg :: rat where "sg = (if ?v < 0 then - 1 else 1)"
  have sg: "sg = of_int ?s" by (simp add: sg_def)
  have "0 \<le> f64_raw_exp f" by (simp add: f64_raw_exp_def)
  then have e1: "- ?e \<le> 1074" by (auto simp: f64_exp_def)
  have v: "?v = of_int (?s * uint m') / of_int (2 ^ n')"
  proof -
    have "?k = (?k - n') + n'" using z by simp
    then have p: "(2::rat) ^ ?k = 2 ^ (?k - n') * 2 ^ n'" by (metis power_add)
    have "?v = sg * (of_int ?m * pow2_rat ?e)" unfolding sg_def by (rule f64_val_sign)
    also have "\<dots> = sg * (of_int (uint m' * 2 ^ (?k - n')) / 2 ^ ?k)"
      using neg z by (simp add: pow2_rat_def)
    also have "\<dots> = sg * of_int (uint m') / of_int (2 ^ n')" unfolding p by simp
    finally show ?thesis unfolding sg by (simp only: of_int_mult)
  qed
  have n': "0 < n'"
  proof (rule ccontr)
    assume "\<not> 0 < n'"
    then have vi: "?v = of_int (?s * uint m')" using v by simp
    then have "?t = ?s * uint m'" by (metis floor_of_int)
    moreover have "- (2 ^ 63) \<le> ?s * uint m'" "?s * uint m' < 2 ^ 63" using m' by auto
    ultimately show False using large vi by metis
  qed
  let ?n = "ch_make_integer (if ?v < 0 then - m' else m')" and ?d = "double_times n' (fixnum 1)"
  have n: "wf_int ?n" "exact_int ?n = ?s * uint m'" using mi' canonical_wf by auto
  have d: "wf_int ?d" "exact_int ?d = 2 ^ n'" using double_times_int [of "fixnum 1" n'] by (simp_all add: fixnum_small)
  have "ch_make_rational ?n ?d = Some (Rat ?n ?d)"
  proof (rule make_rational_dyadic [OF n(1) d(1) _ _ d(2) n'])
    show "one_limb ?n" using n(2) m' by (auto simp: one_limb_def)
    show "odd (exact_int ?n)" using n(2) z n' by auto
    show "n' \<le> 2 ^ 20" using conjunct1 [OF conjunct2 [OF z]] e1 by simp
  qed
  moreover have "ch_exact_from_flonum f = ch_make_rational ?n ?d"
    unfolding ch_exact_from_flonum_def Let_def sz prod.case
    by (simp only: fin not_True_eq_False if_False if_True mx' neg
        if_not_P [OF large(1)] if_not_P [OF large(2)] if_not_P [OF large(3)])
  moreover have "wf_exact (Rat ?n ?d)"
  proof -
    have "coprime (exact_int ?n) (exact_int ?d)" using n(2) d(2) z n' by (auto simp: coprime_commute)
    moreover have "1 < exact_int ?d" unfolding d(2) using n' by simp
    ultimately show ?thesis using n(1) d(1) by (simp add: wf_exact_def)
  qed
  moreover have "exact_rat (Rat ?n ?d) = ?v"
    unfolding exact_rat_def exnum.case n(2) d(2) by (rule v [symmetric])
  ultimately show ?thesis by metis
qed

text \<open>
  C25. \<open>inexact->exact\<close> loses nothing and always returns: for every finite binary64 bit
  pattern, normal or subnormal, \<open>ch_exact_from_flonum\<close> gives the exact number (fixnum, bignum
  or rational in lowest terms) that the pattern stands for.
\<close>
theorem exact_from_flonum_value:
  assumes "f64_finite f"
  shows "\<exists>r. ch_exact_from_flonum f = Some r \<and> wf_exact r \<and> exact_rat r = f64_val f"
proof -
  let ?v = "f64_val f" and ?t = "\<lfloor>f64_val f\<rfloor>" and ?m = "uint (f64_mantissa f)" and ?e = "f64_exp f"
  consider "?v = 0" | "?v \<noteq> 0" "?v = of_int ?t" "CH_FIXNUM_MIN \<le> ?t" "?t \<le> CH_FIXNUM_MAX"
    | "?v \<noteq> 0" "\<not> (?v = of_int ?t \<and> CH_FIXNUM_MIN \<le> ?t \<and> ?t \<le> CH_FIXNUM_MAX)"
      "?v = of_int ?t \<and> - (2 ^ 63) \<le> ?t \<and> ?t < 2 ^ 63"
    | "?v \<noteq> 0" "\<not> (?v = of_int ?t \<and> - (2 ^ 63) \<le> ?t \<and> ?t < 2 ^ 63)"
      "\<not> (?v = of_int ?t \<and> CH_FIXNUM_MIN \<le> ?t \<and> ?t \<le> CH_FIXNUM_MAX)" by blast
  then show ?thesis
  proof cases
    case 1
    then show ?thesis using assms exact_rat_int [of "fixnum 0"] by (simp add: ch_exact_from_flonum_def fixnum_small)
  next
    case 2
    have "sint (word_of_int ?t :: u64) = ?t"
      using 2 by (intro sint_word_of_int) (simp_all add: CH_FIXNUM_MIN_def CH_FIXNUM_MAX_def)
    then have "exact_int (fixnum (word_of_int ?t)) = ?t" using fixnum_value [of "word_of_int ?t"] 2 by simp
    then show ?thesis using assms 2 exact_rat_int [of "fixnum (word_of_int ?t)"]
      by (simp add: ch_exact_from_flonum_def Let_def)
  next
    case 3
    have "sint (word_of_int ?t :: u64) = ?t" using 3(3) by (intro sint_word_of_int) simp_all
    then have "exact_int (ch_make_integer (word_of_int ?t)) = ?t" "wf_int (ch_make_integer (word_of_int ?t))"
      using make_integer_int [of "word_of_int ?t"] canonical_wf by auto
    moreover have "ch_exact_from_flonum f = Some (ch_make_integer (word_of_int ?t))"
      using assms 3 unfolding ch_exact_from_flonum_def Let_def by presburger
    ultimately show ?thesis using 3(3) exact_rat_int [of "ch_make_integer (word_of_int ?t)"] by simp
  next
    case 4
    then show ?thesis
      using exact_from_large_flonum [OF assms 4(1-3)] exact_from_fractional_flonum [OF assms 4(1-3)] by (cases "0 \<le> ?e") blast+
  qed
qed

theorem exact_from_flonum_value_witness:
  "\<exists>r. ch_exact_from_flonum 0x3FB999999999999A = Some r \<and> exact_rat r = f64_val 0x3FB999999999999A"
proof -
  have "f64_finite 0x3FB999999999999A" by (simp add: f64_finite_def f64_raw_exp_def)
  then show ?thesis using exact_from_flonum_value by blast
qed

end
