(* ===== verification/Chaaya_Double.thy ===== *)
theory Chaaya_Double
  imports Chaaya_Rational
begin

text \<open>
  The \<open>double\<close> of the C sources, as binary64 bit patterns with round-to-nearest-even
  arithmetic, and the conversions of \<open>src/src/bignum.c\<close> and \<open>src/src/rational.c\<close> that use it.
  The NaN payload is the canonical one: \<open>ch_make_flonum\<close> canonicalises it.
\<close>

section \<open>Classes and rounding\<close>

abbreviation f64_sign :: "u64 \<Rightarrow> bool" where "f64_sign u \<equiv> bit u 63"

definition f64_frac :: "u64 \<Rightarrow> u64" where "f64_frac u = u AND 0x000FFFFFFFFFFFFF"

definition f64_nan :: "u64 \<Rightarrow> bool" where "f64_nan u \<longleftrightarrow> f64_raw_exp u = 0x7FF \<and> f64_frac u \<noteq> 0"
definition f64_inf :: "u64 \<Rightarrow> bool" where "f64_inf u \<longleftrightarrow> f64_raw_exp u = 0x7FF \<and> f64_frac u = 0"

definition f64_signed :: "bool \<Rightarrow> u64 \<Rightarrow> u64" where
  "f64_signed s m = (if s then m OR 0x8000000000000000 else m)"

definition f64_infinity :: "bool \<Rightarrow> u64" where "f64_infinity s = f64_signed s 0x7FF0000000000000"

definition round_half_even :: "rat \<Rightarrow> int" where
  "round_half_even r =
     (let f = \<lfloor>r\<rfloor>; d = r - of_int f
      in if d < 1 / 2 then f else if 1 / 2 < d then f + 1 else if even f then f else f + 1)"

text \<open>The exponent of the last place for a magnitude \<open>r\<close>: subnormal spacing or 53 bits.\<close>

definition f64_scale :: "rat \<Rightarrow> int option" where
  "f64_scale r = find (\<lambda>q. r < pow2_rat (q + 53)) [- 1074..971]"

definition f64_round :: "bool \<Rightarrow> rat \<Rightarrow> u64" where
  "f64_round s r =
     (case f64_scale r of
        None \<Rightarrow> f64_infinity s
      | Some q \<Rightarrow>
          (let b = (q + 1074) * 2 ^ 52 + round_half_even (r / pow2_rat q)
           in if 0x7FF0000000000000 \<le> b then f64_infinity s else f64_signed s (word_of_int b)))"

section \<open>Arithmetic\<close>

definition f64_of_int :: "int \<Rightarrow> u64" where "f64_of_int n = f64_round (n < 0) (of_int \<bar>n\<bar>)"

definition f64_neg :: "u64 \<Rightarrow> u64" where "f64_neg a = a XOR 0x8000000000000000"

definition f64_of_rat :: "bool \<Rightarrow> rat \<Rightarrow> u64" where
  "f64_of_rat s r = (if r = 0 then f64_signed s 0 else f64_round (r < 0) \<bar>r\<bar>)"

definition f64_add :: "u64 \<Rightarrow> u64 \<Rightarrow> u64" where
  "f64_add a b =
     (if f64_nan a \<or> f64_nan b then CH_CANONICAL_NAN
      else if f64_inf a then (if f64_inf b \<and> f64_sign a \<noteq> f64_sign b then CH_CANONICAL_NAN else a)
      else if f64_inf b then b
      else f64_of_rat (f64_sign a \<and> f64_sign b) (f64_val a + f64_val b))"

definition f64_sub :: "u64 \<Rightarrow> u64 \<Rightarrow> u64" where "f64_sub a b = f64_add a (f64_neg b)"

definition f64_zero :: "u64 \<Rightarrow> bool" where "f64_zero a \<longleftrightarrow> f64_finite a \<and> f64_val a = 0"

definition f64_mul :: "u64 \<Rightarrow> u64 \<Rightarrow> u64" where
  "f64_mul a b =
     (let s = (f64_sign a \<noteq> f64_sign b)
      in if f64_nan a \<or> f64_nan b then CH_CANONICAL_NAN
         else if f64_inf a \<or> f64_inf b
           then (if f64_zero a \<or> f64_zero b then CH_CANONICAL_NAN else f64_infinity s)
         else f64_of_rat s (f64_val a * f64_val b))"

definition f64_div :: "u64 \<Rightarrow> u64 \<Rightarrow> u64" where
  "f64_div a b =
     (let s = (f64_sign a \<noteq> f64_sign b)
      in if f64_nan a \<or> f64_nan b then CH_CANONICAL_NAN
         else if f64_inf a then (if f64_inf b then CH_CANONICAL_NAN else f64_infinity s)
         else if f64_inf b then f64_signed s 0
         else if f64_zero b then (if f64_zero a then CH_CANONICAL_NAN else f64_infinity s)
         else f64_of_rat s (f64_val a / f64_val b))"

definition f64_lt :: "u64 \<Rightarrow> u64 \<Rightarrow> bool" where
  "f64_lt a b \<longleftrightarrow> \<not> f64_nan a \<and> \<not> f64_nan b \<and>
     (if f64_inf a then f64_sign a \<and> \<not> (f64_inf b \<and> f64_sign b)
      else if f64_inf b then \<not> f64_sign b
      else f64_val a < f64_val b)"

definition f64_eq :: "u64 \<Rightarrow> u64 \<Rightarrow> bool" where
  "f64_eq a b \<longleftrightarrow> \<not> f64_nan a \<and> \<not> f64_nan b \<and>
     (if f64_inf a then f64_inf b \<and> f64_sign a = f64_sign b
      else \<not> f64_inf b \<and> f64_val a = f64_val b)"

definition f64_le :: "u64 \<Rightarrow> u64 \<Rightarrow> bool" where "f64_le a b \<longleftrightarrow> f64_lt a b \<or> f64_eq a b"

section \<open>Small integers are exact\<close>

lemma pow2_rat_pos [simp]: "0 < pow2_rat e"
  by (simp add: pow2_rat_def)

lemma pow2_rat_add: "pow2_rat (a + b) = pow2_rat a * pow2_rat b"
proof -
  have "pow2_rat e = 2 powi e" for e
    by (simp add: pow2_rat_def power_int_def power_one_over)
  then show ?thesis by (simp add: power_int_add)
qed

lemma pow2_rat_mono: "a \<le> b \<Longrightarrow> pow2_rat a \<le> pow2_rat b"
proof -
  assume "a \<le> b"
  then have "pow2_rat b = pow2_rat a * pow2_rat (b - a)" "1 \<le> pow2_rat (b - a)"
    using pow2_rat_add [of a "b - a"] by (simp_all add: pow2_rat_def)
  then show ?thesis using pow2_rat_pos [of a]
    by (simp add: mult_le_cancel_left1 not_less [symmetric])
qed

lemma round_exact: "round_half_even (of_int n) = n"
  by (simp add: round_half_even_def)

lemma u64_high_bits:
  assumes "0 \<le> b" "b < 2 ^ 63" "63 \<le> n"
  shows "\<not> bit (word_of_int b :: u64) n"
proof -
  have "take_bit 63 b = b" using assms by (simp add: take_bit_int_eq_self)
  then have "\<not> bit b n" using assms(3) by (metis bit_take_bit_iff leD)
  then show ?thesis by (simp add: bit_word_of_int_iff)
qed

lemma bit_f64_signed: "bit (f64_signed s w) n \<longleftrightarrow> bit w n \<or> s \<and> n = 63"
proof -
  have "0x8000000000000000 = (push_bit 63 1 :: u64)" by simp
  then have "bit (0x8000000000000000 :: u64) n \<longleftrightarrow> n = 63"
    by (simp only: bit_push_bit_iff) (auto simp: bit_1_iff)
  then show ?thesis by (auto simp: f64_signed_def bit_or_iff)
qed

lemma u64_fields:
  assumes "0 \<le> b" "b < 2 ^ 63"
  shows "f64_raw_exp (f64_signed s (word_of_int b)) = b div 2 ^ 52"
    and "uint (f64_frac (f64_signed s (word_of_int b))) = b mod 2 ^ 52"
    and "f64_sign (f64_signed s (word_of_int b)) = s"
proof -
  let ?w = "word_of_int b :: u64"
  have w: "uint ?w = b" using assms by (simp add: uint_word_of_int)
  have e: "0x7FF = (mask 11 :: u64)" by (simp add: mask_eq_exp_minus_1)
  have "drop_bit 52 (f64_signed s ?w) AND 0x7FF = drop_bit 52 ?w"
  proof (rule bit_word_eqI)
    fix n
    show "bit (drop_bit 52 (f64_signed s ?w) AND 0x7FF) n = bit (drop_bit 52 ?w) n"
      using u64_high_bits [OF assms, of "52 + n"] unfolding e bit_and_iff bit_drop_bit_eq o_apply bit_f64_signed bit_mask_iff
      by (auto simp: not_le [symmetric] simp del: not_le)
  qed
  then have "f64_raw_exp (f64_signed s ?w) = uint (drop_bit 52 ?w)" unfolding f64_raw_exp_def by (rule arg_cong)
  also have "\<dots> = drop_bit 52 b" unfolding unsigned_drop_bit_eq w using assms by (simp add: take_bit_int_eq_self)
  finally show "f64_raw_exp (f64_signed s ?w) = b div 2 ^ 52" unfolding drop_bit_eq_div .
  have e52: "0x000FFFFFFFFFFFFF = (mask 52 :: u64)" by (simp add: mask_eq_exp_minus_1)
  have "f64_frac (f64_signed s ?w) = take_bit 52 ?w"
    unfolding f64_frac_def e52 take_bit_eq_mask [symmetric]
    by (rule bit_eqI) (auto simp only: bit_take_bit_iff bit_f64_signed)
  then have "uint (f64_frac (f64_signed s ?w)) = uint (take_bit 52 ?w)" by (rule arg_cong)
  also have "\<dots> = take_bit 52 b" unfolding unsigned_take_bit_eq w by (rule refl)
  finally show "uint (f64_frac (f64_signed s ?w)) = b mod 2 ^ 52" unfolding take_bit_eq_mod .
  show "f64_sign (f64_signed s ?w) = s" using u64_high_bits [OF assms, of 63] by (simp add: bit_f64_signed)
qed

lemma mantissa_frac:
  "uint (f64_mantissa u) = (if f64_raw_exp u = 0 then uint (f64_frac u) else 2 ^ 52 + uint (f64_frac u))"
proof -
  have "0x0010000000000000 = (push_bit 52 1 :: u64)" by simp
  moreover have "0x000FFFFFFFFFFFFF = (mask 52 :: u64)" by (simp add: mask_eq_exp_minus_1)
  ultimately have "f64_frac u OR 0x0010000000000000 = f64_frac u + push_bit 52 1"
    unfolding f64_frac_def
    by (simp only:) (rule disjunctive_add [symmetric], auto simp only: bit_simps)
  moreover have "uint (f64_frac u + push_bit 52 1) = uint (f64_frac u) + 2 ^ 52"
    using fraction_field [of u] by (simp add: f64_frac_def uint_plus_if_size word_size)
  ultimately show ?thesis by (simp add: f64_mantissa_def f64_frac_def)
qed

lemma f64_decode:
  assumes "0 \<le> m" "m < 2 ^ 53" "- 1074 \<le> q" "q \<le> 971" "q = - 1074 \<or> 2 ^ 52 \<le> m"
  assumes u: "u = f64_signed s (word_of_int ((q + 1074) * 2 ^ 52 + m))"
  shows "f64_finite u \<and> f64_val u = (if s then - 1 else 1) * (of_int m * pow2_rat q) \<and> f64_sign u = s"
proof -
  let ?b = "(q + 1074) * 2 ^ 52 + m"
  have b: "0 \<le> ?b" "?b < 2 ^ 63" using assms(1-4) by auto
  note f = u64_fields [OF b, of s]
  have raw: "f64_raw_exp u = (q + 1074) + m div 2 ^ 52"
    unfolding u f(1) by simp
  have fr: "uint (f64_frac u) = m mod 2 ^ 52" unfolding u f(2) by (rule mod_mult_self3)
  consider "m < 2 ^ 52" "q = - 1074" | "2 ^ 52 \<le> m" using assms(5) by linarith
  then have "f64_finite u \<and> of_int (uint (f64_mantissa u)) * pow2_rat (f64_exp u) = of_int m * pow2_rat q"
  proof cases
    case 1
    then have "f64_raw_exp u = 0" "uint (f64_frac u) = m" using raw fr assms(1) by simp_all
    then show ?thesis using 1 by (simp only: mantissa_frac f64_exp_def f64_finite_def) simp
  next
    case 2
    have "(m - 2 ^ 52) div 2 ^ 52 = 0" using 2 assms(2) by simp
    moreover have "m div 2 ^ 52 = (m - 2 ^ 52) div 2 ^ 52 + 1" by simp
    ultimately have d: "m div 2 ^ 52 = 1" by simp
    then have "m mod 2 ^ 52 = m - 2 ^ 52" using minus_div_mult_eq_mod [of m "2 ^ 52"] by simp
    then have "uint (f64_frac u) = m - 2 ^ 52" "f64_raw_exp u = q + 1075" using raw fr d by simp_all
    then show ?thesis using assms(3,4) by (simp only: mantissa_frac f64_exp_def f64_finite_def) simp
  qed
  then show ?thesis using f(3) by (simp add: f64_val_def u)
qed

lemma find_upto_Some:
  fixes a b :: int
  assumes "find P [a..b] = Some q"
  shows "a \<le> q \<and> q \<le> b \<and> P q \<and> (q = a \<or> \<not> P (q - 1))"
proof -
  obtain i where i: "i < length [a..b]" "P ([a..b] ! i)" "q = [a..b] ! i" "\<forall>j<i. \<not> P ([a..b] ! j)"
    using assms unfolding find_Some_iff by blast
  have q: "q = a + int i" using i(1,3) by (simp add: nth_upto)
  have "\<not> P (q - 1)" if "q \<noteq> a"
  proof -
    have "i - 1 < i" using that q by auto
    then have "\<not> P ([a..b] ! (i - 1))" using i(4) by blast
    moreover have "[a..b] ! (i - 1) = q - 1" using i(1) that q by (simp add: nth_upto of_nat_diff)
    ultimately show ?thesis by simp
  qed
  then show ?thesis using i q by auto
qed

lemma find_upto_le:
  fixes a b :: int
  assumes "P q" "a \<le> q" "q \<le> b"
  shows "\<exists>q' \<le> q. find P [a..b] = Some q'"
proof (cases "find P [a..b]")
  case None
  then show ?thesis using assms by (auto simp: find_None_iff)
next
  case (Some q')
  have "\<not> q < q'"
  proof
    assume lt: "q < q'"
    obtain i where i: "i < length [a..b]" "q' = [a..b] ! i" "\<forall>j<i. \<not> P ([a..b] ! j)"
      using Some unfolding find_Some_iff by blast
    then have "q' = a + int i" by (simp add: nth_upto)
    then have "nat (q - a) < i" using lt assms(2) by auto
    then have "\<not> P ([a..b] ! nat (q - a))" using i(3) by blast
    moreover have "[a..b] ! nat (q - a) = q" using assms(2,3) by (simp add: nth_upto)
    ultimately show False using assms(1) by simp
  qed
  then show ?thesis using Some by auto
qed

lemma f64_scale_Some:
  assumes "f64_scale r = Some q"
  shows "- 1074 \<le> q \<and> q \<le> 971 \<and> r < pow2_rat (q + 53) \<and> (q = - 1074 \<or> pow2_rat (q + 52) \<le> r)"
  using find_upto_Some [OF assms [unfolded f64_scale_def]] by (auto simp: not_less add.commute)

lemma f64_scale_le:
  assumes "r < pow2_rat (q + 53)" "- 1074 \<le> q" "q \<le> 971"
  shows "\<exists>q' \<le> q. f64_scale r = Some q'"
  unfolding f64_scale_def by (rule find_upto_le) (rule assms)+

text \<open>A magnitude that is a multiple of its last place is rounded to itself.\<close>

lemma f64_round_exact:
  assumes "f64_scale r = Some q" "r = of_int m * pow2_rat q" "0 \<le> m" "q \<le> 970"
  shows "f64_finite (f64_round s r) \<and> f64_val (f64_round s r) = (if s then - 1 else 1) * r \<and>
    f64_sign (f64_round s r) = s"
proof -
  note sc = f64_scale_Some [OF assms(1)]
  have p: "pow2_rat (q + 53) = of_int (2 ^ 53) * pow2_rat q" "pow2_rat (q + 52) = of_int (2 ^ 52) * pow2_rat q"
    using pow2_rat_add [of 53 q] pow2_rat_add [of 52 q] by (simp_all add: pow2_rat_def [of 53] pow2_rat_def [of 52] add.commute)
  have "of_int m * pow2_rat q < of_int (2 ^ 53) * pow2_rat q" using sc unfolding assms(2) p by blast
  then have m1: "m < 2 ^ 53" using pow2_rat_pos [of q] by (simp only: mult_less_cancel_right_pos of_int_less_iff)
  have "q = - 1074 \<or> of_int (2 ^ 52) * pow2_rat q \<le> of_int m * pow2_rat q" using sc unfolding assms(2) p by blast
  then have m2: "q = - 1074 \<or> 2 ^ 52 \<le> m"
    using pow2_rat_pos [of q] by (simp only: mult_le_cancel_right_pos of_int_le_iff)
  note m = m1 m2
  have d: "r / pow2_rat q = of_int m" using assms(2) pow2_rat_pos [of q] by (simp add: less_le)
  have "(q + 1074) * 2 ^ 52 + m < 0x7FF0000000000000" using m(1) assms(4) by auto
  then have "f64_round s r = f64_signed s (word_of_int ((q + 1074) * 2 ^ 52 + m))"
    by (simp add: f64_round_def assms(1) d round_exact)
  from f64_decode [OF assms(3) m(1) _ _ m(2) this] show ?thesis using sc assms(2) by simp
qed

lemma f64_of_int_exact:
  assumes "\<bar>n\<bar> < 2 ^ 53"
  shows "f64_finite (f64_of_int n) \<and> f64_val (f64_of_int n) = of_int n"
proof -
  have "(of_int \<bar>n\<bar> :: rat) < of_int (2 ^ 53)" using assms by (simp only: of_int_less_iff)
  then have "of_int \<bar>n\<bar> < pow2_rat (0 + 53)" by (simp add: pow2_rat_def)
  then obtain q where q: "q \<le> 0" "f64_scale (of_int \<bar>n\<bar>) = Some q" using f64_scale_le [of _ 0] by auto
  have "(of_int \<bar>n\<bar> :: rat) = of_int (\<bar>n\<bar> * 2 ^ nat (- q)) * pow2_rat q"
    using q(1) by (simp add: pow2_rat_def)
  from f64_round_exact [OF q(2) this, of "n < 0"] q(1) show ?thesis by (auto simp: f64_of_int_def)
qed

section \<open>Exact numbers to doubles and back\<close>

text \<open>\<open>2 ^ 64\<close> as a double; \<open>1.0\<close> and \<open>0.0\<close>.\<close>

definition F64_2_64 :: u64 where "F64_2_64 = 0x43F0000000000000"
definition F64_1 :: u64 where "F64_1 = 0x3FF0000000000000"
definition F64_0 :: u64 where "F64_0 = 0"

fun to_f64_loop :: "limbs \<Rightarrow> u64 \<Rightarrow> u64 \<Rightarrow> u64" where
  "to_f64_loop [] r scale = r"
| "to_f64_loop (x # xs) r scale =
     to_f64_loop xs (f64_add r (f64_mul (f64_of_int (uint x)) scale)) (f64_mul scale F64_2_64)"

definition ch_bignum_to_f64 :: "exnum \<Rightarrow> u64" where
  "ch_bignum_to_f64 v =
     (if is_fixnum v then (case v of Imm w \<Rightarrow> f64_of_int (sint (ch_to_fixnum w)) | _ \<Rightarrow> 0)
      else let m = view_of v
           in if mv_limbs m = [] then F64_0
              else let r = to_f64_loop (mv_limbs m) F64_0 F64_1
                   in if mv_positive m then r else f64_neg r)"

definition ch_exact_to_f64 :: "exnum \<Rightarrow> u64" where
  "ch_exact_to_f64 v =
     (if is_exact_integer v then ch_bignum_to_f64 v
      else case v of
        Rat n d \<Rightarrow> f64_div (ch_bignum_to_f64 n) (ch_bignum_to_f64 d)
      | Imm w \<Rightarrow> if ch_is_flonum w then ch_to_flonum w else F64_0
      | Big _ _ \<Rightarrow> F64_0)"

text \<open>
  \<open>ch_double_to_exact_if_exact\<close>. The range test lets \<open>2 ^ 63\<close> through to the conversion to
  \<open>int64_t\<close>, which C leaves undefined there: \<open>oob\<close> is what the machine gives. The loop
  multiplies by two as often as the exponent says.
\<close>

fun mul_two_times :: "nat \<Rightarrow> exnum \<Rightarrow> exnum" where
  "mul_two_times 0 v = v"
| "mul_two_times (Suc n) v = mul_two_times n (ch_bignum_mul v (fixnum 2))"

definition f64_to_i64 :: "u64 \<Rightarrow> rat \<Rightarrow> u64" where
  "f64_to_i64 oob r = (if - (2 ^ 63) \<le> \<lfloor>r\<rfloor> \<and> \<lfloor>r\<rfloor> < 2 ^ 63 then word_of_int \<lfloor>r\<rfloor> else oob)"

definition ch_double_to_exact_if_exact :: "u64 \<Rightarrow> u64 \<Rightarrow> exnum" where
  "ch_double_to_exact_if_exact oob d =
     (if \<not> f64_finite d then undef
      else let r = f64_val d in
      if r \<noteq> of_int \<lfloor>r\<rfloor> then undef
      else if r = 0 then fixnum 0
      else let v = ch_make_integer (f64_to_i64 oob r) in
      if - (2 ^ 63) \<le> r \<and> r \<le> 2 ^ 63 \<and> f64_eq (ch_exact_to_f64 v) d then v
      else if f64_exp d < 0 \<or> f64_mantissa d = 0 then undef
      else let w = mul_two_times (nat (f64_exp d)) (make_bignum_from_limbs [f64_mantissa d] (0 \<le> r))
           in if f64_eq (ch_exact_to_f64 w) d then w else undef)"

lemma mul_two_times_int:
  "wf_int v \<Longrightarrow> wf_int (mul_two_times n v) \<and> exact_int (mul_two_times n v) = exact_int v * 2 ^ n"
proof (induction n arbitrary: v)
  case (Suc n)
  have "exact_int (fixnum 2) = 2" by (simp add: fixnum_value CH_FIXNUM_MIN_def CH_FIXNUM_MAX_def)
  then have "wf_int (ch_bignum_mul v (fixnum 2))" "exact_int (ch_bignum_mul v (fixnum 2)) = exact_int v * 2"
    using mul_int [OF Suc.prems, of "fixnum 2"] canonical_wf by auto
  then show ?case using Suc.IH [of "ch_bignum_mul v (fixnum 2)"] by simp
qed simp

lemma f64_finite_class: "f64_finite u \<Longrightarrow> \<not> f64_nan u \<and> \<not> f64_inf u"
  by (simp add: f64_finite_def f64_nan_def f64_inf_def)

lemma f64_eq_finite: "f64_finite a \<Longrightarrow> f64_finite b \<Longrightarrow> f64_eq a b \<longleftrightarrow> f64_val a = f64_val b"
  using f64_finite_class by (simp add: f64_eq_def)

lemma f64_lt_finite: "f64_finite a \<Longrightarrow> f64_finite b \<Longrightarrow> f64_lt a b \<longleftrightarrow> f64_val a < f64_val b"
  using f64_finite_class by (simp add: f64_lt_def)

lemma fixnum_to_f64:
  assumes "is_fixnum v"
  shows "ch_exact_to_f64 v = f64_of_int (exact_int v) \<and> f64_finite (f64_of_int (exact_int v)) \<and>
    f64_val (f64_of_int (exact_int v)) = of_int (exact_int v)"
proof -
  have "\<bar>exact_int v\<bar> < 2 ^ 53"
    using fixnum_range [OF assms] by (auto simp: CH_FIXNUM_MIN_def CH_FIXNUM_MAX_def)
  then show ?thesis using assms f64_of_int_exact
    by (auto simp: ch_exact_to_f64_def ch_bignum_to_f64_def is_exact_integer_def is_fixnum_def exact_int_def
        split: exnum.splits)
qed

lemma mantissa_path_int:
  assumes "0 \<le> f64_exp d"
  shows "wf_int (mul_two_times (nat (f64_exp d)) (make_bignum_from_limbs [f64_mantissa d] (0 \<le> f64_val d))) \<and>
    of_int (exact_int (mul_two_times (nat (f64_exp d)) (make_bignum_from_limbs [f64_mantissa d] (0 \<le> f64_val d)))) =
      f64_val d"
proof -
  let ?r = "f64_val d" and ?b = "make_bignum_from_limbs [f64_mantissa d] (0 \<le> f64_val d)"
  let ?w = "mul_two_times (nat (f64_exp d)) ?b"
  have b: "wf_int ?b" "exact_int ?b = (if ?r < 0 then - 1 else 1) * uint (f64_mantissa d)"
    using make_bignum_int [of "[f64_mantissa d]" "0 \<le> ?r"] by auto
  define sg :: rat where "sg = (if ?r < 0 then - 1 else 1)"
  have "exact_int ?w = (if ?r < 0 then - 1 else 1) * uint (f64_mantissa d) * 2 ^ nat (f64_exp d)"
    using mul_two_times_int [OF b(1)] b(2) by simp
  then have "of_int (exact_int ?w) = sg * (of_int (uint (f64_mantissa d)) * 2 ^ nat (f64_exp d))"
    by (simp add: sg_def)
  also have "\<dots> = ?r"
    using assms f64_val_sign [of d] by (simp add: pow2_rat_def flip: sg_def)
  finally show ?thesis using mul_two_times_int [OF b(1)] by simp
qed

text \<open>What comes back from a double is the integer it stands for, whatever \<open>oob\<close> is, but for \<open>2 ^ 63\<close>.\<close>

lemma double_to_exact_sound:
  assumes "ch_double_to_exact_if_exact oob d = v" "v \<noteq> undef" "f64_val d \<noteq> 2 ^ 63"
  shows "f64_finite d \<and> wf_int v \<and> of_int (exact_int v) = f64_val d"
proof -
  let ?r = "f64_val d" and ?t = "\<lfloor>f64_val d\<rfloor>"
  let ?v = "ch_make_integer (f64_to_i64 oob ?r)"
  let ?w = "mul_two_times (nat (f64_exp d)) (make_bignum_from_limbs [f64_mantissa d] (0 \<le> ?r))"
  have fin: "f64_finite d" and int: "?r = of_int ?t"
    using assms(1,2) by (auto simp: ch_double_to_exact_if_exact_def Let_def split: if_splits)
  note w = mantissa_path_int [of d]
  have v: "wf_int ?v \<and> of_int (exact_int ?v) = ?r" if "- (2 ^ 63) \<le> ?r" "?r \<le> 2 ^ 63"
  proof -
    have "- (2 ^ 63) \<le> ?t \<and> ?t < 2 ^ 63"
    proof -
      have "of_int (- (2 ^ 63)) \<le> (of_int ?t :: rat)" "of_int ?t < (of_int (2 ^ 63) :: rat)"
        using that int assms(3) by simp_all
      then show ?thesis by (simp only: of_int_le_iff of_int_less_iff)
    qed
    then have "exact_int ?v = ?t \<and> wf_int ?v"
      using make_integer_int [of "word_of_int ?t"] canonical_wf sint_word_of_int [of ?t]
      by (simp add: f64_to_i64_def)
    then show ?thesis using int by simp
  qed
  show ?thesis
  proof (cases "?r = 0")
    case True
    then have "v = fixnum 0" using assms(1) fin int by (simp add: ch_double_to_exact_if_exact_def Let_def)
    then show ?thesis using fin True by (simp add: fixnum_small)
  next
    case False
    show ?thesis
    proof (cases "- (2 ^ 63) \<le> ?r \<and> ?r \<le> 2 ^ 63 \<and> f64_eq (ch_exact_to_f64 ?v) d")
      case True
      then have "v = ?v" using assms(1) fin int False unfolding ch_double_to_exact_if_exact_def Let_def by presburger
      then show ?thesis using v True fin by blast
    next
      case no: False
      then have "v = (if f64_exp d < 0 \<or> f64_mantissa d = 0 then undef
          else if f64_eq (ch_exact_to_f64 ?w) d then ?w else undef)"
        using assms(1) fin int False unfolding ch_double_to_exact_if_exact_def Let_def by presburger
      then have "v = ?w" "0 \<le> f64_exp d" using assms(2) by (auto split: if_splits)
      then show ?thesis using w fin by blast
    qed
  qed
qed

lemma double_to_exact_fixnum:
  assumes "f64_finite d" "f64_val d = of_int n" "CH_FIXNUM_MIN \<le> n" "n \<le> CH_FIXNUM_MAX"
  shows "ch_double_to_exact_if_exact oob d = fixnum (word_of_int n)"
proof -
  let ?r = "f64_val d"
  have t: "\<lfloor>?r\<rfloor> = n" using assms(2) by simp
  have n: "- (2 ^ 63) \<le> n" "n < 2 ^ 63" using assms(3,4) by (simp_all add: CH_FIXNUM_MIN_def CH_FIXNUM_MAX_def)
  have sn: "sint (word_of_int n :: u64) = n" using n by (rule sint_word_of_int)
  have mi: "ch_make_integer (f64_to_i64 oob ?r) = fixnum (word_of_int n)"
    using n sn assms(3,4) by (simp add: f64_to_i64_def t ch_make_integer_def)
  have ei: "exact_int (fixnum (word_of_int n)) = n" using fixnum_value [of "word_of_int n"] sn assms(3,4) by simp
  show ?thesis
  proof (cases "n = 0")
    case True
    then show ?thesis using assms(1,2) by (simp add: ch_double_to_exact_if_exact_def Let_def)
  next
    case False
    have "f64_eq (ch_exact_to_f64 (fixnum (word_of_int n))) d"
      using fixnum_to_f64 [of "fixnum (word_of_int n)"] assms(1,2) by (simp add: f64_eq_finite ei)
    moreover have "(of_int (- (2 ^ 63)) :: rat) \<le> of_int n" "(of_int n :: rat) \<le> of_int (2 ^ 63)"
      using n by (simp_all only: of_int_le_iff)
    ultimately show ?thesis using assms(1,2) False mi t by (simp add: ch_double_to_exact_if_exact_def Let_def)
  qed
qed

section \<open>Large integers\<close>

definition f64_pow2 :: "nat \<Rightarrow> u64" where "f64_pow2 k = word_of_int ((1023 + int k) * 2 ^ 52)"

lemma pow2_rat_strict: "a < b \<Longrightarrow> pow2_rat a < pow2_rat b"
proof -
  assume "a < b"
  then have "pow2_rat b = pow2_rat a * pow2_rat (b - a)" "1 < pow2_rat (b - a)"
    using pow2_rat_add [of a "b - a"] by (simp_all add: pow2_rat_def)
  then show ?thesis using pow2_rat_pos [of a] by (simp add: mult_less_cancel_left1 not_le)
qed

lemma f64_scale_pow2:
  assumes "k \<le> 1023" shows "f64_scale (pow2_rat (int k)) = Some (int k - 52)"
proof -
  have "pow2_rat (int k) < pow2_rat ((int k - 52) + 53)" by (rule pow2_rat_strict) simp
  then obtain q where q: "q \<le> int k - 52" "f64_scale (pow2_rat (int k)) = Some q"
    using f64_scale_le [of _ "int k - 52"] assms by auto
  have "\<not> q + 53 \<le> int k"
    using f64_scale_Some [OF q(2)] pow2_rat_mono [of "q + 53" "int k"] by linarith
  then show ?thesis using q by simp
qed

lemma f64_round_pow2:
  assumes "k \<le> 1023"
  shows "f64_round False (pow2_rat (int k)) = f64_pow2 k \<and> f64_finite (f64_pow2 k) \<and>
    f64_val (f64_pow2 k) = pow2_rat (int k) \<and> \<not> f64_sign (f64_pow2 k)"
proof -
  let ?q = "int k - 52"
  have p: "pow2_rat (int k) = of_int (2 ^ 52) * pow2_rat ?q"
    using pow2_rat_add [of 52 ?q] by (simp add: pow2_rat_def [of 52])
  then have "pow2_rat (int k) / pow2_rat ?q = of_int (2 ^ 52)" using pow2_rat_pos [of ?q] by (simp add: less_le)
  moreover have b: "(?q + 1074) * 2 ^ 52 + 2 ^ 52 = (1023 + int k) * (2 ^ 52 :: int)" by simp
  moreover have "(1023 + int k) * 2 ^ 52 < 0x7FF0000000000000" using assms by simp
  ultimately have r: "f64_round False (pow2_rat (int k)) = f64_pow2 k"
    using f64_scale_pow2 [OF assms] round_exact [of "2 ^ 52"]
    by (simp add: f64_round_def f64_pow2_def f64_signed_def Let_def)
  have u: "f64_pow2 k = f64_signed False (word_of_int ((?q + 1074) * 2 ^ 52 + 2 ^ 52))"
    unfolding b by (simp add: f64_pow2_def f64_signed_def)
  have d: "f64_finite (f64_pow2 k) \<and> f64_val (f64_pow2 k) = (if False then - 1 else 1) * (of_int (2 ^ 52) * pow2_rat ?q) \<and>
      f64_sign (f64_pow2 k) = False"
    using assms by (intro f64_decode [OF _ _ _ _ _ u]) simp_all
  then show ?thesis using r p by simp
qed

lemma f64_pow2_times:
  assumes "j \<le> 1023" "k \<le> 1023"
  shows "f64_mul (f64_pow2 j) (f64_pow2 k) = (if j + k \<le> 1023 then f64_pow2 (j + k) else f64_infinity False)"
proof -
  note a = f64_round_pow2 [OF assms(1)] and b = f64_round_pow2 [OF assms(2)]
  have "f64_val (f64_pow2 j) * f64_val (f64_pow2 k) = pow2_rat (int (j + k))"
    using a b by (simp add: pow2_rat_add)
  then have m: "f64_mul (f64_pow2 j) (f64_pow2 k) = f64_round False (pow2_rat (int (j + k)))"
    using a b f64_finite_class pow2_rat_pos [of "int (j + k)"]
    by (simp add: f64_mul_def Let_def f64_of_rat_def less_le)
  show ?thesis
  proof (cases "j + k \<le> 1023")
    case True
    then show ?thesis using m f64_round_pow2 [OF True] by simp
  next
    case False
    have "f64_scale (pow2_rat (int (j + k))) = None"
    proof (rule ccontr)
      assume "f64_scale (pow2_rat (int (j + k))) \<noteq> None"
      then obtain q where q: "f64_scale (pow2_rat (int (j + k))) = Some q" by auto
      have "pow2_rat (q + 53) \<le> pow2_rat (int (j + k))"
        using f64_scale_Some [OF q] False by (intro pow2_rat_mono) simp
      then show False using f64_scale_Some [OF q] by simp
    qed
    then show ?thesis using False m by (simp add: f64_round_def)
  qed
qed

lemma f64_consts: "F64_1 = f64_pow2 0" "F64_2_64 = f64_pow2 64"
  by (simp_all add: F64_1_def F64_2_64_def f64_pow2_def)

lemma f64_of_int_0: "f64_of_int 0 = F64_0"
proof -
  have "(0 :: rat) < pow2_rat (- 1074 + 53)" by simp
  then obtain q where q: "q \<le> - 1074" "f64_scale 0 = Some q" using f64_scale_le [of 0 "- 1074"] by auto
  then have "q = - 1074" using f64_scale_Some [OF q(2)] by simp
  then show ?thesis using q(2) round_exact [of 0]
    by (simp add: f64_of_int_def f64_round_def F64_0_def f64_signed_def)
qed

lemma f64_zero_facts: "f64_finite F64_0" "f64_val F64_0 = 0" "\<not> f64_sign F64_0"
  using f64_of_int_exact [of 0] by (simp_all add: f64_of_int_0) (simp add: F64_0_def)

lemma f64_zero_times_pow2: "k \<le> 1023 \<Longrightarrow> f64_mul F64_0 (f64_pow2 k) = F64_0"
  using f64_zero_facts f64_round_pow2 [of k] f64_finite_class
  by (simp add: f64_mul_def Let_def f64_of_rat_def f64_signed_def F64_0_def)

lemma f64_zero_plus_zero: "f64_add F64_0 F64_0 = F64_0"
  using f64_zero_facts f64_finite_class by (simp add: f64_add_def f64_of_rat_def f64_signed_def) (simp add: F64_0_def)

lemma to_f64_zeros:
  "64 * (k + n) \<le> 1023 \<Longrightarrow>
   to_f64_loop (replicate n 0 @ xs) F64_0 (f64_pow2 (64 * k)) = to_f64_loop xs F64_0 (f64_pow2 (64 * (k + n)))"
proof (induction n arbitrary: k)
  case (Suc n)
  have "f64_mul (f64_pow2 (64 * k)) F64_2_64 = f64_pow2 (64 * Suc k)"
    using Suc.prems f64_pow2_times [of "64 * k" 64] by (simp add: f64_consts add.commute)
  then show ?case using Suc.prems Suc.IH [of "Suc k"]
    by (simp add: f64_of_int_0 f64_zero_times_pow2 f64_zero_plus_zero)
qed simp

lemma f64_nan_canon: "f64_nan CH_CANONICAL_NAN"
  by (simp add: f64_nan_def f64_raw_exp_def f64_frac_def CH_CANONICAL_NAN_def)

lemma to_f64_nan: "f64_nan r \<Longrightarrow> f64_nan (to_f64_loop xs r scale)"
  by (induction xs arbitrary: r scale) (simp_all add: f64_add_def f64_nan_canon)

lemma f64_inf_facts: "f64_inf (f64_infinity False)" "\<not> f64_nan (f64_infinity False)"
  by (simp_all add: f64_inf_def f64_nan_def f64_infinity_def f64_signed_def f64_raw_exp_def f64_frac_def)

lemma f64_zero_times_inf: "f64_mul F64_0 (f64_infinity False) = CH_CANONICAL_NAN"
  using f64_inf_facts f64_zero_facts f64_finite_class
  by (simp add: f64_mul_def f64_zero_def)

lemma f64_neg_fields: "f64_raw_exp (f64_neg u) = f64_raw_exp u" "f64_frac (f64_neg u) = f64_frac u"
proof -
  have e: "0x8000000000000000 = (push_bit 63 1 :: u64)" "0x7FF = (mask 11 :: u64)"
    "0x000FFFFFFFFFFFFF = (mask 52 :: u64)" by (simp_all add: mask_eq_exp_minus_1)
  have "drop_bit 52 (f64_neg u) AND 0x7FF = drop_bit 52 u AND 0x7FF"
    unfolding f64_neg_def e by (rule bit_word_eqI)
      (auto simp only: bit_and_iff bit_drop_bit_eq o_apply bit_xor_iff bit_push_bit_iff bit_mask_iff bit_1_iff)
  then show "f64_raw_exp (f64_neg u) = f64_raw_exp u" unfolding f64_raw_exp_def by (rule arg_cong)
  show "f64_frac (f64_neg u) = f64_frac u"
    unfolding f64_frac_def f64_neg_def e by (rule bit_word_eqI)
      (auto simp only: bit_and_iff bit_xor_iff bit_push_bit_iff bit_mask_iff bit_1_iff)
qed

lemma f64_neg_nan: "f64_nan u \<Longrightarrow> f64_nan (f64_neg u)"
  by (simp add: f64_nan_def f64_neg_fields)

text \<open>
  Conversion of a large integer to a flonum gives NaN instead of an infinity: for an
  integer with seventeen zero limbs below (every multiple of \<open>2 ^ 1088\<close>) the running scale of
  \<open>ch_bignum_to_f64\<close> has become infinite and is multiplied by a zero limb.
\<close>
theorem bignum_to_f64_nan: "f64_nan (ch_bignum_to_f64 (Big (replicate 17 0 @ x # xs) p))"
proof -
  have z: "replicate 17 (0 :: limb) @ x # xs = replicate 15 0 @ 0 # 0 # x # xs"
    by (simp add: eval_nat_numeral replicate_append_same)
  have "f64_mul (f64_pow2 960) F64_2_64 = f64_infinity False"
    using f64_pow2_times [of 960 64] by (simp add: f64_consts)
  then have "to_f64_loop (replicate 17 0 @ x # xs) F64_0 F64_1 =
      to_f64_loop (x # xs) (f64_add F64_0 CH_CANONICAL_NAN) (f64_mul (f64_infinity False) F64_2_64)"
    unfolding z f64_consts(1) using to_f64_zeros [of 0 15 "0 # 0 # x # xs"]
    by (simp add: f64_of_int_0 f64_zero_times_pow2 f64_zero_plus_zero f64_zero_times_inf del: to_f64_loop.simps(2))
      (simp add: f64_of_int_0 f64_zero_times_pow2 f64_zero_plus_zero f64_zero_times_inf)
  moreover have "f64_nan (f64_add F64_0 CH_CANONICAL_NAN)" by (simp add: f64_add_def f64_nan_canon)
  ultimately have "f64_nan (to_f64_loop (replicate 17 0 @ x # xs) F64_0 F64_1)" by (simp only: to_f64_nan)
  then show ?thesis using f64_neg_nan
    by (simp add: ch_bignum_to_f64_def is_fixnum_def view_of_def Let_def)
qed

end
