(* ===== verification/Chaaya_Datum.thy ===== *)
theory Chaaya_Datum
  imports Chaaya_Double
begin

text \<open>
  Scheme data as the compiler and the arithmetic primitives see it: numbers, symbols, pairs and
  other objects by their identity; \<open>ch_symbol_basename\<close> of \<open>src/src/value.c\<close>; and the
  arithmetic of \<open>src/src/complex.c\<close>. Pairs are read, not mutated, by this code, so they are a
  tree; a symbol is its name with a tag that tells uninterned symbols apart.
\<close>

datatype symbol = Symbol (sym_name: string) (sym_uid: nat)

datatype datum =
    DNum exnum
  | DCplx (cplx_real: u64) (cplx_imag: u64) (cplx_exact_real: bool) (cplx_exact_imag: bool)
  | DSym symbol
  | DPair (d_car: datum) (d_cdr: datum)
  | DObj nat

abbreviation DImm :: "chvalue \<Rightarrow> datum" where "DImm w \<equiv> DNum (Imm w)"
abbreviation dundef :: datum where "dundef \<equiv> DNum undef"

section \<open>Symbols\<close>

definition hyg_prefix :: string where "hyg_prefix = ''__hyg_''"

definition is_hygienic_name :: "string \<Rightarrow> bool" where
  "is_hygienic_name name \<longleftrightarrow> take 6 name = hyg_prefix"

definition ch_symbol_basename :: "symbol \<Rightarrow> string" where
  "ch_symbol_basename s =
     (let name = sym_name s
      in if \<not> is_hygienic_name name then name
         else case dropWhile is_digit (drop 6 name) of
                c # rest \<Rightarrow> if c = CHR ''_'' \<and> rest \<noteq> [] then rest else name
              | [] \<Rightarrow> name)"

definition is_symbol_named :: "datum \<Rightarrow> string \<Rightarrow> bool" where
  "is_symbol_named v name = (case v of DSym s \<Rightarrow> ch_symbol_basename s = name | _ \<Rightarrow> False)"

definition intern :: "string \<Rightarrow> datum" where "intern name = DSym (Symbol name 0)"

lemma basename_plain: "\<not> is_hygienic_name (sym_name s) \<Longrightarrow> ch_symbol_basename s = sym_name s"
  by (simp add: ch_symbol_basename_def)

section \<open>Number classes\<close>

definition d_is_fixnum :: "datum \<Rightarrow> bool" where
  "d_is_fixnum v = (case v of DNum n \<Rightarrow> is_fixnum n | _ \<Rightarrow> False)"
definition d_is_flonum :: "datum \<Rightarrow> bool" where
  "d_is_flonum v = (case v of DNum (Imm w) \<Rightarrow> ch_is_flonum w | _ \<Rightarrow> False)"
definition d_is_complex :: "datum \<Rightarrow> bool" where
  "d_is_complex v = (case v of DCplx _ _ _ _ \<Rightarrow> True | _ \<Rightarrow> False)"
definition d_is_exact_integer :: "datum \<Rightarrow> bool" where
  "d_is_exact_integer v = (case v of DNum n \<Rightarrow> is_exact_integer n | _ \<Rightarrow> False)"

definition ch_is_exact :: "datum \<Rightarrow> bool" where
  "ch_is_exact v = (case v of
       DCplx _ _ er ei \<Rightarrow> er \<and> ei
     | DNum n \<Rightarrow> is_exact_integer n \<or> is_rational_obj n
     | _ \<Rightarrow> False)"

definition ch_is_number :: "datum \<Rightarrow> bool" where
  "ch_is_number v = (case v of
       DCplx _ _ _ _ \<Rightarrow> True
     | DNum n \<Rightarrow> is_fixnum n \<or> d_is_flonum v \<or> is_bignum n \<or> is_rational_obj n
     | _ \<Rightarrow> False)"

definition d_fixnum_val :: "datum \<Rightarrow> u64" where
  "d_fixnum_val v = (case v of DNum (Imm w) \<Rightarrow> ch_to_fixnum w | _ \<Rightarrow> 0)"
definition d_flonum_val :: "datum \<Rightarrow> u64" where
  "d_flonum_val v = (case v of DNum (Imm w) \<Rightarrow> ch_to_flonum w | _ \<Rightarrow> 0)"

definition d_flonum :: "u64 \<Rightarrow> datum" where "d_flonum bits = DImm (ch_make_flonum bits)"
definition d_bool :: "bool \<Rightarrow> datum" where "d_bool b = DImm (if b then CH_TRUE else CH_FALSE)"
definition is_truthy :: "datum \<Rightarrow> bool" where "is_truthy v \<longleftrightarrow> v \<noteq> DImm CH_FALSE"

section \<open>Complex numbers\<close>

text \<open>\<open>None\<close> is not returning, as for the integer division below them.\<close>

definition ch_make_complex_ex :: "u64 \<Rightarrow> u64 \<Rightarrow> bool \<Rightarrow> bool \<Rightarrow> datum option" where
  "ch_make_complex_ex re im exact_real exact_imag =
     (if f64_eq im F64_0 \<and> \<not> f64_sign im \<and> exact_imag
      then (if exact_real
            then (case ch_exact_from_flonum re of
                    None \<Rightarrow> None
                  | Some ex \<Rightarrow> Some (if ex \<noteq> undef then DNum ex else d_flonum re))
            else Some (d_flonum re))
      else Some (DCplx re im exact_real exact_imag))"

definition ch_make_complex :: "u64 \<Rightarrow> u64 \<Rightarrow> datum option" where
  "ch_make_complex re im = ch_make_complex_ex re im False False"

definition ch_complex_parts :: "datum \<Rightarrow> (u64 \<times> u64) option" where
  "ch_complex_parts v = (case v of
       DCplx re im _ _ \<Rightarrow> Some (re, im)
     | DNum n \<Rightarrow>
         if is_fixnum n then Some (f64_of_int (sint (d_fixnum_val v)), F64_0)
         else if d_is_flonum v then Some (d_flonum_val v, F64_0)
         else if is_bignum n \<or> is_rational_obj n then Some (ch_exact_to_f64 n, F64_0)
         else None
     | _ \<Rightarrow> None)"

definition both_parts :: "datum \<Rightarrow> datum \<Rightarrow> (u64 \<times> u64 \<times> u64 \<times> u64) option" where
  "both_parts a b = (case (ch_complex_parts a, ch_complex_parts b) of
     (Some (ar, ai), Some (br, bi)) \<Rightarrow> Some (ar, ai, br, bi) | _ \<Rightarrow> None)"

definition ch_complex_add :: "datum \<Rightarrow> datum \<Rightarrow> datum option" where
  "ch_complex_add a b = (case both_parts a b of None \<Rightarrow> Some dundef
     | Some (ar, ai, br, bi) \<Rightarrow> ch_make_complex (f64_add ar br) (f64_add ai bi))"

definition ch_complex_sub :: "datum \<Rightarrow> datum \<Rightarrow> datum option" where
  "ch_complex_sub a b = (case both_parts a b of None \<Rightarrow> Some dundef
     | Some (ar, ai, br, bi) \<Rightarrow> ch_make_complex (f64_sub ar br) (f64_sub ai bi))"

definition ch_complex_mul :: "datum \<Rightarrow> datum \<Rightarrow> datum option" where
  "ch_complex_mul a b = (case both_parts a b of None \<Rightarrow> Some dundef
     | Some (ar, ai, br, bi) \<Rightarrow>
         ch_make_complex (f64_sub (f64_mul ar br) (f64_mul ai bi)) (f64_add (f64_mul ar bi) (f64_mul ai br)))"

definition ch_complex_div :: "datum \<Rightarrow> datum \<Rightarrow> datum option" where
  "ch_complex_div a b = (case both_parts a b of None \<Rightarrow> Some dundef
     | Some (ar, ai, br, bi) \<Rightarrow>
         (let denom = f64_add (f64_mul br br) (f64_mul bi bi)
          in if f64_eq denom F64_0 then Some dundef
             else ch_make_complex (f64_div (f64_add (f64_mul ar br) (f64_mul ai bi)) denom)
                    (f64_div (f64_sub (f64_mul ai br) (f64_mul ar bi)) denom)))"

definition ch_complex_negate :: "datum \<Rightarrow> datum option" where
  "ch_complex_negate a = (case a of
       DCplx re im er ei \<Rightarrow>
         ch_make_complex_ex (if er \<and> f64_eq re F64_0 then F64_0 else f64_neg re)
           (if ei \<and> f64_eq im F64_0 then F64_0 else f64_neg im) er ei
     | _ \<Rightarrow> (case ch_complex_parts a of None \<Rightarrow> Some dundef
         | Some (re, im) \<Rightarrow> ch_make_complex (f64_neg re) (f64_neg im)))"

text \<open>Operands that are numbers give a number: no operation of the four loses a finite exact part.\<close>

lemma complex_parts_number: "ch_is_number v \<longleftrightarrow> ch_complex_parts v \<noteq> None"
  by (auto simp: ch_is_number_def ch_complex_parts_def split: datum.splits)

end
