(* ===== verification/Chaaya_Prims.thy ===== *)
theory Chaaya_Prims
  imports Chaaya_Datum
begin

text \<open>
  The arithmetic and comparison primitives of \<open>src/src/prim_core.c\<close> that the optimiser of the
  IR knows: what the natives \<open>+ - * < > = <= >= not\<close> do at run time. A result \<open>None\<close> is not
  returning; \<open>CH_UNDEFINED\<close> is the error the native raises. \<open>oob\<close> is what the machine
  gives for the conversion of \<open>2 ^ 63\<close> to \<open>int64_t\<close> (undefined in C).
\<close>

definition as_number :: "datum \<Rightarrow> u64 option" where
  "as_number v = (case v of
       DNum n \<Rightarrow>
         if is_fixnum n then Some (f64_of_int (sint (d_fixnum_val v)))
         else if d_is_flonum v then Some (d_flonum_val v)
         else if is_bignum n \<or> is_rational_obj n then Some (ch_exact_to_f64 n)
         else None
     | _ \<Rightarrow> None)"

definition all_exact :: "datum list \<Rightarrow> bool" where "all_exact args = list_all ch_is_exact args"
definition any_complex :: "datum list \<Rightarrow> bool" where "any_complex args = list_ex d_is_complex args"
definition any_inexact :: "datum list \<Rightarrow> bool" where
  "any_inexact args = list_ex (\<lambda>v. d_is_flonum v \<or> d_is_complex v) args"

definition d_exact :: "datum \<Rightarrow> exnum" where
  "d_exact v = (case v of DNum n \<Rightarrow> n | _ \<Rightarrow> undef)"

definition mixed_num_equal :: "u64 \<Rightarrow> datum \<Rightarrow> datum \<Rightarrow> bool" where
  "mixed_num_equal oob a b =
     (if d_is_flonum a \<and> ch_is_exact b
      then (let ea = ch_double_to_exact_if_exact oob (d_flonum_val a)
            in ea \<noteq> undef \<and> ch_exact_compare ea (d_exact b) = 0)
      else if d_is_flonum b \<and> ch_is_exact a
      then (let eb = ch_double_to_exact_if_exact oob (d_flonum_val b)
            in eb \<noteq> undef \<and> ch_exact_compare (d_exact a) eb = 0)
      else (case (as_number a, as_number b) of (Some da, Some db) \<Rightarrow> f64_eq da db | _ \<Rightarrow> False))"

fun fold_complex :: "datum \<Rightarrow> datum list \<Rightarrow> (datum \<Rightarrow> datum \<Rightarrow> datum option) \<Rightarrow> datum option" where
  "fold_complex acc [] op = Some acc"
| "fold_complex acc (x # xs) op =
     (case op acc x of None \<Rightarrow> None
      | Some r \<Rightarrow> if r = dundef then Some dundef else fold_complex r xs op)"

text \<open>The loops over exact operands and over doubles.\<close>

fun fold_exact :: "exnum \<Rightarrow> datum list \<Rightarrow> (exnum \<Rightarrow> exnum \<Rightarrow> exnum option) \<Rightarrow> exnum option" where
  "fold_exact acc [] op = Some acc"
| "fold_exact acc (x # xs) op =
     (case op acc (d_exact x) of None \<Rightarrow> None | Some r \<Rightarrow> fold_exact r xs op)"

fun fold_f64 :: "u64 \<Rightarrow> datum list \<Rightarrow> (u64 \<Rightarrow> u64 \<Rightarrow> u64) \<Rightarrow> u64 option" where
  "fold_f64 acc [] op = Some acc"
| "fold_f64 acc (x # xs) op =
     (case as_number x of None \<Rightarrow> None | Some d \<Rightarrow> fold_f64 (op acc d) xs op)"

definition make_number :: "u64 \<Rightarrow> bool \<Rightarrow> datum" where
  "make_number d all_fix =
     (if all_fix then DNum (fixnum (f64_to_i64 0 (f64_val d))) else d_flonum d)"

definition prim_add :: "datum list \<Rightarrow> datum option" where
  "prim_add args =
     (if args \<noteq> [] \<and> any_complex args then fold_complex (DNum (fixnum 0)) args ch_complex_add
      else if args \<noteq> [] \<and> all_exact args
        then map_option DNum (fold_exact (fixnum 0) args ch_exact_add)
      else case fold_f64 F64_0 args f64_add of
             None \<Rightarrow> Some dundef
           | Some d \<Rightarrow> Some (make_number d (list_all d_is_fixnum args)))"

definition prim_sub :: "datum list \<Rightarrow> datum option" where
  "prim_sub args =
     (case args of [] \<Rightarrow> Some dundef
      | x # xs \<Rightarrow>
          if any_complex args
          then (if xs = [] then ch_complex_negate x
                else if length xs = 1 \<and> d_is_fixnum x \<and> d_fixnum_val x = 0 then ch_complex_negate (hd xs)
                else fold_complex x xs ch_complex_sub)
          else if all_exact args
          then (if xs = [] then map_option DNum (ch_exact_negate (d_exact x))
                else map_option DNum (fold_exact (d_exact x) xs ch_exact_sub))
          else (case as_number x of
                  None \<Rightarrow> Some dundef
                | Some d \<Rightarrow>
                    if xs = [] then Some (make_number (f64_neg d) (d_is_fixnum x))
                    else (case fold_f64 d xs f64_sub of
                            None \<Rightarrow> Some dundef
                          | Some r \<Rightarrow> Some (make_number r (list_all d_is_fixnum args)))))"

definition prim_mul :: "datum list \<Rightarrow> datum option" where
  "prim_mul args =
     (if args \<noteq> [] \<and> any_complex args then fold_complex (DNum (fixnum 1)) args ch_complex_mul
      else if args \<noteq> [] \<and> all_exact args
        then map_option DNum (fold_exact (fixnum 1) args ch_exact_mul)
      else case fold_f64 F64_1 args f64_mul of
             None \<Rightarrow> Some dundef
           | Some d \<Rightarrow> Some (make_number d (list_all d_is_fixnum args)))"

fun fold_div :: "exnum \<Rightarrow> datum list \<Rightarrow> exnum option" where
  "fold_div acc [] = Some acc"
| "fold_div acc (x # xs) =
     (case ch_exact_div acc (d_exact x) of None \<Rightarrow> None
      | Some r \<Rightarrow> if r = undef then Some undef else fold_div r xs)"

definition prim_div :: "datum list \<Rightarrow> datum option" where
  "prim_div args =
     (case args of [] \<Rightarrow> Some dundef
      | x # xs \<Rightarrow>
          if any_complex args
          then (if xs = [] then ch_complex_div (DNum (fixnum 1)) x else fold_complex x xs ch_complex_div)
          else if all_exact args
          then (if xs = [] then map_option DNum (ch_exact_div (fixnum 1) (d_exact x))
                else map_option DNum (fold_div (d_exact x) xs))
          else (case as_number x of
                  None \<Rightarrow> Some dundef
                | Some d \<Rightarrow>
                    if xs = [] then Some (d_flonum (f64_div F64_1 d))
                    else (case fold_f64 d xs f64_div of
                            None \<Rightarrow> Some dundef | Some r \<Rightarrow> Some (d_flonum r))))"

section \<open>Equality and order\<close>

fun num_eq_complex :: "u64 \<times> u64 \<Rightarrow> datum list \<Rightarrow> datum option" where
  "num_eq_complex p [] = Some (d_bool True)"
| "num_eq_complex p (x # xs) =
     (case ch_complex_parts x of None \<Rightarrow> Some dundef
      | Some q \<Rightarrow> if \<not> f64_eq (fst p) (fst q) \<or> \<not> f64_eq (snd p) (snd q) then Some (d_bool False)
                  else num_eq_complex p xs)"

fun num_eq_f64 :: "u64 \<Rightarrow> datum list \<Rightarrow> datum option" where
  "num_eq_f64 first [] = Some (d_bool True)"
| "num_eq_f64 first (x # xs) =
     (case as_number x of None \<Rightarrow> Some dundef
      | Some d \<Rightarrow> if \<not> f64_eq first d then Some (d_bool False) else num_eq_f64 first xs)"

definition prim_num_eq :: "u64 \<Rightarrow> datum list \<Rightarrow> datum option" where
  "prim_num_eq oob args =
     (case args of
        x # y # ys \<Rightarrow>
          (let rest = y # ys in
           if any_complex args
           then (case ch_complex_parts x of None \<Rightarrow> Some dundef
                 | Some p \<Rightarrow> num_eq_complex p rest)
           else if all_exact args
           then Some (d_bool (list_all (\<lambda>z. ch_exact_compare (d_exact x) (d_exact z) = 0) rest))
           else if any_inexact args then Some (d_bool (list_all (mixed_num_equal oob x) rest))
           else (case as_number x of None \<Rightarrow> Some dundef | Some d \<Rightarrow> num_eq_f64 d rest))
      | _ \<Rightarrow> Some (d_bool True))"

text \<open>
  The four order predicates are one loop over adjacent operands each, with their own test on
  \<open>ch_exact_compare\<close> and on doubles.
\<close>

fun ord_exact :: "(int \<Rightarrow> bool) \<Rightarrow> datum list \<Rightarrow> datum option" where
  "ord_exact test (x # y # ys) =
     (if test (ch_exact_compare (d_exact x) (d_exact y)) then ord_exact test (y # ys)
      else Some (d_bool False))"
| "ord_exact test _ = Some (d_bool True)"

fun ord_f64 :: "(u64 \<Rightarrow> u64 \<Rightarrow> bool) \<Rightarrow> datum list \<Rightarrow> datum option" where
  "ord_f64 test (x # y # ys) =
     (case (as_number x, as_number y) of
        (Some a, Some b) \<Rightarrow> if test a b then ord_f64 test (y # ys) else Some (d_bool False)
      | _ \<Rightarrow> Some dundef)"
| "ord_f64 test _ = Some (d_bool True)"

definition prim_lt :: "datum list \<Rightarrow> datum option" where
  "prim_lt args =
     (if any_complex args then Some dundef
      else if 2 \<le> length args \<and> all_exact args then ord_exact (\<lambda>c. c < 0) args
      else ord_f64 f64_lt args)"

definition prim_gt :: "datum list \<Rightarrow> datum option" where
  "prim_gt args =
     (if any_complex args then Some dundef
      else if 2 \<le> length args \<and> all_exact args then ord_exact (\<lambda>c. 0 < c) args
      else ord_f64 (\<lambda>a b. f64_lt b a) args)"

definition prim_le :: "datum list \<Rightarrow> datum option" where
  "prim_le args =
     (if any_complex args then Some dundef
      else if 2 \<le> length args \<and> all_exact args then ord_exact (\<lambda>c. c \<le> 0) args
      else ord_f64 f64_le args)"

definition prim_ge :: "datum list \<Rightarrow> datum option" where
  "prim_ge args =
     (if any_complex args then Some dundef
      else if 2 \<le> length args \<and> all_exact args then ord_exact (\<lambda>c. 0 \<le> c) args
      else ord_f64 (\<lambda>a b. f64_le b a) args)"

definition prim_not :: "datum list \<Rightarrow> datum option" where
  "prim_not args = Some (d_bool (\<not> is_truthy (hd args)))"

section \<open>Calling a native\<close>

text \<open>The primitives of \<open>ChIrPrim\<close>, and the arity check of the call instruction.\<close>

datatype ir_prim = P_ADD | P_SUB | P_MUL | P_LT | P_GT | P_NUM_EQ | P_LE | P_GE | P_NOT

definition all_prims :: "ir_prim list" where
  "all_prims = [P_ADD, P_SUB, P_MUL, P_LT, P_GT, P_NUM_EQ, P_LE, P_GE, P_NOT]"

definition prim_min_arity :: "ir_prim \<Rightarrow> nat" where
  "prim_min_arity p = (case p of P_ADD \<Rightarrow> 0 | P_SUB \<Rightarrow> 1 | P_MUL \<Rightarrow> 0 | P_LT \<Rightarrow> 2 | P_GT \<Rightarrow> 2
     | P_NUM_EQ \<Rightarrow> 0 | P_LE \<Rightarrow> 2 | P_GE \<Rightarrow> 2 | P_NOT \<Rightarrow> 1)"

definition call_native :: "u64 \<Rightarrow> ir_prim \<Rightarrow> datum list \<Rightarrow> datum option" where
  "call_native oob p args =
     (if length args < prim_min_arity p \<or> p = P_NOT \<and> length args \<noteq> 1 then Some dundef
      else case p of
        P_ADD \<Rightarrow> prim_add args | P_SUB \<Rightarrow> prim_sub args | P_MUL \<Rightarrow> prim_mul args
      | P_LT \<Rightarrow> prim_lt args | P_GT \<Rightarrow> prim_gt args | P_NUM_EQ \<Rightarrow> prim_num_eq oob args
      | P_LE \<Rightarrow> prim_le args | P_GE \<Rightarrow> prim_ge args | P_NOT \<Rightarrow> prim_not args)"

section \<open>Exact integers\<close>

definition d_int :: "datum \<Rightarrow> int" where "d_int v = exact_int (d_exact v)"

definition canon_d :: "datum \<Rightarrow> bool" where
  "canon_d v = (case v of DNum n \<Rightarrow> canonical_int n | _ \<Rightarrow> False)"

lemma canon_d_exact: "canon_d v \<Longrightarrow> ch_is_exact v \<and> \<not> d_is_complex v \<and> canonical_int (d_exact v) \<and> v = DNum (d_exact v)"
  using exact_integer_wf canonical_wf
  by (auto simp: canon_d_def ch_is_exact_def d_is_complex_def d_exact_def split: datum.splits)

lemma make_rational_one:
  assumes "canonical_int n" "wf_int d" "exact_int d = 1"
  shows "ch_make_rational n d = Some n"
proof (cases "exact_int n = 0")
  case True
  then have "n = fixnum 0" using assms(1) by (intro canonical_unique) (simp_all add: fixnum_small)
  then show ?thesis using assms canonical_wf [OF assms(1)] by (simp add: ch_make_rational_def exact_integer_wf fixnum_small)
next
  case False
  have "one_limb d" using assms(3) by (simp add: one_limb_def)
  then obtain g where "ch_bignum_gcd n d = Some g" "wf_int g" "exact_int g = gcd (exact_int n) (exact_int d)"
    using gcd_one_limb [OF canonical_wf [OF assms(1)] assms(2)] by blast
  then show ?thesis using assms False canonical_wf [OF assms(1)]
    by (simp add: ch_make_rational_def exact_integer_wf)
qed

lemma parts_int: "wf_int v \<Longrightarrow> ch_exact_parts v = (v, fixnum 1)"
  by (auto simp: ch_exact_parts_def wf_int_def split: exnum.splits)

lemma exact_add_canonical:
  assumes "canonical_int a" "canonical_int b"
  shows "\<exists>c. ch_exact_add a b = Some c \<and> canonical_int c \<and> exact_int c = exact_int a + exact_int b"
proof -
  have w: "wf_int a" "wf_int b" using assms canonical_wf by blast+
  have t: "wf_int (ch_bignum_mul a (fixnum 1))" "wf_int (ch_bignum_mul b (fixnum 1))"
    "exact_int (ch_bignum_mul a (fixnum 1)) = exact_int a" "exact_int (ch_bignum_mul b (fixnum 1)) = exact_int b"
    "wf_int (ch_bignum_mul (fixnum 1) (fixnum 1))" "exact_int (ch_bignum_mul (fixnum 1) (fixnum 1)) = 1"
    using mul_int [OF w(1), of "fixnum 1"] mul_int [OF w(2), of "fixnum 1"] mul_int [of "fixnum 1" "fixnum 1"] canonical_wf
    by (simp_all add: fixnum_small)
  then show ?thesis using add_int [OF t(1,2)] make_rational_one w
    by (simp add: ch_exact_add_def parts_int)
qed

lemma exact_mul_canonical:
  assumes "canonical_int a" "canonical_int b"
  shows "\<exists>c. ch_exact_mul a b = Some c \<and> canonical_int c \<and> exact_int c = exact_int a * exact_int b"
proof -
  have w: "wf_int a" "wf_int b" using assms canonical_wf by blast+
  have "wf_int (ch_bignum_mul (fixnum 1) (fixnum 1))" "exact_int (ch_bignum_mul (fixnum 1) (fixnum 1)) = 1"
    using mul_int [of "fixnum 1" "fixnum 1"] canonical_wf by (simp_all add: fixnum_small)
  then show ?thesis using mul_int [OF w] make_rational_one w by (simp add: ch_exact_mul_def parts_int)
qed

lemma exact_sub_canonical:
  assumes "canonical_int a" "canonical_int b"
  shows "\<exists>c. ch_exact_sub a b = Some c \<and> canonical_int c \<and> exact_int c = exact_int a - exact_int b"
proof -
  have w: "wf_int a" "wf_int b" using assms canonical_wf by blast+
  note n = negate_int [OF w(2)]
  have t: "wf_int (ch_bignum_mul a (fixnum 1))" "wf_int (ch_bignum_mul (ch_bignum_negate b) (fixnum 1))"
    "exact_int (ch_bignum_mul a (fixnum 1)) = exact_int a"
    "exact_int (ch_bignum_mul (ch_bignum_negate b) (fixnum 1)) = - exact_int b"
    "wf_int (ch_bignum_mul (fixnum 1) (fixnum 1))" "exact_int (ch_bignum_mul (fixnum 1) (fixnum 1)) = 1"
    using mul_int [OF w(1), of "fixnum 1"] mul_int [of "ch_bignum_negate b" "fixnum 1"] mul_int [of "fixnum 1" "fixnum 1"]
      canonical_wf n by (simp_all add: fixnum_small)
  then show ?thesis using add_int [OF t(1,2)] make_rational_one w n
    by (simp add: ch_exact_sub_def ch_exact_negate_def exact_integer_wf ch_exact_add_def parts_int)
qed

lemma fold_exact_canonical:
  assumes "\<And>a b. canonical_int a \<Longrightarrow> canonical_int b \<Longrightarrow>
      \<exists>c. op a b = Some c \<and> canonical_int c \<and> exact_int c = f (exact_int a) (exact_int b)"
    and "canonical_int acc" "list_all canon_d xs"
  shows "\<exists>c. fold_exact acc xs op = Some c \<and> canonical_int c \<and>
    exact_int c = foldl f (exact_int acc) (map d_int xs)"
  using assms(2,3)
proof (induction xs arbitrary: acc)
  case (Cons x xs)
  obtain c where "op acc (d_exact x) = Some c" "canonical_int c" "exact_int c = f (exact_int acc) (d_int x)"
    using assms(1) [of acc "d_exact x"] Cons.prems canon_d_exact [of x] by (auto simp: d_int_def)
  then show ?case using Cons.IH [of c] Cons.prems by simp
qed simp

end
