(* ===== verification/Chaaya_Ir.thy ===== *)
theory Chaaya_Ir
  imports Chaaya_Prims
begin

text \<open>
  The tree IR of the compiler: \<open>src/include/chaaya/ir.h\<close>, \<open>src/src/ir.c\<close>, \<open>src/src/ir_lower.c\<close>,
  \<open>src/src/ir_analyze.c\<close> and \<open>src/src/ir_emit.c\<close>. Nodes are trees with the two analysis
  fields in an annotation (\<open>is_constant\<close> with its value as an option). Freeing of nodes, the
  shadow stack of the collector and allocation failure have no counterpart; no child of a
  node that lowering builds is \<open>NULL\<close>, but for the missing alternate of an \<open>if\<close>.
\<close>

section \<open>Nodes\<close>

datatype annot = Annot (tail_position: bool) (const_val: "datum option")

datatype ir_node =
    IrVoid (ann: annot)
  | IrLiteral (ann: annot) datum
  | IrQuote (ann: annot) datum
  | IrVar (ann: annot) symbol
  | IrIf (ann: annot) ir_node ir_node "ir_node option"
  | IrLambda (ann: annot) datum "ir_node list"
  | IrSeq (ann: annot) "ir_node list"
  | IrCall (ann: annot) ir_node "ir_node list"
  | IrSet (ann: annot) symbol ir_node
  | IrDefine (ann: annot) datum ir_node
  | IrDefineSyntax (ann: annot)
  | IrAnd (ann: annot) "ir_node list"
  | IrOr (ann: annot) "ir_node list"
  | IrPrimCall (ann: annot) ir_prim symbol "ir_node list"
  | IrRaw (ann: annot) datum

text \<open>The annotation of \<open>ch_ir_new_node\<close>.\<close>

definition na :: annot where "na = Annot False None"

abbreviation is_constant :: "ir_node \<Rightarrow> bool" where "is_constant n \<equiv> const_val (ann n) \<noteq> None"

text \<open>What can be compiled without falling back to evaluation.\<close>

fun ch_ir_llvm_emittable :: "ir_node \<Rightarrow> bool" where
  "ch_ir_llvm_emittable (IrVoid a) = True"
| "ch_ir_llvm_emittable (IrLiteral a v) =
     (d_is_fixnum v \<or> v = DImm CH_TRUE \<or> v = DImm CH_FALSE \<or> v = DImm CH_NIL \<or> v = DImm CH_VOID)"
| "ch_ir_llvm_emittable (IrVar a s) = True"
| "ch_ir_llvm_emittable (IrIf a t c alt) =
     (ch_ir_llvm_emittable t \<and> ch_ir_llvm_emittable c \<and>
      (case alt of None \<Rightarrow> True | Some e \<Rightarrow> ch_ir_llvm_emittable e))"
| "ch_ir_llvm_emittable (IrSeq a ns) = list_all ch_ir_llvm_emittable ns"
| "ch_ir_llvm_emittable (IrAnd a ns) = list_all ch_ir_llvm_emittable ns"
| "ch_ir_llvm_emittable (IrOr a ns) = list_all ch_ir_llvm_emittable ns"
| "ch_ir_llvm_emittable (IrPrimCall a p s ns) =
     (p \<in> {P_ADD, P_SUB, P_MUL, P_LT, P_NUM_EQ, P_NOT} \<and> list_all ch_ir_llvm_emittable ns)"
| "ch_ir_llvm_emittable (IrDefine a t v) =
     ((case t of DSym _ \<Rightarrow> True | _ \<Rightarrow> False) \<and>
      (case v of IrLambda _ _ _ \<Rightarrow> False | _ \<Rightarrow> True) \<and> ch_ir_llvm_emittable v)"
| "ch_ir_llvm_emittable _ = False"

section \<open>Lowering\<close>

text \<open>A scope is the parameter lists of the enclosing lambdas, innermost first.\<close>

type_synonym scope = "string list list"

definition CH_IR_BOUND_MAX :: nat where "CH_IR_BOUND_MAX = 256"

definition scope_binds :: "scope \<Rightarrow> string \<Rightarrow> bool" where
  "scope_binds scope name = list_ex (\<lambda>names. name \<in> set names) scope"

definition head_is_shadowed :: "datum \<Rightarrow> scope \<Rightarrow> bool" where
  "head_is_shadowed head scope =
     (case head of
        DSym s \<Rightarrow> scope \<noteq> [] \<and> \<not> is_hygienic_name (sym_name s) \<and> scope_binds scope (sym_name s)
      | _ \<Rightarrow> False)"

definition derived_forms :: "string list" where
  "derived_forms = [''quasiquote'', ''let'', ''let*'', ''letrec'', ''letrec*'', ''cond'', ''case'',
     ''when'', ''unless'', ''do'', ''guard'', ''parameterize'', ''case-lambda'', ''delay'',
     ''delay-force'', ''let-values'', ''let*-values'', ''define-values'', ''define-library'',
     ''include'', ''include-ci'', ''cond-expand'', ''let-syntax'', ''letrec-syntax'',
     ''define-property'']"

definition is_derived_special_form :: "datum \<Rightarrow> bool" where
  "is_derived_special_form head =
     (case head of DSym s \<Rightarrow> ch_symbol_basename s \<in> set derived_forms | _ \<Rightarrow> False)"

definition prim_builtin_name :: "ir_prim \<Rightarrow> string" where
  "prim_builtin_name p = (case p of P_ADD \<Rightarrow> ''+'' | P_SUB \<Rightarrow> ''-'' | P_MUL \<Rightarrow> ''*'' | P_LT \<Rightarrow> ''<''
     | P_GT \<Rightarrow> ''>'' | P_NUM_EQ \<Rightarrow> ''='' | P_LE \<Rightarrow> ''<='' | P_GE \<Rightarrow> ''>='' | P_NOT \<Rightarrow> ''not'')"

definition prim_from_symbol :: "symbol \<Rightarrow> ir_prim option" where
  "prim_from_symbol s =
     (let name = ch_symbol_basename s in
      if name = ''+'' then Some P_ADD else if name = ''-'' then Some P_SUB
      else if name = ''*'' then Some P_MUL else if name = ''<'' then Some P_LT
      else if name = ''>'' then Some P_GT else if name = ''='' then Some P_NUM_EQ
      else if name = ''<='' then Some P_LE else if name = ''>='' then Some P_GE
      else if name = ''not'' then Some P_NOT else None)"

text \<open>The names a parameter list binds; \<open>None\<close> when it is malformed or too long.\<close>

fun push_params :: "nat \<Rightarrow> datum \<Rightarrow> string list option" where
  "push_params count (DPair (DSym s) p) =
     (if CH_IR_BOUND_MAX \<le> count then None
      else map_option (Cons (sym_name s)) (push_params (Suc count) p))"
| "push_params count (DSym s) = (if CH_IR_BOUND_MAX \<le> count then None else Some [sym_name s])"
| "push_params count p = (if p = DImm CH_NIL then Some [] else None)"

text \<open>
  \<open>None\<close> is \<open>CH_COMPILE_ERROR\<close>. \<open>lower_list\<close> is \<open>lower_list_nodes\<close>: it fails on an improper
  list and on an element that fails.
\<close>

function
  lower_node :: "scope \<Rightarrow> datum \<Rightarrow> ir_node option" and
  lower_list :: "scope \<Rightarrow> datum \<Rightarrow> ir_node list option" and
  lower_if :: "scope \<Rightarrow> datum \<Rightarrow> datum \<Rightarrow> ir_node option" and
  lower_lambda :: "scope \<Rightarrow> datum \<Rightarrow> datum \<Rightarrow> ir_node option" and
  lower_set :: "scope \<Rightarrow> datum \<Rightarrow> datum \<Rightarrow> ir_node option" and
  lower_define :: "scope \<Rightarrow> datum \<Rightarrow> datum \<Rightarrow> ir_node option" and
  lower_variadic :: "scope \<Rightarrow> datum \<Rightarrow> datum \<Rightarrow> (ir_node list \<Rightarrow> ir_node) \<Rightarrow> ir_node option" and
  lower_call_like :: "scope \<Rightarrow> datum \<Rightarrow> datum \<Rightarrow> datum \<Rightarrow> ir_node option"
where
  "lower_node scope (DSym s) = Some (IrVar na s)"
| "lower_node scope (DPair head args) =
     (let expr = DPair head args; shadowed = head_is_shadowed head scope in
      if \<not> shadowed \<and> is_symbol_named head ''quote''
        then Some (case args of
               DPair q rest \<Rightarrow> if rest = DImm CH_NIL then IrQuote na q else IrRaw na expr
             | _ \<Rightarrow> IrRaw na expr)
      else if \<not> shadowed \<and> is_symbol_named head ''if'' then lower_if scope expr args
      else if \<not> shadowed \<and> is_symbol_named head ''begin'' then lower_variadic scope expr args (IrSeq na)
      else if \<not> shadowed \<and> is_symbol_named head ''lambda'' then lower_lambda scope expr args
      else if \<not> shadowed \<and> is_symbol_named head ''set!'' then lower_set scope expr args
      else if \<not> shadowed \<and> is_symbol_named head ''define'' then lower_define scope expr args
      else if \<not> shadowed \<and> is_symbol_named head ''define-syntax'' then Some (IrRaw na expr)
      else if \<not> shadowed \<and> is_symbol_named head ''and'' then lower_variadic scope expr args (IrAnd na)
      else if \<not> shadowed \<and> is_symbol_named head ''or'' then lower_variadic scope expr args (IrOr na)
      else if \<not> shadowed \<and> is_derived_special_form head then Some (IrRaw na expr)
      else lower_call_like scope expr head args)"
| "lower_node scope (DNum n) =
     (if DNum n = DImm CH_VOID then Some (IrVoid na) else Some (IrLiteral na (DNum n)))"
| "lower_node scope (DCplx r i er ei) = Some (IrLiteral na (DCplx r i er ei))"
| "lower_node scope (DObj k) = Some (IrLiteral na (DObj k))"
| "lower_list scope list =
     (case list of
        DPair x rest \<Rightarrow>
          (case lower_node scope x of None \<Rightarrow> None
           | Some n \<Rightarrow> map_option (Cons n) (lower_list scope rest))
      | _ \<Rightarrow> if list = DImm CH_NIL then Some [] else None)"
| "lower_if scope expr args =
     (case args of
        DPair test (DPair conseq rest) \<Rightarrow>
          (case rest of
             DPair alternate rest2 \<Rightarrow>
               if rest2 = DImm CH_NIL
               then (case (lower_node scope test, lower_node scope conseq, lower_node scope alternate) of
                       (Some t, Some c, Some e) \<Rightarrow> Some (IrIf na t c (Some e)) | _ \<Rightarrow> None)
               else Some (IrRaw na expr)
           | _ \<Rightarrow>
               if rest = DImm CH_NIL
               then (case (lower_node scope test, lower_node scope conseq) of
                       (Some t, Some c) \<Rightarrow> Some (IrIf na t c None) | _ \<Rightarrow> None)
               else Some (IrRaw na expr))
      | _ \<Rightarrow> Some (IrRaw na expr))"
| "lower_lambda scope expr args =
     (case args of
        DPair params body \<Rightarrow>
          (case body of
             DPair _ _ \<Rightarrow>
               (case push_params 0 params of
                  None \<Rightarrow> Some (IrRaw na expr)
                | Some names \<Rightarrow>
                    (case lower_list (names # scope) body of
                       None \<Rightarrow> Some (IrRaw na expr)
                     | Some ns \<Rightarrow> Some (IrLambda na params ns)))
           | _ \<Rightarrow> Some (IrRaw na expr))
      | _ \<Rightarrow> Some (IrRaw na expr))"
| "lower_set scope expr args =
     (case args of
        DPair (DSym s) (DPair v rest) \<Rightarrow>
          if rest = DImm CH_NIL then map_option (IrSet na s) (lower_node scope v)
          else Some (IrRaw na expr)
      | _ \<Rightarrow> Some (IrRaw na expr))"
| "lower_define scope expr args =
     (case args of
        DPair (DSym s) (DPair v rest) \<Rightarrow>
          if rest = DImm CH_NIL then map_option (IrDefine na (DSym s)) (lower_node scope v)
          else Some (IrRaw na expr)
      | _ \<Rightarrow> Some (IrRaw na expr))"
| "lower_variadic scope expr args mk =
     (case lower_list scope args of None \<Rightarrow> Some (IrRaw na expr) | Some ns \<Rightarrow> Some (mk ns))"
| "lower_call_like scope expr callee args =
     (case lower_list scope args of
        None \<Rightarrow> Some (IrRaw na expr)
      | Some ns \<Rightarrow>
          (case (case callee of
                   DSym s \<Rightarrow> if head_is_shadowed callee scope then None
                             else map_option (\<lambda>p. IrPrimCall na p s ns) (prim_from_symbol s)
                 | _ \<Rightarrow> None) of
             Some node \<Rightarrow> Some node
           | None \<Rightarrow> (case lower_node scope callee of None \<Rightarrow> None
                      | Some c \<Rightarrow> Some (IrCall na c ns))))"
  by pat_completeness auto

termination
  by (relation "measure (\<lambda>x. case x of
      Inl (Inl (Inl (s, e))) \<Rightarrow> 3 * size e
    | Inl (Inl (Inr (s, l))) \<Rightarrow> 3 * size l + 1
    | Inl (Inr (Inl (s, e, a))) \<Rightarrow> 3 * size a + 2
    | Inl (Inr (Inr (s, e, a))) \<Rightarrow> 3 * size a + 2
    | Inr (Inl (Inl (s, e, a))) \<Rightarrow> 3 * size a + 2
    | Inr (Inl (Inr (s, e, a))) \<Rightarrow> 3 * size a + 2
    | Inr (Inr (Inl (s, e, a, mk))) \<Rightarrow> 3 * size a + 2
    | Inr (Inr (Inr (s, e, c, a))) \<Rightarrow> 3 * (size c + size a) + 2)") auto

lemmas lower_unfold = lower_list.simps lower_if.simps lower_lambda.simps lower_set.simps
  lower_define.simps lower_variadic.simps lower_call_like.simps

declare lower_unfold [simp del]

definition ch_ir_lower :: "datum \<Rightarrow> ir_node option" where
  "ch_ir_lower expr = lower_node [] expr"

section \<open>Analysis\<close>

definition set_constant :: "bool \<Rightarrow> datum option \<Rightarrow> annot" where
  "set_constant tail v = Annot tail v"

definition const_of :: "ir_node \<Rightarrow> datum option" where "const_of n = const_val (ann n)"

text \<open>
  A body or \<open>begin\<close>: every element is analysed, the last in tail position when the sequence
  is. \<open>and\<close> and \<open>or\<close> stop at the first element that decides, or whose value is not known; the
  elements behind it keep the annotation they had.
\<close>

fun analyze_node :: "bool \<Rightarrow> ir_node \<Rightarrow> ir_node" and
  analyze_seq :: "bool \<Rightarrow> ir_node list \<Rightarrow> ir_node list" and
  analyze_junction :: "bool \<Rightarrow> bool \<Rightarrow> datum \<Rightarrow> ir_node list \<Rightarrow> ir_node list \<times> datum option"
where
  "analyze_node tail (IrVoid a) = IrVoid (set_constant tail (Some (DImm CH_VOID)))"
| "analyze_node tail (IrLiteral a v) = IrLiteral (set_constant tail (Some v)) v"
| "analyze_node tail (IrQuote a v) = IrQuote (set_constant tail (Some v)) v"
| "analyze_node tail (IrVar a s) = IrVar (set_constant tail None) s"
| "analyze_node tail (IrIf a t c alt) =
     (let t' = analyze_node False t; c' = analyze_node tail c;
          alt' = (case alt of None \<Rightarrow> None | Some e \<Rightarrow> Some (analyze_node tail e));
          v = (case const_of t' of
                 None \<Rightarrow> None
               | Some tv \<Rightarrow>
                   if is_truthy tv then const_of c'
                   else (case alt' of Some e \<Rightarrow> const_of e | None \<Rightarrow> Some (DImm CH_FALSE)))
      in IrIf (set_constant tail v) t' c' alt')"
| "analyze_node tail (IrLambda a params body) =
     IrLambda (set_constant tail None) params (analyze_seq True body)"
| "analyze_node tail (IrSeq a ns) =
     (let ns' = analyze_seq tail ns
      in IrSeq (set_constant tail
           (if ns' = [] then Some (DImm CH_VOID)
            else if list_all is_constant ns' then const_of (last ns') else None)) ns')"
| "analyze_node tail (IrCall a f ns) =
     IrCall (set_constant tail None) (analyze_node False f) (analyze_seq False ns)"
| "analyze_node tail (IrSet a s v) = IrSet (set_constant tail None) s (analyze_node False v)"
| "analyze_node tail (IrDefine a t v) = IrDefine (set_constant tail None) t (analyze_node False v)"
| "analyze_node tail (IrDefineSyntax a) = IrDefineSyntax (set_constant tail (Some (DImm CH_VOID)))"
| "analyze_node tail (IrAnd a ns) =
     (let (ns', v) = analyze_junction tail False (DImm CH_TRUE) ns in IrAnd (set_constant tail v) ns')"
| "analyze_node tail (IrOr a ns) =
     (let (ns', v) = analyze_junction tail True (DImm CH_FALSE) ns in IrOr (set_constant tail v) ns')"
| "analyze_node tail (IrPrimCall a p s ns) =
     IrPrimCall (set_constant tail None) p s (analyze_seq False ns)"
| "analyze_node tail (IrRaw a e) = IrRaw (set_constant tail None) e"
| "analyze_seq tail [] = []"
| "analyze_seq tail (n # ns) = analyze_node (tail \<and> ns = []) n # analyze_seq tail ns"
| "analyze_junction tail stop result [] = ([], Some result)"
| "analyze_junction tail stop result (n # ns) =
     (let n' = analyze_node (tail \<and> ns = []) n
      in case const_of n' of
           None \<Rightarrow> (n' # ns, None)
         | Some v \<Rightarrow>
             if is_truthy v = stop then (n' # ns, Some v)
             else (let (ns', r) = analyze_junction tail stop v ns in (n' # ns', r)))"

definition ch_ir_analyze :: "ir_node \<Rightarrow> ir_node" where
  "ch_ir_analyze n = analyze_node True n"

section \<open>Emission\<close>

definition build_list :: "datum list \<Rightarrow> datum" where
  "build_list items = foldr DPair items (DImm CH_NIL)"

definition build_form :: "datum \<Rightarrow> datum list \<Rightarrow> datum" where
  "build_form head args = DPair head (build_list args)"

definition emit_keyword_form :: "string \<Rightarrow> datum list \<Rightarrow> datum" where
  "emit_keyword_form keyword args = build_form (intern keyword) args"

fun ir_node_to_expr :: "ir_node \<Rightarrow> datum" where
  "ir_node_to_expr (IrVoid a) = DImm CH_VOID"
| "ir_node_to_expr (IrLiteral a v) = v"
| "ir_node_to_expr (IrQuote a v) = emit_keyword_form ''quote'' [v]"
| "ir_node_to_expr (IrVar a s) = DSym s"
| "ir_node_to_expr (IrIf a t c alt) =
     emit_keyword_form ''if'' ([ir_node_to_expr t, ir_node_to_expr c] @
       (case alt of None \<Rightarrow> [] | Some e \<Rightarrow> [ir_node_to_expr e]))"
| "ir_node_to_expr (IrLambda a params body) =
     emit_keyword_form ''lambda'' (params # map ir_node_to_expr body)"
| "ir_node_to_expr (IrSeq a ns) =
     (if ns = [] then DImm CH_VOID else emit_keyword_form ''begin'' (map ir_node_to_expr ns))"
| "ir_node_to_expr (IrCall a f ns) = build_form (ir_node_to_expr f) (map ir_node_to_expr ns)"
| "ir_node_to_expr (IrSet a s v) = emit_keyword_form ''set!'' [DSym s, ir_node_to_expr v]"
| "ir_node_to_expr (IrDefine a t v) = emit_keyword_form ''define'' [t, ir_node_to_expr v]"
| "ir_node_to_expr (IrDefineSyntax a) = DImm CH_VOID"
| "ir_node_to_expr (IrAnd a ns) = emit_keyword_form ''and'' (map ir_node_to_expr ns)"
| "ir_node_to_expr (IrOr a ns) = emit_keyword_form ''or'' (map ir_node_to_expr ns)"
| "ir_node_to_expr (IrPrimCall a p s ns) = build_form (DSym s) (map ir_node_to_expr ns)"
| "ir_node_to_expr (IrRaw a e) = e"

section \<open>Lowering never fails\<close>

lemma lower_total:
  "lower_node sc e \<noteq> None"
  "lower_list sc l = None \<longrightarrow> True"
  "lower_if sc e a \<noteq> None"
  "lower_lambda sc e a \<noteq> None"
  "lower_set sc e a \<noteq> None"
  "lower_define sc e a \<noteq> None"
  "lower_variadic sc e a mk \<noteq> None"
  "lower_call_like sc e c a \<noteq> None"
proof (induction sc e and sc l and sc e a and sc e a and sc e a and sc e a and sc e a mk and sc e c a
    rule: lower_node_lower_list_lower_if_lower_lambda_lower_set_lower_define_lower_variadic_lower_call_like.induct)
  case (2 scope head args)
  then show ?case by (auto simp: Let_def)
next
  case (7 scope expr args)
  then show ?case by (subst lower_if.simps) (fastforce split: datum.splits option.splits)
next
  case (8 scope expr args)
  then show ?case by (subst lower_lambda.simps) (auto split: datum.splits option.splits)
next
  case (9 scope expr args)
  then show ?case by (subst lower_set.simps) (auto split: datum.splits option.splits)
next
  case (10 scope expr args)
  then show ?case by (subst lower_define.simps) (auto split: datum.splits option.splits)
next
  case (11 scope expr args mk)
  then show ?case by (subst lower_variadic.simps) (auto split: option.splits)
next
  case (12 scope expr callee args)
  then show ?case by (subst lower_call_like.simps) (auto split: option.splits datum.splits)
qed auto

section \<open>Emission undoes lowering\<close>

definition core_keywords :: "string list" where
  "core_keywords = [''quote'', ''if'', ''begin'', ''lambda'', ''set!'', ''define'', ''and'', ''or'']"

text \<open>Core keywords are written as their interned symbols, and no \<open>begin\<close> is empty.\<close>

definition plain_head :: "datum \<Rightarrow> datum \<Rightarrow> bool" where
  "plain_head h t =
     (case h of
        DSym s \<Rightarrow> (ch_symbol_basename s \<in> set core_keywords \<longrightarrow> s = Symbol (ch_symbol_basename s) 0) \<and>
          \<not> (ch_symbol_basename s = ''begin'' \<and> t = DImm CH_NIL)
      | _ \<Rightarrow> True)"

fun plain :: "datum \<Rightarrow> bool" where
  "plain (DPair h t) = (plain_head h t \<and> plain h \<and> plain t)"
| "plain _ = True"

lemma plain_keyword:
  assumes "plain_head h t" "is_symbol_named h k" "k \<in> set core_keywords"
  shows "h = intern k"
  using assms by (auto simp: is_symbol_named_def plain_head_def intern_def split: datum.splits)

lemma plain_begin: "plain_head h t \<Longrightarrow> is_symbol_named h ''begin'' \<Longrightarrow> t \<noteq> DImm CH_NIL"
  by (auto simp: is_symbol_named_def plain_head_def split: datum.splits)

lemma build_list_simps [simp]:
  "build_list [] = DImm CH_NIL" "build_list (x # xs) = DPair x (build_list xs)"
  by (simp_all add: build_list_def)

lemma emit_lower:
  "lower_node sc e = Some n \<Longrightarrow> plain e \<Longrightarrow> ir_node_to_expr n = e"
  "lower_list sc l = Some ns \<Longrightarrow> plain l \<Longrightarrow> build_list (map ir_node_to_expr ns) = l"
  "lower_if sc e2 a2 = Some n \<Longrightarrow> plain a2 \<Longrightarrow> ir_node_to_expr n \<in> {e2, DPair (intern ''if'') a2}"
  "lower_lambda sc e3 a3 = Some n \<Longrightarrow> plain a3 \<Longrightarrow> ir_node_to_expr n \<in> {e3, DPair (intern ''lambda'') a3}"
  "lower_set sc e4 a4 = Some n \<Longrightarrow> plain a4 \<Longrightarrow> ir_node_to_expr n \<in> {e4, DPair (intern ''set!'') a4}"
  "lower_define sc e5 a5 = Some n \<Longrightarrow> plain a5 \<Longrightarrow> ir_node_to_expr n \<in> {e5, DPair (intern ''define'') a5}"
  "lower_variadic sc e6 a6 mk = Some n \<Longrightarrow> plain a6 \<Longrightarrow>
     n = IrRaw na e6 \<or> (\<exists>ns. n = mk ns \<and> build_list (map ir_node_to_expr ns) = a6)"
  "lower_call_like sc e7 c7 a7 = Some n \<Longrightarrow> plain c7 \<Longrightarrow> plain a7 \<Longrightarrow> ir_node_to_expr n \<in> {e7, DPair c7 a7}"
proof (induction sc e and sc l and sc e2 a2 and sc e3 a3 and sc e4 a4 and sc e5 a5 and sc e6 a6 mk and sc e7 c7 a7
    arbitrary: n and ns and n and n and n and n and n and n
    rule: lower_node_lower_list_lower_if_lower_lambda_lower_set_lower_define_lower_variadic_lower_call_like.induct)
  case (2 scope head args)
  have pl: "plain_head head args" "plain head" "plain args" using "2.prems"(2) by simp_all
  note kw = plain_keyword [OF pl(1)]
  let ?n = "\<lambda>k. \<not> head_is_shadowed head scope \<and> is_symbol_named head k"
  consider "?n ''quote''" | "\<not> ?n ''quote''" "?n ''if''"
    | "\<not> ?n ''quote''" "\<not> ?n ''if''" "?n ''begin''"
    | "\<not> ?n ''quote''" "\<not> ?n ''if''" "\<not> ?n ''begin''" "?n ''lambda''"
    | "\<not> ?n ''quote''" "\<not> ?n ''if''" "\<not> ?n ''begin''" "\<not> ?n ''lambda''" "?n ''set!''"
    | "\<not> ?n ''quote''" "\<not> ?n ''if''" "\<not> ?n ''begin''" "\<not> ?n ''lambda''" "\<not> ?n ''set!''" "?n ''define''"
    | "\<not> ?n ''quote''" "\<not> ?n ''if''" "\<not> ?n ''begin''" "\<not> ?n ''lambda''" "\<not> ?n ''set!''" "\<not> ?n ''define''"
    by blast
  then show ?case
  proof cases
    case 1
    then show ?thesis using "2.prems"(1) kw [of "''quote''"]
      by (auto simp: Let_def core_keywords_def emit_keyword_form_def build_form_def split: datum.splits if_splits)
  next
    case 2
    then show ?thesis using "2.prems"(1) "2.IH"(1) [OF refl refl] pl kw [of "''if''"]
      by (auto simp: Let_def core_keywords_def)
  next
    case 3
    note IH = "2.IH"(2) [OF refl refl 3(1,2,3), of n]
    have "lower_variadic scope (DPair head args) args (IrSeq na) = Some n" using "2.prems"(1) 3 by (simp add: Let_def)
    from IH [OF this pl(3)] show ?thesis using 3 kw [of "''begin''"] plain_begin [OF pl(1)]
      by (auto simp: core_keywords_def emit_keyword_form_def build_form_def)
  next
    case 4
    note IH = "2.IH"(3) [OF refl refl 4, of n]
    have "lower_lambda scope (DPair head args) args = Some n" using "2.prems"(1) 4 by (simp add: Let_def)
    from IH [OF this pl(3)] show ?thesis using 4 kw [of "''lambda''"] by (auto simp: core_keywords_def)
  next
    case 5
    note IH = "2.IH"(4) [OF refl refl 5, of n]
    have "lower_set scope (DPair head args) args = Some n" using "2.prems"(1) 5 by (simp add: Let_def)
    from IH [OF this pl(3)] show ?thesis using 5 kw [of "''set!''"] by (auto simp: core_keywords_def)
  next
    case 6
    note IH = "2.IH"(5) [OF refl refl 6, of n]
    have "lower_define scope (DPair head args) args = Some n" using "2.prems"(1) 6 by (simp add: Let_def)
    from IH [OF this pl(3)] show ?thesis using 6 kw [of "''define''"] by (auto simp: core_keywords_def)
  next
    case 7
    consider "?n ''define-syntax''" | "\<not> ?n ''define-syntax''" "?n ''and''"
      | "\<not> ?n ''define-syntax''" "\<not> ?n ''and''" "?n ''or''"
      | "\<not> ?n ''define-syntax''" "\<not> ?n ''and''" "\<not> ?n ''or''"
        "\<not> head_is_shadowed head scope \<and> is_derived_special_form head"
      | "\<not> ?n ''define-syntax''" "\<not> ?n ''and''" "\<not> ?n ''or''"
        "\<not> (\<not> head_is_shadowed head scope \<and> is_derived_special_form head)"
      by blast
    then show ?thesis
    proof cases
      case 2
      note IH = "2.IH"(6) [OF refl refl 7 2, of n]
      have "lower_variadic scope (DPair head args) args (IrAnd na) = Some n"
        using "2.prems"(1) 7 2 by (simp add: Let_def)
      from IH [OF this pl(3)] show ?thesis using 2 kw [of "''and''"]
        by (auto simp: core_keywords_def emit_keyword_form_def build_form_def)
    next
      case 3
      note IH = "2.IH"(7) [OF refl refl 7 3, of n]
      have "lower_variadic scope (DPair head args) args (IrOr na) = Some n"
        using "2.prems"(1) 7 3 by (simp add: Let_def)
      from IH [OF this pl(3)] show ?thesis using 3 kw [of "''or''"]
        by (auto simp: core_keywords_def emit_keyword_form_def build_form_def)
    next
      case 5
      note IH = "2.IH"(8) [OF refl refl 7 5, of n]
      have "lower_call_like scope (DPair head args) head args = Some n"
        using "2.prems"(1) 7 5 by (simp add: Let_def)
      from IH [OF this pl(2,3)] show ?thesis by auto
    qed (use "2.prems"(1) 7 in \<open>auto simp: Let_def\<close>)
  qed
next
  case (6 scope l)
  then show ?case by (subst (asm) lower_list.simps) (auto split: datum.splits option.splits if_splits)
next
  case (7 scope expr args)
  then show ?case
    by (subst (asm) lower_if.simps) (auto simp: emit_keyword_form_def build_form_def split: datum.splits option.splits if_splits)
next
  case (8 scope expr args)
  then show ?case
    by (subst (asm) lower_lambda.simps) (auto simp: emit_keyword_form_def build_form_def split: datum.splits option.splits if_splits)
next
  case (9 scope expr args)
  then show ?case
    by (subst (asm) lower_set.simps) (auto simp: emit_keyword_form_def build_form_def split: datum.splits option.splits if_splits)
next
  case (10 scope expr args)
  then show ?case
    by (subst (asm) lower_define.simps) (auto simp: emit_keyword_form_def build_form_def split: datum.splits option.splits if_splits)
next
  case (11 scope expr args mk)
  then show ?case by (subst (asm) lower_variadic.simps) (auto split: option.splits)
next
  case (12 scope expr callee args)
  then show ?case
    by (subst (asm) lower_call_like.simps) (auto simp: build_form_def split: option.splits datum.splits if_splits)
qed (auto split: if_splits)

lemma analyze_expr:
  "ir_node_to_expr (analyze_node t n) = ir_node_to_expr n"
  "map ir_node_to_expr (analyze_seq t ns) = map ir_node_to_expr ns"
  "map ir_node_to_expr (fst (analyze_junction t st r ms)) = map ir_node_to_expr ms"
proof (induction t n and t ns and t st r ms rule: analyze_node_analyze_seq_analyze_junction.induct)
  case (5 tail a t c alt)
  then show ?case by (cases alt) (auto simp: Let_def)
next
  case (7 tail a ns)
  have "analyze_seq tail ns = [] \<longleftrightarrow> ns = []" by (cases ns) auto
  then show ?case using 7 by (simp add: Let_def)
next
  case (19 tail st r n ns)
  then show ?case by (fastforce simp: Let_def split: option.splits prod.splits)
qed (auto simp: Let_def split: prod.splits)



text \<open>
  The last operand of \<open>and\<close> and \<open>or\<close> is not marked as a tail position when an earlier
  operand is not constant: the walk stops there, and every operand behind keeps the annotation
  it had.
\<close>
theorem ir_analyze_junction_stops:
  "ch_ir_analyze (IrAnd na (IrVar na x # ns)) =
     IrAnd (Annot True None) (IrVar (Annot (ns = []) None) x # ns) \<and>
   ch_ir_analyze (IrOr na (IrVar na x # ns)) =
     IrOr (Annot True None) (IrVar (Annot (ns = []) None) x # ns)"
  by (simp add: ch_ir_analyze_def set_constant_def const_of_def)

end
