(* ===== verification/Chaaya_Ir_Opt.thy ===== *)
theory Chaaya_Ir_Opt
  imports Chaaya_Ir
begin

text \<open>
  \<open>src/src/ir_opt.c\<close>: constant folding, dead branches, \<open>not\<close> in tests, flattening of
  \<open>begin\<close>, identities, and the gates that say for which primitives the first three may assume the
  built-in procedure. Nodes that the C code frees have no counterpart.
\<close>

section \<open>Gates\<close>

type_synonym gate = "ir_prim \<Rightarrow> bool"   \<comment> \<open>\<open>prim_disabled\<close>\<close>

text \<open>A slot of the global table: its name if any, whether it is defined, and its value if that
  is a native: the native's own name.\<close>

datatype global_value = GNative "string option" | GOther

record vm_global =
  vg_name :: "symbol option"
  vg_defined :: bool
  vg_value :: global_value

fun vm_binding_is_builtin_primitive :: "vm_global list \<Rightarrow> ir_prim \<Rightarrow> bool" where
  "vm_binding_is_builtin_primitive [] p = False"
| "vm_binding_is_builtin_primitive (g # gs) p =
     (case vg_name g of
        None \<Rightarrow> vm_binding_is_builtin_primitive gs p
      | Some s \<Rightarrow>
          if \<not> vg_defined g \<or> ch_symbol_basename s \<noteq> prim_builtin_name p
          then vm_binding_is_builtin_primitive gs p
          else vg_value g = GNative (Some (prim_builtin_name p)))"

definition disable_primitive_symbol :: "symbol \<Rightarrow> gate \<Rightarrow> gate" where
  "disable_primitive_symbol s D = (case prim_from_symbol s of None \<Rightarrow> D | Some p \<Rightarrow> D(p := True))"

definition maybe_collect_redef_from_raw :: "datum \<Rightarrow> nat \<Rightarrow> gate \<Rightarrow> gate" where
  "maybe_collect_redef_from_raw expr depth D =
     (if depth \<noteq> 0 then D
      else case expr of
        DPair (DSym h) args \<Rightarrow>
          if ch_symbol_basename h = ''define''
          then (case args of
                  DPair (DSym s) _ \<Rightarrow> disable_primitive_symbol s D
                | DPair (DPair (DSym s) _) _ \<Rightarrow> disable_primitive_symbol s D
                | _ \<Rightarrow> D)
          else if ch_symbol_basename h = ''set!''
          then (case args of DPair (DSym s) _ \<Rightarrow> disable_primitive_symbol s D | _ \<Rightarrow> D)
          else D
      | _ \<Rightarrow> D)"

fun collect_redefinitions :: "ir_node \<Rightarrow> nat \<Rightarrow> gate \<Rightarrow> gate" where
  "collect_redefinitions (IrIf a t c alt) depth D =
     (let D1 = collect_redefinitions c depth (collect_redefinitions t depth D)
      in case alt of None \<Rightarrow> D1 | Some e \<Rightarrow> collect_redefinitions e depth D1)"
| "collect_redefinitions (IrLambda a ps body) depth D =
     fold (\<lambda>n. collect_redefinitions n (Suc depth)) body D"
| "collect_redefinitions (IrSeq a ns) depth D = fold (\<lambda>n. collect_redefinitions n depth) ns D"
| "collect_redefinitions (IrCall a f ns) depth D =
     fold (\<lambda>n. collect_redefinitions n depth) ns (collect_redefinitions f depth D)"
| "collect_redefinitions (IrSet a s v) depth D =
     collect_redefinitions v depth (if depth = 0 then disable_primitive_symbol s D else D)"
| "collect_redefinitions (IrDefine a t v) depth D =
     collect_redefinitions v depth
       (case t of DSym s \<Rightarrow> if depth = 0 then disable_primitive_symbol s D else D | _ \<Rightarrow> D)"
| "collect_redefinitions (IrAnd a ns) depth D = fold (\<lambda>n. collect_redefinitions n depth) ns D"
| "collect_redefinitions (IrOr a ns) depth D = fold (\<lambda>n. collect_redefinitions n depth) ns D"
| "collect_redefinitions (IrPrimCall a p s ns) depth D =
     fold (\<lambda>n. collect_redefinitions n depth) ns D"
| "collect_redefinitions (IrRaw a e) depth D = maybe_collect_redef_from_raw e depth D"
| "collect_redefinitions _ depth D = D"

section \<open>Constants\<close>

definition make_literal_node :: "datum \<Rightarrow> ir_node" where
  "make_literal_node v =
     (if v = DImm CH_VOID then IrVoid (Annot False (Some v)) else IrLiteral (Annot False (Some v)) v)"

definition is_fixnum_const :: "ir_node \<Rightarrow> int \<Rightarrow> bool" where
  "is_fixnum_const n k = (case const_of n of None \<Rightarrow> False
     | Some v \<Rightarrow> d_is_fixnum v \<and> sint (d_fixnum_val v) = k)"

definition is_const_exact_integer :: "ir_node \<Rightarrow> bool" where
  "is_const_exact_integer n = (case const_of n of None \<Rightarrow> False | Some v \<Rightarrow> d_is_exact_integer v)"

definition I64_MAX :: int where "I64_MAX = 2 ^ 63 - 1"
definition I64_MIN :: int where "I64_MIN = - (2 ^ 63)"

definition safe_add_i64 :: "int \<Rightarrow> int \<Rightarrow> int option" where
  "safe_add_i64 a b =
     (if 0 < b \<and> I64_MAX - b < a \<or> b < 0 \<and> a < I64_MIN - b then None else Some (a + b))"

text \<open>The quotients of the C test truncate.\<close>

definition safe_mul_i64 :: "int \<Rightarrow> int \<Rightarrow> int option" where
  "safe_mul_i64 a b =
     (if a = 0 \<or> b = 0 then Some 0
      else if 0 < a
        then (if 0 < b then (if quot_trunc I64_MAX b < a then None else Some (a * b))
              else (if b < quot_trunc I64_MIN a then None else Some (a * b)))
        else (if 0 < b then (if a < quot_trunc I64_MIN b then None else Some (a * b))
              else if b < quot_trunc I64_MAX a then None
              else if a = - 1 \<and> b = I64_MIN \<or> b = - 1 \<and> a = I64_MIN then None
              else Some (a * b)))"

definition fits_fixnum :: "int \<Rightarrow> bool" where
  "fits_fixnum v \<longleftrightarrow> CH_FIXNUM_MIN \<le> v \<and> v \<le> CH_FIXNUM_MAX"

definition opt_as_number :: "datum \<Rightarrow> u64 option" where
  "opt_as_number v =
     (if d_is_fixnum v then Some (f64_of_int (sint (d_fixnum_val v)))
      else if d_is_flonum v then Some (d_flonum_val v) else None)"

fun fold_i64 :: "(int \<Rightarrow> int \<Rightarrow> int option) \<Rightarrow> int \<Rightarrow> datum list \<Rightarrow> int option" where
  "fold_i64 f acc [] = Some acc"
| "fold_i64 f acc (v # vs) =
     (case f acc (sint (d_fixnum_val v)) of None \<Rightarrow> None | Some r \<Rightarrow> fold_i64 f r vs)"

fun fold_num :: "(u64 \<Rightarrow> u64 \<Rightarrow> u64) \<Rightarrow> u64 \<Rightarrow> datum list \<Rightarrow> u64 option" where
  "fold_num f acc [] = Some acc"
| "fold_num f acc (v # vs) =
     (case opt_as_number v of None \<Rightarrow> None | Some d \<Rightarrow> fold_num f (f acc d) vs)"

definition fixnum_result :: "int option \<Rightarrow> datum option" where
  "fixnum_result r =
     (case r of None \<Rightarrow> None
      | Some n \<Rightarrow> if fits_fixnum n then Some (DNum (fixnum (word_of_int n))) else None)"

definition prim_cmp :: "ir_prim \<Rightarrow> u64 \<Rightarrow> u64 \<Rightarrow> bool" where
  "prim_cmp p a b = (case p of P_LT \<Rightarrow> f64_lt a b | P_GT \<Rightarrow> f64_lt b a | P_NUM_EQ \<Rightarrow> f64_eq a b
     | P_LE \<Rightarrow> f64_le a b | P_GE \<Rightarrow> f64_le b a | _ \<Rightarrow> False)"

fun fold_cmp :: "ir_prim \<Rightarrow> u64 \<Rightarrow> datum list \<Rightarrow> datum option" where
  "fold_cmp p prev [] = Some (DImm CH_TRUE)"
| "fold_cmp p prev (v # vs) =
     (case opt_as_number v of None \<Rightarrow> None
      | Some cur \<Rightarrow> if \<not> prim_cmp p prev cur then Some (DImm CH_FALSE) else fold_cmp p cur vs)"

text \<open>\<open>fold_prim_call\<close> on the constant values of the operands.\<close>

definition fold_values :: "ir_prim \<Rightarrow> datum list \<Rightarrow> datum option" where
  "fold_values p vs =
     (let all_fixnum = list_all d_is_fixnum vs in
      case p of
        P_ADD \<Rightarrow>
          if all_fixnum then fixnum_result (fold_i64 safe_add_i64 0 vs)
          else map_option d_flonum (fold_num f64_add F64_0 vs)
      | P_SUB \<Rightarrow>
          (case vs of [] \<Rightarrow> None
           | v # rest \<Rightarrow>
               if all_fixnum
               then fixnum_result
                 (if rest = [] then Some (- sint (d_fixnum_val v))
                  else fold_i64 (\<lambda>a b. safe_add_i64 a (- b)) (sint (d_fixnum_val v)) rest)
               else (case opt_as_number v of None \<Rightarrow> None
                     | Some d \<Rightarrow>
                         if rest = [] then Some (d_flonum (f64_neg d))
                         else map_option d_flonum (fold_num f64_sub d rest)))
      | P_MUL \<Rightarrow>
          if all_fixnum then fixnum_result (fold_i64 safe_mul_i64 1 vs)
          else map_option d_flonum (fold_num f64_mul F64_1 vs)
      | P_NOT \<Rightarrow>
          if length vs \<noteq> 1 then None
          else Some (if hd vs = DImm CH_FALSE then DImm CH_TRUE else DImm CH_FALSE)
      | _ \<Rightarrow>
          (case vs of
             v # w # rest \<Rightarrow>
               (case opt_as_number v of None \<Rightarrow> None | Some prev \<Rightarrow> fold_cmp p prev (w # rest))
           | _ \<Rightarrow> Some (DImm CH_TRUE)))"

definition fold_prim_call :: "ir_prim \<Rightarrow> ir_node list \<Rightarrow> datum option" where
  "fold_prim_call p args =
     (if 16 < length args then None
      else case option_map_all const_of args of None \<Rightarrow> None | Some vs \<Rightarrow> fold_values p vs)"

section \<open>Rewriting\<close>

definition simplify_prim_identity :: "ir_node \<Rightarrow> ir_node" where
  "simplify_prim_identity node =
     (case node of
        IrPrimCall a p s [x, y] \<Rightarrow>
          (case p of
             P_ADD \<Rightarrow> if is_fixnum_const x 0 \<and> is_const_exact_integer y then y
                       else if is_fixnum_const y 0 \<and> is_const_exact_integer x then x else node
           | P_SUB \<Rightarrow> if is_fixnum_const y 0 \<and> is_const_exact_integer x then x else node
           | P_MUL \<Rightarrow> if is_fixnum_const x 1 \<and> is_const_exact_integer y then y
                       else if is_fixnum_const y 1 \<and> is_const_exact_integer x then x else node
           | _ \<Rightarrow> node)
      | _ \<Rightarrow> node)"

definition flatten_seq :: "ir_node list \<Rightarrow> ir_node list" where
  "flatten_seq ns = concat (map (\<lambda>n. case n of IrSeq _ ms \<Rightarrow> ms | _ \<Rightarrow> [n]) ns)"

definition finish_seq :: "annot \<Rightarrow> ir_node list \<Rightarrow> ir_node" where
  "finish_seq a ns =
     (case flatten_seq ns of [] \<Rightarrow> make_literal_node (DImm CH_VOID) | [n] \<Rightarrow> n | flat \<Rightarrow> IrSeq a flat)"

text \<open>The test of an \<open>if\<close> after its parts are optimised: \<open>not\<close> is absorbed by swapping.\<close>

definition absorb_not :: "gate \<Rightarrow> nat \<Rightarrow> ir_node \<times> ir_node \<times> ir_node option \<Rightarrow> ir_node \<times> ir_node \<times> ir_node option" where
  "absorb_not D depth parts =
     (case parts of (test, conseq, alt) \<Rightarrow>
        (case test of
           IrPrimCall _ P_NOT _ [arg] \<Rightarrow>
             if depth = 0 \<and> \<not> D P_NOT
             then (arg, case alt of Some e \<Rightarrow> e | None \<Rightarrow> make_literal_node (DImm CH_FALSE), Some conseq)
             else parts
         | _ \<Rightarrow> parts))"

definition finish_if :: "gate \<Rightarrow> nat \<Rightarrow> annot \<Rightarrow> ir_node \<Rightarrow> ir_node \<Rightarrow> ir_node option \<Rightarrow> ir_node" where
  "finish_if D depth a test conseq alt =
     (case absorb_not D depth (test, conseq, alt) of (t, c, e) \<Rightarrow>
        (case const_of t of
           None \<Rightarrow> IrIf a t c e
         | Some v \<Rightarrow>
             if is_truthy v then c
             else (case e of Some e' \<Rightarrow> e' | None \<Rightarrow> make_literal_node (DImm CH_FALSE))))"

definition finish_prim_call :: "gate \<Rightarrow> nat \<Rightarrow> annot \<Rightarrow> ir_prim \<Rightarrow> symbol \<Rightarrow> ir_node list \<Rightarrow> ir_node" where
  "finish_prim_call D depth a p s args =
     (if 0 < depth \<or> D p then IrPrimCall a p s args
      else case fold_prim_call p args of
             Some v \<Rightarrow> make_literal_node v
           | None \<Rightarrow> simplify_prim_identity (IrPrimCall a p s args))"

fun optimize_node :: "gate \<Rightarrow> nat \<Rightarrow> ir_node \<Rightarrow> ir_node" where
  "optimize_node D depth (IrIf a t c alt) =
     finish_if D depth a (optimize_node D depth t) (optimize_node D depth c)
       (case alt of None \<Rightarrow> None | Some e \<Rightarrow> Some (optimize_node D depth e))"
| "optimize_node D depth (IrLambda a ps body) =
     IrLambda a ps (map (optimize_node D (Suc depth)) body)"
| "optimize_node D depth (IrSeq a ns) = finish_seq a (map (optimize_node D depth) ns)"
| "optimize_node D depth (IrCall a f ns) =
     IrCall a (optimize_node D depth f) (map (optimize_node D depth) ns)"
| "optimize_node D depth (IrSet a s v) = IrSet a s (optimize_node D depth v)"
| "optimize_node D depth (IrDefine a t v) = IrDefine a t (optimize_node D depth v)"
| "optimize_node D depth (IrAnd a ns) = IrAnd a (map (optimize_node D depth) ns)"
| "optimize_node D depth (IrOr a ns) = IrOr a (map (optimize_node D depth) ns)"
| "optimize_node D depth (IrPrimCall a p s ns) =
     finish_prim_call D depth a p s (map (optimize_node D depth) ns)"
| "optimize_node D depth n = n"

text \<open>
  The driver. \<open>None\<close> for the globals stands for a compiler without a VM or one that compiles
  for an \<open>eval\<close> environment: then no primitive is assumed built in.
\<close>

definition initial_gate :: "vm_global list option \<Rightarrow> gate" where
  "initial_gate globals p =
     (case globals of None \<Rightarrow> True | Some gs \<Rightarrow> \<not> vm_binding_is_builtin_primitive gs p)"

definition optimizer_gate :: "vm_global list option \<Rightarrow> ir_node \<Rightarrow> gate" where
  "optimizer_gate globals n = collect_redefinitions n 0 (initial_gate globals)"

definition ch_ir_optimize :: "vm_global list option \<Rightarrow> ir_node \<Rightarrow> ir_node" where
  "ch_ir_optimize globals n = ch_ir_analyze (optimize_node (optimizer_gate globals n) 0 n)"

end
