(* ===== verification/Chaaya_Ir_Fold.thy ===== *)
theory Chaaya_Ir_Fold
  imports Chaaya_Ir_Opt
begin

text \<open>
  Constant folding computes what the natives compute: the values of \<open>fold_prim_call\<close>
  (\<open>src/src/ir_opt.c\<close>) against the primitives of \<open>src/src/prim_core.c\<close>.
\<close>

section \<open>Fixnums and flonums\<close>

lemma fixnum_datum:
  assumes "d_is_fixnum v"
  shows "\<exists>w. v = DNum (Imm w) \<and> ch_is_fixnum w"
  using assms by (auto simp: d_is_fixnum_def is_fixnum_def split: datum.splits exnum.splits)

lemma fixnum_datum_facts:
  assumes "d_is_fixnum v"
  shows "canon_d v" "ch_is_exact v" "\<not> d_is_flonum v" "\<not> d_is_complex v"
    "d_int v = sint (d_fixnum_val v)" "CH_FIXNUM_MIN \<le> d_int v" "d_int v \<le> CH_FIXNUM_MAX"
    "opt_as_number v = Some (f64_of_int (d_int v))" "as_number v = Some (f64_of_int (d_int v))"
    "is_fixnum (d_exact v)" "v = DNum (d_exact v)" "v \<noteq> dundef"
proof -
  obtain w where w: "v = DNum (Imm w)" "ch_is_fixnum w" using fixnum_datum [OF assms] by blast
  show "d_int v = sint (d_fixnum_val v)" "is_fixnum (d_exact v)" "v = DNum (d_exact v)"
    using w by (simp_all add: d_int_def d_exact_def exact_int_def d_fixnum_val_def is_fixnum_def)
  then show "CH_FIXNUM_MIN \<le> d_int v" "d_int v \<le> CH_FIXNUM_MAX"
    using fixnum_range [of "d_exact v"] by (simp_all add: d_int_def)
  show "canon_d v" using w by (simp add: canon_d_def canonical_int_def wf_int_def is_fixnum_def)
  show "ch_is_exact v" using w by (simp add: ch_is_exact_def is_exact_integer_def is_fixnum_def)
  show "\<not> d_is_complex v" using w by (simp add: d_is_complex_def)
  show "\<not> d_is_flonum v" using w by (simp add: d_is_flonum_def ch_classes)
  show "v \<noteq> dundef" using w by (auto simp: ch_classes CH_UNDEFINED_def CH_NANBOX_IMM_def)
  show "opt_as_number v = Some (f64_of_int (d_int v))" "as_number v = Some (f64_of_int (d_int v))"
    using assms w \<open>d_int v = sint (d_fixnum_val v)\<close>
    by (simp_all add: opt_as_number_def as_number_def is_fixnum_def d_is_fixnum_def)
qed


lemma flonum_datum_facts:
  assumes "d_is_flonum v"
  shows "\<not> d_is_fixnum v" "\<not> ch_is_exact v" "\<not> d_is_complex v" "\<not> canon_d v"
    "opt_as_number v = Some (d_flonum_val v)" "as_number v = Some (d_flonum_val v)"
proof -
  obtain w where w: "v = DNum (Imm w)" "ch_is_flonum w"
    using assms by (auto simp: d_is_flonum_def split: datum.splits exnum.splits)
  then have "\<not> ch_is_fixnum w" using fixnum_not_other(1) by blast
  then show "\<not> d_is_fixnum v" "\<not> ch_is_exact v" "\<not> d_is_complex v" "\<not> canon_d v"
    "opt_as_number v = Some (d_flonum_val v)" "as_number v = Some (d_flonum_val v)"
    using w assms by (simp_all add: d_is_fixnum_def is_fixnum_def ch_is_exact_def is_exact_integer_def is_bignum_def
        is_rational_obj_def d_is_complex_def canon_d_def canonical_int_def wf_int_def opt_as_number_def as_number_def)
qed

lemma opt_as_number_cases:
  assumes "opt_as_number v = Some d"
  obtains "d_is_fixnum v" "d = f64_of_int (d_int v)" | "d_is_flonum v" "d = d_flonum_val v"
  using assms fixnum_datum_facts(8) [of v] that
  by (auto simp: opt_as_number_def split: if_splits)

lemma opt_as_number_runtime: "opt_as_number v = Some d \<Longrightarrow> as_number v = Some d"
  by (erule opt_as_number_cases) (simp_all add: fixnum_datum_facts flonum_datum_facts)

lemma opt_as_number_exact: "opt_as_number v = Some d \<Longrightarrow> ch_is_exact v \<longleftrightarrow> d_is_fixnum v"
  by (erule opt_as_number_cases) (simp_all add: fixnum_datum_facts flonum_datum_facts)

lemma fixnums_exact: "list_all d_is_fixnum vs \<Longrightarrow> all_exact vs \<and> \<not> any_complex vs \<and> list_all canon_d vs"
  by (induction vs) (auto simp: all_exact_def any_complex_def fixnum_datum_facts)

lemma fold_num_runtime:
  "fold_num f acc vs = Some d \<Longrightarrow> fold_f64 acc vs f = Some d \<and> (all_exact vs \<longleftrightarrow> list_all d_is_fixnum vs) \<and> \<not> any_complex vs"
proof (induction vs arbitrary: acc)
  case (Cons v vs)
  then obtain e where e: "opt_as_number v = Some e" "fold_num f (f acc e) vs = Some d"
    by (auto split: option.splits)
  have "\<not> d_is_complex v" using e(1) by (rule opt_as_number_cases) (simp_all add: fixnum_datum_facts flonum_datum_facts)
  then show ?case using Cons.IH [OF e(2)] opt_as_number_runtime [OF e(1)] opt_as_number_exact [OF e(1)]
    by (simp add: all_exact_def any_complex_def)
qed (simp add: all_exact_def any_complex_def)

lemma fold_i64_sum:
  "(\<And>a b r. f a b = Some r \<Longrightarrow> r = g a b) \<Longrightarrow> list_all d_is_fixnum vs \<Longrightarrow> fold_i64 f acc vs = Some r \<Longrightarrow>
   r = foldl g acc (map d_int vs)"
  by (induction vs arbitrary: acc) (auto simp: fixnum_datum_facts split: option.splits)

lemma safe_add_value: "safe_add_i64 a b = Some r \<Longrightarrow> r = a + b"
  by (auto simp: safe_add_i64_def split: if_splits)

lemma safe_mul_value: "safe_mul_i64 a b = Some r \<Longrightarrow> r = a * b"
  by (auto simp: safe_mul_i64_def split: if_splits)

lemma sint_of_fixnum:
  assumes "CH_FIXNUM_MIN \<le> n" "n \<le> CH_FIXNUM_MAX"
  shows "sint (word_of_int n :: u64) = n"
  using assms by (intro sint_word_of_int) (auto simp: CH_FIXNUM_MIN_def CH_FIXNUM_MAX_def)

lemma fixnum_result_canonical:
  assumes "fixnum_result (Some n) = Some v" "canonical_int c" "exact_int c = n"
  shows "v = DNum c"
proof -
  have b: "CH_FIXNUM_MIN \<le> n" "n \<le> CH_FIXNUM_MAX" "v = DNum (fixnum (word_of_int n))"
    using assms(1) by (auto simp: fixnum_result_def fits_fixnum_def split: if_splits)
  have "fixnum (word_of_int n) = c"
    using b sint_of_fixnum [OF b(1,2)] assms fixnum_value [of "word_of_int n"]
    by (intro canonical_unique) simp_all
  then show ?thesis using b by simp
qed

section \<open>Values of the optimiser\<close>

text \<open>A constant the optimiser may fold: no complex number, and exact integers in their one form.\<close>

definition val_ok :: "datum \<Rightarrow> bool" where
  "val_ok v \<longleftrightarrow> \<not> d_is_complex v \<and> (d_is_exact_integer v \<longrightarrow> canonical_int (d_exact v))"

lemma val_ok_canon: "val_ok v \<Longrightarrow> d_is_exact_integer v \<longleftrightarrow> canon_d v"
  using exact_integer_wf canonical_wf
  by (auto simp: val_ok_def canon_d_def d_exact_def d_is_exact_integer_def split: datum.splits)

lemma canon_val_ok: "canon_d v \<Longrightarrow> val_ok v \<and> v \<noteq> dundef"
  using canon_d_exact [of v] by (auto simp: val_ok_def canon_d_def d_is_complex_def canonical_int_def wf_int_def
      ch_classes CH_UNDEFINED_def CH_NANBOX_IMM_def)

lemma make_flonum_class: "ch_is_flonum (ch_make_flonum bits)"
  using flonum_bits [of bits]
  by (auto simp: ch_make_flonum_def ch_is_flonum_iff CH_CANONICAL_NAN_def)

lemma flonum_val_ok: "val_ok (d_flonum bits) \<and> d_flonum bits \<noteq> dundef"
  using make_flonum_class [of bits]
  by (auto simp: val_ok_def d_flonum_def d_is_complex_def d_is_exact_integer_def is_exact_integer_def is_fixnum_def is_bignum_def
      ch_is_flonum_iff ch_classes CH_UNDEFINED_def CH_NANBOX_IMM_def)

lemma bool_val_ok: "val_ok (d_bool b) \<and> d_bool b \<noteq> dundef"
  by (auto simp: val_ok_def d_bool_def d_is_complex_def d_is_exact_integer_def is_exact_integer_def is_fixnum_def is_bignum_def
      ch_classes CH_UNDEFINED_def CH_NANBOX_IMM_def CH_TRUE_def CH_FALSE_def)

section \<open>Each primitive\<close>

definition folds_to :: "u64 \<Rightarrow> ir_prim \<Rightarrow> datum list \<Rightarrow> datum \<Rightarrow> bool" where
  "folds_to oob p vs v \<longleftrightarrow> call_native oob p vs = Some v \<and> v \<noteq> dundef \<and> val_ok v"

lemma foldl_runtime:
  assumes "\<And>a b. canonical_int a \<Longrightarrow> canonical_int b \<Longrightarrow>
      \<exists>c. op a b = Some c \<and> canonical_int c \<and> exact_int c = g (exact_int a) (exact_int b)"
    and "\<And>a b r. f a b = Some r \<Longrightarrow> r = g a b"
    and "list_all d_is_fixnum vs" "canonical_int acc"
    and "fixnum_result (fold_i64 f (exact_int acc) vs) = Some v"
  shows "map_option DNum (fold_exact acc vs op) = Some v \<and> v \<noteq> dundef \<and> val_ok v"
proof -
  obtain n where n: "fold_i64 f (exact_int acc) vs = Some n" "fixnum_result (Some n) = Some v"
    using assms(5) by (cases "fold_i64 f (exact_int acc) vs") (auto simp: fixnum_result_def)
  obtain c where c: "fold_exact acc vs op = Some c" "canonical_int c"
      "exact_int c = foldl g (exact_int acc) (map d_int vs)"
    using fold_exact_canonical [of op g acc vs] assms(1,3,4) fixnums_exact by blast
  have v: "v = DNum c"
    using fixnum_result_canonical [OF n(2) c(2)] c(3) fold_i64_sum [OF assms(2,3) n(1)] by simp
  then have "canon_d v" using c(2) by (simp add: canon_d_def)
  then show ?thesis using c(1) v canon_val_ok [of v] by simp
qed

lemma fold_add:
  assumes "fold_values P_ADD vs = Some v" shows "folds_to oob P_ADD vs v"
proof (cases "list_all d_is_fixnum vs")
  case True
  then have f: "fixnum_result (fold_i64 safe_add_i64 0 vs) = Some v" using assms by (simp add: fold_values_def)
  show ?thesis
  proof (cases "vs = []")
    case True
    then have "v = DNum (fixnum 0)" using f by (simp add: fixnum_result_def split: if_splits)
    then show ?thesis using True canon_val_ok [of v]
      by (simp add: folds_to_def call_native_def prim_min_arity_def prim_add_def make_number_def f64_zero_facts f64_to_i64_def canon_d_def)
  next
    case False
    have "prim_add vs = map_option DNum (fold_exact (fixnum 0) vs ch_exact_add)"
      using True False fixnums_exact [OF True] by (simp add: prim_add_def)
    then show ?thesis
      using foldl_runtime [of ch_exact_add "(+)" safe_add_i64 vs "fixnum 0" v] True f exact_add_canonical safe_add_value
      by (simp add: folds_to_def call_native_def prim_min_arity_def fixnum_small)
  qed
next
  case False
  then obtain d where d: "fold_num f64_add F64_0 vs = Some d" "v = d_flonum d"
    using assms by (auto simp: fold_values_def)
  then show ?thesis using fold_num_runtime [OF d(1)] False flonum_val_ok [of d]
    by (simp add: folds_to_def call_native_def prim_min_arity_def prim_add_def make_number_def)
qed

lemma fold_mul:
  assumes "fold_values P_MUL vs = Some v" shows "folds_to oob P_MUL vs v"
proof (cases "list_all d_is_fixnum vs")
  case True
  then have f: "fixnum_result (fold_i64 safe_mul_i64 1 vs) = Some v" using assms by (simp add: fold_values_def)
  show ?thesis
  proof (cases "vs = []")
    case True
    then have "v = DNum (fixnum 1)" using f by (simp add: fixnum_result_def split: if_splits)
    moreover have "f64_val F64_1 = 1" using f64_round_pow2 [of 0] by (simp add: f64_consts pow2_rat_def)
    ultimately show ?thesis using True canon_val_ok [of v]
      by (simp add: folds_to_def call_native_def prim_min_arity_def prim_mul_def make_number_def f64_to_i64_def canon_d_def)
  next
    case False
    have "prim_mul vs = map_option DNum (fold_exact (fixnum 1) vs ch_exact_mul)"
      using True False fixnums_exact [OF True] by (simp add: prim_mul_def)
    then show ?thesis
      using foldl_runtime [of ch_exact_mul "(*)" safe_mul_i64 vs "fixnum 1" v] True f exact_mul_canonical safe_mul_value
      by (simp add: folds_to_def call_native_def prim_min_arity_def fixnum_small)
  qed
next
  case False
  then obtain d where d: "fold_num f64_mul F64_1 vs = Some d" "v = d_flonum d"
    using assms by (auto simp: fold_values_def)
  then show ?thesis using fold_num_runtime [OF d(1)] False flonum_val_ok [of d]
    by (simp add: folds_to_def call_native_def prim_min_arity_def prim_mul_def make_number_def)
qed

lemma fold_sub:
  assumes "fold_values P_SUB vs = Some v" shows "folds_to oob P_SUB vs v"
proof -
  obtain x xs where vs: "vs = x # xs" using assms by (cases vs) (auto simp: fold_values_def)
  show ?thesis
  proof (cases "list_all d_is_fixnum vs")
    case True
    then have x: "d_is_fixnum x" and xs: "list_all d_is_fixnum xs" by (simp_all add: vs)
    note xf = fixnum_datum_facts [OF x] and ex = fixnums_exact [OF True]
    have cx: "canonical_int (d_exact x)" using xf(1) canon_d_exact by blast
    show ?thesis
    proof (cases "xs = []")
      case nil: True
      have f: "fixnum_result (Some (- d_int x)) = Some v" using assms x nil xf by (simp add: fold_values_def vs)
      have n: "exact_int (d_exact x) = d_int x" by (simp add: d_int_def)
      then have "exact_int (d_exact x) \<noteq> - CH_FIXNUM_MIN"
        using xf(7) by (simp add: CH_FIXNUM_MAX_def CH_FIXNUM_MIN_def)
      then have c: "canonical_int (ch_bignum_negate (d_exact x))" using cx negate_canonical by blast
      have i: "exact_int (ch_bignum_negate (d_exact x)) = - d_int x"
        using negate_int [OF canonical_wf [OF cx]] n by simp
      have v: "v = DNum (ch_bignum_negate (d_exact x))" using fixnum_result_canonical [OF f c i] .
      have "prim_sub vs = Some v" using ex nil v exact_integer_wf canonical_wf [OF cx]
        by (simp add: prim_sub_def vs ch_exact_negate_def)
      then show ?thesis using canon_val_ok [of v] v c
        by (simp add: folds_to_def call_native_def prim_min_arity_def vs canon_d_def)
    next
      case False
      have e: "exact_int (d_exact x) = sint (d_fixnum_val x)" using xf(5) by (simp add: d_int_def)
      have "fixnum_result (fold_i64 (\<lambda>a b. safe_add_i64 a (- b)) (exact_int (d_exact x)) xs) = Some v"
        using assms True False e by (simp add: fold_values_def vs)
      moreover have "prim_sub vs = map_option DNum (fold_exact (d_exact x) xs ch_exact_sub)"
        using ex False by (simp add: prim_sub_def vs)
      ultimately show ?thesis
        using foldl_runtime [of ch_exact_sub "(-)" "\<lambda>a b. safe_add_i64 a (- b)" xs "d_exact x" v] xs cx exact_sub_canonical
          safe_add_value
        by (fastforce simp: folds_to_def call_native_def prim_min_arity_def vs)
    qed
  next
    case False
    obtain d where d: "opt_as_number x = Some d"
        "(xs = [] \<and> v = d_flonum (f64_neg d)) \<or> (xs \<noteq> [] \<and> (\<exists>r. fold_num f64_sub d xs = Some r \<and> v = d_flonum r))"
      using assms False by (cases "opt_as_number x") (auto simp: fold_values_def vs split: if_splits)
    have nc: "\<not> d_is_complex x" using d(1) by (rule opt_as_number_cases) (simp_all add: fixnum_datum_facts flonum_datum_facts)
    note r = opt_as_number_runtime [OF d(1)] and e = opt_as_number_exact [OF d(1)]
    have "prim_sub vs = Some v"
    proof (cases "xs = []")
      case True
      then show ?thesis using False d(2) r e nc by (simp add: prim_sub_def vs any_complex_def all_exact_def make_number_def)
    next
      case ne: False
      then obtain s where s: "fold_num f64_sub d xs = Some s" "v = d_flonum s" using d(2) by auto
      show ?thesis using ne False fold_num_runtime [OF s(1)] s(2) r e nc
        by (auto simp: prim_sub_def vs any_complex_def all_exact_def make_number_def)
    qed
    moreover have "val_ok v \<and> v \<noteq> dundef" using d(2) by (elim disjE conjE exE) (simp_all add: flonum_val_ok)
    ultimately show ?thesis by (simp add: folds_to_def call_native_def prim_min_arity_def vs)
  qed
qed

lemma fold_not:
  assumes "fold_values P_NOT vs = Some v" shows "folds_to oob P_NOT vs v"
proof -
  obtain x where vs: "vs = [x]" using assms by (cases vs; cases "tl vs") (auto simp: fold_values_def)
  have "v = d_bool (\<not> is_truthy x)" using assms by (auto simp: fold_values_def vs d_bool_def is_truthy_def)
  then show ?thesis using bool_val_ok [of "\<not> is_truthy x"]
    by (simp add: folds_to_def call_native_def prim_min_arity_def prim_not_def vs)
qed

section \<open>Comparisons\<close>

text \<open>Comparing two operands as doubles is comparing them exactly when both are fixnums.\<close>

lemma fixnum_doubles:
  assumes "d_is_fixnum v"
  shows "f64_finite (f64_of_int (d_int v)) \<and> f64_val (f64_of_int (d_int v)) = of_int (d_int v)"
  using fixnum_to_f64 [of "d_exact v"] fixnum_datum_facts(10) [OF assms] by (simp add: d_int_def)

lemma fixnum_compare:
  assumes "d_is_fixnum a" "d_is_fixnum b"
  shows "ch_exact_compare (d_exact a) (d_exact b) = sgn (d_int a - d_int b)"
proof -
  have "wf_int (d_exact a)" "wf_int (d_exact b)"
    using fixnum_datum_facts(1) assms canon_d_exact canonical_wf by blast+
  then show ?thesis by (simp add: ch_exact_compare_def exact_integer_wf compare_int d_int_def)
qed

definition order_test :: "ir_prim \<Rightarrow> int \<Rightarrow> bool" where
  "order_test p c = (case p of P_LT \<Rightarrow> c < 0 | P_GT \<Rightarrow> 0 < c | P_LE \<Rightarrow> c \<le> 0 | P_GE \<Rightarrow> 0 \<le> c | _ \<Rightarrow> c = 0)"

definition comparisons :: "ir_prim set" where "comparisons = {P_LT, P_GT, P_LE, P_GE, P_NUM_EQ}"

lemma sgn_difference:
  fixes a b :: int
  shows "sgn (a - b) < 0 \<longleftrightarrow> a < b" "0 < sgn (a - b) \<longleftrightarrow> b < a" "sgn (a - b) \<le> 0 \<longleftrightarrow> a \<le> b"
    "0 \<le> sgn (a - b) \<longleftrightarrow> b \<le> a" "sgn (a - b) = 0 \<longleftrightarrow> a = b"
  by (auto simp: sgn_if)

lemma prim_cmp_fixnums:
  assumes "d_is_fixnum a" "d_is_fixnum b" "p \<in> comparisons"
  shows "prim_cmp p (f64_of_int (d_int a)) (f64_of_int (d_int b)) \<longleftrightarrow>
    order_test p (ch_exact_compare (d_exact a) (d_exact b))"
proof -
  define x where "x = f64_of_int (d_int a)"
  define y where "y = f64_of_int (d_int b)"
  define c where "c = ch_exact_compare (d_exact a) (d_exact b)"
  note x_y_c_def = x_def y_def c_def
  note a = fixnum_doubles [OF assms(1), folded x_y_c_def] and b = fixnum_doubles [OF assms(2), folded x_y_c_def]
  have l: "f64_lt x y \<longleftrightarrow> d_int a < d_int b" "f64_lt y x \<longleftrightarrow> d_int b < d_int a"
    and e: "f64_eq x y \<longleftrightarrow> d_int a = d_int b" "f64_eq y x \<longleftrightarrow> d_int a = d_int b"
    using a b by (auto simp add: f64_lt_finite f64_eq_finite)
  have c: "c < 0 \<longleftrightarrow> d_int a < d_int b" "0 < c \<longleftrightarrow> d_int b < d_int a" "c = 0 \<longleftrightarrow> d_int a = d_int b"
    "c \<le> 0 \<longleftrightarrow> d_int a < d_int b \<or> d_int a = d_int b" "0 \<le> c \<longleftrightarrow> d_int b < d_int a \<or> d_int a = d_int b"
    unfolding x_y_c_def fixnum_compare [OF assms(1,2)] sgn_difference by linarith+
  have "prim_cmp p x y \<longleftrightarrow> order_test p c"
    using assms(3) unfolding comparisons_def
    by (elim insertE emptyE)
      (simp_all only: prim_cmp_def order_test_def f64_le_def ir_prim.case l e c)
  then show ?thesis by (simp only: x_y_c_def)
qed

lemma fold_cmp_bool: "fold_cmp p d vs = Some v \<Longrightarrow> v = d_bool True \<or> v = d_bool False"
  unfolding d_bool_def by (induction vs arbitrary: d) (simp_all split: option.splits if_splits)

lemma fold_cmp_f64:
  "opt_as_number x = Some d \<Longrightarrow> fold_cmp p d xs = Some v \<Longrightarrow> ord_f64 (prim_cmp p) (x # xs) = Some v"
proof (induction xs arbitrary: x d)
  case (Cons y ys)
  then obtain e where e: "opt_as_number y = Some e" by (auto split: option.splits)
  show ?case using Cons.prems Cons.IH [OF e] e opt_as_number_runtime [OF e] opt_as_number_runtime [OF Cons.prems(1)]
    by (auto simp: d_bool_def split: if_splits)
qed (simp add: d_bool_def)

lemma fold_cmp_exact:
  "opt_as_number x = Some d \<Longrightarrow> fold_cmp p d xs = Some v \<Longrightarrow> all_exact (x # xs) \<Longrightarrow> p \<in> comparisons \<Longrightarrow>
   ord_exact (order_test p) (x # xs) = Some v"
proof (induction xs arbitrary: x d)
  case (Cons y ys)
  then obtain e where e: "opt_as_number y = Some e" by (auto split: option.splits)
  have fx: "d_is_fixnum x" "d_is_fixnum y"
    using Cons.prems(1,3) e opt_as_number_exact by (auto simp: all_exact_def)
  then have d: "d = f64_of_int (d_int x)" "e = f64_of_int (d_int y)"
    using Cons.prems(1) e fixnum_datum_facts(8) by auto
  show ?case using Cons.prems Cons.IH [OF e] e prim_cmp_fixnums [OF fx Cons.prems(4)]
    by (auto simp: d d_bool_def all_exact_def split: if_splits)
qed (simp add: d_bool_def)

lemma fold_order:
  assumes "fold_values p vs = Some v" "list_all val_ok vs" "p \<in> {P_LT, P_GT, P_LE, P_GE}" "2 \<le> length vs"
  shows "folds_to oob p vs v"
proof -
  obtain x y xs where vs: "vs = x # y # xs" using assms(4) by (cases vs; cases "tl vs") auto
  obtain d where d: "opt_as_number x = Some d" "fold_cmp p d (y # xs) = Some v"
    using assms(1,3) by (auto simp: fold_values_def vs split: option.splits)
  have nc: "\<not> any_complex vs" using assms(2) by (auto simp: any_complex_def val_ok_def list_all_iff list_ex_iff)
  note f = fold_cmp_f64 [OF d] and e = fold_cmp_exact [OF d]
  have "call_native oob p vs = (if all_exact vs then ord_exact (order_test p) vs else ord_f64 (prim_cmp p) vs)"
    using assms(3,4) nc
    by (auto simp: call_native_def prim_min_arity_def prim_lt_def prim_gt_def prim_le_def prim_ge_def prim_cmp_def [abs_def]
        order_test_def [abs_def])
  then have "call_native oob p vs = Some v"
    using e f assms(3) vs by (auto simp: comparisons_def)
  then show ?thesis using fold_cmp_bool [OF d(2)] bool_val_ok by (auto simp: folds_to_def)
qed

text \<open>
  The native \<open>=\<close> compares each operand with the first and, when exact and inexact operands
  are mixed, converts the flonum to an exact number; folding compares neighbours as doubles.
\<close>

lemma double_to_exact_2_63:
  assumes "f64_finite d" "f64_val d = 2 ^ 63" "ch_double_to_exact_if_exact oob d = v" "v \<noteq> undef"
  shows "wf_int v \<and> \<not> (CH_FIXNUM_MIN \<le> exact_int v \<and> exact_int v \<le> CH_FIXNUM_MAX)"
proof -
  let ?v = "ch_make_integer (f64_to_i64 oob (f64_val d))"
  let ?w = "mul_two_times (nat (f64_exp d)) (make_bignum_from_limbs [f64_mantissa d] (0 \<le> f64_val d))"
  have v: "canonical_int ?v" using make_integer_int by blast
  have w: "wf_int ?w" using mul_two_times_int make_bignum_int by blast
  have "v = ?v \<and> f64_eq (ch_exact_to_f64 v) d \<or> v = ?w \<and> 0 \<le> f64_exp d"
    using assms by (auto simp: ch_double_to_exact_if_exact_def Let_def split: if_splits)
  then show ?thesis
  proof (elim disjE conjE)
    assume e: "v = ?v" "f64_eq (ch_exact_to_f64 v) d"
    have "\<not> is_fixnum v"
    proof
      assume f: "is_fixnum v"
      then have "of_int (exact_int v) = (of_int (2 ^ 63) :: rat)"
        using e(2) fixnum_to_f64 [OF f] assms(1,2) by (simp add: f64_eq_finite)
      then have "exact_int v = 2 ^ 63" by (simp only: of_int_eq_iff)
      then show False using fixnum_range [OF f] by (simp add: CH_FIXNUM_MAX_def)
    qed
    then show ?thesis using v e(1) by (auto simp: canonical_int_def)
  next
    assume e: "v = ?w" "0 \<le> f64_exp d"
    then have "of_int (exact_int v) = (of_int (2 ^ 63) :: rat)" using mantissa_path_int [OF e(2)] assms(2) by simp
    then have "exact_int v = 2 ^ 63" by (simp only: of_int_eq_iff)
    then show ?thesis using w e(1) by (simp add: CH_FIXNUM_MAX_def)
  qed
qed

lemma flonum_fixnum_equal:
  assumes "d_is_fixnum b"
  shows "(let e = ch_double_to_exact_if_exact oob d in e \<noteq> undef \<and> exact_int e = d_int b \<and> wf_int e) \<longleftrightarrow>
    f64_eq d (f64_of_int (d_int b))"
proof -
  let ?e = "ch_double_to_exact_if_exact oob d"
  note b = fixnum_doubles [OF assms] and r = fixnum_datum_facts(6,7) [OF assms]
  show ?thesis
  proof (cases "f64_finite d")
    case False
    then have "?e = undef" by (simp add: ch_double_to_exact_if_exact_def)
    moreover have "\<not> f64_eq d (f64_of_int (d_int b))"
      using False f64_finite_class [of "f64_of_int (d_int b)"] b
      by (auto simp: f64_eq_def f64_finite_def f64_nan_def f64_inf_def)
    ultimately show ?thesis by simp
  next
    case fin: True
    have "f64_eq d (f64_of_int (d_int b)) \<longleftrightarrow> f64_val d = of_int (d_int b)" using fin b by (simp add: f64_eq_finite)
    moreover have "?e \<noteq> undef \<and> exact_int ?e = d_int b \<and> wf_int ?e" if "f64_val d = of_int (d_int b)"
    proof -
      have e: "?e = fixnum (word_of_int (d_int b))" using double_to_exact_fixnum [OF fin that r] .
      moreover have "exact_int ?e = d_int b" unfolding e using fixnum_value [of "word_of_int (d_int b)"] sint_of_fixnum [OF r] r by simp
      ultimately show ?thesis using canon_val_ok [of "DNum ?e"] by (simp add: canon_d_def)
    qed
    moreover have "f64_val d = of_int (d_int b)" if "?e \<noteq> undef" "exact_int ?e = d_int b"
    proof (cases "f64_val d = 2 ^ 63")
      case True
      then show ?thesis using double_to_exact_2_63 [OF fin True refl that(1)] that(2) r by simp
    next
      case False
      then show ?thesis using double_to_exact_sound [OF refl that(1) False] that(2) by simp
    qed
    ultimately show ?thesis by (auto simp: Let_def)
  qed
qed

lemma double_to_exact_wf:
  assumes "ch_double_to_exact_if_exact oob d \<noteq> undef"
  shows "wf_int (ch_double_to_exact_if_exact oob d)"
proof -
  have "f64_finite d"
  proof (rule ccontr)
    assume "\<not> f64_finite d"
    then show False using assms by (simp add: ch_double_to_exact_if_exact_def)
  qed
  then show ?thesis
    using double_to_exact_sound [OF refl assms] double_to_exact_2_63 [OF _ _ refl assms] by blast
qed

lemma exact_equal: "wf_int a \<Longrightarrow> wf_int b \<Longrightarrow> ch_exact_compare a b = 0 \<longleftrightarrow> exact_int a = exact_int b"
  by (simp add: ch_exact_compare_def exact_integer_wf compare_int sgn_difference)

lemma f64_eq_sym: "f64_eq a b \<longleftrightarrow> f64_eq b a"
  by (auto simp: f64_eq_def)

lemma f64_eq_trans: "f64_eq a b \<Longrightarrow> f64_eq b c \<longleftrightarrow> f64_eq a c"
  by (auto simp: f64_eq_def split: if_splits)

lemma mixed_equal_doubles:
  assumes "opt_as_number a = Some x" "opt_as_number b = Some y" "d_is_flonum a \<or> d_is_flonum b"
  shows "mixed_num_equal oob a b \<longleftrightarrow> f64_eq x y"
proof -
  note ra = opt_as_number_runtime [OF assms(1)] and rb = opt_as_number_runtime [OF assms(2)]
  note xa = opt_as_number_exact [OF assms(1)] and xb = opt_as_number_exact [OF assms(2)]
  consider "d_is_flonum a" "d_is_flonum b" | "d_is_flonum a" "d_is_fixnum b" "x = d_flonum_val a"
      "y = f64_of_int (d_int b)"
    | "d_is_fixnum a" "d_is_flonum b" "x = f64_of_int (d_int a)" "y = d_flonum_val b"
    using assms flonum_datum_facts(1) by (auto elim!: opt_as_number_cases)
  then show ?thesis
  proof cases
    case 1
    then show ?thesis using ra rb flonum_datum_facts(2) by (simp add: mixed_num_equal_def)
  next
    case 2
    let ?e = "ch_double_to_exact_if_exact oob x"
    have w: "wf_int (d_exact b)" using fixnum_datum_facts(1) [OF 2(2)] canon_d_exact canonical_wf by blast
    have "mixed_num_equal oob a b \<longleftrightarrow> ?e \<noteq> undef \<and> ch_exact_compare ?e (d_exact b) = 0"
      using 2 fixnum_datum_facts [OF 2(2)] by (simp add: mixed_num_equal_def Let_def)
    then show ?thesis
      using flonum_fixnum_equal [OF 2(2), of oob x] double_to_exact_wf [of oob x] exact_equal [OF _ w, of ?e] 2(4)
      by (auto simp: Let_def d_int_def)
  next
    case 3
    let ?e = "ch_double_to_exact_if_exact oob y"
    have w: "wf_int (d_exact a)" using fixnum_datum_facts(1) [OF 3(1)] canon_d_exact canonical_wf by blast
    have "mixed_num_equal oob a b \<longleftrightarrow> ?e \<noteq> undef \<and> ch_exact_compare (d_exact a) ?e = 0"
      using 3 fixnum_datum_facts [OF 3(1)] by (simp add: mixed_num_equal_def Let_def)
    then show ?thesis
      using flonum_fixnum_equal [OF 3(1), of oob y] double_to_exact_wf [of oob y] exact_equal [OF w, of ?e] 3(3)
        f64_eq_sym [of x y]
      by (auto simp: Let_def d_int_def)
  qed
qed

text \<open>A fold over neighbours that are equal so far is a loop over comparisons with the first.\<close>

lemma fold_cmp_first:
  assumes "f64_eq first prev \<or> first = prev"
  shows "fold_cmp P_NUM_EQ prev xs = Some v \<Longrightarrow>
    (v = d_bool True \<and> list_all (\<lambda>z. \<exists>d. opt_as_number z = Some d \<and> f64_eq first d) xs) \<or>
    (v = d_bool False \<and> (\<exists>ys z zs d. xs = ys @ z # zs \<and> opt_as_number z = Some d \<and> \<not> f64_eq first d \<and>
        list_all (\<lambda>z. \<exists>d. opt_as_number z = Some d \<and> f64_eq first d) ys))"
  using assms
proof (induction xs arbitrary: prev)
  case (Cons x xs)
  then obtain d where d: "opt_as_number x = Some d" by (auto split: option.splits)
  have eq: "f64_eq prev d \<longleftrightarrow> f64_eq first d" using Cons.prems(2) f64_eq_trans by blast
  show ?case
  proof (cases "f64_eq first d")
    case True
    then have "fold_cmp P_NUM_EQ d xs = Some v" using Cons.prems(1) d eq by (simp add: prim_cmp_def)
    from Cons.IH [OF this disjI1 [OF True]] show ?thesis
    proof (elim disjE)
      assume "v = d_bool False \<and> (\<exists>ys z zs d. xs = ys @ z # zs \<and> opt_as_number z = Some d \<and> \<not> f64_eq first d \<and>
        list_all (\<lambda>z. \<exists>d. opt_as_number z = Some d \<and> f64_eq first d) ys)"
      then obtain ys z zs e where v: "v = d_bool False" "xs = ys @ z # zs" "opt_as_number z = Some e" "\<not> f64_eq first e"
        "list_all (\<lambda>z. \<exists>d. opt_as_number z = Some d \<and> f64_eq first d) ys" by blast
      then have "x # xs = (x # ys) @ z # zs" "list_all (\<lambda>z. \<exists>d. opt_as_number z = Some d \<and> f64_eq first d) (x # ys)"
        using d True by simp_all
      then show ?thesis using v by blast
    qed (use d True in \<open>auto\<close>)
  next
    case False
    then have "v = d_bool False" using Cons.prems(1) d eq by (simp add: prim_cmp_def d_bool_def)
    moreover have "x # xs = [] @ x # xs" by simp
    ultimately show ?thesis using d False by fastforce
  qed
qed (simp add: d_bool_def)

lemma num_eq_f64_first:
  "list_all (\<lambda>z. \<exists>d. as_number z = Some d \<and> f64_eq first d) ys \<Longrightarrow> num_eq_f64 first (ys @ zs) = num_eq_f64 first zs"
  by (induction ys) auto

lemma mixed_equal:
  assumes "opt_as_number a = Some x" "opt_as_number b = Some y"
  shows "mixed_num_equal oob a b \<longleftrightarrow> f64_eq x y"
proof (cases "d_is_flonum a \<or> d_is_flonum b")
  case True
  then show ?thesis using mixed_equal_doubles assms by blast
next
  case False
  then show ?thesis using opt_as_number_runtime [OF assms(1)] opt_as_number_runtime [OF assms(2)]
    by (simp add: mixed_num_equal_def)
qed

lemma exact_equal_doubles:
  assumes "opt_as_number a = Some x" "opt_as_number b = Some y" "ch_is_exact a" "ch_is_exact b"
  shows "ch_exact_compare (d_exact a) (d_exact b) = 0 \<longleftrightarrow> f64_eq x y"
proof -
  have f: "d_is_fixnum a" "d_is_fixnum b" using assms opt_as_number_exact by blast+
  then have "x = f64_of_int (d_int a)" "y = f64_of_int (d_int b)" using assms(1,2) fixnum_datum_facts(8) by auto
  then show ?thesis using prim_cmp_fixnums [OF f, of P_NUM_EQ] by (simp add: comparisons_def prim_cmp_def order_test_def)
qed

lemma fold_num_eq:
  assumes "fold_values P_NUM_EQ vs = Some v" "list_all val_ok vs"
  shows "folds_to oob P_NUM_EQ vs v"
proof (cases "\<exists>x y xs. vs = x # y # xs")
  case False
  then have v: "vs = [] \<or> (\<exists>x. vs = [x])" by (metis neq_Nil_conv)
  then have "v = d_bool True" using assms(1) by (auto simp: fold_values_def d_bool_def)
  moreover have "prim_num_eq oob vs = Some (d_bool True)" using v by (auto simp: prim_num_eq_def)
  ultimately show ?thesis using bool_val_ok by (simp add: folds_to_def call_native_def prim_min_arity_def)
next
  case True
  then obtain x y xs where vs: "vs = x # y # xs" by blast
  let ?rest = "y # xs"
  obtain d where d: "opt_as_number x = Some d" "fold_cmp P_NUM_EQ d ?rest = Some v"
    using assms(1) by (auto simp: fold_values_def vs split: option.splits)
  have nc: "\<not> any_complex vs" using assms(2) by (auto simp: any_complex_def val_ok_def list_all_iff list_ex_iff)
  note rx = opt_as_number_runtime [OF d(1)]
  have run: "prim_num_eq oob vs =
      (if all_exact vs then Some (d_bool (list_all (\<lambda>z. ch_exact_compare (d_exact x) (d_exact z) = 0) ?rest))
       else if any_inexact vs then Some (d_bool (list_all (mixed_num_equal oob x) ?rest))
       else num_eq_f64 d ?rest)"
    using nc rx by (simp add: prim_num_eq_def vs)
  have ex: "ch_is_exact x \<and> ch_is_exact z" if "all_exact vs" "z \<in> set ?rest" for z
    using that by (auto simp add: all_exact_def vs list_all_iff)
  have "prim_num_eq oob vs = Some v"
    using fold_cmp_first [of d d ?rest v, OF disjI2 [OF refl] d(2)]
  proof (elim disjE conjE exE)
    assume t: "v = d_bool True" "list_all (\<lambda>z. \<exists>e. opt_as_number z = Some e \<and> f64_eq d e) ?rest"
    have "list_all (\<lambda>z. ch_exact_compare (d_exact x) (d_exact z) = 0) ?rest" if "all_exact vs"
      using t(2) ex [OF that] exact_equal_doubles [OF d(1)] by (fastforce simp: list_all_iff)
    moreover have "list_all (mixed_num_equal oob x) ?rest"
      using t(2) mixed_equal [OF d(1)] by (fastforce simp: list_all_iff)
    moreover have "list_all (\<lambda>z. \<exists>e. as_number z = Some e \<and> f64_eq d e) ?rest"
      using t(2) opt_as_number_runtime by (fastforce simp: list_all_iff)
    then have "num_eq_f64 d ?rest = Some (d_bool True)" using num_eq_f64_first [of d ?rest "[]"] by simp
    ultimately show ?thesis unfolding run t(1) by simp
  next
    fix ys z zs e
    assume f: "v = d_bool False" "?rest = ys @ z # zs" "opt_as_number z = Some e" "\<not> f64_eq d e"
      "list_all (\<lambda>z. \<exists>e. opt_as_number z = Some e \<and> f64_eq d e) ys"
    have z: "z \<in> set ?rest" unfolding f(2) by simp
    have A: "list_all (\<lambda>z. ch_exact_compare (d_exact x) (d_exact z) = 0) ?rest = False" if "all_exact vs"
      using z ex [OF that z] exact_equal_doubles [OF d(1) f(3)] f(4) unfolding list_all_iff by blast
    have B: "list_all (mixed_num_equal oob x) ?rest = False"
      using z mixed_equal [OF d(1) f(3)] f(4) unfolding list_all_iff by blast
    have C: "num_eq_f64 d ?rest = Some (d_bool False)"
    proof -
      have "list_all (\<lambda>z. \<exists>e. as_number z = Some e \<and> f64_eq d e) ys"
        using f(5) opt_as_number_runtime by (fastforce simp: list_all_iff)
      then show ?thesis unfolding f(2) using num_eq_f64_first opt_as_number_runtime [OF f(3)] f(4) by simp
    qed
    show ?thesis unfolding run f(1) B C by (cases "all_exact vs") (simp_all only: A if_True if_False if_cancel)
  qed
  moreover have "val_ok v \<and> v \<noteq> dundef" using fold_cmp_bool [OF d(2)] by (elim disjE) (simp_all add: bool_val_ok)
  ultimately show ?thesis by (simp add: folds_to_def call_native_def prim_min_arity_def)
qed

lemma fold_values_native:
  assumes "fold_values p vs = Some v" "list_all val_ok vs" "p \<in> {P_LT, P_GT, P_LE, P_GE} \<longrightarrow> 2 \<le> length vs"
  shows "folds_to oob p vs v"
  using assms fold_add fold_sub fold_mul fold_not fold_num_eq fold_order by (cases p) simp_all

section \<open>Properties\<close>




end
