(* ===== verification/Chaaya_Ir_Semantics.thy ===== *)
theory Chaaya_Ir_Semantics
  imports Chaaya_Ir_Fold
begin

text \<open>
  What the optimiser of \<open>src/src/ir_opt.c\<close> preserves. The meaning of a tree is given in
  continuation passing style over a machine: the parts of the run time (variables, assignment,
  procedure calls, closures, forms left to the legacy compiler) are fields of a record, the order of
  evaluation is that of the compiler (callee, then operands from left to right).
\<close>

section \<open>Meaning of a tree\<close>

type_synonym ('v, 's, 'a) cont = "'v \<Rightarrow> 's \<Rightarrow> 'a"

record ('e, 'v, 's, 'a) machine =
  mc_const :: "datum \<Rightarrow> 'v"
  mc_truthy :: "'v \<Rightarrow> bool"
  mc_var :: "'e \<Rightarrow> symbol \<Rightarrow> ('v, 's, 'a) cont \<Rightarrow> 's \<Rightarrow> 'a"
  mc_set :: "'e \<Rightarrow> symbol \<Rightarrow> 'v \<Rightarrow> ('v, 's, 'a) cont \<Rightarrow> 's \<Rightarrow> 'a"
  mc_define :: "'e \<Rightarrow> datum \<Rightarrow> 'v \<Rightarrow> ('v, 's, 'a) cont \<Rightarrow> 's \<Rightarrow> 'a"
  mc_apply :: "'v \<Rightarrow> 'v list \<Rightarrow> ('v, 's, 'a) cont \<Rightarrow> 's \<Rightarrow> 'a"
  mc_close :: "'e \<Rightarrow> datum \<Rightarrow> ('e \<Rightarrow> ('v, 's, 'a) cont \<Rightarrow> 's \<Rightarrow> 'a) \<Rightarrow> ('v, 's, 'a) cont \<Rightarrow> 's \<Rightarrow> 'a"
  mc_raw :: "'e \<Rightarrow> datum \<Rightarrow> ('v, 's, 'a) cont \<Rightarrow> 's \<Rightarrow> 'a"

fun den :: "('e, 'v, 's, 'a) machine \<Rightarrow> ir_node \<Rightarrow> 'e \<Rightarrow> ('v, 's, 'a) cont \<Rightarrow> 's \<Rightarrow> 'a"
  and den_args :: "('e, 'v, 's, 'a) machine \<Rightarrow> ir_node list \<Rightarrow> 'e \<Rightarrow> ('v list \<Rightarrow> 's \<Rightarrow> 'a) \<Rightarrow> 's \<Rightarrow> 'a"
  and den_seq :: "('e, 'v, 's, 'a) machine \<Rightarrow> ir_node list \<Rightarrow> 'e \<Rightarrow> ('v, 's, 'a) cont \<Rightarrow> 's \<Rightarrow> 'a"
  and den_junction :: "('e, 'v, 's, 'a) machine \<Rightarrow> bool \<Rightarrow> ir_node list \<Rightarrow> 'e \<Rightarrow> ('v, 's, 'a) cont \<Rightarrow> 's \<Rightarrow> 'a"
where
  "den M (IrVoid a) e k = k (mc_const M (DImm CH_VOID))"
| "den M (IrLiteral a v) e k = k (mc_const M v)"
| "den M (IrQuote a v) e k = k (mc_const M v)"
| "den M (IrVar a s) e k = mc_var M e s k"
| "den M (IrIf a t c alt) e k =
     den M t e (\<lambda>v. if mc_truthy M v then den M c e k
                    else case alt of None \<Rightarrow> k (mc_const M (DImm CH_FALSE)) | Some n \<Rightarrow> den M n e k)"
| "den M (IrLambda a ps body) e k = mc_close M e ps (den_seq M body) k"
| "den M (IrSeq a ns) e k = den_seq M ns e k"
| "den M (IrCall a f ns) e k = den M f e (\<lambda>fv. den_args M ns e (\<lambda>vs. mc_apply M fv vs k))"
| "den M (IrSet a s n) e k = den M n e (\<lambda>v. mc_set M e s v k)"
| "den M (IrDefine a t n) e k = den M n e (\<lambda>v. mc_define M e t v k)"
| "den M (IrDefineSyntax a) e k = k (mc_const M (DImm CH_VOID))"
| "den M (IrAnd a ns) e k = den_junction M False ns e k"
| "den M (IrOr a ns) e k = den_junction M True ns e k"
| "den M (IrPrimCall a p s ns) e k = mc_var M e s (\<lambda>fv. den_args M ns e (\<lambda>vs. mc_apply M fv vs k))"
| "den M (IrRaw a x) e k = mc_raw M e x k"
| "den_args M [] e k = k []"
| "den_args M (n # ns) e k = den M n e (\<lambda>v. den_args M ns e (\<lambda>vs. k (v # vs)))"
| "den_seq M [] e k = k (mc_const M (DImm CH_VOID))"
| "den_seq M (n # ns) e k = (if ns = [] then den M n e k else den M n e (\<lambda>_. den_seq M ns e k))"
| "den_junction M stop [] e k = k (mc_const M (if stop then DImm CH_FALSE else DImm CH_TRUE))"
| "den_junction M stop (n # ns) e k =
     (if ns = [] then den M n e k
      else den M n e (\<lambda>v. if mc_truthy M v = stop then k v else den_junction M stop ns e k))"

lemma den_cons_cong:
  assumes "den M n' = den M n"
  shows "den_args M ns' = den_args M ns \<Longrightarrow> den_args M (n' # ns') = den_args M (n # ns)"
    and "den_seq M ns' = den_seq M ns \<Longrightarrow> (ns' = [] \<longleftrightarrow> ns = []) \<Longrightarrow> den_seq M (n' # ns') = den_seq M (n # ns)"
    and "den_junction M b ns' = den_junction M b ns \<Longrightarrow> (ns' = [] \<longleftrightarrow> ns = []) \<Longrightarrow>
      den_junction M b (n' # ns') = den_junction M b (n # ns)"
  by (intro ext, simp add: assms cong: if_cong)+

text \<open>Annotations have no meaning.\<close>

lemma den_analyze:
  "den M (analyze_node t n) = den M n"
  "den_args M (analyze_seq t ns) = den_args M ns \<and> den_seq M (analyze_seq t ns) = den_seq M ns \<and>
   (analyze_seq t ns = [] \<longleftrightarrow> ns = [])"
  "den_junction M b (fst (analyze_junction t st r ms)) = den_junction M b ms \<and>
   (fst (analyze_junction t st r ms) = [] \<longleftrightarrow> ms = [])"
proof (induction t n and t ns and t st r ms arbitrary: and and b rule: analyze_node_analyze_seq_analyze_junction.induct)
  case (5 tail a t c alt)
  then show ?case by (cases alt) (auto simp: Let_def intro!: ext cong: if_cong)
next
  case (19 tail st r n ns)
  let ?n = "analyze_node (tail \<and> ns = []) n"
  have "\<exists>xs. fst (analyze_junction tail st r (n # ns)) = ?n # xs \<and> den_junction M b xs = den_junction M b ns \<and>
      (xs = [] \<longleftrightarrow> ns = [])"
    using "19.IH"(2) [OF refl] by (fastforce simp: Let_def split: option.split prod.split)
  then obtain xs where "fst (analyze_junction tail st r (n # ns)) = ?n # xs"
      "den_junction M b xs = den_junction M b ns" "xs = [] \<longleftrightarrow> ns = []" by blast
  then show ?case using den_cons_cong(3) [OF "19.IH"(1)] by (simp del: den_junction.simps analyze_junction.simps)
next
  case (17 tail n ns)
  then show ?case using den_cons_cong(1,2) [OF "17.IH"(1)] by (simp del: den_seq.simps den_args.simps)
qed (auto simp: Let_def case_prod_beta intro!: ext)

section \<open>Sound annotations\<close>

definition const_ok :: "('e, 'v, 's, 'a) machine \<Rightarrow> 'e set \<Rightarrow> ir_node \<Rightarrow> bool" where
  "const_ok M E n \<longleftrightarrow>
     (\<forall>v. const_of n = Some v \<longrightarrow> val_ok v \<and> (\<forall>e\<in>E. \<forall>k. den M n e k = k (mc_const M v)))"

definition order_prims :: "ir_prim set" where "order_prims = {P_LT, P_GT, P_LE, P_GE}"

text \<open>
  Every constant annotation of the tree is the value of its node in the environments \<open>E\<close> (all
  environments inside a lambda), literals are foldable values, a primitive call has the primitive of its
  symbol, and an order predicate has its two operands.
\<close>

fun sound :: "('e, 'v, 's, 'a) machine \<Rightarrow> 'e set \<Rightarrow> ir_node \<Rightarrow> bool" where
  "sound M E (IrVoid a) = const_ok M E (IrVoid a)"
| "sound M E (IrLiteral a v) = (const_ok M E (IrLiteral a v) \<and> val_ok v)"
| "sound M E (IrQuote a v) = (const_ok M E (IrQuote a v) \<and> val_ok v)"
| "sound M E (IrVar a s) = const_ok M E (IrVar a s)"
| "sound M E (IrIf a t c alt) =
     (const_ok M E (IrIf a t c alt) \<and> sound M E t \<and> sound M E c \<and>
      (case alt of None \<Rightarrow> True | Some n \<Rightarrow> sound M E n))"
| "sound M E (IrLambda a ps body) = (const_ok M E (IrLambda a ps body) \<and> list_all (sound M UNIV) body)"
| "sound M E (IrSeq a ns) = (const_ok M E (IrSeq a ns) \<and> list_all (sound M E) ns)"
| "sound M E (IrCall a f ns) = (const_ok M E (IrCall a f ns) \<and> sound M E f \<and> list_all (sound M E) ns)"
| "sound M E (IrSet a s n) = (const_ok M E (IrSet a s n) \<and> sound M E n)"
| "sound M E (IrDefine a t n) = (const_ok M E (IrDefine a t n) \<and> sound M E n)"
| "sound M E (IrDefineSyntax a) = const_ok M E (IrDefineSyntax a)"
| "sound M E (IrAnd a ns) = (const_ok M E (IrAnd a ns) \<and> list_all (sound M E) ns)"
| "sound M E (IrOr a ns) = (const_ok M E (IrOr a ns) \<and> list_all (sound M E) ns)"
| "sound M E (IrPrimCall a p s ns) =
     (const_ok M E (IrPrimCall a p s ns) \<and> list_all (sound M E) ns \<and> prim_from_symbol s = Some p \<and>
      (p \<in> order_prims \<longrightarrow> 2 \<le> length ns))"
| "sound M E (IrRaw a x) = const_ok M E (IrRaw a x)"

lemma sound_const: "sound M E n \<Longrightarrow> const_ok M E n"
  by (cases n) simp_all

lemma const_okD:
  "sound M E n \<Longrightarrow> const_of n = Some v \<Longrightarrow> e \<in> E \<Longrightarrow> den M n e k = k (mc_const M v)"
  using sound_const by (fastforce simp: const_ok_def)

lemma const_ok_val: "sound M E n \<Longrightarrow> const_of n = Some v \<Longrightarrow> val_ok v"
  using sound_const by (fastforce simp: const_ok_def)

lemma const_ok_none [simp]: "const_of n = None \<Longrightarrow> const_ok M E n"
  by (simp add: const_ok_def)

lemma val_ok_bool: "val_ok (DImm CH_TRUE)" "val_ok (DImm CH_FALSE)" "val_ok (DImm CH_VOID)"
  using bool_val_ok [of True] bool_val_ok [of False]
  by (simp_all add: d_bool_def)
    (simp add: val_ok_def d_is_complex_def d_is_exact_integer_def is_exact_integer_def is_fixnum_def is_bignum_def
      ch_classes CH_VOID_def CH_NANBOX_IMM_def)

lemma seq_constant:
  assumes "list_all (sound M E) ns" "list_all is_constant ns" "ns \<noteq> []" "e \<in> E"
  shows "const_of (last ns) \<noteq> None \<and> (\<forall>v. const_of (last ns) = Some v \<longrightarrow> den_seq M ns e k = k (mc_const M v))"
  using assms
proof (induction ns)
  case (Cons n ns)
  obtain v where v: "const_of n = Some v" using Cons.prems(2) by (auto simp: const_of_def)
  show ?case
  proof (cases "ns = []")
    case True
    then show ?thesis using const_okD [OF _ v Cons.prems(4)] v Cons.prems(1) by simp
  next
    case False
    have "den M n e (\<lambda>_. den_seq M ns e k) = den_seq M ns e k"
      using const_okD [OF _ v Cons.prems(4), of M "\<lambda>_. den_seq M ns e k"] Cons.prems(1) by simp
    then have "den_seq M (n # ns) e k = den_seq M ns e k" using False by simp
    then show ?thesis using Cons.IH Cons.prems False by (simp del: den_seq.simps)
  qed
qed simp

lemma junction_constant:
  assumes "\<And>k. den M n e k = k (mc_const M v)"
  shows "den_junction M b (n # ns) e k =
    (if ns = [] \<or> mc_truthy M (mc_const M v) = b then k (mc_const M v) else den_junction M b ns e k)"
  by (simp add: assms)

lemma analyze_seq_length [simp]: "length (analyze_seq t ns) = length ns"
  by (induction ns) simp_all

definition truth_ok :: "('e, 'v, 's, 'a) machine \<Rightarrow> bool" where
  "truth_ok M \<longleftrightarrow> (\<forall>v. mc_truthy M (mc_const M v) = is_truthy v)"

lemma analyze_sound:
  assumes "truth_ok M"
  shows "sound M E n \<Longrightarrow> sound M E (analyze_node t n)"
    "list_all (sound M E) ns \<Longrightarrow> list_all (sound M E) (analyze_seq t ns)"
    "list_all (sound M E) ms \<Longrightarrow> val_ok r \<Longrightarrow> (ms = [] \<Longrightarrow> r = (if st then DImm CH_FALSE else DImm CH_TRUE)) \<Longrightarrow>
      list_all (sound M E) (fst (analyze_junction t st r ms)) \<and>
      (\<forall>v. snd (analyze_junction t st r ms) = Some v \<longrightarrow> val_ok v \<and>
         (\<forall>e\<in>E. \<forall>k. den_junction M st (fst (analyze_junction t st r ms)) e k = k (mc_const M v)))"
proof (induction t n and t ns and t st r ms arbitrary: E and E and E
    rule: analyze_node_analyze_seq_analyze_junction.induct)
  case (5 tail a t c alt)
  let ?t = "analyze_node False t" and ?c = "analyze_node tail c"
  have tc: "sound M E ?t" "sound M E ?c" using "5.IH"(1,2) "5.prems" by simp_all
  show ?case
  proof (cases alt)
    case None
    then show ?thesis using tc const_okD [OF tc(1)] const_okD [OF tc(2)] const_ok_val [OF tc(2)] assms
      by (auto simp: Let_def const_ok_def set_constant_def const_of_def [of "IrIf _ _ _ _"] truth_ok_def val_ok_bool
          split: option.splits if_splits)
  next
    case (Some x)
    then have al: "sound M E (analyze_node tail x)" using "5.IH"(3) "5.prems" by simp
    show ?thesis using Some al tc const_okD [OF tc(1)] const_okD [OF tc(2)] const_ok_val [OF tc(2)] assms
        const_okD [OF al] const_ok_val [OF al]
      by (auto simp: Let_def const_ok_def set_constant_def const_of_def [of "IrIf _ _ _ _"] truth_ok_def val_ok_bool
          split: option.splits if_splits)
  qed
next
  case (7 tail a ns)
  let ?ns = "analyze_seq tail ns"
  have ns: "list_all (sound M E) ?ns" using 7 by simp
  have "const_ok M E (analyze_node tail (IrSeq a ns))"
  proof (cases "?ns = []")
    case True
    then show ?thesis by (simp add: const_ok_def const_of_def set_constant_def val_ok_bool)
  next
    case False
    then have "sound M E (last ?ns)" using ns by (simp add: list_all_iff)
    then show ?thesis using False seq_constant [OF ns _ False] const_ok_val
      by (auto simp: const_ok_def set_constant_def const_of_def [of "IrSeq _ _"] Let_def)
  qed
  then show ?case using ns by (simp add: Let_def)
next
  case (12 tail a ns)
  show ?case using "12.IH" [of E] "12.prems" val_ok_bool
    by (auto simp: const_ok_def const_of_def set_constant_def case_prod_beta)
next
  case (13 tail a ns)
  show ?case using "13.IH" [of E] "13.prems" val_ok_bool
    by (auto simp: const_ok_def const_of_def set_constant_def case_prod_beta)
next
  case (19 tail st r n ns)
  let ?n = "analyze_node (tail \<and> ns = []) n"
  have n: "sound M E ?n" using "19.IH"(1) "19.prems"(1) by simp
  show ?case
  proof (cases "const_of ?n")
    case None
    then show ?thesis using n "19.prems"(1) by (simp add: Let_def)
  next
    case (Some v)
    have dn: "den M ?n e k = k (mc_const M v)" if "e \<in> E" for e k using const_okD [OF n Some that] .
    note vo = const_ok_val [OF n Some]
    have tv: "mc_truthy M (mc_const M v) = is_truthy v" using assms by (simp add: truth_ok_def)
    show ?thesis
    proof (cases "is_truthy v = st")
      case True
      then have "analyze_junction tail st r (n # ns) = (?n # ns, Some v)" using Some by (simp add: Let_def)
      then show ?thesis using n vo tv True "19.prems"(1) junction_constant [OF dn, of _ st ns]
        by (simp del: den_junction.simps analyze_junction.simps)
    next
      case False
      let ?r = "analyze_junction tail st v ns"
      have j: "list_all (sound M E) (fst ?r) \<and>
          (\<forall>w. snd ?r = Some w \<longrightarrow> val_ok w \<and>
            (\<forall>e\<in>E. \<forall>k. fst ?r \<noteq> [] \<longrightarrow> den_junction M st (fst ?r) e k = k (mc_const M w)))"
      proof (cases "ns = []")
        case True
        then show ?thesis using vo by simp
      next
        case ne: False
        then show ?thesis using "19.IH"(2) [OF refl Some False, of E] "19.prems"(1) vo by simp
      qed
      have "fst ?r = [] \<Longrightarrow> snd ?r = Some v" by (cases ns) (auto simp: Let_def split: option.splits if_splits prod.splits)
      moreover have "analyze_junction tail st r (n # ns) = (?n # fst ?r, snd ?r)"
        using Some False by (simp add: Let_def case_prod_beta)
      ultimately show ?thesis using n vo tv False j junction_constant [OF dn, of _ st "fst ?r"]
        by (cases "fst ?r = []") (simp_all del: den_junction.simps analyze_junction.simps)
    qed
  qed
qed (simp_all add: set_constant_def const_of_def const_ok_def val_ok_bool)

section \<open>The optimiser preserves the meaning\<close>

text \<open>
  What the rewriting relies on. \<open>pv p\<close> is the built-in procedure of the primitive \<open>p\<close>: in the
  top-level environment \<open>e0\<close> every symbol of an enabled primitive is bound to it whenever it is
  read, and calling it is running the native of \<open>src/src/prim_core.c\<close>.
\<close>

definition machine_ok :: "u64 \<Rightarrow> ('e, 'v, 's, 'a) machine \<Rightarrow> gate \<Rightarrow> 'e \<Rightarrow> (ir_prim \<Rightarrow> 'v) \<Rightarrow> bool" where
  "machine_ok oob M D e0 pv \<longleftrightarrow> truth_ok M \<and>
     (\<forall>p s k. \<not> D p \<longrightarrow> prim_from_symbol s = Some p \<longrightarrow> mc_var M e0 s k = k (pv p)) \<and>
     (\<forall>p vs v k. \<not> D p \<longrightarrow> list_all val_ok vs \<longrightarrow> call_native oob p vs = Some v \<longrightarrow> v \<noteq> dundef \<longrightarrow>
        mc_apply M (pv p) (map (mc_const M) vs) k = k (mc_const M v)) \<and>
     (\<forall>x k. \<not> D P_NOT \<longrightarrow> mc_apply M (pv P_NOT) [x] k = k (mc_const M (d_bool (\<not> mc_truthy M x))))"

lemma machine_var: "machine_ok oob M D e0 pv \<Longrightarrow> \<not> D p \<Longrightarrow> prim_from_symbol s = Some p \<Longrightarrow> mc_var M e0 s k = k (pv p)"
  by (simp add: machine_ok_def)

lemma machine_native:
  "machine_ok oob M D e0 pv \<Longrightarrow> \<not> D p \<Longrightarrow> list_all val_ok vs \<Longrightarrow> call_native oob p vs = Some v \<Longrightarrow> v \<noteq> dundef \<Longrightarrow>
   mc_apply M (pv p) (map (mc_const M) vs) k = k (mc_const M v)"
  by (simp add: machine_ok_def)

lemma machine_not:
  "machine_ok oob M D e0 pv \<Longrightarrow> \<not> D P_NOT \<Longrightarrow>
   mc_apply M (pv P_NOT) [x] k = k (mc_const M (d_bool (\<not> mc_truthy M x)))"
  by (simp add: machine_ok_def)

lemma machine_truth: "machine_ok oob M D e0 pv \<Longrightarrow> mc_truthy M (mc_const M v) = is_truthy v"
  by (simp add: machine_ok_def truth_ok_def)

text \<open>\<open>same_den M E n n'\<close>: equal meaning in the environments \<open>E\<close>.\<close>

definition same_den :: "('e, 'v, 's, 'a) machine \<Rightarrow> 'e set \<Rightarrow> ir_node \<Rightarrow> ir_node \<Rightarrow> bool" where
  "same_den M E n n' \<longleftrightarrow> (\<forall>e\<in>E. den M n e = den M n' e)"

lemma same_denD: "same_den M E n n' \<Longrightarrow> e \<in> E \<Longrightarrow> den M n e = den M n' e"
  by (simp add: same_den_def)

lemma same_den_trans: "same_den M E a b \<Longrightarrow> same_den M E b c \<Longrightarrow> same_den M E a c"
  by (simp add: same_den_def)

lemma const_ok_transfer:
  "const_ok M E n \<Longrightarrow> same_den M E n' n \<Longrightarrow> const_of n' = const_of n \<Longrightarrow> const_ok M E n'"
  by (simp add: const_ok_def same_den_def)

lemma den_list_cong:
  assumes "\<And>n. n \<in> set ns \<Longrightarrow> same_den M E (f n) n" "e \<in> E"
  shows "den_args M (map f ns) e = den_args M ns e" "den_seq M (map f ns) e = den_seq M ns e"
    "den_junction M b (map f ns) e = den_junction M b ns e"
  using assms
proof (induction ns)
  case (Cons n ns)
  { case 1 then show ?case using Cons.IH(1) same_denD [of M E "f n" n e] by (intro ext) simp }
  { case 2 then show ?case using Cons.IH(2) same_denD [of M E "f n" n e] by (intro ext) simp }
  { case 3 then show ?case using Cons.IH(3) same_denD [of M E "f n" n e] by (intro ext) (simp cong: if_cong) }
qed simp_all

section \<open>Literals, \<open>begin\<close>\<close>

lemma literal_sound: "val_ok v \<Longrightarrow> sound M E (make_literal_node v)"
  by (auto simp: make_literal_node_def const_ok_def const_of_def)

lemma literal_den: "den M (make_literal_node v) e k = k (mc_const M v)"
  by (simp add: make_literal_node_def)

lemma literal_not_seq: "make_literal_node v \<noteq> IrSeq a ms"
  by (simp add: make_literal_node_def)

lemma den_seq_append: "ms \<noteq> [] \<Longrightarrow> ns \<noteq> [] \<Longrightarrow> den_seq M (ms @ ns) e k = den_seq M ms e (\<lambda>_. den_seq M ns e k)"
  by (induction ms arbitrary: k) auto

text \<open>A sequence that the optimiser leaves has two elements at least, so flattening loses no value.\<close>

definition long_seq :: "ir_node \<Rightarrow> bool" where
  "long_seq n = (case n of IrSeq _ ms \<Rightarrow> 2 \<le> length ms | _ \<Rightarrow> True)"

lemma flatten_length: "list_all long_seq ns \<Longrightarrow> length ns \<le> length (flatten_seq ns)"
  by (induction ns) (auto simp: flatten_seq_def long_seq_def split: ir_node.splits)

lemma flatten_single:
  assumes "list_all long_seq ns" "flatten_seq ns = [n]"
  shows "ns = [n] \<and> long_seq n"
proof -
  have "length ns \<le> 1" "ns \<noteq> []" using flatten_length [OF assms(1)] assms(2) by (auto simp: flatten_seq_def)
  then obtain m where "ns = [m]" by (cases ns) auto
  then show ?thesis using assms by (auto simp: flatten_seq_def long_seq_def split: ir_node.splits)
qed

lemma flatten_den:
  "list_all long_seq ns \<Longrightarrow> den_seq M (flatten_seq ns) e k = den_seq M ns e k"
proof (induction ns arbitrary: k)
  case (Cons n ns)
  define ms where "ms = (case n of IrSeq _ ms \<Rightarrow> ms | _ \<Rightarrow> [n])"
  have f: "flatten_seq (n # ns) = ms @ flatten_seq ns" by (simp add: flatten_seq_def ms_def)
  have ms: "ms \<noteq> []" "den_seq M ms e k = den M n e k" for k
    using Cons.prems by (auto simp: ms_def long_seq_def split: ir_node.splits)
  show ?case
  proof (cases "ns = []")
    case True
    then have "flatten_seq (n # ns) = ms" by (simp add: flatten_seq_def ms_def)
    then show ?thesis using ms(2) True by simp
  next
    case False
    then have "flatten_seq ns \<noteq> []" using Cons.prems flatten_length [of ns] by auto
    then show ?thesis using Cons.IH Cons.prems False ms by (simp add: f den_seq_append)
  qed
qed (simp add: flatten_seq_def)

lemma finish_seq_correct:
  assumes "list_all (sound M E) ns" "list_all long_seq ns" "const_ok M E (IrSeq a ns)"
  shows "sound M E (finish_seq a ns) \<and> same_den M E (finish_seq a ns) (IrSeq a ns) \<and> long_seq (finish_seq a ns)"
proof -
  have s: "list_all (sound M E) (flatten_seq ns)"
    using assms(1) by (induction ns) (auto simp: flatten_seq_def split: ir_node.splits)
  have d: "den_seq M (flatten_seq ns) e k = den_seq M ns e k" for e k using flatten_den [OF assms(2)] .
  show ?thesis
  proof (cases "flatten_seq ns" rule: remdups_adj.cases)
    case 1
    then have "ns = []" using flatten_length [OF assms(2)] by simp
    moreover have "long_seq (make_literal_node v)" for v by (simp add: long_seq_def make_literal_node_def)
    ultimately show ?thesis using 1 literal_sound val_ok_bool
      by (auto simp: finish_seq_def same_den_def literal_den fun_eq_iff)
  next
    case (2 n)
    then show ?thesis using s flatten_single [OF assms(2) 2] by (auto simp: finish_seq_def same_den_def fun_eq_iff)
  next
    case (3 x y xs)
    then have f: "finish_seq a ns = IrSeq a (flatten_seq ns)" by (simp add: finish_seq_def)
    have sd: "same_den M E (IrSeq a (flatten_seq ns)) (IrSeq a ns)" using d by (simp add: same_den_def fun_eq_iff)
    then have "const_ok M E (IrSeq a (flatten_seq ns))" using const_ok_transfer [OF assms(3) sd] by (simp add: const_of_def)
    then show ?thesis using s f sd 3 by (simp add: long_seq_def)
  qed
qed

section \<open>Conditionals\<close>

definition opt_all :: "('a \<Rightarrow> bool) \<Rightarrow> 'a option \<Rightarrow> bool" where
  "opt_all P x = (case x of None \<Rightarrow> True | Some y \<Rightarrow> P y)"

definition good :: "('e, 'v, 's, 'a) machine \<Rightarrow> 'e set \<Rightarrow> ir_node \<Rightarrow> bool" where
  "good M E n \<longleftrightarrow> sound M E n \<and> long_seq n"

lemma literal_good: "val_ok v \<Longrightarrow> good M E (make_literal_node v)"
  using literal_sound [of v M E] by (simp add: good_def) (simp add: long_seq_def make_literal_node_def)

lemma absorb_not_correct:
  assumes "machine_ok oob M D e0 pv" "depth = 0 \<longrightarrow> E \<subseteq> {e0}"
    and "sound M E t" "good M E c" "opt_all (good M E) alt"
    and "absorb_not D depth (t, c, alt) = (t2, c2, alt2)"
  shows "sound M E t2 \<and> good M E c2 \<and> opt_all (good M E) alt2 \<and> same_den M E (IrIf a t2 c2 alt2) (IrIf a t c alt)"
proof (cases "\<exists>b s x. t = IrPrimCall b P_NOT s [x] \<and> depth = 0 \<and> \<not> D P_NOT")
  case True
  then obtain b s x where t: "t = IrPrimCall b P_NOT s [x]" and d: "depth = 0" "\<not> D P_NOT" by blast
  have r: "t2 = x" "c2 = (case alt of Some n \<Rightarrow> n | None \<Rightarrow> make_literal_node (DImm CH_FALSE))" "alt2 = Some c"
    using assms(6) t d by (simp_all add: absorb_not_def)
  have s: "sound M E x" "prim_from_symbol s = Some P_NOT" using assms(3) t by simp_all
  have g2: "good M E c2" using assms(5) literal_good val_ok_bool by (auto simp: r opt_all_def split: option.splits)
  have "den M t e k = den M x e (\<lambda>v. k (mc_const M (d_bool (\<not> mc_truthy M v))))" if "e \<in> E" for e k
  proof -
    have "e = e0" using that assms(2) d by auto
    then show ?thesis
      using machine_var [OF assms(1) d(2) s(2)] machine_not [OF assms(1) d(2)] by (simp add: t)
  qed
  moreover have "mc_truthy M (mc_const M (d_bool b)) = b" for b
    using machine_truth [OF assms(1)] by (simp add: is_truthy_def d_bool_def CH_TRUE_def CH_FALSE_def CH_NANBOX_IMM_def)
  ultimately have "same_den M E (IrIf a t2 c2 alt2) (IrIf a t c alt)"
    by (auto simp: same_den_def fun_eq_iff r literal_den if_distrib [of "\<lambda>f. f _"] split: option.split
        intro!: arg_cong [where f = "\<lambda>f. den M x _ f _"])
  then show ?thesis using s(1) g2 assms(4) by (simp add: r opt_all_def)
next
  case False
  then have "(t2, c2, alt2) = (t, c, alt)"
    using assms(6) by (auto simp: absorb_not_def split: ir_node.splits ir_prim.splits list.splits if_splits)
  then show ?thesis using assms by (simp add: same_den_def)
qed

lemma finish_if_correct:
  assumes "machine_ok oob M D e0 pv" "depth = 0 \<longrightarrow> E \<subseteq> {e0}"
    and "sound M E t" "good M E c" "opt_all (good M E) alt" "const_ok M E (IrIf a t c alt)"
  shows "good M E (finish_if D depth a t c alt) \<and> same_den M E (finish_if D depth a t c alt) (IrIf a t c alt)"
proof -
  obtain t2 c2 alt2 where r: "absorb_not D depth (t, c, alt) = (t2, c2, alt2)" by (metis prod_cases3)
  note ab = absorb_not_correct [OF assms(1-5) r, of a]
  show ?thesis
  proof (cases "const_of t2")
    case None
    then have f: "finish_if D depth a t c alt = IrIf a t2 c2 alt2" by (simp add: finish_if_def r)
    have "const_ok M E (IrIf a t2 c2 alt2)"
      using ab const_ok_transfer [OF assms(6), of "IrIf a t2 c2 alt2"] by (simp add: const_of_def)
    then show ?thesis using ab f by (auto simp: good_def long_seq_def opt_all_def split: option.splits)
  next
    case (Some v)
    let ?r = "if is_truthy v then c2 else (case alt2 of Some n \<Rightarrow> n | None \<Rightarrow> make_literal_node (DImm CH_FALSE))"
    have f: "finish_if D depth a t c alt = ?r" using Some by (simp add: finish_if_def r)
    have g: "good M E ?r" using ab literal_good val_ok_bool by (auto simp: opt_all_def split: option.splits)
    have "den M (IrIf a t2 c2 alt2) e k = den M ?r e k" if "e \<in> E" for e k
      using const_okD [OF conjunct1 [OF ab] Some that] machine_truth [OF assms(1)]
      by (simp add: literal_den split: option.split)
    then have "same_den M E ?r (IrIf a t2 c2 alt2)" by (simp add: same_den_def fun_eq_iff)
    then have "same_den M E ?r (IrIf a t c alt)" by (rule same_den_trans) (use ab in blast)
    then show ?thesis using f g by (simp only: simp_thms)
  qed
qed

section \<open>Primitive calls\<close>

lemma canons_exact: "list_all canon_d vs \<Longrightarrow> all_exact vs \<and> \<not> any_complex vs"
  by (induction vs) (auto simp: all_exact_def any_complex_def dest: canon_d_exact)

lemma native_canonical:
  assumes "canon_d x" "canon_d y"
  shows "\<exists>c. call_native oob P_ADD [x, y] = Some (DNum c) \<and> canonical_int c \<and> exact_int c = d_int x + d_int y"
    and "\<exists>c. call_native oob P_SUB [x, y] = Some (DNum c) \<and> canonical_int c \<and> exact_int c = d_int x - d_int y"
    and "\<exists>c. call_native oob P_MUL [x, y] = Some (DNum c) \<and> canonical_int c \<and> exact_int c = d_int x * d_int y"
proof -
  have e: "all_exact [x, y] \<and> \<not> any_complex [x, y]" using canons_exact [of "[x, y]"] assms by simp
  show "\<exists>c. call_native oob P_ADD [x, y] = Some (DNum c) \<and> canonical_int c \<and> exact_int c = d_int x + d_int y"
    using fold_exact_canonical [of ch_exact_add "(+)" "fixnum 0" "[x, y]", OF exact_add_canonical] assms e
    by (auto simp: call_native_def prim_min_arity_def prim_add_def fixnum_small simp del: fold_exact.simps)
  show "\<exists>c. call_native oob P_SUB [x, y] = Some (DNum c) \<and> canonical_int c \<and> exact_int c = d_int x - d_int y"
    using fold_exact_canonical [of ch_exact_sub "(-)" "d_exact x" "[y]", OF exact_sub_canonical] assms e canon_d_exact [of x]
    by (auto simp: call_native_def prim_min_arity_def prim_sub_def d_int_def simp del: fold_exact.simps)
  show "\<exists>c. call_native oob P_MUL [x, y] = Some (DNum c) \<and> canonical_int c \<and> exact_int c = d_int x * d_int y"
    using fold_exact_canonical [of ch_exact_mul "(*)" "fixnum 1" "[x, y]", OF exact_mul_canonical] assms e
    by (auto simp: call_native_def prim_min_arity_def prim_mul_def fixnum_small simp del: fold_exact.simps)
qed

lemma canonical_result:
  assumes "canon_d z" "canonical_int c" "exact_int c = d_int z"
  shows "DNum c = z"
proof -
  have "c = d_exact z" using assms canon_d_exact [OF assms(1)] by (intro canonical_unique) (simp_all add: d_int_def)
  then show ?thesis using canon_d_exact [OF assms(1)] by simp
qed

lemma unit_native:
  assumes "canon_d x" "canon_d y"
  shows "d_int y = 0 \<Longrightarrow> call_native oob P_ADD [x, y] = Some x" "d_int x = 0 \<Longrightarrow> call_native oob P_ADD [x, y] = Some y"
    "d_int y = 0 \<Longrightarrow> call_native oob P_SUB [x, y] = Some x"
    "d_int y = 1 \<Longrightarrow> call_native oob P_MUL [x, y] = Some x" "d_int x = 1 \<Longrightarrow> call_native oob P_MUL [x, y] = Some y"
  using native_canonical [OF assms, of oob] canonical_result [OF assms(1)] canonical_result [OF assms(2)] by auto

lemma identity_native:
  assumes "simplify_prim_identity (IrPrimCall a p s args) = r" "r \<noteq> IrPrimCall a p s args"
    and "\<forall>n\<in>set args. \<forall>v. const_of n = Some v \<longrightarrow> val_ok v"
  shows "r \<in> set args \<and> (\<exists>vs v. map const_of args = map Some vs \<and> list_all val_ok vs \<and> const_of r = Some v \<and>
    call_native oob p vs = Some v \<and> v \<noteq> dundef)"
proof -
  obtain x y where xy: "args = [x, y]"
    using assms(1,2) by (auto simp: simplify_prim_identity_def split: list.splits)
  have fx: "is_fixnum_const n k \<Longrightarrow> \<exists>v. const_of n = Some v \<and> canon_d v \<and> d_int v = k" for n k
    using fixnum_datum_facts by (auto simp: is_fixnum_const_def split: option.splits)
  have ex: "n \<in> set args \<Longrightarrow> is_const_exact_integer n \<Longrightarrow> \<exists>v. const_of n = Some v \<and> canon_d v" for n
    using assms(3) val_ok_canon by (fastforce simp: is_const_exact_integer_def split: option.splits)
  have "\<exists>u v w. const_of x = Some u \<and> const_of y = Some v \<and> canon_d u \<and> canon_d v \<and> r \<in> {x, y} \<and> const_of r = Some w \<and>
      call_native oob p [u, v] = Some w"
    using assms(1,2) ex [of x] ex [of y] fx [of x 0] fx [of y 0] fx [of x 1] fx [of y 1] unit_native
    by (cases p) (auto simp: simplify_prim_identity_def xy split: if_splits)
  then obtain u v w where w: "const_of x = Some u" "const_of y = Some v" "canon_d u" "canon_d v" "r \<in> {x, y}"
      "const_of r = Some w" "call_native oob p [u, v] = Some w" by blast
  moreover have "w = u \<or> w = v" using w by auto
  ultimately show ?thesis using canon_val_ok [of u] canon_val_ok [of v] xy by (intro conjI exI [of _ "[u, v]"] exI [of _ w]) auto
qed

lemma constant_args:
  assumes "list_all (sound M E) ns" "map const_of ns = map Some vs" "e \<in> E"
  shows "den_args M ns e k = k (map (mc_const M) vs)"
  using assms(1,2)
proof (induction ns arbitrary: vs k)
  case (Cons n ns)
  then obtain v ws where v: "vs = v # ws" "const_of n = Some v" "map const_of ns = map Some ws" by (cases vs) auto
  have "den M n e (\<lambda>x. den_args M ns e (\<lambda>xs. k (x # xs))) = den_args M ns e (\<lambda>xs. k (mc_const M v # xs))"
    using const_okD [OF _ v(2) assms(3), of M "\<lambda>x. den_args M ns e (\<lambda>xs. k (x # xs))"] Cons.prems(1) by simp
  then show ?case using Cons.IH [OF _ v(3)] Cons.prems(1) v(1) by simp
qed simp

lemma finish_prim_call_correct:
  assumes m: "machine_ok oob M D e0 pv" and d: "depth = 0 \<longrightarrow> E \<subseteq> {e0}"
    and g: "list_all (good M E) args" and p: "prim_from_symbol s = Some p" "p \<in> order_prims \<longrightarrow> 2 \<le> length args"
    and c: "const_ok M E (IrPrimCall a p s args)"
  shows "good M E (finish_prim_call D depth a p s args) \<and>
    same_den M E (finish_prim_call D depth a p s args) (IrPrimCall a p s args)"
proof -
  have so: "list_all (sound M E) args" using g by (simp add: good_def list_all_iff)
  have node: "good M E (IrPrimCall a p s args)" using c so p by (simp add: good_def long_seq_def)
  have vo: "\<forall>n\<in>set args. \<forall>v. const_of n = Some v \<longrightarrow> val_ok v" using so const_ok_val by (fastforce simp: list_all_iff)
  have run: "den M (IrPrimCall a p s args) e k = k (mc_const M v)"
    if "\<not> (0 < depth \<or> D p)" "map const_of args = map Some vs" "list_all val_ok vs" "call_native oob p vs = Some v"
      "v \<noteq> dundef" "e \<in> E" for vs v e k
  proof -
    have "e = e0" "\<not> D p" using that d by auto
    then show ?thesis
      using machine_var [OF m _ p(1)] machine_native [OF m _ that(3,4,5)] constant_args [OF so that(2,6)] by simp
  qed
  show ?thesis
  proof (cases "0 < depth \<or> D p")
    case True
    then show ?thesis using node by (simp add: finish_prim_call_def same_den_def)
  next
    case on: False
    show ?thesis
    proof (cases "fold_prim_call p args")
      case (Some v)
      then obtain vs where vs: "map const_of args = map Some vs" "fold_values p vs = Some v"
        by (auto simp: fold_prim_call_def option_map_all_iff split: if_splits option.splits)
      have "\<forall>c \<in> set vs. Some c \<in> const_of ` set args" using vs(1) by (metis image_set imageI set_map)
      then have lv: "list_all val_ok vs" using vo by (force simp: list_all_iff)
      have "length vs = length args" using vs(1) by (metis length_map)
      then have f: "folds_to oob p vs v" using fold_values_native [OF vs(2) lv] p(2) by (simp add: order_prims_def)
      have "same_den M E (make_literal_node v) (IrPrimCall a p s args)"
        using run [OF on vs(1) lv] f by (simp add: same_den_def fun_eq_iff literal_den folds_to_def del: den.simps)
      then show ?thesis using Some on literal_good [of v M E] f by (simp add: finish_prim_call_def folds_to_def)
    next
      case None
      let ?r = "simplify_prim_identity (IrPrimCall a p s args)"
      have r: "finish_prim_call D depth a p s args = ?r" using on None by (simp add: finish_prim_call_def)
      show ?thesis
      proof (cases "?r = IrPrimCall a p s args")
        case True
        then show ?thesis using r node by (simp add: same_den_def)
      next
        case False
        obtain vs v where i: "?r \<in> set args" "map const_of args = map Some vs" "list_all val_ok vs" "const_of ?r = Some v"
            "call_native oob p vs = Some v" "v \<noteq> dundef"
          using identity_native [OF refl False vo] by blast
        have "sound M E ?r" "good M E ?r" using i(1) g so by (simp_all add: list_all_iff)
        moreover have "same_den M E ?r (IrPrimCall a p s args)"
          unfolding same_den_def
          using run [OF on i(2,3,5,6)] const_okD [OF \<open>sound M E ?r\<close> i(4)] by (intro ballI ext) (simp del: den.simps)
        ultimately show ?thesis using r by simp
      qed
    qed
  qed
qed

section \<open>The whole tree\<close>

text \<open>A node whose parts keep their meaning keeps its own, and its annotation stays true.\<close>

lemma rebuilt:
  assumes "same_den M E n' n" "const_ok M E n" "const_of n' = const_of n"
  shows "const_ok M E n' \<and> same_den M E n' n"
  using const_ok_transfer assms by blast

lemma optimize_node_correct:
  "machine_ok oob M D e0 pv \<Longrightarrow> sound M E n \<Longrightarrow> (depth = 0 \<longrightarrow> E \<subseteq> {e0}) \<Longrightarrow>
    good M E (optimize_node D depth n) \<and> same_den M E (optimize_node D depth n) n"
proof (induction D depth n arbitrary: E rule: optimize_node.induct)
  case (1 D depth a t c alt)
  let ?t = "optimize_node D depth t" and ?c = "optimize_node D depth c"
  let ?a = "case alt of None \<Rightarrow> None | Some e \<Rightarrow> Some (optimize_node D depth e)"
  have t: "good M E ?t \<and> same_den M E ?t t" and c: "good M E ?c \<and> same_den M E ?c c"
    using "1.IH"(1,2) "1.prems" by simp_all
  have al: "opt_all (good M E) ?a \<and> (\<forall>x. alt = Some x \<longrightarrow> same_den M E (optimize_node D depth x) x)"
    using "1.IH"(3) "1.prems" by (auto simp: opt_all_def split: option.split)
  have sd: "same_den M E (IrIf a ?t ?c ?a) (IrIf a t c alt)"
    using t c al by (auto simp: same_den_def split: option.split cong: if_cong intro!: ext)
  then have "const_ok M E (IrIf a ?t ?c ?a)"
    using rebuilt [OF sd] "1.prems"(2) by (simp add: const_of_def)
  then show ?case using finish_if_correct [OF "1.prems"(1,3), of ?t ?c ?a a] t c al same_den_trans [OF _ sd]
    by (simp add: good_def)
next
  case (2 D depth a ps body)
  have b: "good M UNIV (optimize_node D (Suc depth) n) \<and> same_den M UNIV (optimize_node D (Suc depth) n) n"
    if "n \<in> set body" for n
    using "2.IH" [OF that "2.prems"(1), of UNIV] that "2.prems"(2) by (simp add: list_all_iff)
  have "den_seq M (map (optimize_node D (Suc depth)) body) = den_seq M body"
    using b den_list_cong(2) [of body M UNIV] by (intro ext) simp
  then have sd: "same_den M E (optimize_node D depth (IrLambda a ps body)) (IrLambda a ps body)"
    by (auto simp: same_den_def intro!: ext)
  then show ?case using rebuilt [OF sd] "2.prems"(2) b
    by (simp add: const_of_def good_def long_seq_def list_all_iff)
next
  case (3 D depth a ns)
  let ?ns = "map (optimize_node D depth) ns"
  have b: "good M E (optimize_node D depth n) \<and> same_den M E (optimize_node D depth n) n" if "n \<in> set ns" for n
    using "3.IH" [OF that "3.prems"(1), of E] that "3.prems" by (simp add: list_all_iff)
  have sd: "same_den M E (IrSeq a ?ns) (IrSeq a ns)" using b den_list_cong(2) [of ns M E] by (simp add: same_den_def fun_eq_iff)
  have "const_ok M E (IrSeq a ?ns)" using rebuilt [OF sd] "3.prems"(2) by (simp add: const_of_def)
  then show ?case using finish_seq_correct [of M E ?ns a] b same_den_trans [OF _ sd]
    by (simp add: good_def list_all_iff)
next
  case (4 D depth a f ns)
  have b: "good M E (optimize_node D depth n) \<and> same_den M E (optimize_node D depth n) n" if "n \<in> set ns" for n
    using "4.IH"(2) [OF that "4.prems"(1), of E] that "4.prems" by (simp add: list_all_iff)
  have f: "good M E (optimize_node D depth f) \<and> same_den M E (optimize_node D depth f) f"
    using "4.IH"(1) "4.prems" by simp
  have sd: "same_den M E (optimize_node D depth (IrCall a f ns)) (IrCall a f ns)"
    using f b den_list_cong(1) [of ns M E] by (auto simp: same_den_def intro!: ext)
  then show ?case using rebuilt [OF sd] "4.prems"(2) b f
    by (simp add: const_of_def good_def long_seq_def list_all_iff)
next
  case (5 D depth a s v)
  have v: "good M E (optimize_node D depth v) \<and> same_den M E (optimize_node D depth v) v"
    using "5.IH" "5.prems" by simp
  have sd: "same_den M E (optimize_node D depth (IrSet a s v)) (IrSet a s v)"
    using v by (auto simp: same_den_def intro!: ext)
  then show ?case using rebuilt [OF sd] "5.prems"(2) v by (simp add: const_of_def good_def long_seq_def)
next
  case (6 D depth a t v)
  have v: "good M E (optimize_node D depth v) \<and> same_den M E (optimize_node D depth v) v"
    using "6.IH" "6.prems" by simp
  have sd: "same_den M E (optimize_node D depth (IrDefine a t v)) (IrDefine a t v)"
    using v by (auto simp: same_den_def intro!: ext)
  then show ?case using rebuilt [OF sd] "6.prems"(2) v by (simp add: const_of_def good_def long_seq_def)
next
  case (7 D depth a ns)
  have b: "good M E (optimize_node D depth n) \<and> same_den M E (optimize_node D depth n) n" if "n \<in> set ns" for n
    using "7.IH" [OF that "7.prems"(1), of E] that "7.prems" by (simp add: list_all_iff)
  have sd: "same_den M E (optimize_node D depth (IrAnd a ns)) (IrAnd a ns)"
    using b den_list_cong(3) [of ns M E] by (auto simp: same_den_def intro!: ext)
  then show ?case using rebuilt [OF sd] "7.prems"(2) b by (simp add: const_of_def good_def long_seq_def list_all_iff)
next
  case (8 D depth a ns)
  have b: "good M E (optimize_node D depth n) \<and> same_den M E (optimize_node D depth n) n" if "n \<in> set ns" for n
    using "8.IH" [OF that "8.prems"(1), of E] that "8.prems" by (simp add: list_all_iff)
  have sd: "same_den M E (optimize_node D depth (IrOr a ns)) (IrOr a ns)"
    using b den_list_cong(3) [of ns M E] by (auto simp: same_den_def intro!: ext)
  then show ?case using rebuilt [OF sd] "8.prems"(2) b by (simp add: const_of_def good_def long_seq_def list_all_iff)
next
  case (9 D depth a p s ns)
  let ?ns = "map (optimize_node D depth) ns"
  have b: "good M E (optimize_node D depth n) \<and> same_den M E (optimize_node D depth n) n" if "n \<in> set ns" for n
    using "9.IH" [OF that "9.prems"(1), of E] that "9.prems" by (simp add: list_all_iff)
  have sd: "same_den M E (IrPrimCall a p s ?ns) (IrPrimCall a p s ns)"
    using b den_list_cong(1) [of ns M E] by (auto simp: same_den_def intro!: ext)
  have "const_ok M E (IrPrimCall a p s ?ns)" using rebuilt [OF sd] "9.prems"(2) by (simp add: const_of_def)
  then show ?case
    using finish_prim_call_correct [OF "9.prems"(1,3), of ?ns s p a] b "9.prems"(2) same_den_trans [OF _ sd]
    by (simp add: list_all_iff)
qed (simp_all add: good_def long_seq_def same_den_def)

section \<open>From a lowered expression\<close>

text \<open>What lowering builds: no annotation yet, and the primitive of a primitive call is that of its symbol.\<close>

fun fresh :: "ir_node \<Rightarrow> bool" where
  "fresh (IrIf a t c alt) = (a = na \<and> fresh t \<and> fresh c \<and> (case alt of None \<Rightarrow> True | Some n \<Rightarrow> fresh n))"
| "fresh (IrLambda a ps body) = (a = na \<and> list_all fresh body)"
| "fresh (IrSeq a ns) = (a = na \<and> list_all fresh ns)"
| "fresh (IrCall a f ns) = (a = na \<and> fresh f \<and> list_all fresh ns)"
| "fresh (IrSet a s n) = (a = na \<and> fresh n)"
| "fresh (IrDefine a t n) = (a = na \<and> fresh n)"
| "fresh (IrAnd a ns) = (a = na \<and> list_all fresh ns)"
| "fresh (IrOr a ns) = (a = na \<and> list_all fresh ns)"
| "fresh (IrPrimCall a p s ns) = (a = na \<and> list_all fresh ns \<and> prim_from_symbol s = Some p)"
| "fresh n = (ann n = na)"

text \<open>
  What the source must avoid for folding to be faithful: complex literals, integer literals that
  are not in canonical form, and calls of an order predicate with fewer operands than it takes.
\<close>

fun foldable :: "ir_node \<Rightarrow> bool" where
  "foldable (IrLiteral a v) = val_ok v"
| "foldable (IrQuote a v) = val_ok v"
| "foldable (IrIf a t c alt) = (foldable t \<and> foldable c \<and> (case alt of None \<Rightarrow> True | Some n \<Rightarrow> foldable n))"
| "foldable (IrLambda a ps body) = list_all foldable body"
| "foldable (IrSeq a ns) = list_all foldable ns"
| "foldable (IrCall a f ns) = (foldable f \<and> list_all foldable ns)"
| "foldable (IrSet a s n) = foldable n"
| "foldable (IrDefine a t n) = foldable n"
| "foldable (IrAnd a ns) = list_all foldable ns"
| "foldable (IrOr a ns) = list_all foldable ns"
| "foldable (IrPrimCall a p s ns) = (list_all foldable ns \<and> (p \<in> order_prims \<longrightarrow> 2 \<le> length ns))"
| "foldable n = True"

lemma fresh_ann: "fresh n \<Longrightarrow> ann n = na"
  by (cases n) simp_all

lemma fresh_const: "fresh n \<Longrightarrow> const_ok M E n"
  using fresh_ann [of n] by (simp add: const_ok_def const_of_def na_def)

lemma fresh_sound: "fresh n \<Longrightarrow> foldable n \<Longrightarrow> sound M E n"
proof (induction n arbitrary: E)
  case (IrIf a t c alt)
  then show ?case using fresh_const [OF IrIf.prems(1), of M E] by (cases alt) auto
next
  case (IrLambda a ps body)
  then show ?case using fresh_const [OF IrLambda.prems(1), of M E] by (auto simp: list_all_iff)
next
  case (IrSeq a ns)
  then show ?case using fresh_const [OF IrSeq.prems(1), of M E] by (auto simp: list_all_iff)
next
  case (IrCall a f ns)
  then show ?case using fresh_const [OF IrCall.prems(1), of M E] by (auto simp: list_all_iff)
next
  case (IrAnd a ns)
  then show ?case using fresh_const [OF IrAnd.prems(1), of M E] by (auto simp: list_all_iff)
next
  case (IrOr a ns)
  then show ?case using fresh_const [OF IrOr.prems(1), of M E] by (auto simp: list_all_iff)
next
  case (IrPrimCall a p s ns)
  then show ?case using fresh_const [OF IrPrimCall.prems(1), of M E] by (auto simp: list_all_iff)
next
  case (IrSet a s n)
  then show ?case using fresh_const [OF IrSet.prems(1), of M E] by simp
next
  case (IrDefine a t n)
  then show ?case using fresh_const [OF IrDefine.prems(1), of M E] by simp
qed (simp_all add: const_ok_def const_of_def na_def)

lemma lower_fresh:
  "lower_node sc e = Some n \<Longrightarrow> fresh n"
  "lower_list sc l = Some ns \<Longrightarrow> list_all fresh ns"
  "lower_if sc e2 a2 = Some n \<Longrightarrow> fresh n"
  "lower_lambda sc e3 a3 = Some n \<Longrightarrow> fresh n"
  "lower_set sc e4 a4 = Some n \<Longrightarrow> fresh n"
  "lower_define sc e5 a5 = Some n \<Longrightarrow> fresh n"
  "lower_variadic sc e6 a6 mk = Some n \<Longrightarrow> (\<And>xs. list_all fresh xs \<Longrightarrow> fresh (mk xs)) \<Longrightarrow> fresh n"
  "lower_call_like sc e7 c7 a7 = Some n \<Longrightarrow> fresh n"
proof (induction sc e and sc l and sc e2 a2 and sc e3 a3 and sc e4 a4 and sc e5 a5 and sc e6 a6 mk and sc e7 c7 a7
    arbitrary: n and ns and n and n and n and n and n and n
    rule: lower_node_lower_list_lower_if_lower_lambda_lower_set_lower_define_lower_variadic_lower_call_like.induct)
  case (2 scope head args)
  note IH = "2.IH" [OF refl refl]
  let ?n = "\<lambda>k. \<not> head_is_shadowed head scope \<and> is_symbol_named head k"
  show ?case
  proof (cases "?n ''quote''")
    case True
    then show ?thesis using "2.prems" by (auto simp: Let_def split: datum.splits if_splits)
  next
    case n1: False
    note P = "2.prems" [unfolded lower_node.simps Let_def if_not_P [OF n1]]
    show ?thesis
    proof (cases "?n ''if'' \<or> ?n ''begin'' \<or> ?n ''lambda''")
      case True
      then show ?thesis using P IH(1-3) n1 by (auto split: if_splits)
    next
      case n2: False
      then have n: "\<not> ?n ''if''" "\<not> ?n ''begin''" "\<not> ?n ''lambda''" by blast+
      note P = P [unfolded if_not_P [OF n(1)] if_not_P [OF n(2)] if_not_P [OF n(3)]]
      note IH = IH(4-8) [OF n1 n]
      show ?thesis
      proof (cases "?n ''set!'' \<or> ?n ''define'' \<or> ?n ''define-syntax''")
        case True
        then show ?thesis using P IH(1,2) by (auto split: if_splits)
      next
        case False
        then have n: "\<not> ?n ''set!''" "\<not> ?n ''define''" "\<not> ?n ''define-syntax''" by blast+
        note P = P [unfolded if_not_P [OF n(1)] if_not_P [OF n(2)] if_not_P [OF n(3)]]
        show ?thesis using P IH(3-5) [OF n] by (auto split: if_splits)
      qed
    qed
  qed
next
  case (6 scope l)
  then show ?case by (subst (asm) lower_list.simps) (auto split: datum.splits option.splits if_splits)
next
  case (7 scope expr args)
  then show ?case by (subst (asm) lower_if.simps) (auto split: datum.splits option.splits if_splits)
next
  case (8 scope expr args)
  then show ?case by (subst (asm) lower_lambda.simps) (auto split: datum.splits option.splits if_splits)
next
  case (9 scope expr args)
  then show ?case by (subst (asm) lower_set.simps) (auto split: datum.splits option.splits if_splits)
next
  case (10 scope expr args)
  then show ?case by (subst (asm) lower_define.simps) (auto split: datum.splits option.splits if_splits)
next
  case (11 scope expr args mk)
  then show ?case by (subst (asm) lower_variadic.simps) (auto split: option.splits)
next
  case (12 scope expr callee args)
  then show ?case by (subst (asm) lower_call_like.simps) (auto split: option.splits datum.splits if_splits)
qed (auto split: if_splits)

section \<open>Properties\<close>


text \<open>
  A machine that runs the natives: no closures, no assignment, an error or a native that does
  not return ends the run.
\<close>

definition native_machine :: "u64 \<Rightarrow> (unit, datum, unit, datum option) machine" where
  "native_machine oob = \<lparr> mc_const = (\<lambda>v. v), mc_truthy = is_truthy,
     mc_var = (\<lambda>e s k. k (case prim_from_symbol s of None \<Rightarrow> DSym s
       | Some p \<Rightarrow> DSym (Symbol (prim_builtin_name p) 0))),
     mc_set = (\<lambda>e s v k st. None), mc_define = (\<lambda>e t v k st. None),
     mc_apply = (\<lambda>f vs k st. case f of
         DSym s \<Rightarrow> (case prim_from_symbol s of None \<Rightarrow> None
           | Some p \<Rightarrow> (case call_native oob p vs of None \<Rightarrow> None
               | Some v \<Rightarrow> if v = dundef then None else k v st))
       | _ \<Rightarrow> None),
     mc_close = (\<lambda>e ps f k st. None), mc_raw = (\<lambda>e x k st. None) \<rparr>"


definition builtin_globals :: "vm_global list" where
  "builtin_globals = map (\<lambda>p. \<lparr> vg_name = Some (Symbol (prim_builtin_name p) 0), vg_defined = True,
     vg_value = GNative (Some (prim_builtin_name p)) \<rparr>) all_prims"

lemma prim_symbols:
  "prim_from_symbol (Symbol (prim_builtin_name p) 0) = Some p"
  by (cases p) (simp_all add: prim_from_symbol_def prim_builtin_name_def ch_symbol_basename_def is_hygienic_name_def hyg_prefix_def)

text \<open>A procedure is its canonical symbol; reading a symbol of a primitive gives that procedure.\<close>

lemma native_machine_ok: "machine_ok oob (native_machine oob) D () (\<lambda>p. DSym (Symbol (prim_builtin_name p) 0))"
proof -
  have t: "is_truthy (d_bool b) = b" for b
    by (simp add: is_truthy_def d_bool_def CH_TRUE_def CH_FALSE_def CH_NANBOX_IMM_def)
  have "d_bool b \<noteq> dundef" for b using bool_val_ok by simp
  then show ?thesis
    by (auto simp: machine_ok_def truth_ok_def native_machine_def prim_symbols call_native_def prim_min_arity_def
        prim_not_def fun_eq_iff)
qed

definition one_plus_two :: datum where
  "one_plus_two = build_list [intern ''+'', DNum (fixnum 1), DNum (fixnum 2)]"


lemma redefinitions_list: "(\<And>x D. x \<in> set ns \<Longrightarrow> collect_redefinitions x d D = D) \<Longrightarrow> fold (\<lambda>n. collect_redefinitions n d) ns D = D"
  by (induction ns arbitrary: D) simp_all

lemma redefinitions_below: "collect_redefinitions n (Suc d) D = D"
proof (induction n arbitrary: d D)
  case (IrIf a t c alt)
  then show ?case by (cases alt) simp_all
qed (simp_all add: redefinitions_list maybe_collect_redef_from_raw_def split: datum.split)

text \<open>
  Redefinitions inside a lambda are not seen: walking a tree below a lambda never disables a
  primitive, so \<open>set!\<close> of \<open>+\<close> in a procedure body leaves later top-level calls folded.
\<close>
theorem ir_gate_ignores_lambda:
  "collect_redefinitions n (Suc d) D = D \<and> collect_redefinitions (IrLambda a ps body) d D = D"
  using redefinitions_below [of n d] redefinitions_list [of body "Suc d" D] redefinitions_below by simp

text \<open>
  An order predicate called with one constant operand folds to \<open>#t\<close>, where the native
  raises an arity error.
\<close>
theorem ir_fold_ignores_arity:
  "fold_prim_call P_LT [IrLiteral (Annot t (Some v)) v] = Some (DImm CH_TRUE) \<and>
   call_native oob P_LT [v] = Some dundef"
  by (simp add: fold_prim_call_def fold_values_def const_of_def call_native_def prim_min_arity_def)

text \<open>
  Emission forgets hygiene: under a lambda that binds \<open>if\<close>, the form a macro wrote with its
  renamed \<open>if\<close> is lowered to the conditional, and emitted with the plain symbol, which the
  parameter shadows.
\<close>
theorem ir_emit_loses_hygiene:
  "\<exists>n. lower_node [[''if'']] (build_list [DSym (Symbol ''__hyg_1_if'' 0), DSym x, DSym y, DSym z]) = Some n \<and>
     ir_node_to_expr n = build_list [intern ''if'', DSym x, DSym y, DSym z] \<and>
     \<not> head_is_shadowed (DSym (Symbol ''__hyg_1_if'' 0)) [[''if'']] \<and> head_is_shadowed (intern ''if'') [[''if'']]"
  by (simp add: intern_def head_is_shadowed_def is_symbol_named_def lower_unfold Let_def scope_binds_def
      ch_symbol_basename_def is_hygienic_name_def hyg_prefix_def is_digit_def emit_keyword_form_def build_form_def)

end
