(* ===== verification/Chaaya_Equality.thy ===== *)
theory Chaaya_Equality
  imports Chaaya_Datum
begin

text \<open>
  The object store as \<open>src/src/value.c\<close> reads it, and the predicates \<open>eqv?\<close> and \<open>equal?\<close> on
  NaN-boxed values with shared and cyclic structure. A store maps the address in a pointer value
  to its object; an address without an object is not live.
\<close>

section \<open>Objects\<close>

text \<open>The tags that equality and hashing tell apart; the others are equal by identity only.\<close>

datatype heap_object =
    HPair chvalue chvalue
  | HSymbol "u8 list"
  | HString "u8 list"
  | HVector "chvalue list"
  | HBytevector "u8 list"
  | HBignum limbs bool
  | HRational chvalue chvalue
  | HComplex u64 u64 bool bool
  | HOther nat

type_synonym store = "u64 \<Rightarrow> heap_object option"

definition object_at :: "store \<Rightarrow> chvalue \<Rightarrow> heap_object option" where
  "object_at st v = (if ch_is_pointer v then st (ch_to_object v) else None)"

text \<open>An exact integer or rational with the numbers it points to.\<close>

definition integer_at :: "store \<Rightarrow> chvalue \<Rightarrow> exnum" where
  "integer_at st v = (case object_at st v of Some (HBignum ls p) \<Rightarrow> Big ls p | _ \<Rightarrow> Imm v)"

definition st_is_bignum :: "store \<Rightarrow> chvalue \<Rightarrow> bool" where
  "st_is_bignum st v = (case object_at st v of Some (HBignum _ _) \<Rightarrow> True | _ \<Rightarrow> False)"
definition st_is_rational :: "store \<Rightarrow> chvalue \<Rightarrow> bool" where
  "st_is_rational st v = (case object_at st v of Some (HRational _ _) \<Rightarrow> True | _ \<Rightarrow> False)"
definition st_is_exact_integer :: "store \<Rightarrow> chvalue \<Rightarrow> bool" where
  "st_is_exact_integer st v \<longleftrightarrow> ch_is_fixnum v \<or> st_is_bignum st v"
definition st_is_exact :: "store \<Rightarrow> chvalue \<Rightarrow> bool" where
  "st_is_exact st v = (case object_at st v of
       Some (HComplex _ _ er ei) \<Rightarrow> er \<and> ei
     | _ \<Rightarrow> st_is_exact_integer st v \<or> st_is_rational st v)"
definition st_is_pair :: "store \<Rightarrow> chvalue \<Rightarrow> bool" where
  "st_is_pair st v = (case object_at st v of Some (HPair _ _) \<Rightarrow> True | _ \<Rightarrow> False)"

definition ch_car :: "store \<Rightarrow> chvalue \<Rightarrow> chvalue" where
  "ch_car st v = (case object_at st v of Some (HPair a d) \<Rightarrow> a | _ \<Rightarrow> CH_UNDEFINED)"
definition ch_cdr :: "store \<Rightarrow> chvalue \<Rightarrow> chvalue" where
  "ch_cdr st v = (case object_at st v of Some (HPair a d) \<Rightarrow> d | _ \<Rightarrow> CH_UNDEFINED)"
definition ch_set_car :: "store \<Rightarrow> chvalue \<Rightarrow> chvalue \<Rightarrow> store" where
  "ch_set_car st p v = (case object_at st p of
       Some (HPair a d) \<Rightarrow> st(ch_to_object p \<mapsto> HPair v d) | _ \<Rightarrow> st)"
definition ch_set_cdr :: "store \<Rightarrow> chvalue \<Rightarrow> chvalue \<Rightarrow> store" where
  "ch_set_cdr st p v = (case object_at st p of
       Some (HPair a d) \<Rightarrow> st(ch_to_object p \<mapsto> HPair a v) | _ \<Rightarrow> st)"

section \<open>Equivalence\<close>

definition ch_eqv :: "store \<Rightarrow> chvalue \<Rightarrow> chvalue \<Rightarrow> bool" where
  "ch_eqv st a b =
     (if a = b then True
      else if ch_is_fixnum a \<and> ch_is_fixnum b then ch_to_fixnum a = ch_to_fixnum b
      else if st_is_exact_integer st a \<and> st_is_exact_integer st b
        then ch_bignum_compare (integer_at st a) (integer_at st b) = 0
      else case (object_at st a, object_at st b) of
        (Some (HRational n d), Some (HRational n' d')) \<Rightarrow>
          ch_bignum_compare (integer_at st n) (integer_at st n') = 0 \<and>
          ch_bignum_compare (integer_at st d) (integer_at st d') = 0
      | (oa, ob) \<Rightarrow>
          if st_is_exact st a \<and> st_is_exact st b \<and> (st_is_rational st a \<or> st_is_rational st b) then False
          else if ch_is_flonum a \<and> ch_is_flonum b then ch_to_flonum a = ch_to_flonum b
          else (case (oa, ob) of
                  (Some (HComplex r i er ei), Some (HComplex r' i' er' ei')) \<Rightarrow>
                    if er \<noteq> er' \<or> ei \<noteq> ei' then False else r = r' \<and> i = i'
                | _ \<Rightarrow> if ch_is_char a \<and> ch_is_char b then ch_to_char a = ch_to_char b else False))"

section \<open>Structural equality\<close>

type_synonym visited = "(chvalue \<times> chvalue) list"

definition equal_pair_seen :: "chvalue \<Rightarrow> chvalue \<Rightarrow> visited \<Rightarrow> bool" where
  "equal_pair_seen a b vis \<longleftrightarrow> (a, b) \<in> set vis \<or> (b, a) \<in> set vis"

text \<open>
  The recursion of \<open>equal_with_visited\<close>, \<open>equal_list\<close> and the loop over vector items. The first
  argument bounds the depth of calls and loop rounds; \<open>None\<close> is running out of it.
\<close>

function equal_with_visited :: "nat \<Rightarrow> store \<Rightarrow> chvalue \<Rightarrow> chvalue \<Rightarrow> visited \<Rightarrow> (bool \<times> visited) option"
  and equal_list :: "nat \<Rightarrow> store \<Rightarrow> chvalue \<Rightarrow> chvalue \<Rightarrow> visited \<Rightarrow> (bool \<times> visited) option"
  and equal_items :: "nat \<Rightarrow> store \<Rightarrow> chvalue list \<Rightarrow> chvalue list \<Rightarrow> visited \<Rightarrow> (bool \<times> visited) option"
where
  "equal_with_visited 0 st a b vis = None"
| "equal_with_visited (Suc n) st a b vis =
     (if ch_eqv st a b then Some (True, vis)
      else case (object_at st a, object_at st b) of
        (Some (HPair _ _), Some (HPair _ _)) \<Rightarrow> equal_list n st a b vis
      | (Some (HString s), Some (HString t)) \<Rightarrow> Some (s = t, vis)
      | (Some (HVector xs), Some (HVector ys)) \<Rightarrow>
          if length xs \<noteq> length ys then Some (False, vis)
          else if equal_pair_seen a b vis then Some (True, vis)
          else equal_items n st xs ys ((a, b) # vis)
      | (Some (HBytevector s), Some (HBytevector t)) \<Rightarrow> Some (s = t, vis)
      | _ \<Rightarrow> Some (False, vis))"
| "equal_list 0 st a b vis = None"
| "equal_list (Suc n) st a b vis =
     (if \<not> st_is_pair st a \<or> \<not> st_is_pair st b then equal_with_visited n st a b vis
      else if equal_pair_seen a b vis then Some (True, vis)
      else case equal_with_visited n st (ch_car st a) (ch_car st b) ((a, b) # vis) of
             None \<Rightarrow> None
           | Some (False, vis') \<Rightarrow> Some (False, vis')
           | Some (True, vis') \<Rightarrow> equal_list n st (ch_cdr st a) (ch_cdr st b) vis')"
| "equal_items n st [] ys vis = Some (True, vis)"
| "equal_items n st (x # xs) [] vis = Some (True, vis)"
| "equal_items n st (x # xs) (y # ys) vis =
     (case equal_with_visited n st x y vis of
        None \<Rightarrow> None
      | Some (False, vis') \<Rightarrow> Some (False, vis')
      | Some (True, vis') \<Rightarrow> equal_items n st xs ys vis')"
  by pat_completeness auto

termination
  by (relation "measures [\<lambda>x. case x of Inl (n, _) \<Rightarrow> n | Inr (Inl (n, _)) \<Rightarrow> n | Inr (Inr (n, _)) \<Rightarrow> n,
      \<lambda>x. case x of Inr (Inr (n, st, xs, _)) \<Rightarrow> Suc (length xs) | _ \<Rightarrow> 0]") auto

text \<open>Three rounds for each pair of values suffice.\<close>

definition equal_fuel :: nat where "equal_fuel = 3 * CARD(chvalue \<times> chvalue) + 3"

definition ch_equal :: "store \<Rightarrow> chvalue \<Rightarrow> chvalue \<Rightarrow> bool option" where
  "ch_equal st a b = map_option fst (equal_with_visited equal_fuel st a b [])"

section \<open>\<open>eqv?\<close> is the kernel of a key\<close>

definition view_key :: "exnum \<Rightarrow> limbs \<times> bool" where
  "view_key v = (let m = view_of v in if mv_limbs m = [] then ([], True) else (mv_limbs m, mv_positive m))"

lemma cmp_from_top_zero: "length xs = length ys \<Longrightarrow> cmp_from_top xs ys = 0 \<longleftrightarrow> xs = ys"
  by (induction xs ys rule: list_induct2) auto

lemma cmp_mag_zero: "cmp_mag xs ys = 0 \<longleftrightarrow> xs = ys"
  using cmp_from_top_zero [of "rev xs" "rev ys"] by (auto simp: cmp_mag_def)

lemma compare_zero: "ch_bignum_compare a b = 0 \<longleftrightarrow> view_key a = view_key b"
  by (auto simp: ch_bignum_compare_def view_key_def Let_def cmp_mag_zero)

datatype eqv_key =
    KInt "limbs \<times> bool"
  | KRat "limbs \<times> bool" "limbs \<times> bool"
  | KCplx u64 u64 bool bool
  | KFlo u64
  | KChar u32
  | KId chvalue

definition eqv_key :: "store \<Rightarrow> chvalue \<Rightarrow> eqv_key" where
  "eqv_key st v =
     (if ch_is_fixnum v then KInt (view_key (Imm v))
      else case object_at st v of
        Some (HBignum ls p) \<Rightarrow> KInt (view_key (Big ls p))
      | Some (HRational n d) \<Rightarrow> KRat (view_key (integer_at st n)) (view_key (integer_at st d))
      | Some (HComplex r i er ei) \<Rightarrow> KCplx r i er ei
      | _ \<Rightarrow> if ch_is_flonum v then KFlo (ch_to_flonum v)
             else if ch_is_char v then KChar (ch_to_char v) else KId v)"

lemma object_pointer: "object_at st v = Some x \<Longrightarrow> ch_is_pointer v \<and> \<not> ch_is_fixnum v \<and> \<not> ch_is_flonum v \<and> \<not> ch_is_char v"
  by (auto simp: object_at_def ch_is_char_def ch_classes ch_is_flonum_iff split: if_splits)

lemma char_not_fixnum: "ch_is_char v \<Longrightarrow> \<not> ch_is_fixnum v \<and> \<not> ch_is_flonum v \<and> object_at st v = None"
  by (auto simp: object_at_def ch_is_char_def ch_classes ch_is_flonum_iff)

lemma fixnum_no_object: "ch_is_fixnum v \<Longrightarrow> object_at st v = None"
  by (auto simp: object_at_def)

lemma fixnum_view_key:
  assumes "ch_is_fixnum a" "ch_is_fixnum b"
  shows "view_key (Imm a) = view_key (Imm b) \<longleftrightarrow> a = b"
proof -
  have "wf_int (Imm a)" "wf_int (Imm b)" using assms by (simp_all add: wf_int_def)
  then have "view_key (Imm a) = view_key (Imm b) \<longleftrightarrow> sint (ch_to_fixnum a) = sint (ch_to_fixnum b)"
    unfolding compare_zero [symmetric] by (auto simp add: compare_int sgn_if exact_int_def)
  then show ?thesis using fixnum_word_eqI [OF assms] by auto
qed

lemmas st_class_defs = st_is_bignum_def st_is_rational_def st_is_exact_integer_def st_is_exact_def st_is_pair_def

lemmas eqv_simps = ch_eqv_def eqv_key_def st_class_defs integer_at_def compare_zero

lemma object_cases:
  obtains "x = None" | a d where "x = Some (HPair a d)" | s where "x = Some (HSymbol s)" | s where "x = Some (HString s)"
    | vs where "x = Some (HVector vs)" | s where "x = Some (HBytevector s)" | ls p where "x = Some (HBignum ls p)"
    | n d where "x = Some (HRational n d)" | r i er ei where "x = Some (HComplex r i er ei)" | k where "x = Some (HOther k)"
  by (cases x; cases "the x") auto

lemma eqv_by_key: "ch_eqv st a b \<longleftrightarrow> eqv_key st a = eqv_key st b"
proof (cases "a = b")
  case True
  then show ?thesis by (simp add: ch_eqv_def)
next
  case ab: False
  show ?thesis
  proof (cases "ch_is_fixnum a")
    case a: True
    then have oa: "object_at st a = None" by (rule fixnum_no_object)
    show ?thesis
    proof (cases "ch_is_fixnum b")
      case True
      have "ch_to_fixnum a \<noteq> ch_to_fixnum b" using fixnum_word_eqI [OF a True] ab by auto
      then show ?thesis using a True ab fixnum_view_key [OF a True] by (simp add: ch_eqv_def eqv_key_def)
    next
      case False
      have "\<not> ch_is_flonum a" "\<not> ch_is_char a" using a char_not_fixnum by auto
      then show ?thesis using a oa False ab
        by (cases "object_at st b" rule: object_cases) (simp_all add: eqv_simps)
    qed
  next
    case a: False
    show ?thesis
    proof (cases "ch_is_fixnum b")
      case b: True
      then have ob: "object_at st b = None" by (rule fixnum_no_object)
      have "\<not> ch_is_flonum b" "\<not> ch_is_char b" using b char_not_fixnum by auto
      then show ?thesis using a b ob ab
        by (cases "object_at st a" rule: object_cases) (simp_all add: eqv_simps)
    next
      case b: False
      show ?thesis
      proof (cases "object_at st a")
        case None
        then show ?thesis using a b ab object_pointer [of st b]
          by (cases "object_at st b" rule: object_cases) (auto simp: eqv_simps ch_to_flonum_def char_not_fixnum)
      next
        case (Some x)
        then show ?thesis using a b ab object_pointer [OF Some] object_pointer [of st b]
          by (cases "object_at st b" rule: object_cases; cases x) (simp_all add: eqv_simps char_not_fixnum)
      qed
    qed
  qed
qed

section \<open>What \<open>equal?\<close> means\<close>

text \<open>Equal without looking inside: \<open>eqv?\<close>, or strings or bytevectors with the same bytes.\<close>

definition leaf_equal :: "store \<Rightarrow> chvalue \<Rightarrow> chvalue \<Rightarrow> bool" where
  "leaf_equal st a b \<longleftrightarrow> ch_eqv st a b \<or>
     (\<exists>s. object_at st a = Some (HString s) \<and> object_at st b = Some (HString s)) \<or>
     (\<exists>s. object_at st a = Some (HBytevector s) \<and> object_at st b = Some (HBytevector s))"

text \<open>The pairs of components that make two pairs or two vectors of one length equal.\<close>

definition components :: "store \<Rightarrow> chvalue \<Rightarrow> chvalue \<Rightarrow> (chvalue \<times> chvalue) list option" where
  "components st a b = (case (object_at st a, object_at st b) of
       (Some (HPair x y), Some (HPair x' y')) \<Rightarrow> Some [(x, x'), (y, y')]
     | (Some (HVector xs), Some (HVector ys)) \<Rightarrow> if length xs = length ys then Some (zip xs ys) else None
     | _ \<Rightarrow> None)"

text \<open>
  The specification: the two values unfold into the same, possibly infinite, tree.
\<close>

coinductive same_tree :: "store \<Rightarrow> chvalue \<Rightarrow> chvalue \<Rightarrow> bool" for st where
  leaf: "leaf_equal st a b \<Longrightarrow> same_tree st a b"
| node: "components st a b = Some cs \<Longrightarrow> \<forall>(x, y) \<in> set cs. same_tree st x y \<Longrightarrow> same_tree st a b"

definition justified :: "store \<Rightarrow> visited \<Rightarrow> chvalue \<Rightarrow> chvalue \<Rightarrow> bool" where
  "justified st vis a b \<longleftrightarrow> leaf_equal st a b \<or> equal_pair_seen a b vis"

definition unfolded :: "store \<Rightarrow> visited \<Rightarrow> chvalue \<times> chvalue \<Rightarrow> bool" where
  "unfolded st vis p \<longleftrightarrow> (\<exists>cs. components st (fst p) (snd p) = Some cs \<and> (\<forall>(x, y) \<in> set cs. justified st vis x y))"

lemma leaf_equal_sym: "leaf_equal st a b \<Longrightarrow> leaf_equal st b a"
  by (auto simp: leaf_equal_def eqv_by_key)

lemma justified_sym: "justified st vis a b \<Longrightarrow> justified st vis b a"
  using leaf_equal_sym by (auto simp: justified_def equal_pair_seen_def)

lemma justified_mono: "justified st vis a b \<Longrightarrow> set vis \<subseteq> set vis' \<Longrightarrow> justified st vis' a b"
  by (auto simp: justified_def equal_pair_seen_def)

lemma unfolded_mono: "unfolded st vis p \<Longrightarrow> set vis \<subseteq> set vis' \<Longrightarrow> unfolded st vis' p"
  using justified_mono by (fastforce simp: unfolded_def)

lemma components_swap:
  "components st b a = map_option (map (\<lambda>(x, y). (y, x))) (components st a b)"
proof (cases "\<exists>xs ys. object_at st a = Some (HVector xs) \<and> object_at st b = Some (HVector ys)")
  case True
  then obtain xs ys where "object_at st a = Some (HVector xs)" "object_at st b = Some (HVector ys)" by blast
  then show ?thesis using zip_commute [of ys xs] by (simp add: components_def)
next
  case False
  then show ?thesis
    by (cases "object_at st a" rule: object_cases; cases "object_at st b" rule: object_cases) (simp_all add: components_def)
qed

lemma unfolded_sym: "unfolded st vis (a, b) \<Longrightarrow> unfolded st vis (b, a)"
  using justified_sym by (fastforce simp: unfolded_def components_swap [of st b a])

lemma unfolded_same_tree:
  assumes "\<forall>p \<in> set vis. unfolded st vis p" "justified st vis a b"
  shows "same_tree st a b"
  using assms(2)
proof (coinduction arbitrary: a b)
  case same_tree
  have "unfolded st vis (a, b)" if "equal_pair_seen a b vis"
    using assms(1) that unfolded_sym by (auto simp: equal_pair_seen_def)
  then show ?case using same_tree by (fastforce simp: justified_def unfolded_def)
qed

section \<open>Runs\<close>

lemma equal_grows:
  "equal_with_visited n st a b vis = Some (r, vis') \<Longrightarrow> set vis \<subseteq> set vis'"
  "equal_list n st a b vis = Some (r, vis') \<Longrightarrow> set vis \<subseteq> set vis'"
  "equal_items n st xs ys vis = Some (r, vis') \<Longrightarrow> set vis \<subseteq> set vis'"
proof (induction n st a b vis and n st a b vis and n st xs ys vis arbitrary: r vis' and r vis' and r vis'
    rule: equal_with_visited_equal_list_equal_items.induct)
  case (2 n st a b vis)
  then show ?case by (auto split: if_splits option.splits heap_object.splits)
next
  case (4 n st a b vis)
  then show ?case by (fastforce split: if_splits option.splits bool.splits)
next
  case (7 n st x xs y ys vis)
  then show ?case by (fastforce split: if_splits option.splits bool.splits)
qed auto

definition new_unfolded :: "store \<Rightarrow> visited \<Rightarrow> visited \<Rightarrow> bool" where
  "new_unfolded st vis vis' \<longleftrightarrow> (\<forall>p \<in> set vis'. p \<in> set vis \<or> unfolded st vis' p)"

lemma new_unfolded_refl [simp]: "new_unfolded st vis vis"
  by (simp add: new_unfolded_def)

lemma new_unfolded_trans:
  "new_unfolded st vis vis' \<Longrightarrow> new_unfolded st vis' vis'' \<Longrightarrow> set vis' \<subseteq> set vis'' \<Longrightarrow> new_unfolded st vis vis''"
  unfolding new_unfolded_def using unfolded_mono by blast

lemma new_unfolded_push:
  "new_unfolded st ((a, b) # vis) vis' \<Longrightarrow> unfolded st vis' (a, b) \<Longrightarrow> new_unfolded st vis vis'"
  by (auto simp: new_unfolded_def)

lemma seen_justified: "equal_pair_seen a b vis \<Longrightarrow> justified st vis a b"
  by (simp add: justified_def)

lemma pushed_justified: "(a, b) \<in> set vis \<Longrightarrow> justified st vis a b"
  by (simp add: justified_def equal_pair_seen_def)

lemma pair_components:
  "st_is_pair st a \<Longrightarrow> st_is_pair st b \<Longrightarrow>
   components st a b = Some [(ch_car st a, ch_car st b), (ch_cdr st a, ch_cdr st b)]"
  by (cases "object_at st a" rule: object_cases; cases "object_at st b" rule: object_cases)
    (simp_all add: st_is_pair_def components_def ch_car_def ch_cdr_def)

lemma equal_true:
  "equal_with_visited n st a b vis = Some (True, vis') \<Longrightarrow> justified st vis' a b \<and> new_unfolded st vis vis'"
  "equal_list n st a b vis = Some (True, vis') \<Longrightarrow> justified st vis' a b \<and> new_unfolded st vis vis'"
  "equal_items n st xs ys vis = Some (True, vis') \<Longrightarrow>
     (\<forall>(x, y) \<in> set (zip xs ys). justified st vis' x y) \<and> new_unfolded st vis vis'"
proof (induction n st a b vis and n st a b vis and n st xs ys vis arbitrary: vis' and vis' and vis'
    rule: equal_with_visited_equal_list_equal_items.induct)
  case (2 n st a b vis)
  show ?case
  proof (cases "ch_eqv st a b")
    case True
    then show ?thesis using "2.prems" by (simp add: justified_def leaf_equal_def)
  next
    case ne: False
    consider "st_is_pair st a" "st_is_pair st b"
      | s t where "object_at st a = Some (HString s)" "object_at st b = Some (HString t)"
      | s t where "object_at st a = Some (HBytevector s)" "object_at st b = Some (HBytevector t)"
      | xs ys where "object_at st a = Some (HVector xs)" "object_at st b = Some (HVector ys)"
      | "equal_with_visited (Suc n) st a b vis = Some (False, vis)"
      using ne by (cases "object_at st a" rule: object_cases; cases "object_at st b" rule: object_cases)
        (auto simp: st_is_pair_def)
    then show ?thesis
    proof cases
      case 1
      then obtain x y x' y' where p: "object_at st a = Some (HPair x y)" "object_at st b = Some (HPair x' y')"
        by (cases "object_at st a" rule: object_cases; cases "object_at st b" rule: object_cases) (auto simp: st_is_pair_def)
      show ?thesis using "2.IH"(1) [OF ne refl p(1) _ p(2)] "2.prems" ne p by simp
    next
      case (2 s t)
      then show ?thesis using "2.prems" ne by (auto simp: justified_def leaf_equal_def)
    next
      case (3 s t)
      then show ?thesis using "2.prems" ne by (auto simp: justified_def leaf_equal_def)
    next
      case (4 xs ys)
      show ?thesis
      proof (cases "equal_pair_seen a b vis")
        case True
        then show ?thesis using "2.prems" ne 4 seen_justified by (auto split: if_splits)
      next
        case False
        then have l: "length xs = length ys" and i: "equal_items n st xs ys ((a, b) # vis) = Some (True, vis')"
          using "2.prems" ne 4 by (auto split: if_splits)
        have IH: "(\<forall>(x, y) \<in> set (zip xs ys). justified st vis' x y) \<and> new_unfolded st ((a, b) # vis) vis'"
          using "2.IH"(2) [OF ne refl 4(1) _ 4(2)] l False i by simp
        have "unfolded st vis' (a, b)" using IH l by (simp add: unfolded_def components_def 4)
        moreover have "(a, b) \<in> set vis'" using equal_grows(3) [OF i] by simp
        ultimately show ?thesis using IH new_unfolded_push pushed_justified by blast
      qed
    qed (use "2.prems" in simp)
  qed
next
  case (4 n st a b vis)
  show ?case
  proof (cases "st_is_pair st a \<and> st_is_pair st b")
    case False
    then show ?thesis using "4.IH"(1) "4.prems" by auto
  next
    case p: True
    show ?thesis
    proof (cases "equal_pair_seen a b vis")
      case True
      then show ?thesis using "4.prems" p seen_justified by auto
    next
      case False
      then obtain v1 where c: "equal_with_visited n st (ch_car st a) (ch_car st b) ((a, b) # vis) = Some (True, v1)"
          and d: "equal_list n st (ch_cdr st a) (ch_cdr st b) v1 = Some (True, vis')"
        using "4.prems" p by (auto split: option.splits bool.splits)
      have IH1: "justified st v1 (ch_car st a) (ch_car st b) \<and> new_unfolded st ((a, b) # vis) v1"
        using "4.IH"(2) p False c by blast
      have IH2: "justified st vis' (ch_cdr st a) (ch_cdr st b) \<and> new_unfolded st v1 vis'"
        using "4.IH"(3) p False c d by blast
      note g = equal_grows(2) [OF d] equal_grows(1) [OF c]
      have "unfolded st vis' (a, b)"
        using IH1 IH2 justified_mono [OF _ g(1)] pair_components p by (simp add: unfolded_def)
      moreover have "new_unfolded st ((a, b) # vis) vis'" using new_unfolded_trans IH1 IH2 g(1) by blast
      moreover have "(a, b) \<in> set vis'" using g by auto
      ultimately show ?thesis using new_unfolded_push pushed_justified by blast
    qed
  qed
next
  case (7 n st x xs y ys vis)
  then obtain v1 where c: "equal_with_visited n st x y vis = Some (True, v1)" and d: "equal_items n st xs ys v1 = Some (True, vis')"
    by (auto split: option.splits bool.splits)
  have IH: "justified st v1 x y \<and> new_unfolded st vis v1"
    "(\<forall>(x, y) \<in> set (zip xs ys). justified st vis' x y) \<and> new_unfolded st v1 vis'"
    using "7.IH"(1) [OF c] "7.IH"(2) [OF c refl] d by blast+
  then show ?case using justified_mono [OF _ equal_grows(3) [OF d]] new_unfolded_trans [OF _ _ equal_grows(3) [OF d]] by auto
qed simp_all

lemma same_tree_iff:
  "same_tree st a b \<longleftrightarrow> leaf_equal st a b \<or> (\<exists>cs. components st a b = Some cs \<and> (\<forall>(x, y) \<in> set cs. same_tree st x y))"
  by (subst same_tree.simps) blast

lemma leaf_equal_refl: "leaf_equal st a a"
  by (simp add: leaf_equal_def ch_eqv_def)

lemma leaf_equal_pair: "st_is_pair st a \<Longrightarrow> st_is_pair st b \<Longrightarrow> leaf_equal st a b \<Longrightarrow> a = b"
  using object_pointer [of st a] object_pointer [of st b]
  by (cases "object_at st a" rule: object_cases; cases "object_at st b" rule: object_cases)
    (simp_all add: leaf_equal_def st_is_pair_def eqv_by_key eqv_key_def)

lemma same_tree_pair:
  assumes "st_is_pair st a" "st_is_pair st b"
  shows "same_tree st a b \<longleftrightarrow> same_tree st (ch_car st a) (ch_car st b) \<and> same_tree st (ch_cdr st a) (ch_cdr st b)"
proof -
  have "same_tree st x x" for x using leaf_equal_refl same_tree.leaf by blast
  then show ?thesis
    using same_tree_iff [of st a b] pair_components [OF assms] leaf_equal_pair [OF assms] by auto
qed

lemma equal_false:
  "equal_with_visited n st a b vis = Some (False, vis') \<Longrightarrow> \<not> same_tree st a b"
  "equal_list n st a b vis = Some (False, vis') \<Longrightarrow> \<not> same_tree st a b"
  "equal_items n st xs ys vis = Some (False, vis') \<Longrightarrow> \<exists>(x, y) \<in> set (zip xs ys). \<not> same_tree st x y"
proof (induction n st a b vis and n st a b vis and n st xs ys vis arbitrary: vis' and vis' and vis'
    rule: equal_with_visited_equal_list_equal_items.induct)
  case (2 n st a b vis)
  have ne: "\<not> ch_eqv st a b" using "2.prems" by auto
  consider "st_is_pair st a" "st_is_pair st b"
    | xs ys where "object_at st a = Some (HVector xs)" "object_at st b = Some (HVector ys)"
    | "\<not> leaf_equal st a b" "components st a b = None"
    | "equal_with_visited (Suc n) st a b vis = Some (True, vis)"
    using ne by (cases "object_at st a" rule: object_cases; cases "object_at st b" rule: object_cases)
      (auto simp: st_is_pair_def leaf_equal_def components_def)
  then show ?case
  proof cases
    case 1
    then obtain x y x' y' where p: "object_at st a = Some (HPair x y)" "object_at st b = Some (HPair x' y')"
      by (cases "object_at st a" rule: object_cases; cases "object_at st b" rule: object_cases) (auto simp: st_is_pair_def)
    show ?thesis using "2.IH"(1) [OF ne refl p(1) _ p(2)] "2.prems" ne p by simp
  next
    case (2 xs ys)
    have nl: "\<not> leaf_equal st a b" using ne 2 by (simp add: leaf_equal_def)
    show ?thesis
    proof (cases "length xs = length ys")
      case False
      then show ?thesis using nl 2 by (simp add: same_tree_iff [of st a b] components_def)
    next
      case True
      then have s: "\<not> equal_pair_seen a b vis" and i: "equal_items n st xs ys ((a, b) # vis) = Some (False, vis')"
        using "2.prems" ne 2 by (auto split: if_splits)
      show ?thesis using "2.IH"(2) [OF ne refl 2(1) _ 2(2)] True s i nl 2
        by (fastforce simp: same_tree_iff [of st a b] components_def)
    qed
  next
    case 3
    then show ?thesis by (simp add: same_tree_iff [of st a b])
  qed (use "2.prems" in simp)
next
  case (4 n st a b vis)
  show ?case
  proof (cases "st_is_pair st a \<and> st_is_pair st b")
    case False
    then show ?thesis using "4.IH"(1) "4.prems" by auto
  next
    case p: True
    then have s: "\<not> equal_pair_seen a b vis" using "4.prems" by (auto split: if_splits)
    show ?thesis
    proof (cases "equal_with_visited n st (ch_car st a) (ch_car st b) ((a, b) # vis)")
      case (Some rv)
      obtain r v1 where c: "equal_with_visited n st (ch_car st a) (ch_car st b) ((a, b) # vis) = Some (r, v1)"
        using Some by (cases rv) simp
      show ?thesis
      proof (cases r)
        case True
        then show ?thesis using "4.IH"(3) p s c "4.prems" same_tree_pair by fastforce
      next
        case False
        then have "\<not> same_tree st (ch_car st a) (ch_car st b)" using "4.IH"(2) [of v1] p s c False by simp
        then show ?thesis using p same_tree_pair by blast
      qed
    qed (use "4.prems" p s in simp)
  qed
next
  case (7 n st x xs y ys vis)
  then show ?case by (fastforce split: option.splits bool.splits)
qed simp_all

section \<open>Termination\<close>

definition unseen :: "visited \<Rightarrow> nat" where
  "unseen vis = card (- set vis)"

lemma unseen_mono: "set vis \<subseteq> set vis' \<Longrightarrow> unseen vis' \<le> unseen vis"
  unfolding unseen_def by (intro card_mono) auto

lemma unseen_push: "\<not> equal_pair_seen a b vis \<Longrightarrow> Suc (unseen ((a, b) # vis)) = unseen vis"
proof -
  assume "\<not> equal_pair_seen a b vis"
  then have "- set vis = insert (a, b) (- set ((a, b) # vis))" by (auto simp: equal_pair_seen_def)
  then show ?thesis unfolding unseen_def by simp
qed

lemma equal_returns:
  "3 * unseen vis + 3 \<le> n \<or> (\<not> (st_is_pair st a \<and> st_is_pair st b) \<and> 3 * unseen vis + 1 \<le> n) \<Longrightarrow>
     equal_with_visited n st a b vis \<noteq> None"
  "3 * unseen vis + 2 \<le> n \<Longrightarrow> equal_list n st a b vis \<noteq> None"
  "3 * unseen vis + 3 \<le> n \<Longrightarrow> equal_items n st xs ys vis \<noteq> None"
proof (induction n st a b vis and n st a b vis and n st xs ys vis
    rule: equal_with_visited_equal_list_equal_items.induct)
  case (2 n st a b vis)
  show ?case
  proof (cases "ch_eqv st a b")
    case ne: False
    show ?thesis
    proof (cases "object_at st a" rule: object_cases)
      case (2 x y)
      then show ?thesis using "2.IH"(1) [OF ne refl 2] "2.prems" ne
        by (cases "object_at st b" rule: object_cases) (auto simp: st_is_pair_def)
    next
      case (5 xs)
      show ?thesis
      proof (cases "object_at st b" rule: object_cases)
        case b: (5 ys)
        show ?thesis
        proof (cases "equal_pair_seen a b vis")
          case True
          then show ?thesis using ne 5 b by auto
        next
          case False
          then show ?thesis using "2.IH"(2) [OF ne refl 5 _ b] "2.prems" unseen_push [OF False] ne 5 b by auto
        qed
      qed (use ne 5 in simp_all)
    qed (use ne in \<open>cases "object_at st b" rule: object_cases; simp\<close>)+
  qed simp
next
  case (4 n st a b vis)
  show ?case
  proof (cases "st_is_pair st a \<and> st_is_pair st b \<and> \<not> equal_pair_seen a b vis")
    case False
    then show ?thesis using "4.IH"(1) "4.prems" by auto
  next
    case p: True
    then have c: "\<not> (\<not> st_is_pair st a \<or> \<not> st_is_pair st b)" "\<not> equal_pair_seen a b vis" by simp_all
    have u: "Suc (unseen ((a, b) # vis)) = unseen vis" using unseen_push c(2) .
    then obtain r v1 where r: "equal_with_visited n st (ch_car st a) (ch_car st b) ((a, b) # vis) = Some (r, v1)"
      using "4.IH"(2) [OF c] "4.prems" by fastforce
    have "unseen v1 \<le> unseen ((a, b) # vis)" using equal_grows(1) [OF r] by (rule unseen_mono)
    then have "equal_list n st (ch_cdr st a) (ch_cdr st b) v1 \<noteq> None" if r
      using "4.IH"(3) [OF c r refl] that u "4.prems" by simp
    then show ?thesis using p r by (cases r) auto
  qed
next
  case (7 n st x xs y ys vis)
  then obtain r v1 where r: "equal_with_visited n st x y vis = Some (r, v1)" by fastforce
  have "unseen v1 \<le> unseen vis" using equal_grows(1) [OF r] by (rule unseen_mono)
  then have "equal_items n st xs ys v1 \<noteq> None" if r using "7.IH"(2) [OF r refl] "7.prems" that by simp
  then show ?case using r by (cases r) auto
qed simp_all

lemma ch_equal_decides: "ch_equal st a b = Some (same_tree st a b)"
proof -
  have "unseen [] = CARD(chvalue \<times> chvalue)" by (simp add: unseen_def)
  then obtain r vis where r: "equal_with_visited equal_fuel st a b [] = Some (r, vis)"
    using equal_returns(1) [of "[]" equal_fuel st a b] by (auto simp: equal_fuel_def)
  have "r = same_tree st a b"
  proof (cases r)
    case True
    then have "justified st vis a b \<and> new_unfolded st [] vis" using equal_true(1) [of equal_fuel st a b "[]" vis] r by simp
    then show ?thesis using True unfolded_same_tree by (auto simp: new_unfolded_def)
  next
    case False
    then show ?thesis using equal_false(1) [of equal_fuel st a b "[]" vis] r by simp
  qed
  then show ?thesis using r by (simp add: ch_equal_def)
qed

text \<open>
  C3. \<open>equal?\<close> always returns, on cyclic data too, and it decides the largest structural
  equality: two values are equal exactly when they unfold into the same (possibly infinite) tree of
  pairs and vectors with \<open>eqv?\<close> values, strings and bytevectors at the leaves.
\<close>
theorem equal_decides_same_tree: "ch_equal st a b = Some (same_tree st a b)"
  by (rule ch_equal_decides)

section \<open>The three predicates together\<close>

text \<open>Leaves are compared by a key as well.\<close>

definition leaf_key :: "store \<Rightarrow> chvalue \<Rightarrow> (bool \<times> u8 list) + eqv_key" where
  "leaf_key st v = (case object_at st v of
       Some (HString s) \<Rightarrow> Inl (True, s) | Some (HBytevector s) \<Rightarrow> Inl (False, s) | _ \<Rightarrow> Inr (eqv_key st v))"

lemma eqv_key_identity:
  "object_at st x = Some (HString s) \<Longrightarrow> eqv_key st x = KId x"
  "object_at st x = Some (HBytevector s) \<Longrightarrow> eqv_key st x = KId x"
  "object_at st x = Some (HPair a d) \<Longrightarrow> eqv_key st x = KId x"
  "object_at st x = Some (HVector xs) \<Longrightarrow> eqv_key st x = KId x"
  using object_pointer [of st x] by (auto simp: eqv_key_def)

lemma eqv_key_KId: "eqv_key st x = KId z \<Longrightarrow> z = x"
  by (auto simp: eqv_key_def split: if_splits option.splits heap_object.splits)

lemma eqv_key_KId_iff: "eqv_key st a = KId a \<Longrightarrow> eqv_key st a = eqv_key st b \<longleftrightarrow> b = a"
  "eqv_key st a = KId a \<Longrightarrow> eqv_key st b = eqv_key st a \<longleftrightarrow> b = a"
  using eqv_key_KId by fastforce+

lemma leaf_by_key_other:
  assumes "\<And>s. object_at st a \<noteq> Some (HString s)" "\<And>s. object_at st a \<noteq> Some (HBytevector s)"
  shows "leaf_equal st a b \<longleftrightarrow> leaf_key st a = leaf_key st b"
proof -
  have a: "leaf_key st a = Inr (eqv_key st a)"
    using assms by (auto simp: leaf_key_def split: option.splits heap_object.splits)
  have n: "leaf_equal st a b \<longleftrightarrow> eqv_key st a = eqv_key st b" using assms by (auto simp: leaf_equal_def eqv_by_key)
  show ?thesis
  proof (cases "object_at st b" rule: object_cases)
    case (4 s)
    then show ?thesis using eqv_key_KId_iff [OF eqv_key_identity(1) [OF 4], of a] a n assms by (auto simp: leaf_key_def [of st b])
  next
    case (6 s)
    then show ?thesis using eqv_key_KId_iff [OF eqv_key_identity(2) [OF 6], of a] a n assms by (auto simp: leaf_key_def [of st b])
  qed (simp_all add: a n leaf_key_def [of st b])
qed

lemma leaf_by_key: "leaf_equal st a b \<longleftrightarrow> leaf_key st a = leaf_key st b"
proof (cases "object_at st a" rule: object_cases)
  case (4 s)
  note a = eqv_key_KId_iff [OF eqv_key_identity(1) [OF 4]]
  show ?thesis using a [of b] 4 by (cases "object_at st b" rule: object_cases) (auto simp: leaf_equal_def leaf_key_def eqv_by_key)
next
  case (6 s)
  note a = eqv_key_KId_iff [OF eqv_key_identity(2) [OF 6]]
  show ?thesis using a [of b] 6 by (cases "object_at st b" rule: object_cases) (auto simp: leaf_equal_def leaf_key_def eqv_by_key)
qed (rule leaf_by_key_other; simp)+

lemma node_leaf_equal:
  assumes "components st a b = Some cs"
  shows "leaf_equal st a c \<longleftrightarrow> c = a" "leaf_equal st c b \<longleftrightarrow> c = b"
proof -
  have "eqv_key st a = KId a" "eqv_key st b = KId b" "leaf_key st a = Inr (KId a)" "leaf_key st b = Inr (KId b)"
    using assms eqv_key_identity(3,4) [of st a] eqv_key_identity(3,4) [of st b]
    by (cases "object_at st a" rule: object_cases; cases "object_at st b" rule: object_cases;
        simp add: components_def leaf_key_def)+
  moreover have "leaf_key st c = Inr (KId x) \<longleftrightarrow> leaf_key st c = Inr (KId x) \<and> x = c" for c x
    using eqv_key_KId by (auto simp: leaf_key_def split: option.splits heap_object.splits)
  ultimately show "leaf_equal st a c \<longleftrightarrow> c = a" "leaf_equal st c b \<longleftrightarrow> c = b"
    unfolding leaf_by_key by metis+
qed

lemma components_trans:
  assumes "components st a b = Some cs" "components st b c = Some ds"
  shows "\<exists>es. components st a c = Some es \<and>
    (\<forall>(x, z) \<in> set es. \<exists>y. (x, y) \<in> set cs \<and> (y, z) \<in> set ds)"
proof (cases "object_at st a" rule: object_cases)
  case (2 x y)
  then show ?thesis using assms
    by (cases "object_at st b" rule: object_cases; cases "object_at st c" rule: object_cases) (auto simp: components_def)
next
  case (5 xs)
  then obtain ys zs where o: "object_at st b = Some (HVector ys)" "object_at st c = Some (HVector zs)"
      and l: "length xs = length ys" "length ys = length zs" "cs = zip xs ys" "ds = zip ys zs"
    using assms by (cases "object_at st b" rule: object_cases; cases "object_at st c" rule: object_cases)
      (auto simp: components_def split: if_splits)
  have "\<exists>y. (x, y) \<in> set cs \<and> (y, z) \<in> set ds" if "(x, z) \<in> set (zip xs zs)" for x z
    using that l by (auto simp: set_zip)
  then show ?thesis using 5 o l by (auto simp: components_def)
qed (use assms in \<open>simp_all add: components_def\<close>)

lemma same_tree_refl: "same_tree st a a"
  using leaf_equal_refl same_tree.leaf by blast

lemma same_tree_sym: "same_tree st a b \<Longrightarrow> same_tree st b a"
proof (coinduction arbitrary: a b)
  case same_tree
  then consider "leaf_equal st a b" | cs where "components st a b = Some cs" "\<forall>(x, y) \<in> set cs. same_tree st x y"
    using same_tree_iff [of st a b] by blast
  then show ?case
  proof cases
    case 1
    then show ?thesis using leaf_equal_sym by blast
  next
    case (2 cs)
    then have "components st b a = Some (map (\<lambda>(x, y). (y, x)) cs)" by (simp add: components_swap [of st b a])
    then show ?thesis using 2(2) by auto
  qed
qed

lemma same_tree_trans: "same_tree st a b \<Longrightarrow> same_tree st b c \<Longrightarrow> same_tree st a c"
proof (coinduction arbitrary: a b c)
  case same_tree
  consider "leaf_equal st a b" "leaf_equal st b c"
    | cs where "a = b" "components st b c = Some cs" "\<forall>(x, y) \<in> set cs. same_tree st x y"
    | cs where "c = b" "components st a b = Some cs" "\<forall>(x, y) \<in> set cs. same_tree st x y"
    | cs ds where "components st a b = Some cs" "components st b c = Some ds"
        "\<forall>(x, y) \<in> set cs. same_tree st x y" "\<forall>(x, y) \<in> set ds. same_tree st x y"
    using same_tree(1) [unfolded same_tree_iff [of st a b]] same_tree(2) [unfolded same_tree_iff [of st b c]]
  proof (elim disjE exE conjE)
    fix cs assume "leaf_equal st a b" "components st b c = Some cs" "\<forall>(x, y) \<in> set cs. same_tree st x y"
    moreover have "a = b" using calculation(1) node_leaf_equal(1) [OF calculation(2), of a] leaf_equal_sym by blast
    ultimately show thesis using that(2) by blast
  next
    fix cs assume "leaf_equal st b c" "components st a b = Some cs" "\<forall>(x, y) \<in> set cs. same_tree st x y"
    moreover have "c = b" using calculation(1) node_leaf_equal(2) [OF calculation(2), of c] leaf_equal_sym by blast
    ultimately show thesis using that(3) by blast
  qed (use that in blast)+
  then show ?case
  proof cases
    case 1
    then show ?thesis by (simp add: leaf_by_key)
  next
    case (2 cs)
    then show ?thesis using same_tree_refl by blast
  next
    case (3 cs)
    then show ?thesis using same_tree_refl by blast
  next
    case (4 cs ds)
    then obtain es where "components st a c = Some es" "\<forall>(x, z) \<in> set es. \<exists>y. (x, y) \<in> set cs \<and> (y, z) \<in> set ds"
      using components_trans [OF 4(1,2)] by blast
    then show ?thesis using 4(3,4) by fastforce
  qed
qed

lemma ch_equal_same_tree: "ch_equal st a b = Some True \<longleftrightarrow> same_tree st a b"
  by (simp add: ch_equal_decides)

text \<open>
  C29. The three equality predicates are equivalence relations on every store, cyclic and
  ill-formed ones too, and each is contained in the next: \<open>eq?\<close> in \<open>eqv?\<close> in \<open>equal?\<close>.
\<close>
theorem equality_predicates:
  "equivp ch_eq \<and> equivp (ch_eqv st) \<and> equivp (\<lambda>a b. ch_equal st a b = Some True) \<and>
   ch_eq \<le> ch_eqv st \<and> ch_eqv st \<le> (\<lambda>a b. ch_equal st a b = Some True)"
proof (intro conjI)
  show "equivp ch_eq" by (intro equivpI reflpI sympI transpI) (simp_all add: ch_eq_def)
  show "equivp (ch_eqv st)" by (intro equivpI reflpI sympI transpI) (simp_all add: eqv_by_key)
  show "equivp (\<lambda>a b. ch_equal st a b = Some True)"
    unfolding ch_equal_same_tree
    by (intro equivpI reflpI sympI transpI) (blast intro: same_tree_refl same_tree_sym same_tree_trans)+
  show "ch_eq \<le> ch_eqv st" by (auto simp: ch_eq_def eqv_by_key)
  show "ch_eqv st \<le> (\<lambda>a b. ch_equal st a b = Some True)"
    unfolding ch_equal_same_tree by (auto simp: leaf_equal_def intro: same_tree.leaf)
qed

end
