(* ===== verification/Chaaya_Hashtable.thy ===== *)
theory Chaaya_Hashtable
  imports Chaaya_Equality
begin

text \<open>
  The open-addressing hash table of \<open>src/src/hashtable.c\<close>: linear probing, tombstones, growth. A
  table whose arrays are not allocated has no slots. Allocation does not fail; the procedures a
  table may carry are functions that return a value or fail, without effects on the table.
\<close>

section \<open>Hashing\<close>

definition mix_u64 :: "u64 \<Rightarrow> u64" where
  "mix_u64 x0 =
     (let x1 = x0 XOR drop_bit 33 x0; x2 = x1 * 0xff51afd7ed558ccd; x3 = x2 XOR drop_bit 33 x2;
          x4 = x3 * 0xc4ceb9fe1a85ec53
      in x4 XOR drop_bit 33 x4)"

definition hash_bytes :: "u8 list \<Rightarrow> u64" where
  "hash_bytes bytes =
     mix_u64 (foldl (\<lambda>h b. (h XOR ucast b) * 1099511628211) 1469598103934665603 bytes)"

definition identity_hash :: "chvalue \<Rightarrow> u64" where
  "identity_hash key = mix_u64 (ch_to_object key)"

definition value_hash :: "store \<Rightarrow> chvalue \<Rightarrow> u64" where
  "value_hash st key =
     (if ch_is_fixnum key then mix_u64 (ch_to_fixnum key)
      else case object_at st key of
        Some (HSymbol name) \<Rightarrow> hash_bytes name
      | Some (HString s) \<Rightarrow> hash_bytes s
      | _ \<Rightarrow>
          if ch_is_char key then mix_u64 (ucast (ch_to_char key))
          else if key = CH_TRUE then 1
          else if key = CH_FALSE then 0
          else if ch_is_nil key then 2
          else identity_hash key)"

datatype hashtable_mode = HT_EQ | HT_EQV | HT_EQUAL

record hashtable =
  ht_mode :: hashtable_mode
  ht_keys :: "chvalue list"
  ht_vals :: "chvalue list"
  ht_used :: "bool list"
  ht_cap :: nat
  ht_count :: nat

text \<open>The two procedures of a table, where it has them.\<close>

record key_procedures =
  hash_fn :: "(chvalue \<Rightarrow> chvalue option) option"
  equiv_fn :: "(chvalue \<Rightarrow> chvalue \<Rightarrow> chvalue option) option"

definition key_equal :: "store \<Rightarrow> key_procedures \<Rightarrow> hashtable_mode \<Rightarrow> chvalue \<Rightarrow> chvalue \<Rightarrow> bool" where
  "key_equal st procs mode a b =
     (case equiv_fn procs of
        Some f \<Rightarrow> (case f a b of None \<Rightarrow> False | Some out \<Rightarrow> out \<noteq> CH_FALSE)
      | None \<Rightarrow>
          (case mode of HT_EQ \<Rightarrow> ch_eq a b | HT_EQV \<Rightarrow> ch_eqv st a b
           | HT_EQUAL \<Rightarrow> ch_equal st a b = Some True))"

definition mode_hash :: "store \<Rightarrow> hashtable_mode \<Rightarrow> chvalue \<Rightarrow> u64" where
  "mode_hash st mode key = (if mode = HT_EQ then identity_hash key else value_hash st key)"

definition hash_key :: "store \<Rightarrow> key_procedures \<Rightarrow> hashtable_mode \<Rightarrow> chvalue \<Rightarrow> u64" where
  "hash_key st procs mode key =
     (case hash_fn procs of
        Some f \<Rightarrow>
          (case f key of
             Some out \<Rightarrow>
               if ch_is_fixnum out
               then (let n = ch_to_fixnum out in mix_u64 (if sint n < 0 then - n else n))
               else value_hash st out
           | None \<Rightarrow> mode_hash st mode key)
      | None \<Rightarrow> mode_hash st mode key)"

section \<open>Slots\<close>

text \<open>
  The operations of a table use its keys only through a hash function and an equality; both are
  parameters here, and are the two functions above in the entry points.
\<close>

type_synonym key_hash = "chvalue \<Rightarrow> u64"
type_synonym key_eq = "chvalue \<Rightarrow> chvalue \<Rightarrow> bool"

definition slot_occupied :: "hashtable \<Rightarrow> nat \<Rightarrow> bool" where
  "slot_occupied ht i \<longleftrightarrow> ht_used ht ! i \<and> ht_keys ht ! i \<noteq> CH_UNDEFINED"

definition home_slot :: "key_hash \<Rightarrow> hashtable \<Rightarrow> chvalue \<Rightarrow> nat" where
  "home_slot hash ht key = unat (hash key) mod ht_cap ht"

fun find_loop :: "key_eq \<Rightarrow> hashtable \<Rightarrow> chvalue \<Rightarrow> nat \<Rightarrow> nat \<Rightarrow> nat option" where
  "find_loop equal ht key 0 idx = None"
| "find_loop equal ht key (Suc n) idx =
     (if \<not> ht_used ht ! idx then None
      else if slot_occupied ht idx \<and> equal (ht_keys ht ! idx) key then Some idx
      else find_loop equal ht key n (Suc idx mod ht_cap ht))"

definition find_entry :: "key_hash \<Rightarrow> key_eq \<Rightarrow> hashtable \<Rightarrow> chvalue \<Rightarrow> nat option" where
  "find_entry hash equal ht key =
     (if ht_cap ht = 0 then None else find_loop equal ht key (ht_cap ht) (home_slot hash ht key))"

fun insert_slot_loop :: "key_eq \<Rightarrow> hashtable \<Rightarrow> chvalue \<Rightarrow> nat \<Rightarrow> nat \<Rightarrow> nat \<Rightarrow> (nat \<times> bool) option" where
  "insert_slot_loop equal ht key 0 idx first_tombstone =
     (if first_tombstone < ht_cap ht then Some (first_tombstone, False) else None)"
| "insert_slot_loop equal ht key (Suc n) idx first_tombstone =
     (if \<not> ht_used ht ! idx
      then Some (if first_tombstone < ht_cap ht then first_tombstone else idx, False)
      else if \<not> slot_occupied ht idx
      then insert_slot_loop equal ht key n (Suc idx mod ht_cap ht)
             (if first_tombstone = ht_cap ht then idx else first_tombstone)
      else if equal (ht_keys ht ! idx) key then Some (idx, True)
      else insert_slot_loop equal ht key n (Suc idx mod ht_cap ht) first_tombstone)"

definition find_insert_slot :: "key_hash \<Rightarrow> key_eq \<Rightarrow> hashtable \<Rightarrow> chvalue \<Rightarrow> (nat \<times> bool) option" where
  "find_insert_slot hash equal ht key =
     (if ht_cap ht = 0 then None
      else insert_slot_loop equal ht key (ht_cap ht) (home_slot hash ht key) (ht_cap ht))"

definition fill_slot :: "hashtable \<Rightarrow> nat \<Rightarrow> chvalue \<Rightarrow> chvalue \<Rightarrow> hashtable" where
  "fill_slot ht i key val =
     ht \<lparr> ht_used := (ht_used ht)[i := True], ht_keys := (ht_keys ht)[i := key],
          ht_vals := (ht_vals ht)[i := val], ht_count := Suc (ht_count ht) \<rparr>"

section \<open>Growth\<close>

fun no_resize_loop :: "hashtable \<Rightarrow> chvalue \<Rightarrow> chvalue \<Rightarrow> nat \<Rightarrow> nat \<Rightarrow> hashtable" where
  "no_resize_loop ht key val 0 idx = ht"
| "no_resize_loop ht key val (Suc n) idx =
     (if \<not> ht_used ht ! idx \<or> \<not> slot_occupied ht idx then fill_slot ht idx key val
      else no_resize_loop ht key val n (Suc idx mod ht_cap ht))"

definition insert_entry_no_resize :: "key_hash \<Rightarrow> hashtable \<Rightarrow> chvalue \<Rightarrow> chvalue \<Rightarrow> hashtable" where
  "insert_entry_no_resize hash ht key val = no_resize_loop ht key val (ht_cap ht) (home_slot hash ht key)"

definition CH_HASHTABLE_MIN_CAP :: nat where "CH_HASHTABLE_MIN_CAP = 8"

definition empty_slots :: "hashtable \<Rightarrow> nat \<Rightarrow> hashtable" where
  "empty_slots ht n =
     ht \<lparr> ht_keys := replicate n CH_UNDEFINED, ht_vals := replicate n CH_UNDEFINED,
          ht_used := replicate n False, ht_cap := n, ht_count := 0 \<rparr>"

definition rehash_table :: "key_hash \<Rightarrow> hashtable \<Rightarrow> nat \<Rightarrow> hashtable" where
  "rehash_table hash ht target_cap =
     fold (\<lambda>i new. if slot_occupied ht i then insert_entry_no_resize hash new (ht_keys ht ! i) (ht_vals ht ! i) else new)
       [0..<ht_cap ht] (empty_slots ht (max CH_HASHTABLE_MIN_CAP target_cap))"

datatype hashtable_status = HASHTABLE_OK | HASHTABLE_NOT_FOUND | HASHTABLE_BAD_KEY | HASHTABLE_OOM

definition maybe_grow :: "key_hash \<Rightarrow> hashtable \<Rightarrow> hashtable_status \<times> hashtable" where
  "maybe_grow hash ht =
     (if ht_cap ht = 0 then (HASHTABLE_OK, rehash_table hash ht CH_HASHTABLE_MIN_CAP)
      else if ht_cap ht * 3 div 4 < ht_count ht + 1
      then (if SIZE_MAX div 2 < ht_cap ht then (HASHTABLE_OOM, ht)
            else (HASHTABLE_OK, rehash_table hash ht (ht_cap ht * 2)))
      else (HASHTABLE_OK, ht))"

section \<open>Entry points\<close>

definition table_get :: "key_hash \<Rightarrow> key_eq \<Rightarrow> hashtable \<Rightarrow> chvalue \<Rightarrow> chvalue option" where
  "table_get hash equal ht key = map_option (\<lambda>i. ht_vals ht ! i) (find_entry hash equal ht key)"

partial_function (option) set_loop ::
  "key_hash \<Rightarrow> key_eq \<Rightarrow> chvalue \<Rightarrow> chvalue \<Rightarrow> hashtable \<Rightarrow> (hashtable_status \<times> hashtable) option" where
  [code]: "set_loop hash equal key val ht =
     (case find_insert_slot hash equal ht key of
        None \<Rightarrow>
          if SIZE_MAX div 2 < ht_cap ht then Some (HASHTABLE_OOM, ht)
          else set_loop hash equal key val (rehash_table hash ht (ht_cap ht * 2))
      | Some (i, found) \<Rightarrow>
          if found then Some (HASHTABLE_OK, ht \<lparr> ht_vals := (ht_vals ht)[i := val] \<rparr>)
          else Some (HASHTABLE_OK, fill_slot ht i key val))"

definition table_set :: "key_hash \<Rightarrow> key_eq \<Rightarrow> hashtable \<Rightarrow> chvalue \<Rightarrow> chvalue \<Rightarrow> (hashtable_status \<times> hashtable) option" where
  "table_set hash equal ht key val =
     (case maybe_grow hash ht of (st, ht1) \<Rightarrow>
        if st \<noteq> HASHTABLE_OK then Some (st, ht1) else set_loop hash equal key val ht1)"

definition table_delete :: "key_hash \<Rightarrow> key_eq \<Rightarrow> hashtable \<Rightarrow> chvalue \<Rightarrow> hashtable_status \<times> hashtable" where
  "table_delete hash equal ht key =
     (case find_entry hash equal ht key of
        None \<Rightarrow> (HASHTABLE_NOT_FOUND, ht)
      | Some i \<Rightarrow>
          (HASHTABLE_OK,
           ht \<lparr> ht_used := (ht_used ht)[i := True], ht_keys := (ht_keys ht)[i := CH_UNDEFINED],
                ht_vals := (ht_vals ht)[i := CH_UNDEFINED], ht_count := ht_count ht - 1 \<rparr>))"

definition ch_hashtable_get :: "store \<Rightarrow> key_procedures \<Rightarrow> hashtable \<Rightarrow> chvalue \<Rightarrow> hashtable_status \<times> chvalue option" where
  "ch_hashtable_get st procs ht key =
     (case table_get (hash_key st procs (ht_mode ht)) (key_equal st procs (ht_mode ht)) ht key of
        None \<Rightarrow> (HASHTABLE_NOT_FOUND, None) | Some v \<Rightarrow> (HASHTABLE_OK, Some v))"

definition ch_hashtable_set ::
  "store \<Rightarrow> key_procedures \<Rightarrow> hashtable \<Rightarrow> chvalue \<Rightarrow> chvalue \<Rightarrow> (hashtable_status \<times> hashtable) option" where
  "ch_hashtable_set st procs ht key val =
     table_set (hash_key st procs (ht_mode ht)) (key_equal st procs (ht_mode ht)) ht key val"

definition ch_hashtable_delete :: "store \<Rightarrow> key_procedures \<Rightarrow> hashtable \<Rightarrow> chvalue \<Rightarrow> hashtable_status \<times> hashtable" where
  "ch_hashtable_delete st procs ht key =
     table_delete (hash_key st procs (ht_mode ht)) (key_equal st procs (ht_mode ht)) ht key"

section \<open>Well-formed tables and the map they stand for\<close>

definition probe :: "nat \<Rightarrow> nat \<Rightarrow> nat \<Rightarrow> nat" where "probe cap home j = (home + j) mod cap"

definition reaches :: "hashtable \<Rightarrow> nat \<Rightarrow> nat \<Rightarrow> bool" where
  "reaches ht home i \<longleftrightarrow>
     (\<exists>j<ht_cap ht. i = probe (ht_cap ht) home j \<and> (\<forall>j'<j. ht_used ht ! probe (ht_cap ht) home j'))"

definition matches :: "key_eq \<Rightarrow> hashtable \<Rightarrow> chvalue \<Rightarrow> nat \<Rightarrow> bool" where
  "matches equal ht key i \<longleftrightarrow> slot_occupied ht i \<and> equal (ht_keys ht ! i) key"

definition occupied_slots :: "hashtable \<Rightarrow> nat set" where
  "occupied_slots ht = {i. i < ht_cap ht \<and> slot_occupied ht i}"

text \<open>
  A key in the table can be found from its home slot without crossing a slot never used, no two
  keys are equal, and the count is that of the occupied slots.
\<close>

definition wf_table :: "key_hash \<Rightarrow> key_eq \<Rightarrow> (chvalue \<Rightarrow> bool) \<Rightarrow> hashtable \<Rightarrow> bool" where
  "wf_table hash equal valid ht \<longleftrightarrow>
     length (ht_keys ht) = ht_cap ht \<and> length (ht_vals ht) = ht_cap ht \<and> length (ht_used ht) = ht_cap ht \<and>
     ht_count ht = card (occupied_slots ht) \<and>
     (\<forall>i \<in> occupied_slots ht. valid (ht_keys ht ! i) \<and> reaches ht (home_slot hash ht (ht_keys ht ! i)) i) \<and>
     (\<forall>i \<in> occupied_slots ht. \<forall>m \<in> occupied_slots ht. equal (ht_keys ht ! i) (ht_keys ht ! m) \<longrightarrow> i = m)"

text \<open>The map of a table, by a search through all slots.\<close>

definition table_map :: "key_eq \<Rightarrow> hashtable \<Rightarrow> chvalue \<Rightarrow> chvalue option" where
  "table_map equal ht key = map_option (\<lambda>i. ht_vals ht ! i) (find (matches equal ht key) [0..<ht_cap ht])"

lemma probe_less: "0 < cap \<Longrightarrow> probe cap home j < cap"
  by (simp add: probe_def)

lemma probe_step: "Suc (probe cap home j) mod cap = probe cap home (Suc j)"
  by (simp add: probe_def mod_Suc_eq)

lemma probe_0: "home < cap \<Longrightarrow> probe cap home 0 = home"
  by (simp add: probe_def)

lemma probe_all:
  assumes "i < cap" "home < cap"
  shows "\<exists>j<cap. i = probe cap home j"
proof (cases "home \<le> i")
  case True
  then show ?thesis using assms by (intro exI [of _ "i - home"]) (auto simp: probe_def)
next
  case False
  then have "home + (i + cap - home) = i + cap" using assms by simp
  then show ?thesis using assms False by (intro exI [of _ "i + cap - home"]) (auto simp: probe_def)
qed

lemma home_slot_less: "0 < ht_cap ht \<Longrightarrow> home_slot hash ht key < ht_cap ht"
  by (simp add: home_slot_def)

lemma find_loop_Some:
  "find_loop equal ht key n (probe (ht_cap ht) home j) = Some i \<Longrightarrow>
     \<exists>j'. i = probe (ht_cap ht) home j' \<and> matches equal ht key i"
proof (induction n arbitrary: j)
  case (Suc n)
  then show ?case using Suc.IH [of "Suc j"] by (auto simp: probe_step matches_def split: if_splits)
qed simp

lemma find_loop_None:
  "find_loop equal ht key n (probe (ht_cap ht) home j) = None \<Longrightarrow>
     \<exists>m\<le>n. (\<forall>j'. j \<le> j' \<and> j' < j + m \<longrightarrow> \<not> matches equal ht key (probe (ht_cap ht) home j')) \<and>
       (m = n \<or> \<not> ht_used ht ! probe (ht_cap ht) home (j + m))"
proof (induction n arbitrary: j)
  case (Suc n)
  show ?case
  proof (cases "ht_used ht ! probe (ht_cap ht) home j")
    case False
    then show ?thesis by (intro exI [of _ 0]) auto
  next
    case True
    then have nm: "\<not> matches equal ht key (probe (ht_cap ht) home j)"
      and "find_loop equal ht key n (probe (ht_cap ht) home (Suc j)) = None"
      using Suc.prems by (auto simp: probe_step matches_def split: if_splits)
    then obtain m where m: "m \<le> n" "\<forall>j'. Suc j \<le> j' \<and> j' < Suc j + m \<longrightarrow> \<not> matches equal ht key (probe (ht_cap ht) home j')"
        "m = n \<or> \<not> ht_used ht ! probe (ht_cap ht) home (Suc j + m)"
      using Suc.IH [of "Suc j"] by blast
    have "\<not> matches equal ht key (probe (ht_cap ht) home j')" if "j \<le> j'" "j' < j + Suc m" for j'
      using that m(2) nm by (cases "j' = j") auto
    then show ?thesis using m by (intro exI [of _ "Suc m"]) auto
  qed
qed auto

lemma slot_matching: "matches equal ht key i \<Longrightarrow> i < ht_cap ht \<Longrightarrow> i \<in> occupied_slots ht"
  by (simp add: matches_def occupied_slots_def)

lemma table_map_matching:
  assumes "\<And>i m. i < ht_cap ht \<Longrightarrow> m < ht_cap ht \<Longrightarrow> matches equal ht key i \<Longrightarrow> matches equal ht key m \<Longrightarrow> i = m"
    and "matches equal ht key i" "i < ht_cap ht"
  shows "table_map equal ht key = Some (ht_vals ht ! i)"
proof -
  obtain m where "find (matches equal ht key) [0..<ht_cap ht] = Some m" "m < ht_cap ht" "matches equal ht key m"
    using assms(2,3) by (cases "find (matches equal ht key) [0..<ht_cap ht]") (auto simp: find_None_iff find_Some_iff)
  moreover have "m = i" using assms(1) [OF \<open>m < ht_cap ht\<close> assms(3) \<open>matches equal ht key m\<close> assms(2)] .
  ultimately show ?thesis by (simp add: table_map_def)
qed

lemma table_map_None: "(\<And>i. i < ht_cap ht \<Longrightarrow> \<not> matches equal ht key i) \<Longrightarrow> table_map equal ht key = None"
  by (simp add: table_map_def find_None_iff)

section \<open>The contract of keys\<close>

text \<open>
  What a table needs of its keys: on the valid ones the equality is an equivalence that the hash
  respects, and the mark of an empty slot is not a key.
\<close>

locale key_contract =
  fixes hash :: "chvalue \<Rightarrow> u64" and equal :: "chvalue \<Rightarrow> chvalue \<Rightarrow> bool" and valid :: "chvalue \<Rightarrow> bool"
  assumes equal_refl: "valid a \<Longrightarrow> equal a a"
    and equal_sym: "valid a \<Longrightarrow> valid b \<Longrightarrow> equal a b \<Longrightarrow> equal b a"
    and equal_trans: "valid a \<Longrightarrow> valid b \<Longrightarrow> valid c \<Longrightarrow> equal a b \<Longrightarrow> equal b c \<Longrightarrow> equal a c"
    and hash_equal: "valid a \<Longrightarrow> valid b \<Longrightarrow> equal a b \<Longrightarrow> hash a = hash b"
    and valid_defined: "\<not> valid CH_UNDEFINED"
begin

abbreviation wf :: "hashtable \<Rightarrow> bool" where "wf \<equiv> wf_table hash equal valid"

lemma matches_unique:
  assumes "wf ht" "valid key" "matches equal ht key i" "matches equal ht key m" "i < ht_cap ht" "m < ht_cap ht"
  shows "i = m"
proof -
  have o: "i \<in> occupied_slots ht" "m \<in> occupied_slots ht" using assms slot_matching by blast+
  then have v: "valid (ht_keys ht ! i)" "valid (ht_keys ht ! m)" using assms(1) by (auto simp: wf_table_def)
  have "equal (ht_keys ht ! i) (ht_keys ht ! m)"
    using equal_trans [OF v(1) assms(2) v(2)] equal_sym [OF v(2) assms(2)] assms(3,4) by (simp add: matches_def)
  then show ?thesis using assms(1) o by (auto simp: wf_table_def)
qed

lemma match_reached:
  assumes "wf ht" "valid key" "matches equal ht key i" "i < ht_cap ht"
  shows "reaches ht (home_slot hash ht key) i"
proof -
  have o: "i \<in> occupied_slots ht" using assms slot_matching by blast
  then have v: "valid (ht_keys ht ! i)" "reaches ht (home_slot hash ht (ht_keys ht ! i)) i"
    using assms(1) by (auto simp: wf_table_def)
  moreover have "hash (ht_keys ht ! i) = hash key" using hash_equal v(1) assms(2,3) by (simp add: matches_def)
  ultimately show ?thesis by (simp add: home_slot_def)
qed

text \<open>A search that stops at a slot never used, or has seen all slots, has missed nothing.\<close>

lemma no_match_beyond:
  assumes "wf ht" "valid key" "m \<le> ht_cap ht"
    and "\<forall>j<m. \<not> matches equal ht key (probe (ht_cap ht) (home_slot hash ht key) j)"
    and "m = ht_cap ht \<or> \<not> ht_used ht ! probe (ht_cap ht) (home_slot hash ht key) m"
    and "i < ht_cap ht"
  shows "\<not> matches equal ht key i"
proof
  assume i: "matches equal ht key i"
  then obtain j where j: "j < ht_cap ht" "i = probe (ht_cap ht) (home_slot hash ht key) j"
      "\<forall>j'<j. ht_used ht ! probe (ht_cap ht) (home_slot hash ht key) j'"
    using match_reached [OF assms(1,2) i assms(6)] by (auto simp: reaches_def)
  have "m \<le> j" using assms(4) i j(2) by (meson not_le)
  then have "\<not> ht_used ht ! probe (ht_cap ht) (home_slot hash ht key) m" "m = j \<or> m < j" using assms(5) j(1) by auto
  then show False using i j by (auto simp: matches_def slot_occupied_def)
qed

lemma find_entry_correct:
  assumes "wf ht" "valid key"
  shows "(\<forall>i. find_entry hash equal ht key = Some i \<longrightarrow> i < ht_cap ht \<and> matches equal ht key i) \<and>
    (find_entry hash equal ht key = None \<longrightarrow> (\<forall>i<ht_cap ht. \<not> matches equal ht key i))"
proof (cases "ht_cap ht = 0")
  case False
  let ?h = "home_slot hash ht key" and ?c = "ht_cap ht"
  have h: "probe ?c ?h 0 = ?h" using home_slot_less [of ht] False by (simp add: probe_0)
  have f: "find_entry hash equal ht key = find_loop equal ht key ?c (probe ?c ?h 0)"
    using False by (simp add: find_entry_def h)
  show ?thesis
  proof (cases "find_entry hash equal ht key")
    case None
    then obtain m where m: "m \<le> ?c" "\<forall>j<m. \<not> matches equal ht key (probe ?c ?h j)"
        "m = ?c \<or> \<not> ht_used ht ! probe ?c ?h m"
      using find_loop_None [of equal ht key ?c ?h 0] f by auto
    then show ?thesis using no_match_beyond [OF assms m(1,2,3)] None by simp
  next
    case (Some i)
    then show ?thesis using find_loop_Some [of equal ht key ?c ?h 0 i] f probe_less False by auto
  qed
qed (simp add: find_entry_def)

lemma get_correct:
  assumes "wf ht" "valid key"
  shows "table_get hash equal ht key = table_map equal ht key"
proof (cases "find_entry hash equal ht key")
  case None
  then have "\<forall>i<ht_cap ht. \<not> matches equal ht key i" using find_entry_correct [OF assms] by blast
  then have "table_map equal ht key = None" by (intro table_map_None) blast
  then show ?thesis using None by (simp add: table_get_def)
next
  case (Some i)
  then have i: "i < ht_cap ht" "matches equal ht key i" using find_entry_correct [OF assms] by blast+
  then have "table_map equal ht key = Some (ht_vals ht ! i)"
    using matches_unique [OF assms] by (intro table_map_matching) blast+
  then show ?thesis using Some by (simp add: table_get_def)
qed

end

section \<open>Changing one slot\<close>

lemma fill_slot_simps:
  assumes "length (ht_keys ht) = ht_cap ht" "length (ht_vals ht) = ht_cap ht" "length (ht_used ht) = ht_cap ht" "i < ht_cap ht"
  shows "ht_cap (fill_slot ht i k v) = ht_cap ht"
    "home_slot hash (fill_slot ht i k v) key = home_slot hash ht key"
    "ht_used (fill_slot ht i k v) ! m \<longleftrightarrow> m = i \<or> ht_used ht ! m"
    "k \<noteq> CH_UNDEFINED \<Longrightarrow> slot_occupied (fill_slot ht i k v) m \<longleftrightarrow> m = i \<or> slot_occupied ht m"
    "ht_keys (fill_slot ht i k v) ! m = (if m = i then k else ht_keys ht ! m)"
    "ht_vals (fill_slot ht i k v) ! m = (if m = i then v else ht_vals ht ! m)"
  using assms by (auto simp: fill_slot_def slot_occupied_def home_slot_def nth_list_update)

lemma reaches_more_used:
  assumes "reaches ht h i" "ht_cap ht' = ht_cap ht" "\<And>m. ht_used ht ! m \<Longrightarrow> ht_used ht' ! m"
  shows "reaches ht' h i"
  using assms by (auto simp: reaches_def)

context key_contract begin

lemma fill_correct:
  assumes "wf ht" "valid key" "i < ht_cap ht" "\<not> slot_occupied ht i"
    and "reaches ht (home_slot hash ht key) i" "\<forall>m<ht_cap ht. \<not> matches equal ht key m"
  shows "wf (fill_slot ht i key val) \<and>
    (\<forall>k. valid k \<longrightarrow> table_map equal (fill_slot ht i key val) k = (if equal key k then Some val else table_map equal ht k))"
proof -
  let ?n = "fill_slot ht i key val"
  have l: "length (ht_keys ht) = ht_cap ht" "length (ht_vals ht) = ht_cap ht" "length (ht_used ht) = ht_cap ht"
    using assms(1) by (simp_all add: wf_table_def)
  have u: "key \<noteq> CH_UNDEFINED" using assms(2) valid_defined by blast
  note s = fill_slot_simps [OF l assms(3), where k = key and v = val]
  have o: "occupied_slots ?n = insert i (occupied_slots ht)" "i \<notin> occupied_slots ht"
    using assms(3,4) s(1) s(4) [OF u] by (auto simp: occupied_slots_def)
  have fin: "finite (occupied_slots ht)" by (simp add: occupied_slots_def)
  have old: "valid (ht_keys ht ! m) \<and> reaches ht (home_slot hash ht (ht_keys ht ! m)) m \<and> \<not> equal (ht_keys ht ! m) key \<and>
      \<not> equal key (ht_keys ht ! m)" if "m \<in> occupied_slots ht" for m
  proof -
    have v: "valid (ht_keys ht ! m)" "reaches ht (home_slot hash ht (ht_keys ht ! m)) m"
      using assms(1) that by (auto simp: wf_table_def)
    moreover have "\<not> equal (ht_keys ht ! m) key" using assms(6) that by (auto simp: matches_def occupied_slots_def)
    ultimately show ?thesis using equal_sym [OF assms(2) v(1)] by blast
  qed
  have r: "reaches ?n h m" if "reaches ht h m" for h m
    using reaches_more_used [OF that s(1)] s(3) by blast
  have w: "wf ?n"
    unfolding wf_table_def
  proof (intro conjI ballI impI)
    show "length (ht_keys ?n) = ht_cap ?n" "length (ht_vals ?n) = ht_cap ?n" "length (ht_used ?n) = ht_cap ?n"
      using l by (simp_all add: fill_slot_def)
    show "ht_count ?n = card (occupied_slots ?n)"
      using o fin assms(1) by (simp add: wf_table_def fill_slot_def)
  next
    fix m assume "m \<in> occupied_slots ?n"
    then show "valid (ht_keys ?n ! m)" "reaches ?n (home_slot hash ?n (ht_keys ?n ! m)) m"
      using o old r assms(2,5) s by auto
  next
    fix m m' assume "m \<in> occupied_slots ?n" "m' \<in> occupied_slots ?n" "equal (ht_keys ?n ! m) (ht_keys ?n ! m')"
    then show "m = m'" using o old s(5) assms(1) by (auto simp: wf_table_def split: if_splits)
  qed
  have "table_map equal ?n k = (if equal key k then Some val else table_map equal ht k)" if k: "valid k" for k
  proof -
    have m: "matches equal ?n k j \<longleftrightarrow> (if j = i then equal key k else matches equal ht k j)" for j
      using s u assms(4) by (auto simp: matches_def)
    show ?thesis
    proof (cases "equal key k")
      case True
      then show ?thesis using matches_unique [OF w k] table_map_matching [of ?n equal k i] m [of i] s(1,6) assms(3) by auto
    next
      case False
      then have mm: "matches equal ?n k j \<longleftrightarrow> matches equal ht k j" if "j < ht_cap ht" for j
        using m [of j] assms(4) by (auto simp: matches_def)
      show ?thesis
      proof (cases "\<exists>j<ht_cap ht. matches equal ht k j")
        case True
        then obtain j where j: "j < ht_cap ht" "matches equal ht k j" by blast
        then have "j \<noteq> i" using assms(4) by (auto simp: matches_def)
        moreover have "table_map equal ht k = Some (ht_vals ht ! j)"
          using matches_unique [OF assms(1) k] j by (intro table_map_matching) blast+
        moreover have "table_map equal ?n k = Some (ht_vals ?n ! j)"
          using matches_unique [OF w k] j mm s(1) by (intro table_map_matching) auto
        ultimately show ?thesis using False s(6) by simp
      next
        case no: False
        then have "table_map equal ht k = None" "table_map equal ?n k = None"
          using mm s(1) by (auto intro!: table_map_None)
        then show ?thesis using False by simp
      qed
    qed
  qed
  then show ?thesis using w by blast
qed

lemma overwrite_correct:
  assumes "wf ht" "valid key" "i < ht_cap ht" "matches equal ht key i"
  shows "wf (ht \<lparr> ht_vals := (ht_vals ht)[i := val] \<rparr>) \<and>
    (\<forall>k. valid k \<longrightarrow> table_map equal (ht \<lparr> ht_vals := (ht_vals ht)[i := val] \<rparr>) k =
       (if equal key k then Some val else table_map equal ht k))"
proof -
  let ?n = "ht \<lparr> ht_vals := (ht_vals ht)[i := val] \<rparr>"
  have m: "matches equal ?n = matches equal ht" "ht_cap ?n = ht_cap ht" "occupied_slots ?n = occupied_slots ht"
    by (auto simp: matches_def slot_occupied_def occupied_slots_def fun_eq_iff)
  have "reaches ?n = reaches ht" "home_slot hash ?n = home_slot hash ht"
    by (auto simp: reaches_def home_slot_def fun_eq_iff)
  then have w: "wf ?n" using assms(1) m by (simp add: wf_table_def)
  have ik: "valid (ht_keys ht ! i)" "equal (ht_keys ht ! i) key"
    using assms slot_matching [OF assms(4,3)] by (auto simp: wf_table_def matches_def)
  have l: "length (ht_vals ht) = ht_cap ht" using assms(1) by (simp add: wf_table_def)
  have "table_map equal ?n k = (if equal key k then Some val else table_map equal ht k)" if k: "valid k" for k
  proof (cases "find (matches equal ht k) [0..<ht_cap ht]")
    case None
    then have "\<not> matches equal ht k i" using assms(3) by (auto simp: find_None_iff)
    then have "\<not> equal key k" using equal_trans [OF ik(1) assms(2) k ik(2)] assms(4) by (auto simp: matches_def)
    then show ?thesis using None m by (simp add: table_map_def)
  next
    case (Some j)
    then have j: "j < ht_cap ht" "matches equal ht k j" by (auto simp: find_Some_iff)
    have "equal key k \<longleftrightarrow> j = i"
    proof
      assume e: "equal key k"
      then have "matches equal ht k i" using equal_trans [OF ik(1) assms(2) k ik(2)] assms(4) by (auto simp: matches_def)
      then show "j = i" using matches_unique [OF assms(1) k j(2)] j(1) assms(3) by blast
    next
      assume "j = i"
      then have "equal (ht_keys ht ! i) k" using j(2) by (simp add: matches_def)
      then show "equal key k" using equal_trans [OF assms(2) ik(1) k] equal_sym [OF ik(1) assms(2) ik(2)] by blast
    qed
    then show ?thesis using Some m l assms(3) by (simp add: table_map_def nth_list_update)
  qed
  then show ?thesis using w by blast
qed

lemma delete_slot_correct:
  assumes "wf ht" "valid key" "i < ht_cap ht" "matches equal ht key i"
  defines "n \<equiv> ht \<lparr> ht_used := (ht_used ht)[i := True], ht_keys := (ht_keys ht)[i := CH_UNDEFINED],
    ht_vals := (ht_vals ht)[i := CH_UNDEFINED], ht_count := ht_count ht - 1 \<rparr>"
  shows "wf n \<and> (\<forall>k. valid k \<longrightarrow> table_map equal n k = (if equal key k then None else table_map equal ht k))"
proof -
  have l: "length (ht_keys ht) = ht_cap ht" "length (ht_vals ht) = ht_cap ht" "length (ht_used ht) = ht_cap ht"
    using assms(1) by (simp_all add: wf_table_def)
  have oi: "i \<in> occupied_slots ht" using slot_matching assms(3,4) by blast
  then have ui: "ht_used ht ! i" by (simp add: occupied_slots_def slot_occupied_def)
  have c: "ht_cap n = ht_cap ht" "home_slot hash n = home_slot hash ht" by (simp_all add: n_def home_slot_def fun_eq_iff)
  have u: "ht_used n ! m = ht_used ht ! m" for m using ui l assms(3) by (cases "m = i") (simp_all add: n_def)
  have k: "ht_keys n ! m = (if m = i then CH_UNDEFINED else ht_keys ht ! m)" for m
    using l assms(3) by (simp add: n_def nth_list_update)
  have s: "slot_occupied n m \<longleftrightarrow> m \<noteq> i \<and> slot_occupied ht m" for m by (simp add: slot_occupied_def u k)
  then have o: "occupied_slots n = occupied_slots ht - {i}" by (auto simp: occupied_slots_def c)
  have fin: "finite (occupied_slots ht)" by (simp add: occupied_slots_def)
  have r: "reaches n = reaches ht" by (simp add: reaches_def fun_eq_iff u c)
  have w: "wf n" using assms(1) o oi fin l by (auto simp: wf_table_def r c k) (simp_all add: n_def)
  have m: "matches equal n key' j \<longleftrightarrow> j \<noteq> i \<and> matches equal ht key' j" for key' j by (auto simp: matches_def s k)
  have ik: "valid (ht_keys ht ! i)" "equal (ht_keys ht ! i) key"
    using assms(1) oi assms(4) by (auto simp: wf_table_def matches_def)
  have "table_map equal n q = (if equal key q then None else table_map equal ht q)" if q: "valid q" for q
  proof (cases "equal key q")
    case True
    then have "matches equal ht q i" using equal_trans [OF ik(1) assms(2) q ik(2)] assms(4) by (auto simp: matches_def)
    then have "\<not> matches equal n q j" if "j < ht_cap n" for j
      using matches_unique [OF assms(1) q, of i j] that assms(3) m c by auto
    then show ?thesis using True by (auto intro: table_map_None)
  next
    case False
    then have "\<not> matches equal ht q i"
      using equal_trans [OF assms(2) ik(1) q] equal_sym [OF ik(1) assms(2) ik(2)] by (auto simp: matches_def)
    then have e: "matches equal n q j \<longleftrightarrow> matches equal ht q j" for j using m by auto
    then have "find (matches equal n q) [0..<ht_cap n] = find (matches equal ht q) [0..<ht_cap ht]" using e by (simp add: c cong: find_cong)
    moreover have "ht_vals n ! j = ht_vals ht ! j" if "matches equal n q j" for j
      using that m by (auto simp: n_def)
    ultimately show ?thesis using False
      by (auto simp: table_map_def find_Some_iff e split: option.split intro!: option.map_cong)
  qed
  then show ?thesis using w by blast
qed

end

section \<open>Finding a slot to insert at\<close>

text \<open>A slot from which an insertion may start: free, and reached from the home slot.\<close>

definition free_slot :: "hashtable \<Rightarrow> nat \<Rightarrow> nat \<Rightarrow> bool" where
  "free_slot ht home i \<longleftrightarrow> i < ht_cap ht \<and> \<not> slot_occupied ht i \<and> reaches ht home i"

lemma full_table:
  assumes "\<forall>j<ht_cap ht. slot_occupied ht (probe (ht_cap ht) home j)" "home < ht_cap ht"
  shows "card (occupied_slots ht) = ht_cap ht"
proof -
  have "slot_occupied ht i" if "i < ht_cap ht" for i
    using probe_all [OF that assms(2)] assms(1) by blast
  then have "occupied_slots ht = {..<ht_cap ht}" by (auto simp: occupied_slots_def)
  then show ?thesis by simp
qed

lemma card_occupied_le: "card (occupied_slots ht) \<le> ht_cap ht"
proof -
  have "occupied_slots ht \<subseteq> {..<ht_cap ht}" by (auto simp: occupied_slots_def)
  then have "card (occupied_slots ht) \<le> card {..<ht_cap ht}" by (intro card_mono) simp_all
  then show ?thesis by simp
qed

lemma no_resize_loop_fills:
  assumes "j + n = ht_cap ht" "\<forall>j'<j. slot_occupied ht (probe (ht_cap ht) home j')" "home < ht_cap ht"
    and "card (occupied_slots ht) < ht_cap ht"
  shows "\<exists>i. free_slot ht home i \<and> no_resize_loop ht key val n (probe (ht_cap ht) home j) = fill_slot ht i key val"
  using assms
proof (induction n arbitrary: j)
  case 0
  then show ?case using full_table [of ht home] by simp
next
  case (Suc n)
  let ?i = "probe (ht_cap ht) home j"
  show ?case
  proof (cases "slot_occupied ht ?i")
    case False
    have "reaches ht home ?i" using Suc.prems by (auto simp: reaches_def slot_occupied_def intro!: exI [of _ j])
    then have "free_slot ht home ?i" using False Suc.prems by (simp add: free_slot_def probe_less)
    then show ?thesis using False by auto
  next
    case True
    then have "\<forall>j'<Suc j. slot_occupied ht (probe (ht_cap ht) home j')" using Suc.prems(2) by (auto simp: less_Suc_eq)
    then show ?thesis using Suc.IH [of "Suc j"] Suc.prems True by (simp add: probe_step slot_occupied_def)
  qed
qed

lemma insert_entry_fills:
  assumes "card (occupied_slots ht) < ht_cap ht"
  shows "\<exists>i. free_slot ht (home_slot hash ht key) i \<and> insert_entry_no_resize hash ht key val = fill_slot ht i key val"
  using no_resize_loop_fills [of 0 "ht_cap ht" ht "home_slot hash ht key" key val] assms home_slot_less [of ht hash key]
  by (simp add: insert_entry_no_resize_def probe_0)

definition insert_spec :: "key_eq \<Rightarrow> hashtable \<Rightarrow> chvalue \<Rightarrow> nat \<Rightarrow> (nat \<times> bool) option \<Rightarrow> bool" where
  "insert_spec equal ht key home r \<longleftrightarrow>
     (case r of
        None \<Rightarrow> \<forall>j<ht_cap ht. slot_occupied ht (probe (ht_cap ht) home j)
      | Some (i, found) \<Rightarrow>
          if found then i < ht_cap ht \<and> matches equal ht key i
          else free_slot ht home i \<and>
            (\<exists>m\<le>ht_cap ht. (\<forall>j<m. \<not> matches equal ht key (probe (ht_cap ht) home j)) \<and>
               (m = ht_cap ht \<or> \<not> ht_used ht ! probe (ht_cap ht) home m)))"

lemma insert_slot_loop_spec:
  assumes "j + n = ht_cap ht" "home < ht_cap ht"
    and "\<forall>j'<j. ht_used ht ! probe (ht_cap ht) home j' \<and> \<not> matches equal ht key (probe (ht_cap ht) home j')"
    and "t = ht_cap ht \<and> (\<forall>j'<j. slot_occupied ht (probe (ht_cap ht) home j')) \<or> free_slot ht home t"
  shows "insert_spec equal ht key home (insert_slot_loop equal ht key n (probe (ht_cap ht) home j) t)"
  using assms
proof (induction n arbitrary: j t)
  case 0
  then show ?case by (auto simp: insert_spec_def free_slot_def intro!: exI [of _ j])
next
  case (Suc n)
  let ?i = "probe (ht_cap ht) home j"
  have lt: "j < ht_cap ht" "?i < ht_cap ht" using Suc.prems by (auto simp: probe_less)
  have r: "reaches ht home ?i" using Suc.prems(3) lt by (auto simp: reaches_def intro!: exI [of _ j])
  show ?case
  proof (cases "ht_used ht ! ?i")
    case False
    then have "free_slot ht home ?i" using r lt by (simp add: free_slot_def slot_occupied_def)
    then have "free_slot ht home (if t < ht_cap ht then t else ?i)"
      using Suc.prems(4) by (auto simp: free_slot_def)
    moreover have "\<exists>m\<le>ht_cap ht. (\<forall>j<m. \<not> matches equal ht key (probe (ht_cap ht) home j)) \<and>
               (m = ht_cap ht \<or> \<not> ht_used ht ! probe (ht_cap ht) home m)"
      using False lt Suc.prems(3) by (intro exI [of _ j]) auto
    ultimately show ?thesis using False by (simp add: insert_spec_def)
  next
    case used: True
    show ?thesis
    proof (cases "matches equal ht key ?i")
      case True
      then show ?thesis using used lt by (simp add: insert_spec_def matches_def)
    next
      case nm: False
      let ?t = "if \<not> slot_occupied ht ?i \<and> t = ht_cap ht then ?i else t"
      have "insert_slot_loop equal ht key (Suc n) ?i t = insert_slot_loop equal ht key n (probe (ht_cap ht) home (Suc j)) ?t"
        using used nm by (auto simp: matches_def probe_step)
      moreover have "?t = ht_cap ht \<and> (\<forall>j'<Suc j. slot_occupied ht (probe (ht_cap ht) home j')) \<or> free_slot ht home ?t"
        using Suc.prems(4) lt r by (auto simp: free_slot_def less_Suc_eq)
      ultimately show ?thesis
        using Suc.IH [of "Suc j" ?t] Suc.prems(1,2,3) used nm by (auto simp: less_Suc_eq)
    qed
  qed
qed

lemma find_insert_slot_spec:
  "0 < ht_cap ht \<Longrightarrow> insert_spec equal ht key (home_slot hash ht key) (find_insert_slot hash equal ht key)"
  using insert_slot_loop_spec [of 0 "ht_cap ht" ht "home_slot hash ht key" equal key "ht_cap ht"] home_slot_less [of ht hash key]
  by (simp add: find_insert_slot_def probe_0)

lemma occupied_empty: "occupied_slots (empty_slots ht n) = {}"
  by (auto simp: occupied_slots_def empty_slots_def slot_occupied_def)

context key_contract begin

lemma card_wf: "wf ht \<Longrightarrow> ht_count ht = card (occupied_slots ht)"
  by (simp add: wf_table_def)

lemma wf_empty: "wf (empty_slots ht n)"
  by (simp add: wf_table_def occupied_empty) (simp add: empty_slots_def)

lemma insert_no_resize_correct:
  fixes val :: chvalue
  assumes "wf ht" "valid key" "ht_count ht < ht_cap ht" "\<And>m. m < ht_cap ht \<Longrightarrow> \<not> matches equal ht key m"
  defines "n \<equiv> insert_entry_no_resize hash ht key val"
  shows "wf n \<and> ht_cap n = ht_cap ht \<and> ht_mode n = ht_mode ht \<and> ht_count n = Suc (ht_count ht) \<and>
    (\<forall>k. valid k \<longrightarrow> table_map equal n k = (if equal key k then Some val else table_map equal ht k))"
proof -
  obtain i where i: "free_slot ht (home_slot hash ht key) i" "n = fill_slot ht i key val"
    using insert_entry_fills [of ht hash key val] assms(3) card_wf [OF assms(1)] by (auto simp: n_def)
  then show ?thesis using fill_correct [OF assms(1,2), of i val] assms(4)
    by (simp add: free_slot_def) (simp add: fill_slot_def)
qed

text \<open>The invariant of the loop over the old slots.\<close>

definition rehashed :: "hashtable \<Rightarrow> nat \<Rightarrow> nat \<Rightarrow> hashtable \<Rightarrow> bool" where
  "rehashed ht n i new \<longleftrightarrow>
     wf new \<and> ht_cap new = n \<and> ht_mode new = ht_mode ht \<and> ht_count new = card (occupied_slots ht \<inter> {..<i}) \<and>
     (\<forall>k. valid k \<longrightarrow>
        (\<forall>m<i. matches equal ht k m \<longrightarrow> table_map equal new k = Some (ht_vals ht ! m)) \<and>
        ((\<forall>m<i. \<not> matches equal ht k m) \<longrightarrow> table_map equal new k = None))"

lemma rehash_step:
  assumes "wf ht" "rehashed ht n i new" "i < ht_cap ht" "card (occupied_slots ht) < n"
  shows "rehashed ht n (Suc i)
    (if slot_occupied ht i then insert_entry_no_resize hash new (ht_keys ht ! i) (ht_vals ht ! i) else new)"
proof (cases "slot_occupied ht i")
  case False
  then have "occupied_slots ht \<inter> {..<Suc i} = occupied_slots ht \<inter> {..<i}" "\<not> matches equal ht k i" for k
    by (auto simp: occupied_slots_def less_Suc_eq matches_def)
  then show ?thesis using False assms(2) by (simp add: rehashed_def less_Suc_eq)
next
  case True
  let ?k = "ht_keys ht ! i"
  have oi: "i \<in> occupied_slots ht" using True assms(3) by (simp add: occupied_slots_def)
  then have v: "valid ?k" using assms(1) by (simp add: wf_table_def)
  have lt: "occupied_slots ht \<inter> {..<Suc i} = insert i (occupied_slots ht \<inter> {..<i})"
    using oi by (auto simp: less_Suc_eq)
  then have c: "card (occupied_slots ht \<inter> {..<Suc i}) = Suc (card (occupied_slots ht \<inter> {..<i}))" by simp
  moreover have "card (occupied_slots ht \<inter> {..<Suc i}) \<le> card (occupied_slots ht)"
    by (intro card_mono) (auto simp: occupied_slots_def)
  ultimately have less: "ht_count new < ht_cap new" using assms(2,4) by (simp add: rehashed_def)
  have none: "\<not> matches equal ht k m" if "valid k" "equal ?k k" "m < i" for k m
  proof
    assume "matches equal ht k m"
    moreover have "matches equal ht k i" using that True by (simp add: matches_def)
    ultimately have "m = i" using matches_unique [OF assms(1) that(1), of m i] that(3) assms(3) by simp
    then show False using that(3) by simp
  qed
  have "table_map equal new ?k = None" using none [OF v equal_refl [OF v]] v assms(2) by (auto simp: rehashed_def)
  then have nm: "\<not> matches equal new ?k m" if "m < ht_cap new" for m
    using that by (simp add: table_map_def find_None_iff)
  have wn: "wf new" using assms(2) by (simp add: rehashed_def)
  note ins = insert_no_resize_correct [OF wn v less nm, of "ht_vals ht ! i"]
  have mi: "matches equal ht k i \<longleftrightarrow> equal ?k k" for k using True by (simp add: matches_def)
  show ?thesis
    unfolding rehashed_def
  proof (intro conjI allI impI)
    fix k m assume k: "valid k" "m < Suc i" "matches equal ht k m"
    show "table_map equal (if slot_occupied ht i then insert_entry_no_resize hash new ?k (ht_vals ht ! i) else new) k = Some (ht_vals ht ! m)"
      using k none [OF k(1)] ins True mi assms(2) by (auto simp: rehashed_def less_Suc_eq)
  next
    fix k assume k: "valid k" "\<forall>m<Suc i. \<not> matches equal ht k m"
    then show "table_map equal (if slot_occupied ht i then insert_entry_no_resize hash new ?k (ht_vals ht ! i) else new) k = None"
      using ins True mi assms(2) by (auto simp: rehashed_def)
  qed (use ins True assms(2) c in \<open>auto simp: rehashed_def\<close>)
qed

lemma rehash_correct:
  assumes "wf ht" "card (occupied_slots ht) < max CH_HASHTABLE_MIN_CAP target"
  defines "new \<equiv> rehash_table hash ht target"
  shows "wf new \<and> ht_cap new = max CH_HASHTABLE_MIN_CAP target \<and> ht_mode new = ht_mode ht \<and> ht_count new = ht_count ht \<and>
    (\<forall>k. valid k \<longrightarrow> table_map equal new k = table_map equal ht k)"
proof -
  let ?n = "max CH_HASHTABLE_MIN_CAP target"
  let ?f = "\<lambda>i new. if slot_occupied ht i then insert_entry_no_resize hash new (ht_keys ht ! i) (ht_vals ht ! i) else new"
  have "rehashed ht ?n i (fold ?f [0..<i] (empty_slots ht ?n))" if "i \<le> ht_cap ht" for i
    using that
  proof (induction i)
    case 0
    have "table_map equal (empty_slots ht ?n) k = None" for k
      by (intro table_map_None) (auto simp: matches_def slot_occupied_def empty_slots_def)
    then show ?case using wf_empty [of ht ?n] by (simp add: rehashed_def) (simp add: empty_slots_def)
  next
    case (Suc i)
    then show ?case using rehash_step [OF assms(1), of ?n i] assms(2) by simp
  qed
  then have r: "rehashed ht ?n (ht_cap ht) new" by (simp add: new_def rehash_table_def)
  moreover have "occupied_slots ht \<inter> {..<ht_cap ht} = occupied_slots ht" by (auto simp: occupied_slots_def)
  moreover have "table_map equal new k = table_map equal ht k" if k: "valid k" for k
  proof (cases "\<exists>i<ht_cap ht. matches equal ht k i")
    case True
    then obtain i where i: "i < ht_cap ht" "matches equal ht k i" by blast
    then have "table_map equal ht k = Some (ht_vals ht ! i)"
      using matches_unique [OF assms(1) k] by (intro table_map_matching) blast+
    then show ?thesis using r k i by (auto simp: rehashed_def)
  next
    case False
    then have "table_map equal ht k = None" by (intro table_map_None) blast
    then show ?thesis using r k False by (auto simp: rehashed_def)
  qed
  ultimately show ?thesis using card_wf [OF assms(1)] by (simp add: rehashed_def)
qed

text \<open>After a growth check that succeeds there is a free slot.\<close>

lemma maybe_grow_correct:
  assumes "wf ht" "maybe_grow hash ht = (s, new)"
  shows "wf new \<and> ht_mode new = ht_mode ht \<and> (\<forall>k. valid k \<longrightarrow> table_map equal new k = table_map equal ht k) \<and>
    (s = HASHTABLE_OK \<and> ht_count new < ht_cap new \<or> s = HASHTABLE_OOM \<and> new = ht \<and> SIZE_MAX div 2 < ht_cap ht)"
proof (cases "ht_cap ht = 0")
  case True
  then have "card (occupied_slots ht) = 0" using card_occupied_le [of ht] by simp
  then show ?thesis
    using rehash_correct [OF assms(1), of CH_HASHTABLE_MIN_CAP] assms True card_wf [OF assms(1)]
    by (auto simp: maybe_grow_def CH_HASHTABLE_MIN_CAP_def)
next
  case False
  have c: "ht_count ht \<le> ht_cap ht" using card_occupied_le [of ht] card_wf [OF assms(1)] by simp
  show ?thesis
  proof (cases "ht_cap ht * 3 div 4 < ht_count ht + 1")
    case True
    then show ?thesis
      using rehash_correct [OF assms(1), of "ht_cap ht * 2"] assms False c card_wf [OF assms(1)]
      by (auto simp: maybe_grow_def split: if_splits)
  next
    case no: False
    then have "ht_count ht < ht_cap ht" by linarith
    then show ?thesis using no assms False by (auto simp: maybe_grow_def)
  qed
qed

lemma set_correct:
  assumes "wf ht" "valid key"
  shows "\<exists>s new. table_set hash equal ht key val = Some (s, new) \<and> wf new \<and> ht_mode new = ht_mode ht \<and>
    (s = HASHTABLE_OK \<and> (\<forall>k. valid k \<longrightarrow> table_map equal new k = (if equal key k then Some val else table_map equal ht k)) \<or>
     s = HASHTABLE_OOM \<and> new = ht \<and> SIZE_MAX div 2 < ht_cap ht)"
proof -
  obtain s g where g: "maybe_grow hash ht = (s, g)" by force
  note grow = maybe_grow_correct [OF assms(1) g]
  show ?thesis
  proof (cases "s = HASHTABLE_OK")
    case False
    then show ?thesis using grow g by (auto simp: table_set_def)
  next
    case True
    then have room: "ht_count g < ht_cap g" and wg: "wf g" using grow by auto
    note spec = find_insert_slot_spec [of g equal key hash]
    obtain i found where r: "find_insert_slot hash equal g key = Some (i, found)"
      using spec room full_table [of g "home_slot hash g key"] home_slot_less [of g hash key] card_wf [OF wg]
      by (cases "find_insert_slot hash equal g key") (auto simp: insert_spec_def)
    have ts: "table_set hash equal ht key val = Some (HASHTABLE_OK,
        if found then g \<lparr> ht_vals := (ht_vals g)[i := val] \<rparr> else fill_slot g i key val)"
      using g True r by (simp add: table_set_def set_loop.simps)
    have "wf n \<and> (\<forall>k. valid k \<longrightarrow> table_map equal n k = (if equal key k then Some val else table_map equal g k))"
      if "n = (if found then g \<lparr> ht_vals := (ht_vals g)[i := val] \<rparr> else fill_slot g i key val)" for n
    proof (cases found)
      case True
      then show ?thesis using overwrite_correct [OF wg assms(2), of i val] spec r room that by (simp add: insert_spec_def)
    next
      case False
      then have f: "free_slot g (home_slot hash g key) i" "\<forall>m<ht_cap g. \<not> matches equal g key m"
        using spec r room no_match_beyond [OF wg assms(2)] by (auto simp: insert_spec_def)
      then show ?thesis using fill_correct [OF wg assms(2), of i val] False that by (simp add: free_slot_def)
    qed
    then show ?thesis using ts grow by (simp add: fill_slot_def)
  qed
qed

lemma delete_correct:
  assumes "wf ht" "valid key" "table_delete hash equal ht key = (s, new)"
  shows "wf new \<and> ht_mode new = ht_mode ht \<and>
    s = (if table_map equal ht key = None then HASHTABLE_NOT_FOUND else HASHTABLE_OK) \<and>
    (\<forall>k. valid k \<longrightarrow> table_map equal new k = (if equal key k then None else table_map equal ht k))"
proof (cases "find_entry hash equal ht key")
  case None
  then have nm: "\<forall>i<ht_cap ht. \<not> matches equal ht key i" using find_entry_correct [OF assms(1,2)] by blast
  have "table_map equal ht k = None" if "valid k" "equal key k" for k
  proof (intro table_map_None notI)
    fix i assume i: "i < ht_cap ht" "matches equal ht k i"
    then have "valid (ht_keys ht ! i)" using slot_matching assms(1) by (auto simp: wf_table_def)
    then have "matches equal ht key i" using i equal_trans [of "ht_keys ht ! i" k key] equal_sym [of key k] that assms(2)
      by (auto simp: matches_def)
    then show False using nm i by blast
  qed
  then show ?thesis using assms None equal_refl [OF assms(2)] by (auto simp: table_delete_def)
next
  case (Some i)
  then have i: "i < ht_cap ht" "matches equal ht key i" using find_entry_correct [OF assms(1,2)] by blast+
  have "table_map equal ht key \<noteq> None" using i by (auto simp: table_map_def find_None_iff)
  then show ?thesis using delete_slot_correct [OF assms(1,2) i] assms(3) Some by (auto simp: table_delete_def)
qed

end

section \<open>The keys of a table without procedures of its own\<close>

definition no_procedures :: key_procedures where
  "no_procedures = \<lparr> hash_fn = None, equiv_fn = None \<rparr>"

text \<open>
  The keys for which the hash functions respect the equality. The hash of an object other than a
  symbol or a string is that of its address, so numbers on the heap are left out of the tables that
  compare by \<open>eqv?\<close>, and pairs, vectors and bytevectors of those that compare by \<open>equal?\<close>.
\<close>

fun valid_key :: "store \<Rightarrow> hashtable_mode \<Rightarrow> chvalue \<Rightarrow> bool" where
  "valid_key st HT_EQ k \<longleftrightarrow> k \<noteq> CH_UNDEFINED"
| "valid_key st HT_EQV k \<longleftrightarrow> k \<noteq> CH_UNDEFINED \<and>
     (case object_at st k of Some (HBignum _ _) \<Rightarrow> False | Some (HRational _ _) \<Rightarrow> False
      | Some (HComplex _ _ _ _) \<Rightarrow> False | _ \<Rightarrow> True)"
| "valid_key st HT_EQUAL k \<longleftrightarrow> k \<noteq> CH_UNDEFINED \<and>
     (case object_at st k of None \<Rightarrow> True | Some (HSymbol _) \<Rightarrow> True | Some (HString _) \<Rightarrow> True
      | Some (HOther _) \<Rightarrow> True | _ \<Rightarrow> False)"

lemma valid_key_defined: "valid_key st m k \<Longrightarrow> k \<noteq> CH_UNDEFINED"
  by (cases m) simp_all

lemma key_equal_modes:
  "key_equal st no_procedures HT_EQ a b \<longleftrightarrow> a = b"
  "key_equal st no_procedures HT_EQV a b \<longleftrightarrow> eqv_key st a = eqv_key st b"
  "key_equal st no_procedures HT_EQUAL a b \<longleftrightarrow> same_tree st a b"
  by (simp_all add: key_equal_def no_procedures_def ch_eq_def eqv_by_key ch_equal_same_tree)

lemma hash_key_no_procedures: "hash_key st no_procedures m = mode_hash st m"
  by (simp add: fun_eq_iff hash_key_def no_procedures_def)

lemma eqv_hash:
  assumes "valid_key st HT_EQV a" "valid_key st HT_EQV b" "eqv_key st a = eqv_key st b"
  shows "value_hash st a = value_hash st b"
proof -
  have "a = b" if "ch_is_fixnum a" "ch_is_fixnum b" using assms(3) that fixnum_view_key [OF that] by (simp add: eqv_key_def)
  then have "a = b \<or> ch_is_char a \<and> ch_is_char b \<and> ch_to_char a = ch_to_char b"
    using assms by (cases "object_at st a" rule: object_cases; cases "object_at st b" rule: object_cases)
      (auto simp: eqv_key_def ch_to_flonum_def split: if_splits)
  then show ?thesis using char_not_fixnum [of a st] char_not_fixnum [of b st] by (auto simp: value_hash_def)
qed

lemma equal_hash:
  assumes "valid_key st HT_EQUAL a" "valid_key st HT_EQUAL b" "same_tree st a b"
  shows "value_hash st a = value_hash st b"
proof -
  have v: "valid_key st HT_EQV a" "valid_key st HT_EQV b"
    using assms(1,2) by (auto split: option.splits heap_object.splits)
  have "components st a b = None"
    using assms(1) by (cases "object_at st a" rule: object_cases) (auto simp: components_def)
  then have l: "leaf_equal st a b" using assms(3) same_tree_iff [of st a b] by simp
  show ?thesis
    using l unfolding leaf_equal_def
  proof (elim disjE exE conjE)
    assume "ch_eqv st a b"
    then show ?thesis using eqv_hash [OF v] by (simp add: eqv_by_key)
  next
    fix s assume "object_at st a = Some (HString s)" "object_at st b = Some (HString s)"
    then show ?thesis using object_pointer [of st a] object_pointer [of st b] by (simp add: value_hash_def)
  next
    fix s assume "object_at st a = Some (HBytevector s)"
    then show ?thesis using assms(1) by simp
  qed
qed

interpretation ht: key_contract "mode_hash st m" "key_equal st no_procedures m" "valid_key st m" for st m
proof
  show "\<not> valid_key st m CH_UNDEFINED" using valid_key_defined by blast
  show "key_equal st no_procedures m a a" for a
    by (cases m) (simp_all add: key_equal_modes same_tree_refl)
  show "key_equal st no_procedures m a b \<Longrightarrow> key_equal st no_procedures m b a" for a b
    by (cases m) (simp_all add: key_equal_modes same_tree_sym)
  show "key_equal st no_procedures m a b \<Longrightarrow> key_equal st no_procedures m b c \<Longrightarrow> key_equal st no_procedures m a c" for a b c
    by (cases m) (simp_all add: key_equal_modes same_tree_trans [of st a b c])
  show "valid_key st m a \<Longrightarrow> valid_key st m b \<Longrightarrow> key_equal st no_procedures m a b \<Longrightarrow> mode_hash st m a = mode_hash st m b" for a b
    using eqv_hash [of st a b] equal_hash [of st a b]
    by (cases m) (simp_all only: key_equal_modes mode_hash_def simp_thms hashtable_mode.simps if_True if_False)
qed

section \<open>Properties\<close>

text \<open>The invariant of a table in a store, and the map it stands for.\<close>

definition ok_table :: "store \<Rightarrow> hashtable \<Rightarrow> bool" where
  "ok_table st ht \<longleftrightarrow>
     wf_table (mode_hash st (ht_mode ht)) (key_equal st no_procedures (ht_mode ht)) (valid_key st (ht_mode ht)) ht"

definition entries :: "store \<Rightarrow> hashtable \<Rightarrow> chvalue \<Rightarrow> chvalue option" where
  "entries st ht = table_map (key_equal st no_procedures (ht_mode ht)) ht"

text \<open>The new table has the entry \<open>v\<close> for the key, and the entries of the old one for the other keys.\<close>

definition updates_entry :: "store \<Rightarrow> hashtable \<Rightarrow> hashtable \<Rightarrow> chvalue \<Rightarrow> chvalue option \<Rightarrow> bool" where
  "updates_entry st ht new key v \<longleftrightarrow>
     ok_table st new \<and> ht_mode new = ht_mode ht \<and>
     (\<forall>k. valid_key st (ht_mode ht) k \<longrightarrow>
        entries st new k = (if key_equal st no_procedures (ht_mode ht) key k then v else entries st ht k))"

lemma updates_entryI:
  assumes "ht.wf st m new" "ht_mode ht = m" "ht_mode new = m"
    "\<forall>k. valid_key st m k \<longrightarrow>
       table_map (key_equal st no_procedures m) new k =
         (if key_equal st no_procedures m key k then v else table_map (key_equal st no_procedures m) ht k)"
  shows "updates_entry st ht new key v"
  using assms by (simp add: updates_entry_def ok_table_def entries_def)

text \<open>
  C4. A hash table refines a finite map on its valid keys: a lookup returns the value of the map; an
  insertion returns (the loop ends) and changes the map at the inserted key only, unless the table
  cannot double any more and is left as it was; growing and rehashing do not change the map, and
  the invariant of the slots is kept.
\<close>
theorem hashtable_get_set_map:
  assumes "ok_table st ht" "valid_key st (ht_mode ht) key"
  shows "ch_hashtable_get st no_procedures ht key =
      (if entries st ht key = None then HASHTABLE_NOT_FOUND else HASHTABLE_OK, entries st ht key) \<and>
    ((\<exists>new. ch_hashtable_set st no_procedures ht key val = Some (HASHTABLE_OK, new) \<and> updates_entry st ht new key (Some val)) \<or>
     ch_hashtable_set st no_procedures ht key val = Some (HASHTABLE_OOM, ht) \<and> SIZE_MAX div 2 < ht_cap ht)"
proof (rule conjI)
  have wf: "ht.wf st (ht_mode ht) ht" using assms(1) by (simp add: ok_table_def)
  show "ch_hashtable_get st no_procedures ht key =
      (if entries st ht key = None then HASHTABLE_NOT_FOUND else HASHTABLE_OK, entries st ht key)"
    by (simp add: ch_hashtable_get_def hash_key_no_procedures ht.get_correct [OF wf assms(2)] entries_def split: option.split)
  have set: "ch_hashtable_set st no_procedures ht key val =
      table_set (mode_hash st (ht_mode ht)) (key_equal st no_procedures (ht_mode ht)) ht key val"
    by (simp add: ch_hashtable_set_def hash_key_no_procedures)
  show "(\<exists>new. ch_hashtable_set st no_procedures ht key val = Some (HASHTABLE_OK, new) \<and> updates_entry st ht new key (Some val)) \<or>
     ch_hashtable_set st no_procedures ht key val = Some (HASHTABLE_OOM, ht) \<and> SIZE_MAX div 2 < ht_cap ht"
    using ht.set_correct [OF wf assms(2), of val] unfolding set
    by (elim exE conjE disjE) (simp_all add: updates_entryI [OF _ refl])
qed


section \<open>Concrete tables\<close>

text \<open>A table as the constructor makes it; the primitives then set the mode.\<close>

definition ch_gc_make_hashtable :: "nat \<Rightarrow> hashtable" where
  "ch_gc_make_hashtable capacity =
     (let cap = (if capacity = 0 then 8 else capacity)
      in \<lparr> ht_mode = HT_EQV, ht_keys = replicate cap CH_UNDEFINED, ht_vals = replicate cap CH_UNDEFINED,
           ht_used = replicate cap False, ht_cap = cap, ht_count = 0 \<rparr>)"

definition new_table :: "hashtable_mode \<Rightarrow> hashtable" where
  "new_table m = ch_gc_make_hashtable 0 \<lparr> ht_mode := m \<rparr>"

lemma new_table_empty_slots: "new_table m = empty_slots (new_table m) 8"
  by (simp add: new_table_def ch_gc_make_hashtable_def empty_slots_def)

definition one_entry :: "store \<Rightarrow> hashtable_mode \<Rightarrow> chvalue \<Rightarrow> chvalue \<Rightarrow> hashtable" where
  "one_entry st m k v = fill_slot (new_table m) (unat (mode_hash st m k) mod 8) k v"

lemma new_table_simps: "ht_mode (new_table m) = m" "ht_cap (new_table m) = 8" "ht_count (new_table m) = 0"
  "i < 8 \<Longrightarrow> \<not> ht_used (new_table m) ! i"
  by (simp_all add: new_table_def ch_gc_make_hashtable_def)

lemma new_table_ok: "ok_table st (new_table m)"
  using ht.wf_empty [of st m "new_table m" 8] new_table_empty_slots [of m] by (simp add: ok_table_def new_table_simps)

lemma set_loop_free_home:
  assumes "0 < ht_cap ht" "\<not> ht_used ht ! home_slot hash ht k"
  shows "set_loop hash equal k v ht = Some (HASHTABLE_OK, fill_slot ht (home_slot hash ht k) k v)"
proof -
  obtain n where "ht_cap ht = Suc n" using assms(1) gr0_implies_Suc by blast
  then show ?thesis using assms(2) by (simp add: set_loop.simps find_insert_slot_def)
qed

lemma set_first: "ch_hashtable_set st no_procedures (new_table m) k v = Some (HASHTABLE_OK, one_entry st m k v)"
  using set_loop_free_home [of "new_table m" "mode_hash st m" k]
  by (simp add: ch_hashtable_set_def table_set_def maybe_grow_def hash_key_no_procedures home_slot_def one_entry_def new_table_simps)

lemma get_free_home:
  assumes "\<not> ht_used ht ! home_slot hash ht k"
  shows "table_get hash equal ht k = None"
  using assms by (cases "ht_cap ht") (simp_all add: table_get_def find_entry_def)

lemma get_other_home:
  assumes "unat (mode_hash st m k') mod 8 \<noteq> unat (mode_hash st m k) mod 8"
  shows "ch_hashtable_get st no_procedures (one_entry st m k v) k' = (HASHTABLE_NOT_FOUND, None)"
proof -
  let ?t = "one_entry st m k v"
  have c: "ht_cap ?t = 8" "ht_mode ?t = m" by (simp_all add: one_entry_def fill_slot_def new_table_simps)
  have "\<not> ht_used ?t ! i" if "i < 8" "i \<noteq> unat (mode_hash st m k) mod 8" for i
    using that by (simp add: one_entry_def fill_slot_def new_table_simps)
  then have "\<not> ht_used ?t ! home_slot (mode_hash st m) ?t k'" using assms by (simp add: home_slot_def c)
  then show ?thesis using get_free_home [of ?t "mode_hash st m" k'] by (simp add: ch_hashtable_get_def hash_key_no_procedures c)
qed

text \<open>Two pairs with equal components, and two bignums with the same limbs.\<close>

definition twin_store :: store where
  "twin_store = [16 \<mapsto> HPair CH_TRUE CH_NIL, 32 \<mapsto> HPair CH_TRUE CH_NIL,
     48 \<mapsto> HBignum [0, 1] True, 64 \<mapsto> HBignum [0, 1] True]"

lemma twin_objects:
  "object_at twin_store (ch_make_pointer 16) = Some (HPair CH_TRUE CH_NIL)"
  "object_at twin_store (ch_make_pointer 32) = Some (HPair CH_TRUE CH_NIL)"
  "object_at twin_store (ch_make_pointer 48) = Some (HBignum [0, 1] True)"
  "object_at twin_store (ch_make_pointer 64) = Some (HBignum [0, 1] True)"
  by (simp_all add: object_at_def twin_store_def ch_is_pointer_def ch_make_pointer_def ch_to_object_def
    CH_NANBOX_PTR_def CH_NANBOX_PAYLOAD_def)

lemma twin_hashes:
  "unat (mode_hash twin_store HT_EQUAL (ch_make_pointer 16)) mod 8 = 4"
  "unat (mode_hash twin_store HT_EQUAL (ch_make_pointer 32)) mod 8 = 5"
  "unat (mode_hash twin_store HT_EQV (ch_make_pointer 48)) mod 8 = 3"
  "unat (mode_hash twin_store HT_EQV (ch_make_pointer 64)) mod 8 = 6"
proof -
  have i: "ch_to_object (ch_make_pointer 16) = 16" "ch_to_object (ch_make_pointer 32) = 32"
    "ch_to_object (ch_make_pointer 48) = 48" "ch_to_object (ch_make_pointer 64) = 64"
    by (simp_all add: ch_make_pointer_def ch_to_object_def CH_NANBOX_PTR_def CH_NANBOX_PAYLOAD_def)
  have m: "mode_hash twin_store HT_EQUAL (ch_make_pointer 16) = mix_u64 16"
    "mode_hash twin_store HT_EQUAL (ch_make_pointer 32) = mix_u64 32"
    "mode_hash twin_store HT_EQV (ch_make_pointer 48) = mix_u64 48"
    "mode_hash twin_store HT_EQV (ch_make_pointer 64) = mix_u64 64"
    using object_pointer [OF twin_objects(1)] object_pointer [OF twin_objects(2)]
      object_pointer [OF twin_objects(3)] object_pointer [OF twin_objects(4)]
    by (simp_all add: mode_hash_def value_hash_def twin_objects identity_hash_def i)
      (simp_all add: ch_make_pointer_def CH_NANBOX_PTR_def CH_NANBOX_PAYLOAD_def CH_NANBOX_IMM_def CH_TRUE_def CH_FALSE_def CH_NIL_def ch_is_nil_def)
  show "unat (mode_hash twin_store HT_EQUAL (ch_make_pointer 16)) mod 8 = 4"
  "unat (mode_hash twin_store HT_EQUAL (ch_make_pointer 32)) mod 8 = 5"
  "unat (mode_hash twin_store HT_EQV (ch_make_pointer 48)) mod 8 = 3"
  "unat (mode_hash twin_store HT_EQV (ch_make_pointer 64)) mod 8 = 6"
    unfolding m by (simp_all add: mix_u64_def Let_def)
qed

lemma twins_equal:
  "ch_equal twin_store (ch_make_pointer 16) (ch_make_pointer 32) = Some True"
  "ch_eqv twin_store (ch_make_pointer 48) (ch_make_pointer 64)"
proof -
  have "components twin_store (ch_make_pointer 16) (ch_make_pointer 32) = Some [(CH_TRUE, CH_TRUE), (CH_NIL, CH_NIL)]"
    by (simp add: components_def twin_objects)
  then show "ch_equal twin_store (ch_make_pointer 16) (ch_make_pointer 32) = Some True"
    unfolding ch_equal_same_tree by (rule same_tree.node) (simp add: same_tree_refl)
  show "ch_eqv twin_store (ch_make_pointer 48) (ch_make_pointer 64)"
    using object_pointer [OF twin_objects(3)] object_pointer [OF twin_objects(4)]
    by (simp add: eqv_by_key eqv_key_def twin_objects)
qed

text \<open>
  Outside the valid keys a table loses entries: an \<open>equal?\<close> table does not find the value of a
  pair under a pair that is \<open>equal?\<close> to it, and an \<open>eqv?\<close> table that of a big integer under an
  \<open>eqv?\<close> one, because their hashes are those of the addresses.
\<close>
theorem hashtable_loses_structural_keys:
  "ch_equal twin_store (ch_make_pointer 16) (ch_make_pointer 32) = Some True \<and>
   (\<exists>t. ch_hashtable_set twin_store no_procedures (new_table HT_EQUAL) (ch_make_pointer 16) CH_TRUE = Some (HASHTABLE_OK, t) \<and>
      ch_hashtable_get twin_store no_procedures t (ch_make_pointer 32) = (HASHTABLE_NOT_FOUND, None)) \<and>
   ch_eqv twin_store (ch_make_pointer 48) (ch_make_pointer 64) \<and>
   (\<exists>t. ch_hashtable_set twin_store no_procedures (new_table HT_EQV) (ch_make_pointer 48) CH_TRUE = Some (HASHTABLE_OK, t) \<and>
      ch_hashtable_get twin_store no_procedures t (ch_make_pointer 64) = (HASHTABLE_NOT_FOUND, None))"
  by (simp add: twins_equal set_first get_other_home twin_hashes)

lemma one_entry_ok: "valid_key st m k \<Longrightarrow> ok_table st (one_entry st m k v)"
  using ht.set_correct [of st m "new_table m" k v] new_table_ok [of st m] set_first [of st m k v]
  by (auto simp: ok_table_def ch_hashtable_set_def hash_key_no_procedures new_table_simps SIZE_MAX_def)

lemma one_entry_mode: "ht_mode (one_entry st m k v) = m"
  by (simp add: one_entry_def fill_slot_def new_table_simps)

lemma hashtable_get_set_map_witness:
  "(\<exists>new. ch_hashtable_set twin_store no_procedures (one_entry twin_store HT_EQ (ch_make_pointer 16) CH_TRUE) (ch_make_pointer 32) CH_FALSE
      = Some (HASHTABLE_OK, new) \<and>
    updates_entry twin_store (one_entry twin_store HT_EQ (ch_make_pointer 16) CH_TRUE) new (ch_make_pointer 32) (Some CH_FALSE))"
proof -
  have k: "valid_key twin_store HT_EQ (ch_make_pointer 16)" "valid_key twin_store HT_EQ (ch_make_pointer 32)"
    by (simp_all add: ch_make_pointer_def CH_NANBOX_PTR_def CH_NANBOX_PAYLOAD_def CH_NANBOX_IMM_def CH_UNDEFINED_def)
  have "ht_cap (one_entry twin_store HT_EQ (ch_make_pointer 16) CH_TRUE) = 8"
    by (simp add: one_entry_def fill_slot_def new_table_simps)
  then show ?thesis
    using hashtable_get_set_map [OF one_entry_ok [OF k(1)], of CH_TRUE "ch_make_pointer 32" CH_FALSE] k(2)
    by (simp add: one_entry_mode SIZE_MAX_def)
qed


end
