(* ===== verification/Chaaya_Utf8.thy ===== *)
theory Chaaya_Utf8
  imports Chaaya_Value
begin

text \<open>
  The UTF-8 helpers of \<open>src/src/prim_utf8.h\<close> and \<open>src/src/prim_utf8.c\<close> that all string primitives
  share: a decoder of one code point at a byte offset, an encoder, and the loops that count code
  points and turn code point indices into byte offsets. A string is the list of its bytes.
\<close>

section \<open>One code point\<close>

definition is_continuation :: "u8 \<Rightarrow> bool" where
  "is_continuation b \<longleftrightarrow> b AND 0xC0 = 0x80"

definition ch_utf8_decode_next :: "u8 list \<Rightarrow> nat \<Rightarrow> (u32 \<times> nat) option" where
  "ch_utf8_decode_next bs pos =
     (if length bs \<le> pos then None
      else let b0 = bs ! pos in
        if b0 < 0x80 then Some (ucast b0, pos + 1)
        else if 0xC2 \<le> b0 \<and> b0 \<le> 0xDF then
          if length bs \<le> pos + 1 then None
          else let b1 = bs ! (pos + 1) in
            if \<not> is_continuation b1 then None
            else Some (push_bit 6 (ucast (b0 AND 0x1F)) OR ucast (b1 AND 0x3F), pos + 2)
        else if 0xE0 \<le> b0 \<and> b0 \<le> 0xEF then
          if length bs \<le> pos + 2 then None
          else let b1 = bs ! (pos + 1); b2 = bs ! (pos + 2) in
            if \<not> is_continuation b1 \<or> \<not> is_continuation b2 then None
            else if b0 = 0xE0 \<and> b1 < 0xA0 \<or> b0 = 0xED \<and> 0xA0 \<le> b1 then None
            else Some (push_bit 12 (ucast (b0 AND 0x0F)) OR push_bit 6 (ucast (b1 AND 0x3F)) OR
                       ucast (b2 AND 0x3F), pos + 3)
        else if 0xF0 \<le> b0 \<and> b0 \<le> 0xF4 then
          if length bs \<le> pos + 3 then None
          else let b1 = bs ! (pos + 1); b2 = bs ! (pos + 2); b3 = bs ! (pos + 3) in
            if \<not> is_continuation b1 \<or> \<not> is_continuation b2 \<or> \<not> is_continuation b3 then None
            else if b0 = 0xF0 \<and> b1 < 0x90 \<or> b0 = 0xF4 \<and> 0x90 \<le> b1 then None
            else Some (push_bit 18 (ucast (b0 AND 0x07)) OR push_bit 12 (ucast (b1 AND 0x3F)) OR
                       push_bit 6 (ucast (b2 AND 0x3F)) OR ucast (b3 AND 0x3F), pos + 4)
        else None)"

definition ch_utf8_encode_codepoint :: "u32 \<Rightarrow> u8 list option" where
  "ch_utf8_encode_codepoint cp =
     (if cp \<le> 0x7F then Some [ucast cp]
      else if cp \<le> 0x7FF then Some [ucast (0xC0 OR drop_bit 6 cp), ucast (0x80 OR (cp AND 0x3F))]
      else if 0xD800 \<le> cp \<and> cp \<le> 0xDFFF then None
      else if cp \<le> 0xFFFF then
        Some [ucast (0xE0 OR drop_bit 12 cp), ucast (0x80 OR (drop_bit 6 cp AND 0x3F)), ucast (0x80 OR (cp AND 0x3F))]
      else if cp \<le> 0x10FFFF then
        Some [ucast (0xF0 OR drop_bit 18 cp), ucast (0x80 OR (drop_bit 12 cp AND 0x3F)),
              ucast (0x80 OR (drop_bit 6 cp AND 0x3F)), ucast (0x80 OR (cp AND 0x3F))]
      else None)"

section \<open>Arithmetic of the codec\<close>

lemma or_disjoint_nat:
  fixes x y :: nat
  assumes "y < 2 ^ k"
  shows "push_bit k x OR y = x * 2 ^ k + y"
proof -
  have "push_bit k x AND y = 0"
  proof (rule bit_eqI)
    fix n
    have "y = take_bit k y" using take_bit_nat_eq_self [OF assms] by simp
    then have "bit y n \<Longrightarrow> n < k" by (metis bit_take_bit_iff)
    then show "bit (push_bit k x AND y) n \<longleftrightarrow> bit 0 n" by (auto simp: bit_and_iff bit_push_bit_iff)
  qed
  then show ?thesis using disjunctive_add_eq_or [of "push_bit k x" y] by (simp add: push_bit_eq_mult)
qed

lemma unat_or: "unat (a OR b :: 'a::len word) = unat a OR unat b"
  by (simp add: unsigned_or_eq)

lemma and_low_bits:
  "unat (b AND 0x3F :: u8) = unat b mod 64" "unat (b AND 0x1F :: u8) = unat b mod 32"
  "unat (b AND 0x0F :: u8) = unat b mod 16" "unat (b AND 0x07 :: u8) = unat b mod 8"
  "unat (c AND 0x3F :: u32) = unat c mod 64"
proof -
  have m: "(63::nat) = mask 6" "(31::nat) = mask 5" "(15::nat) = mask 4" "(7::nat) = mask 3"
    by (simp_all add: mask_eq_exp_minus_1)
  have a: "unat (x AND mask k :: 'a::len word) = unat x mod 2 ^ k" for x :: "'a::len word" and k
  proof -
    have "unat (x AND mask k) = take_bit k (unat x)" by (simp only: take_bit_eq_mask [symmetric] unsigned_take_bit_eq)
    then show ?thesis by (simp only: take_bit_eq_mod)
  qed
  have w: "(63::u8) = mask 6" "(31::u8) = mask 5" "(15::u8) = mask 4" "(7::u8) = mask 3" "(63::u32) = mask 6"
    by (simp_all add: mask_eq_exp_minus_1)
  show "unat (b AND 0x3F :: u8) = unat b mod 64" "unat (b AND 0x1F :: u8) = unat b mod 32"
    "unat (b AND 0x0F :: u8) = unat b mod 16" "unat (b AND 0x07 :: u8) = unat b mod 8"
    "unat (c AND 0x3F :: u32) = unat c mod 64"
    unfolding w a by simp_all
qed

lemma unat_u8: "unat (b :: u8) < 256"
  using unsigned_less [of b] by simp

lemma unat_cast_u32: "unat (ucast (b :: u8) :: u32) = unat b"
  using unat_u8 [of b] by (simp add: unsigned_ucast_eq take_bit_nat_eq_self_iff)

lemma unat_cast_u8: "unat (ucast (c :: u32) :: u8) = unat c mod 256"
  by (simp add: unsigned_ucast_eq take_bit_eq_mod)

lemma unat_push: "unat x * 2 ^ k < 2 ^ 32 \<Longrightarrow> unat (push_bit k (x :: u32)) = unat x * 2 ^ k"
proof -
  assume "unat x * 2 ^ k < 2 ^ 32"
  moreover have "unat (push_bit k x) = take_bit LENGTH(32) (push_bit k (unat x))" by (rule unsigned_push_bit_eq)
  ultimately show ?thesis by (simp add: push_bit_eq_mult take_bit_nat_eq_self_iff)
qed

lemma continuation_value: "is_continuation b \<longleftrightarrow> 128 \<le> unat b \<and> unat b < 192"
proof -
  have c: "(0xC0 :: u8) = push_bit 6 (mask 2)" by (simp add: mask_eq_exp_minus_1)
  have "b AND 0xC0 = push_bit 6 (drop_bit 6 b)"
    unfolding c by (rule bit_word_eqI) (auto simp: bit_simps)
  then have "is_continuation b \<longleftrightarrow> push_bit 6 (drop_bit 6 b) = push_bit 6 2" by (simp add: is_continuation_def)
  also have "\<dots> \<longleftrightarrow> unat (push_bit 6 (drop_bit 6 b)) = unat (push_bit 6 2 :: u8)" by (simp only: unsigned_word_eqI word_unat_eq_iff)
  also have "unat (push_bit 6 (drop_bit 6 b)) = (unat b div 64) * 64"
  proof -
    have d: "unat (drop_bit 6 b) = drop_bit 6 (unat b)" by (rule unat_drop_bit_eq)
    have "unat (push_bit 6 (drop_bit 6 b)) = take_bit LENGTH(8) (push_bit 6 (unat (drop_bit 6 b)))" by (rule unsigned_push_bit_eq)
    moreover have "push_bit 6 (unat (drop_bit 6 b)) = unat b div 64 * 64"
      unfolding d by (simp add: push_bit_eq_mult drop_bit_eq_div)
    moreover have "unat b div 64 * 64 < 256" using unat_u8 [of b] div_times_less_eq_dividend [of "unat b" 64] by linarith
    ultimately show ?thesis by (simp add: take_bit_nat_eq_self_iff)
  qed
  also have "(unat b div 64) * 64 = unat (push_bit 6 2 :: u8) \<longleftrightarrow> 128 \<le> unat b \<and> unat b < 192" by auto
  finally show ?thesis .
qed

lemma join_bits:
  fixes h l :: u32
  assumes "unat l < 2 ^ k" "unat h * 2 ^ k < 2 ^ 32"
  shows "unat (push_bit k h OR l) = unat h * 2 ^ k + unat l"
proof -
  have "unat (push_bit k h OR l) = push_bit k (unat h) OR unat l"
    using push_bit_eq_mult [of k "unat h"] by (simp only: unat_or unat_push [OF assms(2)])
  then show ?thesis using or_disjoint_nat [OF assms(1)] by simp
qed

lemma or_marker:
  fixes x :: u32
  assumes "unat x < 2 ^ k" "unat n * 2 ^ k + unat x < 256"
  shows "unat (ucast (push_bit k n OR x) :: u8) = unat n * 2 ^ k + unat x"
proof -
  have "unat n * 2 ^ k < 2 ^ 32" using assms(2) by simp
  then show ?thesis using assms(2) by (simp only: unat_cast_u8 join_bits [OF assms(1)] mod_less)
qed

lemma unat_drop_u32: "unat (drop_bit k (c :: u32)) = unat c div 2 ^ k"
  by (rule trans [OF unat_drop_bit_eq drop_bit_eq_div])

text \<open>The bytes of the encoder: marker bits and the payload below them.\<close>

lemma lead_bytes:
  "unat c < 2 ^ 11 \<Longrightarrow> unat (ucast (0xC0 OR drop_bit 6 (c :: u32)) :: u8) = 192 + unat c div 64"
  "unat c < 2 ^ 16 \<Longrightarrow> unat (ucast (0xE0 OR drop_bit 12 c) :: u8) = 224 + unat c div 4096"
  "unat c < 2 ^ 21 \<Longrightarrow> unat (ucast (0xF0 OR drop_bit 18 c) :: u8) = 240 + unat c div 262144"
proof -
  have d: "unat (drop_bit k c) = unat c div 2 ^ k" for k by (rule trans [OF unat_drop_bit_eq drop_bit_eq_div])
  have m: "(0xC0 :: u32) = push_bit 5 6" "(0xE0 :: u32) = push_bit 4 14" "(0xF0 :: u32) = push_bit 3 30" by simp_all
  show "unat (ucast (0xC0 OR drop_bit 6 (c :: u32)) :: u8) = 192 + unat c div 64" if "unat c < 2 ^ 11"
    unfolding m(1) using that by (subst or_marker) (simp_all only: d, simp_all)
  show "unat (ucast (0xE0 OR drop_bit 12 c) :: u8) = 224 + unat c div 4096" if "unat c < 2 ^ 16"
    unfolding m(2) using that by (subst or_marker) (simp_all only: d, simp_all)
  show "unat (ucast (0xF0 OR drop_bit 18 c) :: u8) = 240 + unat c div 262144" if "unat c < 2 ^ 21"
    unfolding m(3) using that by (subst or_marker) (simp_all only: d, simp_all)
qed

lemma continuation_bytes:
  "unat (ucast (0x80 OR (c AND 0x3F) :: u32) :: u8) = 128 + unat c mod 64"
  "unat (ucast (0x80 OR (drop_bit 6 c AND 0x3F) :: u32) :: u8) = 128 + unat c div 64 mod 64"
  "unat (ucast (0x80 OR (drop_bit 12 c AND 0x3F) :: u32) :: u8) = 128 + unat c div 4096 mod 64"
proof -
  have d: "unat (drop_bit k c) = unat c div 2 ^ k" for k by (rule trans [OF unat_drop_bit_eq drop_bit_eq_div])
  have m: "(0x80 :: u32) = push_bit 6 2" by simp
  have b: "unat (ucast (0x80 OR (x AND 0x3F) :: u32) :: u8) = 128 + unat x mod 64" for x
    unfolding m by (subst or_marker) (simp_all add: and_low_bits)
  show "unat (ucast (0x80 OR (c AND 0x3F) :: u32) :: u8) = 128 + unat c mod 64"
    "unat (ucast (0x80 OR (drop_bit 6 c AND 0x3F) :: u32) :: u8) = 128 + unat c div 64 mod 64"
    "unat (ucast (0x80 OR (drop_bit 12 c AND 0x3F) :: u32) :: u8) = 128 + unat c div 4096 mod 64"
    unfolding b by (simp_all only: d, simp_all)
qed

lemma two_bytes_value:
  "unat (push_bit 6 (ucast (b0 AND 0x1F :: u8)) OR ucast (b1 AND 0x3F :: u8) :: u32) = unat b0 mod 32 * 64 + unat b1 mod 64"
  by (subst join_bits) (simp_all add: unat_cast_u32 and_low_bits)

lemma payload_bound: "a mod 64 * 64 + b mod 64 < (4096 :: nat)" "a mod 64 * 4096 + (b mod 64 * 64 + c mod 64) < (262144 :: nat)"
  using mod_less_divisor [of 64 a] mod_less_divisor [of 64 b] mod_less_divisor [of 64 c] by linarith+

lemma payload_value:
  "unat (push_bit 6 (ucast (b1 AND 0x3F :: u8)) OR ucast (b2 AND 0x3F :: u8) :: u32) = unat b1 mod 64 * 64 + unat b2 mod 64"
  by (subst join_bits) (simp_all add: unat_cast_u32 and_low_bits)

lemma three_bytes_value:
  "unat (push_bit 12 (ucast (b0 AND 0x0F :: u8)) OR push_bit 6 (ucast (b1 AND 0x3F :: u8)) OR ucast (b2 AND 0x3F :: u8) :: u32) =
     unat b0 mod 16 * 4096 + (unat b1 mod 64 * 64 + unat b2 mod 64)"
  by (subst join_bits) (simp_all add: unat_cast_u32 and_low_bits payload_value payload_bound)

lemma four_bytes_value:
  "unat (push_bit 18 (ucast (b0 AND 0x07 :: u8)) OR push_bit 12 (ucast (b1 AND 0x3F :: u8)) OR push_bit 6 (ucast (b2 AND 0x3F :: u8)) OR
     ucast (b3 AND 0x3F :: u8) :: u32) =
     unat b0 mod 8 * 262144 + (unat b1 mod 64 * 4096 + (unat b2 mod 64 * 64 + unat b3 mod 64))"
proof -
  have "unat (push_bit 12 (ucast (b1 AND 0x3F :: u8)) OR push_bit 6 (ucast (b2 AND 0x3F :: u8)) OR ucast (b3 AND 0x3F :: u8) :: u32) =
      unat b1 mod 64 * 4096 + (unat b2 mod 64 * 64 + unat b3 mod 64)"
    by (subst join_bits) (simp_all add: unat_cast_u32 and_low_bits payload_value payload_bound)
  then show ?thesis by (subst join_bits) (simp_all add: unat_cast_u32 and_low_bits payload_bound)
qed

section \<open>The decoder inverts the encoder\<close>

text \<open>The encoding as numbers.\<close>

definition utf8_bytes :: "nat \<Rightarrow> nat list" where
  "utf8_bytes c =
     (if c < 128 then [c]
      else if c < 2048 then [192 + c div 64, 128 + c mod 64]
      else if c < 65536 then [224 + c div 4096, 128 + c div 64 mod 64, 128 + c mod 64]
      else [240 + c div 262144, 128 + c div 4096 mod 64, 128 + c div 64 mod 64, 128 + c mod 64])"

definition scalar_value :: "nat \<Rightarrow> bool" where
  "scalar_value c \<longleftrightarrow> c < 55296 \<or> 57343 < c \<and> c < 1114112"

lemma encode_bytes:
  "ch_utf8_encode_codepoint cp = Some ys \<longleftrightarrow> scalar_value (unat cp) \<and> map unat ys = utf8_bytes (unat cp)"
proof -
  have "inj (unat :: u8 \<Rightarrow> nat)" by (intro injI unsigned_word_eqI)
  then have u: "zs = ys \<longleftrightarrow> map unat ys = map unat zs" for zs by (auto simp: inj_map_eq_map)
  consider "unat cp < 128" | "128 \<le> unat cp" "unat cp < 2048" | "2048 \<le> unat cp" "unat cp < 55296"
    | "55296 \<le> unat cp" "unat cp \<le> 57343" | "57343 < unat cp" "unat cp < 65536"
    | "65536 \<le> unat cp" "unat cp < 1114112" | "1114112 \<le> unat cp" by linarith
  then show ?thesis
  proof cases
    case 1
    then show ?thesis by (simp add: ch_utf8_encode_codepoint_def scalar_value_def utf8_bytes_def word_le_nat_alt u unat_cast_u8)
  next
    case 2
    then show ?thesis
      by (simp add: ch_utf8_encode_codepoint_def scalar_value_def utf8_bytes_def word_le_nat_alt u lead_bytes continuation_bytes [of cp])
  next
    case 3
    then show ?thesis
      by (simp add: ch_utf8_encode_codepoint_def scalar_value_def utf8_bytes_def word_le_nat_alt u lead_bytes continuation_bytes [of cp])
  next
    case 5
    then show ?thesis
      by (simp add: ch_utf8_encode_codepoint_def scalar_value_def utf8_bytes_def word_le_nat_alt u lead_bytes continuation_bytes [of cp])
  next
    case 6
    then show ?thesis
      by (simp add: ch_utf8_encode_codepoint_def scalar_value_def utf8_bytes_def word_le_nat_alt u lead_bytes continuation_bytes [of cp])
  qed (simp_all add: ch_utf8_encode_codepoint_def scalar_value_def word_le_nat_alt)
qed

lemma bytes_at:
  assumes "ys \<noteq> []"
  shows "take (length ys) (drop pos bs) = ys \<longleftrightarrow>
     pos + length ys \<le> length bs \<and> (\<forall>i<length ys. bs ! (pos + i) = ys ! i)"
proof
  assume t: "take (length ys) (drop pos bs) = ys"
  then have "length ys = min (length ys) (length bs - pos)" by (metis length_drop length_take min.commute)
  then have "pos + length ys \<le> length bs" using assms by (cases ys) auto
  moreover have "bs ! (pos + i) = ys ! i" if "i < length ys" for i
    using arg_cong [OF t, of "\<lambda>l. l ! i"] that calculation by simp
  ultimately show "pos + length ys \<le> length bs \<and> (\<forall>i<length ys. bs ! (pos + i) = ys ! i)" by blast
next
  assume "pos + length ys \<le> length bs \<and> (\<forall>i<length ys. bs ! (pos + i) = ys ! i)"
  then show "take (length ys) (drop pos bs) = ys" by (intro nth_equalityI) (auto simp: min_def split: if_splits)
qed

lemma add_multiple_mod: "q < d \<Longrightarrow> n = m * d \<Longrightarrow> (n + q) mod d = (q :: nat)"
  by (simp only: add.commute [of _ q] mod_mult_self1 mod_less)

lemma marker_mod:
  "q < 32 \<Longrightarrow> (192 + q) mod 32 = (q :: nat)" "q < 16 \<Longrightarrow> (224 + q) mod 16 = q" "q < 8 \<Longrightarrow> (240 + q) mod 8 = q"
  "r < 64 \<Longrightarrow> (128 + r) mod 64 = (r :: nat)"
  using add_multiple_mod [of q 32 192 6] add_multiple_mod [of q 16 224 14] add_multiple_mod [of q 8 240 30]
    add_multiple_mod [of r 64 128 2] by simp_all

lemmas decode_simps = ch_utf8_decode_next_def Let_def word_less_nat_alt word_le_nat_alt word_unat_eq_iff continuation_value
  unat_cast_u32 two_bytes_value three_bytes_value four_bytes_value marker_mod

lemma decode_two:
  assumes "pos + 1 < length bs" "unat (bs ! pos) = 192 + q" "2 \<le> q" "q < 32" "unat (bs ! (pos + 1)) = 128 + r" "r < 64"
    and "unat cp = q * 64 + r"
  shows "ch_utf8_decode_next bs pos = Some (cp, pos + 2)"
  using assms by (simp add: decode_simps)

lemma decode_three:
  assumes "pos + 2 < length bs" "unat (bs ! pos) = 224 + q" "q < 16" "unat (bs ! (pos + 1)) = 128 + r" "r < 64"
    and "unat (bs ! (pos + 2)) = 128 + t" "t < 64" "unat cp = q * 4096 + (r * 64 + t)"
    and "q = 0 \<longrightarrow> 32 \<le> r" "q = 13 \<longrightarrow> r < 32"
  shows "ch_utf8_decode_next bs pos = Some (cp, pos + 3)"
  using assms by (simp add: decode_simps) linarith

lemma decode_four:
  assumes "pos + 3 < length bs" "unat (bs ! pos) = 240 + q" "q < 5" "unat (bs ! (pos + 1)) = 128 + r" "r < 64"
    and "unat (bs ! (pos + 2)) = 128 + t" "t < 64" "unat (bs ! (pos + 3)) = 128 + v" "v < 64"
    and "unat cp = q * 262144 + (r * 4096 + (t * 64 + v))"
    and "q = 0 \<longrightarrow> 16 \<le> r" "q = 4 \<longrightarrow> r < 16"
  shows "ch_utf8_decode_next bs pos = Some (cp, pos + 4)"
  using assms by (simp add: decode_simps) linarith

lemma decode_encoded:
  assumes "ch_utf8_encode_codepoint cp = Some ys" "take (length ys) (drop pos bs) = ys"
  shows "ch_utf8_decode_next bs pos = Some (cp, pos + length ys)"
proof -
  let ?c = "unat cp"
  have s: "scalar_value ?c" and m: "map unat ys = utf8_bytes ?c" using assms(1) by (simp_all add: encode_bytes)
  have "ys \<noteq> []" using m by (auto simp: utf8_bytes_def split: if_splits)
  note at = assms(2) [unfolded bytes_at [OF this]]
  have l: "length ys = length (utf8_bytes ?c)" using m by (metis length_map)
  have n: "unat (bs ! (pos + i)) = utf8_bytes ?c ! i" if "i < length ys" for i
    using at m that by (metis nth_map)
  have d: "?c div 4096 * 4096 + (?c div 64 mod 64 * 64 + ?c mod 64) = ?c"
    "?c div 262144 * 262144 + (?c div 4096 mod 64 * 4096 + (?c div 64 mod 64 * 64 + ?c mod 64)) = ?c"
  proof -
    have "?c div 64 div 64 = ?c div 4096" "?c div 4096 div 64 = ?c div 262144" by (simp_all flip: div_mult2_eq)
    then show "?c div 4096 * 4096 + (?c div 64 mod 64 * 64 + ?c mod 64) = ?c"
      "?c div 262144 * 262144 + (?c div 4096 mod 64 * 4096 + (?c div 64 mod 64 * 64 + ?c mod 64)) = ?c"
      using div_mult_mod_eq [of ?c 64] div_mult_mod_eq [of "?c div 64" 64] div_mult_mod_eq [of "?c div 4096" 64] by linarith+
  qed
  consider "?c < 128" | "128 \<le> ?c" "?c < 2048" | "2048 \<le> ?c" "?c < 65536" | "65536 \<le> ?c" by linarith
  then show ?thesis
  proof cases
    case 1
    then have "length ys = 1" "unat (bs ! pos) = ?c" using l n [of 0] by (simp_all add: utf8_bytes_def)
    then show ?thesis using at 1 by (simp add: decode_simps)
  next
    case 2
    then have "length ys = 2" "unat (bs ! pos) = 192 + ?c div 64" "unat (bs ! (pos + 1)) = 128 + ?c mod 64"
      using l n [of 0] n [of 1] by (simp_all add: utf8_bytes_def)
    moreover have "2 \<le> ?c div 64" "?c div 64 < 32" using 2 by simp_all
    ultimately show ?thesis using decode_two [of pos bs "?c div 64" "?c mod 64" cp] at by simp
  next
    case 3
    then have "length ys = 3" "unat (bs ! pos) = 224 + ?c div 4096" "unat (bs ! (pos + 1)) = 128 + ?c div 64 mod 64"
        "unat (bs ! (pos + 2)) = 128 + ?c mod 64"
      using l n [of 0] n [of 1] n [of 2] by (simp_all add: utf8_bytes_def)
    moreover have "?c div 4096 < 16" using 3 by simp
    moreover have "?c div 4096 = 0 \<longrightarrow> 32 \<le> ?c div 64 mod 64"
      using 3 d(1) mod_less_divisor [of 64 ?c] by auto
    moreover have "?c div 4096 = 13 \<longrightarrow> ?c div 64 mod 64 < 32"
      using s 3 d(1) by (auto simp: scalar_value_def)
    ultimately show ?thesis
      using decode_three [of pos bs "?c div 4096" "?c div 64 mod 64" "?c mod 64" cp] at d(1) by simp
  next
    case 4
    then have "length ys = 4" "unat (bs ! pos) = 240 + ?c div 262144" "unat (bs ! (pos + 1)) = 128 + ?c div 4096 mod 64"
        "unat (bs ! (pos + 2)) = 128 + ?c div 64 mod 64" "unat (bs ! (pos + 3)) = 128 + ?c mod 64"
      using l n [of 0] n [of 1] n [of 2] n [of 3] by (simp_all add: utf8_bytes_def)
    moreover have "?c div 262144 < 5" using s 4 by (simp add: scalar_value_def div_less_iff_less_mult)
    moreover have "?c div 262144 = 0 \<longrightarrow> 16 \<le> ?c div 4096 mod 64"
      using 4 d(2) payload_bound(1) [of "?c div 64" ?c] by auto
    moreover have "?c div 262144 = 4 \<longrightarrow> ?c div 4096 mod 64 < 16"
      using s 4 d(2) by (auto simp: scalar_value_def)
    ultimately show ?thesis
      using decode_four [of pos bs "?c div 262144" "?c div 4096 mod 64" "?c div 64 mod 64" "?c mod 64" cp] at d(2) by simp
  qed
qed

lemma split_byte:
  "192 \<le> b \<Longrightarrow> b < 224 \<Longrightarrow> \<exists>q<32. (b :: nat) = 192 + q"
  "224 \<le> b \<Longrightarrow> b < 240 \<Longrightarrow> \<exists>q<16. b = 224 + q"
  "240 \<le> b \<Longrightarrow> b < 245 \<Longrightarrow> \<exists>q<5. b = 240 + q"
  "128 \<le> b \<Longrightarrow> b < 192 \<Longrightarrow> \<exists>q<64. b = 128 + q"
  by (auto simp: le_iff_add)

lemma utf8_bytes_two: "2 \<le> q \<Longrightarrow> q < 32 \<Longrightarrow> r < 64 \<Longrightarrow> utf8_bytes (q * 64 + r) = [192 + q, 128 + r]"
  by (simp add: utf8_bytes_def)

lemma payload_digits:
  assumes "r < 64" "t < 64" "v < (64 :: nat)"
  shows "(q * 4096 + (r * 64 + t)) div 4096 = q" "(q * 4096 + (r * 64 + t)) div 64 mod 64 = r" "(q * 4096 + (r * 64 + t)) mod 64 = t"
    "(q * 262144 + (r * 4096 + (t * 64 + v))) div 262144 = q" "(q * 262144 + (r * 4096 + (t * 64 + v))) div 4096 mod 64 = r"
    "(q * 262144 + (r * 4096 + (t * 64 + v))) div 64 mod 64 = t" "(q * 262144 + (r * 4096 + (t * 64 + v))) mod 64 = v"
proof -
  have d: "(x * m + y) div m = x" "(x * m + y) mod m = y" if "y < m" for x y m :: nat using that by auto
  have b: "r * 64 + t < 4096" "r * 4096 + (t * 64 + v) < 262144" "t * 64 + v < 4096" using assms by linarith+
  have e: "q * 4096 + (r * 64 + t) = (q * 64 + r) * 64 + t"
    "q * 262144 + (r * 4096 + (t * 64 + v)) = (q * 64 + r) * 4096 + (t * 64 + v)"
    "q * 262144 + (r * 4096 + (t * 64 + v)) = ((q * 64 + r) * 64 + t) * 64 + v" by simp_all
  show "(q * 4096 + (r * 64 + t)) div 4096 = q" by (rule d(1) [OF b(1)])
  show "(q * 4096 + (r * 64 + t)) div 64 mod 64 = r" "(q * 4096 + (r * 64 + t)) mod 64 = t"
    unfolding e(1) using assms by (simp_all only: d)
  show "(q * 262144 + (r * 4096 + (t * 64 + v))) div 262144 = q" by (rule d(1) [OF b(2)])
  show "(q * 262144 + (r * 4096 + (t * 64 + v))) div 4096 mod 64 = r" unfolding e(2) using assms(1) b(3) by (simp only: d)
  show "(q * 262144 + (r * 4096 + (t * 64 + v))) div 64 mod 64 = t" "(q * 262144 + (r * 4096 + (t * 64 + v))) mod 64 = v"
    unfolding e(3) using assms by (simp_all only: d)
qed

lemma take_drop_Suc: "pos < length bs \<Longrightarrow> take (Suc n) (drop pos bs) = bs ! pos # take n (drop (Suc pos) bs)"
  by (simp flip: Cons_nth_drop_Suc)

lemmas take_bytes = numeral_2_eq_2 numeral_3_eq_3 take_drop_Suc

lemma decode_encodes:
  assumes "ch_utf8_decode_next bs pos = Some (cp, next)"
  shows "pos < next \<and> next \<le> length bs \<and> ch_utf8_encode_codepoint cp = Some (take (next - pos) (drop pos bs))"
proof -
  let ?b = "\<lambda>i. unat (bs ! (pos + i))"
  have l: "pos < length bs" using assms by (auto simp: ch_utf8_decode_next_def split: if_splits)
  consider "?b 0 < 128" | "194 \<le> ?b 0" "?b 0 \<le> 223" | "224 \<le> ?b 0" "?b 0 \<le> 239" | "240 \<le> ?b 0" "?b 0 \<le> 244"
    | "128 \<le> ?b 0" "?b 0 < 194" | "244 < ?b 0" by linarith
  then show ?thesis
  proof cases
    case 1
    then have "unat cp = ?b 0" "next = Suc pos" using assms l by (auto simp: decode_simps)
    then show ?thesis using 1 l by (simp add: encode_bytes take_drop_Suc scalar_value_def utf8_bytes_def)
  next
    case 2
    then have c: "pos + 1 < length bs" "128 \<le> ?b 1" "?b 1 < 192" "unat cp = ?b 0 mod 32 * 64 + ?b 1 mod 64" "next = pos + 2"
      using assms l by (auto simp: decode_simps split: if_splits)
    obtain q r where q: "?b 0 = 192 + q" "q < 32" and r: "?b 1 = 128 + r" "r < 64"
      using split_byte(1) [of "?b 0"] split_byte(4) [of "?b 1"] 2 c(2,3) by auto
    have cp: "unat cp = q * 64 + r" "2 \<le> q" using c(4) q r 2 by (simp_all add: marker_mod)
    have "take 2 (drop pos bs) = [bs ! pos, bs ! (pos + 1)]" using c(1) l by (simp add: take_bytes)
    then show ?thesis using c(1,5) q r cp utf8_bytes_two [OF cp(2) q(2) r(2)] by (simp add: encode_bytes scalar_value_def)
  next
    case 3
    then have c: "pos + 2 < length bs" "128 \<le> ?b 1" "?b 1 < 192" "128 \<le> ?b 2" "?b 2 < 192"
        "unat cp = ?b 0 mod 16 * 4096 + (?b 1 mod 64 * 64 + ?b 2 mod 64)" "next = pos + 3"
        "?b 0 = 224 \<longrightarrow> 160 \<le> ?b 1" "?b 0 = 237 \<longrightarrow> ?b 1 < 160"
      using assms l by (auto simp: decode_simps split: if_splits)
    obtain q r t where q: "?b 0 = 224 + q" "q < 16" and r: "?b 1 = 128 + r" "r < 64" and t: "?b 2 = 128 + t" "t < 64"
      using split_byte(2) [of "?b 0"] split_byte(4) [of "?b 1"] split_byte(4) [of "?b 2"] 3 c(2-5) by auto
    have cp: "unat cp = q * 4096 + (r * 64 + t)" using c(6) q r t by (simp add: marker_mod)
    have "2048 \<le> unat cp" "unat cp < 65536" using cp c(8) q r t by auto
    moreover have "scalar_value (unat cp)" using cp c(9) q r t unfolding scalar_value_def by (cases "q = 13") auto
    moreover have "take 3 (drop pos bs) = [bs ! pos, bs ! (pos + 1), bs ! (pos + 2)]" using c(1) l by (simp add: take_bytes)
    ultimately show ?thesis using c(1,7) q r t payload_digits(1-3) [OF r(2) t(2) t(2), of q]
      by (simp add: encode_bytes utf8_bytes_def cp)
  next
    case 4
    then have c: "pos + 3 < length bs" "128 \<le> ?b 1" "?b 1 < 192" "128 \<le> ?b 2" "?b 2 < 192" "128 \<le> ?b 3" "?b 3 < 192"
        "unat cp = ?b 0 mod 8 * 262144 + (?b 1 mod 64 * 4096 + (?b 2 mod 64 * 64 + ?b 3 mod 64))" "next = pos + 4"
        "?b 0 = 240 \<longrightarrow> 144 \<le> ?b 1" "?b 0 = 244 \<longrightarrow> ?b 1 < 144"
      using assms l by (auto simp: decode_simps split: if_splits)
    obtain q r t v where q: "?b 0 = 240 + q" "q < 5" and r: "?b 1 = 128 + r" "r < 64" and t: "?b 2 = 128 + t" "t < 64"
        and v: "?b 3 = 128 + v" "v < 64"
      using split_byte(3) [of "?b 0"] split_byte(4) [of "?b 1"] split_byte(4) [of "?b 2"] split_byte(4) [of "?b 3"] 4 c(2-7) by auto
    have cp: "unat cp = q * 262144 + (r * 4096 + (t * 64 + v))" using c(8) q r t v by (simp add: marker_mod)
    have "65536 \<le> unat cp" "scalar_value (unat cp)" using cp c(10,11) q r t v unfolding scalar_value_def by (cases "q = 0"; cases "q = 4"; auto)+
    moreover have "take 4 (drop pos bs) = [bs ! pos, bs ! (pos + 1), bs ! (pos + 2), bs ! (pos + 3)]"
      using c(1) l by (simp add: take_bytes eval_nat_numeral)
    ultimately show ?thesis using c(1,9) q r t v payload_digits(4-7) [OF r(2) t(2) v(2), of q]
      by (simp add: encode_bytes utf8_bytes_def cp)
  next
    case 5
    then show ?thesis using assms l by (simp add: decode_simps split: if_splits)
  next
    case 6
    then show ?thesis using assms l by (simp add: decode_simps split: if_splits)
  qed
qed

lemma decode_iff:
  "ch_utf8_decode_next bs pos = Some (cp, next) \<longleftrightarrow>
     (\<exists>ys. ch_utf8_encode_codepoint cp = Some ys \<and> take (length ys) (drop pos bs) = ys \<and> next = pos + length ys)"
proof
  assume d: "ch_utf8_decode_next bs pos = Some (cp, next)"
  let ?ys = "take (next - pos) (drop pos bs)"
  have e: "pos < next" "next \<le> length bs" "ch_utf8_encode_codepoint cp = Some ?ys" using decode_encodes [OF d] by blast+
  have "length ?ys = next - pos" using e(1,2) by (auto simp: min_def)
  then show "\<exists>ys. ch_utf8_encode_codepoint cp = Some ys \<and> take (length ys) (drop pos bs) = ys \<and> next = pos + length ys"
    using e by (intro exI [of _ ?ys]) simp
next
  assume "\<exists>ys. ch_utf8_encode_codepoint cp = Some ys \<and> take (length ys) (drop pos bs) = ys \<and> next = pos + length ys"
  then show "ch_utf8_decode_next bs pos = Some (cp, next)" using decode_encoded by blast
qed

lemma decode_next_greater: "ch_utf8_decode_next bs pos = Some (cp, next) \<Longrightarrow> pos < next \<and> next \<le> length bs"
  using decode_encodes by blast

lemma decode_shift: "ch_utf8_decode_next bs pos = map_option (\<lambda>(cp, n). (cp, pos + n)) (ch_utf8_decode_next (drop pos bs) 0)"
proof (cases "ch_utf8_decode_next (drop pos bs) 0")
  case None
  have "ch_utf8_decode_next bs pos \<noteq> Some (cp, nx)" for cp nx
  proof
    assume "ch_utf8_decode_next bs pos = Some (cp, nx)"
    then obtain ys where "ch_utf8_encode_codepoint cp = Some ys" "take (length ys) (drop pos bs) = ys" by (auto simp: decode_iff)
    then have "ch_utf8_decode_next (drop pos bs) 0 = Some (cp, length ys)" by (simp add: decode_iff)
    then show False using None by simp
  qed
  then show ?thesis using None by (cases "ch_utf8_decode_next bs pos") auto
next
  case (Some p)
  then obtain cp n where p: "ch_utf8_decode_next (drop pos bs) 0 = Some (cp, n)" by (cases p) simp
  then have "ch_utf8_decode_next bs pos = Some (cp, pos + n)" by (auto simp: decode_iff)
  then show ?thesis using p by simp
qed

section \<open>Code points of a string\<close>

function count_loop :: "string \<Rightarrow> u8 list \<Rightarrow> nat \<Rightarrow> nat \<Rightarrow> string + nat" where
  "count_loop who bs pos count =
     (if length bs \<le> pos then Inr count
      else case ch_utf8_decode_next bs pos of
             None \<Rightarrow> Inl (who @ '': invalid UTF-8 sequence'')
           | Some (cp, next) \<Rightarrow> count_loop who bs next (count + 1))"
  by pat_completeness auto
termination by (relation "measure (\<lambda>(who, bs, pos, count). length bs - pos)") (auto dest!: decode_next_greater)

definition ch_utf8_count_codepoints :: "string \<Rightarrow> u8 list \<Rightarrow> string + nat" where
  "ch_utf8_count_codepoints who bs = count_loop who bs 0 0"

function find_codepoint_loop :: "string \<Rightarrow> u8 list \<Rightarrow> nat \<Rightarrow> nat \<Rightarrow> nat \<Rightarrow> string + (nat \<times> nat \<times> u32)" where
  "find_codepoint_loop who bs index pos i =
     (if length bs \<le> pos then Inl (who @ '': index out of range'')
      else case ch_utf8_decode_next bs pos of
             None \<Rightarrow> Inl (who @ '': invalid UTF-8 sequence'')
           | Some (cp, next) \<Rightarrow>
               if i = index then Inr (pos, next, cp) else find_codepoint_loop who bs index next (i + 1))"
  by pat_completeness auto
termination by (relation "measure (\<lambda>(who, bs, index, pos, i). length bs - pos)") (auto dest!: decode_next_greater)

definition ch_utf8_find_codepoint :: "string \<Rightarrow> u8 list \<Rightarrow> nat \<Rightarrow> string + (nat \<times> nat \<times> u32)" where
  "ch_utf8_find_codepoint who bs index = find_codepoint_loop who bs index 0 0"

function offset_loop :: "string \<Rightarrow> u8 list \<Rightarrow> nat \<Rightarrow> nat \<Rightarrow> nat \<Rightarrow> string + nat" where
  "offset_loop who bs index pos i =
     (if length bs \<le> pos
      then (if i = index then Inr (length bs) else Inl (who @ '': index out of range''))
      else if i = index then Inr pos
      else case ch_utf8_decode_next bs pos of
             None \<Rightarrow> Inl (who @ '': invalid UTF-8 sequence'')
           | Some (cp, next) \<Rightarrow> offset_loop who bs index next (i + 1))"
  by pat_completeness auto
termination by (relation "measure (\<lambda>(who, bs, index, pos, i). length bs - pos)") (auto dest!: decode_next_greater)

definition ch_utf8_offset_for_index :: "string \<Rightarrow> u8 list \<Rightarrow> nat \<Rightarrow> string + nat" where
  "ch_utf8_offset_for_index who bs index = offset_loop who bs index 0 0"

declare count_loop.simps [simp del] find_codepoint_loop.simps [simp del] offset_loop.simps [simp del]

section \<open>Text\<close>

text \<open>
  The reference: a byte sequence is the encoding of its longest decodable prefix, then the bytes that
  do not decode.
\<close>

definition utf8_char :: "u32 \<Rightarrow> u8 list" where
  "utf8_char cp = (case ch_utf8_encode_codepoint cp of None \<Rightarrow> [] | Some ys \<Rightarrow> ys)"

definition utf8 :: "u32 list \<Rightarrow> u8 list" where
  "utf8 cps = concat (map utf8_char cps)"

definition is_scalar :: "u32 \<Rightarrow> bool" where
  "is_scalar cp \<longleftrightarrow> ch_utf8_encode_codepoint cp \<noteq> None"

function utf8_prefix :: "u8 list \<Rightarrow> u32 list \<times> u8 list" where
  "utf8_prefix bs =
     (case ch_utf8_decode_next bs 0 of
        None \<Rightarrow> ([], bs)
      | Some (cp, n) \<Rightarrow> (case utf8_prefix (drop n bs) of (cps, rest) \<Rightarrow> (cp # cps, rest)))"
  by pat_completeness auto
termination by (relation "measure length") (auto dest!: decode_next_greater)

declare utf8_prefix.simps [simp del]

lemma utf8_simps [simp]: "utf8 [] = []" "utf8 (cp # cps) = utf8_char cp @ utf8 cps" "utf8 (cps @ cps') = utf8 cps @ utf8 cps'"
  by (simp_all add: utf8_def)

lemma utf8_char_nonempty: "is_scalar cp \<Longrightarrow> utf8_char cp \<noteq> []"
  by (auto simp: is_scalar_def utf8_char_def encode_bytes utf8_bytes_def split: option.splits if_splits)

lemma decode_scalar: "is_scalar cp \<Longrightarrow> ch_utf8_decode_next (utf8_char cp @ bs) 0 = Some (cp, length (utf8_char cp))"
  by (auto simp: is_scalar_def utf8_char_def decode_iff)

lemma decode_0: "ch_utf8_decode_next bs 0 = Some (cp, n) \<Longrightarrow>
    is_scalar cp \<and> n = length (utf8_char cp) \<and> bs = utf8_char cp @ drop n bs"
  by (auto simp: is_scalar_def utf8_char_def decode_iff) (metis append_take_drop_id)

lemma decode_empty: "ch_utf8_decode_next [] pos = None"
  by (simp add: ch_utf8_decode_next_def)

lemma utf8_prefix_text: "utf8_prefix bs = (cps, rest) \<Longrightarrow>
    bs = utf8 cps @ rest \<and> list_all is_scalar cps \<and> ch_utf8_decode_next rest 0 = None"
proof (induction bs arbitrary: cps rest rule: utf8_prefix.induct)
  case (1 bs)
  show ?case
  proof (cases "ch_utf8_decode_next bs 0")
    case None
    then show ?thesis using "1.prems" by (simp add: utf8_prefix.simps [of bs])
  next
    case (Some p)
    then obtain cp n where d: "ch_utf8_decode_next bs 0 = Some (cp, n)" by (cases p) simp
    obtain cs where p: "utf8_prefix (drop n bs) = (cs, rest)" "cps = cp # cs"
      using "1.prems" d by (auto simp: utf8_prefix.simps [of bs] split: prod.splits)
    then show ?thesis using "1.IH" [OF d refl p(1)] decode_0 [OF d] by auto
  qed
qed

lemma utf8_prefix_unique:
  "list_all is_scalar cps \<Longrightarrow> ch_utf8_decode_next rest 0 = None \<Longrightarrow> utf8_prefix (utf8 cps @ rest) = (cps, rest)"
proof (induction cps)
  case Nil
  then show ?case by (simp add: utf8_prefix.simps [of rest])
next
  case (Cons cp cps)
  then show ?case by (subst utf8_prefix.simps) (simp add: decode_scalar)
qed

lemma utf8_prefix_utf8: "list_all is_scalar cps \<Longrightarrow> utf8_prefix (utf8 cps) = (cps, [])"
  using utf8_prefix_unique [of cps "[]"] by (simp add: decode_empty)

lemma utf8_inject: "list_all is_scalar cps \<Longrightarrow> list_all is_scalar cps' \<Longrightarrow> utf8 cps = utf8 cps' \<longleftrightarrow> cps = cps'"
  by (metis utf8_prefix_utf8 Pair_inject)

text \<open>One step of a loop that stands in front of a code point, or of bytes that do not decode.\<close>

lemma decode_at:
  "is_scalar cp \<Longrightarrow> ch_utf8_decode_next (pre @ utf8_char cp @ post) (length pre) = Some (cp, length pre + length (utf8_char cp))"
  by (subst decode_shift) (simp add: decode_scalar)

lemma decode_at_rest: "ch_utf8_decode_next rest 0 = None \<Longrightarrow> ch_utf8_decode_next (pre @ rest) (length pre) = None"
  by (subst decode_shift) simp

lemma loops_on_text:
  assumes "list_all is_scalar cps" "ch_utf8_decode_next rest 0 = None"
  shows "count_loop who (pre @ utf8 cps @ rest) (length pre) n =
      (if rest = [] then Inr (n + length cps) else Inl (who @ '': invalid UTF-8 sequence''))"
    and "find_codepoint_loop who (pre @ utf8 cps @ rest) (n + k) (length pre) n =
      (if k < length cps
       then Inr (length pre + length (utf8 (take k cps)), length pre + length (utf8 (take (Suc k) cps)), cps ! k)
       else if rest = [] then Inl (who @ '': index out of range'') else Inl (who @ '': invalid UTF-8 sequence''))"
    and "offset_loop who (pre @ utf8 cps @ rest) (n + k) (length pre) n =
      (if k \<le> length cps then Inr (length pre + length (utf8 (take k cps)))
       else if rest = [] then Inl (who @ '': index out of range'') else Inl (who @ '': invalid UTF-8 sequence''))"
  using assms
proof (induction cps arbitrary: pre n k)
  case Nil
  {
    case 1
    then show ?case by (simp add: count_loop.simps decode_at_rest)
  next
    case 2
    then show ?case by (simp add: find_codepoint_loop.simps decode_at_rest)
  next
    case 3
    then show ?case by (simp add: offset_loop.simps decode_at_rest)
  }
next
  case (Cons cp cps)
  have len: "0 < length (utf8_char cp)" if "is_scalar cp" using utf8_char_nonempty [OF that] by simp
  {
    case 1
    then show ?case using Cons.IH(1) [of "pre @ utf8_char cp" "Suc n"] len
      by (subst count_loop.simps) (simp add: decode_at)
  next
    case 2
    show ?case
    proof (cases k)
      case 0
      then show ?thesis using 2 len by (subst find_codepoint_loop.simps) (simp add: decode_at)
    next
      case (Suc k')
      then show ?thesis using 2 Cons.IH(2) [of "pre @ utf8_char cp" "Suc n" k'] len
        by (subst find_codepoint_loop.simps) (simp add: decode_at add.assoc)
    qed
  next
    case 3
    show ?case
    proof (cases k)
      case 0
      then show ?thesis using 3 len by (subst offset_loop.simps) simp
    next
      case (Suc k')
      then show ?thesis using 3 Cons.IH(3) [of "pre @ utf8_char cp" "Suc n" k'] len
        by (subst offset_loop.simps) (simp add: decode_at add.assoc)
    qed
  }
qed

section \<open>Properties\<close>

text \<open>
  C22. The decoder is the inverse of the encoder: at a byte offset it returns a code point and the next
  offset exactly when the bytes from there to the next offset are the encoding of that code point, so
  overlong forms, surrogates, values above U+10FFFF and truncated sequences are all rejected, and it
  never reads past the end.
\<close>
theorem utf8_decode_inverts_encode:
  "ch_utf8_decode_next bs pos = Some (cp, next) \<longleftrightarrow>
     (\<exists>ys. ch_utf8_encode_codepoint cp = Some ys \<and> take (length ys) (drop pos bs) = ys \<and> next = pos + length ys)"
  by (rule decode_iff)

text \<open>
  On every byte sequence the three loops agree with the reference decoding: the count is that of
  the decodable prefix, a code point index stands for the byte offsets of that prefix, and each error
  is reported exactly when the index lies beyond it; ill-formed bytes are reported only when a loop
  has to cross them.
\<close>
theorem utf8_index_loops:
  "(case utf8_prefix bs of (cps, rest) \<Rightarrow>
     ch_utf8_count_codepoints who bs =
       (if rest = [] then Inr (length cps) else Inl (who @ '': invalid UTF-8 sequence'')) \<and>
     ch_utf8_find_codepoint who bs k =
       (if k < length cps then Inr (length (utf8 (take k cps)), length (utf8 (take (Suc k) cps)), cps ! k)
        else if rest = [] then Inl (who @ '': index out of range'') else Inl (who @ '': invalid UTF-8 sequence'')) \<and>
     ch_utf8_offset_for_index who bs k =
       (if k \<le> length cps then Inr (length (utf8 (take k cps)))
        else if rest = [] then Inl (who @ '': index out of range'') else Inl (who @ '': invalid UTF-8 sequence'')))"
proof (cases "utf8_prefix bs")
  case (Pair cps rest)
  then show ?thesis
    using utf8_prefix_text [OF Pair] loops_on_text [of cps rest who "[]" 0]
    by (simp add: ch_utf8_count_codepoints_def ch_utf8_find_codepoint_def ch_utf8_offset_for_index_def)
qed

end
