(* ===== verification/Chaaya_String.thy ===== *)
theory Chaaya_String
  imports Chaaya_Utf8 Chaaya_Equality
begin

text \<open>
  The string primitives of \<open>src/src/prim_string.c\<close> over the object store. A primitive returns the
  text of the error it writes into the machine, or its result: the new store for a primitive that
  changes a string, the bytes of the new string or the items of the new list for one that allocates
  it, and the value otherwise. Allocation does not fail. The case mappings and the \<open>string-ci\<close>
  comparisons, which use the Unicode tables, are not modelled, and neither are \<open>string-map\<close> and
  \<open>string-for-each\<close>, which the bootstrap replaces with Scheme code.
\<close>

section \<open>Arguments and strings\<close>

definition string_at :: "store \<Rightarrow> chvalue \<Rightarrow> u8 list option" where
  "string_at st v = (case object_at st v of Some (HString s) \<Rightarrow> Some s | _ \<Rightarrow> None)"

definition put_string :: "store \<Rightarrow> chvalue \<Rightarrow> u8 list \<Rightarrow> store" where
  "put_string st v s = st(ch_to_object v \<mapsto> HString s)"

definition ch_parse_nonnegative_index :: "string \<Rightarrow> chvalue \<Rightarrow> nat result" where
  "ch_parse_nonnegative_index who v =
     (if \<not> ch_is_fixnum v then Inl (who @ '': expected exact integer'')
      else if sint (ch_to_fixnum v) < 0 then Inl (who @ '': expected non-negative integer'')
      else Inr (nat (sint (ch_to_fixnum v))))"

definition ch_parse_optional_range :: "string \<Rightarrow> chvalue list \<Rightarrow> nat \<Rightarrow> nat \<Rightarrow> (nat \<times> nat) result" where
  "ch_parse_optional_range who args start_arg len =
     rbind (if start_arg < length args then ch_parse_nonnegative_index who (args ! start_arg) else Inr 0) (\<lambda>start.
     rbind (if start_arg + 1 < length args then ch_parse_nonnegative_index who (args ! (start_arg + 1)) else Inr len) (\<lambda>end.
       if end < start \<or> len < end then Inl (who @ '': range out of bounds'') else Inr (start, end)))"

section \<open>Reading\<close>

definition prim_string_length :: "store \<Rightarrow> chvalue \<Rightarrow> chvalue result" where
  "prim_string_length st v =
     (case string_at st v of
        None \<Rightarrow> Inl ''string-length: not a string''
      | Some s \<Rightarrow> rbind (ch_utf8_count_codepoints ''string-length'' s) (\<lambda>count. Inr (ch_make_fixnum (of_nat count))))"

definition prim_string_ref :: "store \<Rightarrow> chvalue \<Rightarrow> chvalue \<Rightarrow> chvalue result" where
  "prim_string_ref st v k =
     (case string_at st v of
        None \<Rightarrow> Inl ''string-ref: bad arguments''
      | Some s \<Rightarrow>
          rbind (ch_parse_nonnegative_index ''string-ref'' k) (\<lambda>index.
          rbind (ch_utf8_find_codepoint ''string-ref'' s index) (\<lambda>(start, next, cp). Inr (ch_make_char cp))))"

definition prim_substring :: "store \<Rightarrow> chvalue \<Rightarrow> chvalue \<Rightarrow> chvalue \<Rightarrow> u8 list result" where
  "prim_substring st v a b =
     (case string_at st v of
        None \<Rightarrow> Inl ''substring: bad arguments''
      | Some s \<Rightarrow>
          rbind (ch_parse_nonnegative_index ''substring'' a) (\<lambda>start.
          rbind (ch_parse_nonnegative_index ''substring'' b) (\<lambda>end.
            if end < start then Inl ''substring: out of range''
            else rbind (ch_utf8_offset_for_index ''substring'' s start) (\<lambda>start_byte.
                 rbind (ch_utf8_offset_for_index ''substring'' s end) (\<lambda>end_byte.
                   Inr (take (end_byte - start_byte) (drop start_byte s)))))))"

definition prim_string_copy :: "store \<Rightarrow> chvalue list \<Rightarrow> u8 list result" where
  "prim_string_copy st args =
     (case args of
        [] \<Rightarrow> Inl ''string-copy: expected string [start [end]]''
      | v # _ \<Rightarrow>
          (case string_at st v of
             None \<Rightarrow> Inl ''string-copy: expected string [start [end]]''
           | Some s \<Rightarrow>
               rbind (ch_utf8_count_codepoints ''string-copy'' s) (\<lambda>count.
               rbind (ch_parse_optional_range ''string-copy'' args 1 count) (\<lambda>(start, end).
               rbind (ch_utf8_offset_for_index ''string-copy'' s start) (\<lambda>start_byte.
               rbind (ch_utf8_offset_for_index ''string-copy'' s end) (\<lambda>end_byte.
                 Inr (take (end_byte - start_byte) (drop start_byte s))))))))"

fun prim_string_append :: "store \<Rightarrow> chvalue list \<Rightarrow> u8 list result" where
  "prim_string_append st [] = Inr []"
| "prim_string_append st (v # vs) =
     (case string_at st v of
        None \<Rightarrow> Inl ''string-append: not a string''
      | Some s \<Rightarrow> rbind (prim_string_append st vs) (\<lambda>rest. Inr (s @ rest)))"

section \<open>Writing\<close>

definition string_splice_bytes :: "u8 list \<Rightarrow> nat \<Rightarrow> nat \<Rightarrow> u8 list \<Rightarrow> u8 list" where
  "string_splice_bytes s byte_start byte_end rep = take byte_start s @ rep @ drop byte_end s"

definition prim_string_set :: "store \<Rightarrow> chvalue \<Rightarrow> chvalue \<Rightarrow> chvalue \<Rightarrow> store result" where
  "prim_string_set st v k c =
     (case string_at st v of
        None \<Rightarrow> Inl ''string-set!: bad arguments''
      | Some s \<Rightarrow>
          if \<not> ch_is_char c then Inl ''string-set!: bad arguments''
          else rbind (ch_parse_nonnegative_index ''string-set!'' k) (\<lambda>index.
               rbind (ch_utf8_find_codepoint ''string-set!'' s index) (\<lambda>(start, end, cp).
                 case ch_utf8_encode_codepoint (ch_to_char c) of
                   None \<Rightarrow> Inl ''string-set!: invalid character''
                 | Some encoded \<Rightarrow> Inr (put_string st v (string_splice_bytes s start end encoded)))))"


definition prim_string_fill :: "store \<Rightarrow> chvalue list \<Rightarrow> store result" where
  "prim_string_fill st args =
     (case args of
        v # c # _ \<Rightarrow>
          (case string_at st v of
             None \<Rightarrow> Inl ''string-fill!: expected string and char''
           | Some s \<Rightarrow>
               if \<not> ch_is_char c then Inl ''string-fill!: expected string and char''
               else rbind (ch_utf8_count_codepoints ''string-fill!'' s) (\<lambda>count.
                    rbind (ch_parse_optional_range ''string-fill!'' args 2 count) (\<lambda>(start, end).
                      case ch_utf8_encode_codepoint (ch_to_char c) of
                        None \<Rightarrow> Inl ''string-fill!: invalid character''
                      | Some fill \<Rightarrow>
                          rbind (ch_utf8_offset_for_index ''string-fill!'' s start) (\<lambda>byte_start.
                          rbind (ch_utf8_offset_for_index ''string-fill!'' s end) (\<lambda>byte_end.
                            if 0 < end - start \<and> (SIZE_MAX - 1) div (end - start) < length fill
                            then Inl ''string-fill!: output too large''
                            else Inr (put_string st v
                              (string_splice_bytes s byte_start byte_end (concat (replicate (end - start) fill)))))))))
      | _ \<Rightarrow> Inl ''string-fill!: expected string and char'')"

text \<open>\<open>immutable\<close> is the flag in the header of an object, which literals carry.\<close>

definition prim_string_copy_bang :: "(u64 \<Rightarrow> bool) \<Rightarrow> store \<Rightarrow> chvalue list \<Rightarrow> store result" where
  "prim_string_copy_bang immutable st args =
     (case args of
        to # pos # from # _ \<Rightarrow>
          (case (string_at st to, string_at st from) of
             (Some t, Some f) \<Rightarrow>
               if immutable (ch_to_object to) then Inl ''string-copy!: immutable string''
               else rbind (ch_parse_nonnegative_index ''string-copy!'' pos) (\<lambda>k.
                    rbind (ch_utf8_count_codepoints ''string-copy!'' f) (\<lambda>from_count.
                    rbind (ch_parse_optional_range ''string-copy!'' args 3 from_count) (\<lambda>(start, end).
                    rbind (ch_utf8_count_codepoints ''string-copy!'' t) (\<lambda>to_count.
                      if to_count < k + (end - start) then Inl ''string-copy!: range out of bounds''
                      else rbind (ch_utf8_offset_for_index ''string-copy!'' f start) (\<lambda>from_byte_start.
                           rbind (ch_utf8_offset_for_index ''string-copy!'' f end) (\<lambda>from_byte_end.
                           rbind (ch_utf8_offset_for_index ''string-copy!'' t k) (\<lambda>to_byte_start.
                           rbind (ch_utf8_offset_for_index ''string-copy!'' t (k + (end - start))) (\<lambda>to_byte_end.
                             Inr (put_string st to (string_splice_bytes t to_byte_start to_byte_end
                               (take (from_byte_end - from_byte_start) (drop from_byte_start f))))))))))))
           | _ \<Rightarrow> Inl ''string-copy!: bad arguments'')
      | _ \<Rightarrow> Inl ''string-copy!: bad arguments'')"

section \<open>Characters and lists\<close>

text \<open>The bytes of the characters of an argument list, in front of \<open>tot\<close> bytes already counted.\<close>

fun encode_chars :: "string \<Rightarrow> chvalue list \<Rightarrow> nat \<Rightarrow> u8 list result" where
  "encode_chars who [] tot = Inr []"
| "encode_chars who (v # vs) tot =
     (if \<not> ch_is_char v then Inl (who @ '': not a char'')
      else case ch_utf8_encode_codepoint (ch_to_char v) of
             None \<Rightarrow> Inl (who @ '': invalid character'')
           | Some encoded \<Rightarrow>
               if SIZE_MAX - length encoded < tot then Inl (who @ '': output too large'')
               else rbind (encode_chars who vs (tot + length encoded)) (\<lambda>rest. Inr (encoded @ rest)))"

definition prim_string :: "chvalue list \<Rightarrow> u8 list result" where
  "prim_string args = encode_chars ''string'' args 0"

definition prim_make_string :: "chvalue list \<Rightarrow> u8 list result" where
  "prim_make_string args =
     (case args of
        [] \<Rightarrow> Inl ''make-string: bad length''
      | n # rest \<Rightarrow>
          if \<not> ch_is_fixnum n \<or> sint (ch_to_fixnum n) < 0 \<or> 1000000 < sint (ch_to_fixnum n)
          then Inl ''make-string: bad length''
          else let count = nat (sint (ch_to_fixnum n)) in
            (case rest of
               [] \<Rightarrow> Inr (replicate count 0x20)
             | c # _ \<Rightarrow>
                 if \<not> ch_is_char c then Inl ''make-string: fill not a char''
                 else (case ch_utf8_encode_codepoint (ch_to_char c) of
                         None \<Rightarrow> Inl ''make-string: fill not a valid character''
                       | Some fill \<Rightarrow>
                           if 0 < length fill \<and> (SIZE_MAX - 1) div length fill < count
                           then Inl ''make-string: length too large''
                           else Inr (concat (replicate count fill)))))"

lemma encoded_nonempty: "ch_utf8_encode_codepoint cp = Some ys \<Longrightarrow> Suc 0 \<le> length ys \<and> length ys \<le> 4"
  by (auto simp: ch_utf8_encode_codepoint_def split: if_splits)

text \<open>
  The walk over a list stops at the first value that is not a pair; a circular list ends in the check
  of the size.
\<close>

function encode_list :: "string \<Rightarrow> store \<Rightarrow> chvalue \<Rightarrow> nat \<Rightarrow> u8 list result" where
  "encode_list who st p tot =
     (if \<not> st_is_pair st p then Inr []
      else if \<not> ch_is_char (ch_car st p) then Inl (who @ '': not a char'')
      else case ch_utf8_encode_codepoint (ch_to_char (ch_car st p)) of
             None \<Rightarrow> Inl (who @ '': invalid character'')
           | Some encoded \<Rightarrow>
               if SIZE_MAX - length encoded < tot then Inl (who @ '': output too large'')
               else rbind (encode_list who st (ch_cdr st p) (tot + length encoded)) (\<lambda>rest. Inr (encoded @ rest)))"
  by pat_completeness auto

termination
proof (relation "measure (\<lambda>(who, st, p, tot). SIZE_MAX - tot)", goal_cases)
  case (2 who st p tot encoded)
  have "4 \<le> SIZE_MAX" by (simp add: SIZE_MAX_def)
  then have "tot < SIZE_MAX" "tot < tot + length encoded" using 2(4) encoded_nonempty [OF 2(3)] by linarith+
  then show ?case by (simp add: diff_less_mono2)
qed simp

definition prim_list_to_string :: "store \<Rightarrow> chvalue \<Rightarrow> u8 list result" where
  "prim_list_to_string st p = encode_list ''list->string'' st p 0"

function list_items_loop :: "u8 list \<Rightarrow> nat \<Rightarrow> nat \<Rightarrow> nat \<Rightarrow> nat \<Rightarrow> chvalue list result" where
  "list_items_loop s start end pos idx =
     (if length s \<le> pos \<or> end \<le> idx then Inr []
      else case ch_utf8_decode_next s pos of
             None \<Rightarrow> Inl ''string->list: invalid UTF-8 sequence''
           | Some (cp, next) \<Rightarrow>
               rbind (list_items_loop s start end next (idx + 1))
                 (\<lambda>items. Inr (if start \<le> idx then ch_make_char cp # items else items)))"
  by pat_completeness auto
termination by (relation "measure (\<lambda>(s, start, end, pos, idx). length s - pos)") (auto dest!: decode_next_greater)

declare encode_list.simps [simp del] list_items_loop.simps [simp del]

definition prim_string_to_list :: "store \<Rightarrow> chvalue list \<Rightarrow> chvalue list result" where
  "prim_string_to_list st args =
     (case args of
        [] \<Rightarrow> Inl ''string->list: not a string''
      | v # _ \<Rightarrow>
          (case string_at st v of
             None \<Rightarrow> Inl ''string->list: not a string''
           | Some s \<Rightarrow>
               rbind (ch_utf8_count_codepoints ''string->list'' s) (\<lambda>count.
               rbind (ch_parse_optional_range ''string->list'' args 1 count) (\<lambda>(start, end).
                 list_items_loop s start end 0 0))))"

section \<open>Comparison\<close>

function cmp_loop :: "u8 list \<Rightarrow> u8 list \<Rightarrow> nat \<Rightarrow> nat \<Rightarrow> nat \<times> nat \<times> int" where
  "cmp_loop a b ap bp =
     (if length a \<le> ap \<or> length b \<le> bp then (ap, bp, 0)
      else case (ch_utf8_decode_next a ap, ch_utf8_decode_next b bp) of
             (Some (ac, an), Some (bc, bn)) \<Rightarrow>
               if ac < bc then (ap, bp, - 1) else if bc < ac then (ap, bp, 1) else cmp_loop a b an bn
           | _ \<Rightarrow> (ap, bp, 0))"
  by pat_completeness auto
termination by (relation "measure (\<lambda>(a, b, ap, bp). length a - ap)")
  (auto dest!: sym [of "Some _"] decode_next_greater)

declare cmp_loop.simps [simp del]

definition string_cmp_utf8 :: "u8 list \<Rightarrow> u8 list \<Rightarrow> int" where
  "string_cmp_utf8 a b =
     (case cmp_loop a b 0 0 of (ap, bp, r) \<Rightarrow>
        if r \<noteq> 0 then r else if ap < length a then 1 else if bp < length b then - 1 else 0)"

fun compare_pass :: "nat \<Rightarrow> int \<Rightarrow> bool" where
  "compare_pass 0 cmp \<longleftrightarrow> cmp < 0"
| "compare_pass (Suc 0) cmp \<longleftrightarrow> cmp \<le> 0"
| "compare_pass (Suc (Suc 0)) cmp \<longleftrightarrow> cmp = 0"
| "compare_pass (Suc (Suc (Suc 0))) cmp \<longleftrightarrow> 0 \<le> cmp"
| "compare_pass (Suc (Suc (Suc (Suc 0)))) cmp \<longleftrightarrow> 0 < cmp"
| "compare_pass _ cmp \<longleftrightarrow> False"

fun compare_rest :: "store \<Rightarrow> string \<Rightarrow> nat \<Rightarrow> u8 list \<Rightarrow> chvalue list \<Rightarrow> chvalue result" where
  "compare_rest st who mode s0 [] = Inr CH_TRUE"
| "compare_rest st who mode s0 (v # vs) =
     (case string_at st v of
        None \<Rightarrow> Inl (who @ '': not a string'')
      | Some si \<Rightarrow>
          if compare_pass mode (string_cmp_utf8 s0 si) then compare_rest st who mode si vs else Inr CH_FALSE)"

definition compare_strings :: "store \<Rightarrow> string \<Rightarrow> nat \<Rightarrow> chvalue list \<Rightarrow> chvalue result" where
  "compare_strings st who mode args =
     (case args of
        v # w # vs \<Rightarrow>
          (case string_at st v of
             None \<Rightarrow> Inl (who @ '': not a string'')
           | Some s0 \<Rightarrow> compare_rest st who mode s0 (w # vs))
      | _ \<Rightarrow> Inr CH_TRUE)"

section \<open>Text in the store\<close>

definition text_at :: "store \<Rightarrow> chvalue \<Rightarrow> u32 list \<Rightarrow> bool" where
  "text_at st v cps \<longleftrightarrow> string_at st v = Some (utf8 cps) \<and> list_all is_scalar cps"

definition is_index :: "chvalue \<Rightarrow> nat \<Rightarrow> bool" where
  "is_index v k \<longleftrightarrow> ch_is_fixnum v \<and> sint (ch_to_fixnum v) = int k"

definition is_char :: "chvalue \<Rightarrow> u32 \<Rightarrow> bool" where
  "is_char v cp \<longleftrightarrow> ch_is_char v \<and> ch_to_char v = cp \<and> is_scalar cp"

lemma parse_index: "is_index v k \<Longrightarrow> ch_parse_nonnegative_index who v = Inr k"
  by (simp add: is_index_def ch_parse_nonnegative_index_def)

lemma encode_char: "is_char v cp \<Longrightarrow> ch_is_char v \<and> ch_utf8_encode_codepoint (ch_to_char v) = Some (utf8_char cp)"
  by (auto simp: is_char_def is_scalar_def utf8_char_def)

lemma text_at_put: "text_at st v cps \<Longrightarrow> list_all is_scalar cps' \<Longrightarrow> text_at (put_string st v (utf8 cps')) v cps'"
  by (auto simp: text_at_def string_at_def put_string_def object_at_def split: if_splits option.splits)

lemma text_at_put_other:
  "text_at st w ds \<Longrightarrow> ch_to_object w \<noteq> ch_to_object v \<Longrightarrow> text_at (put_string st v s) w ds"
  by (simp add: text_at_def string_at_def put_string_def object_at_def split: if_splits)

section \<open>Offsets\<close>

definition offset :: "u32 list \<Rightarrow> nat \<Rightarrow> nat" where
  "offset cps k = length (utf8 (take k cps))"

lemma loops_text:
  assumes "list_all is_scalar cps"
  shows "ch_utf8_count_codepoints who (utf8 cps) = Inr (length cps)"
    "ch_utf8_find_codepoint who (utf8 cps) k =
       (if k < length cps then Inr (offset cps k, offset cps (Suc k), cps ! k) else Inl (who @ '': index out of range''))"
    "ch_utf8_offset_for_index who (utf8 cps) k =
       (if k \<le> length cps then Inr (offset cps k) else Inl (who @ '': index out of range''))"
  using loops_on_text [OF assms decode_empty, of who "[]" 0]
  by (simp_all add: ch_utf8_count_codepoints_def ch_utf8_find_codepoint_def ch_utf8_offset_for_index_def offset_def)

lemma take_offset: "take (offset cps k) (utf8 cps) = utf8 (take k cps)"
proof -
  have "utf8 cps = utf8 (take k cps) @ utf8 (drop k cps)" by (simp flip: utf8_simps(3))
  then show ?thesis by (simp add: offset_def)
qed

lemma drop_offset: "drop (offset cps k) (utf8 cps) = utf8 (drop k cps)"
proof -
  have "utf8 cps = utf8 (take k cps) @ utf8 (drop k cps)" by (simp flip: utf8_simps(3))
  then show ?thesis by (simp add: offset_def)
qed

lemma offset_diff: "s \<le> e \<Longrightarrow> offset cps e - offset cps s = offset (drop s cps) (e - s)"
proof -
  assume "s \<le> e"
  then have "take e cps = take s cps @ take (e - s) (drop s cps)" by (metis le_add_diff_inverse take_add)
  then show ?thesis by (simp add: offset_def)
qed

lemma slice_text: "s \<le> e \<Longrightarrow> take (offset cps e - offset cps s) (drop (offset cps s) (utf8 cps)) = utf8 (take (e - s) (drop s cps))"
  by (simp add: drop_offset offset_diff take_offset)

lemma splice_text:
  "string_splice_bytes (utf8 cps) (offset cps s) (offset cps e) (utf8 new) = utf8 (take s cps @ new @ drop e cps)"
  by (simp add: string_splice_bytes_def take_offset drop_offset)

lemma utf8_replicate: "utf8 (replicate n cp) = concat (replicate n (utf8_char cp))"
  by (simp add: utf8_def)

lemma utf8_char_length: "length (utf8_char cp) \<le> 4"
  using encoded_nonempty [of cp] by (auto simp: utf8_char_def split: option.split)

lemma scalar_lists [simp]:
  "list_all is_scalar cps \<Longrightarrow> list_all is_scalar (take n cps)" "list_all is_scalar cps \<Longrightarrow> list_all is_scalar (drop n cps)"
  "is_scalar cp \<Longrightarrow> list_all is_scalar (replicate n cp)"
  "list_all is_scalar cps \<Longrightarrow> is_scalar cp \<Longrightarrow> list_all is_scalar (cps[n := cp])"
  by (auto simp: list_all_iff dest: in_set_takeD in_set_dropD set_update_subset_insert [THEN subsetD])

section \<open>Properties\<close>

text \<open>
  C30. On well-formed text the reading primitives are the functions on its list of characters: length,
  indexing, and the two slices, with an error exactly for the indices out of range.
\<close>
theorem string_read_text:
  assumes "text_at st v cps" "is_index a s" "is_index b e"
  shows "prim_string_length st v = Inr (ch_make_fixnum (of_nat (length cps))) \<and>
    prim_string_ref st v a =
      (if s < length cps then Inr (ch_make_char (cps ! s)) else Inl ''string-ref: index out of range'') \<and>
    prim_substring st v a b =
      (if e < s then Inl ''substring: out of range''
       else if length cps < e then Inl ''substring: index out of range''
       else Inr (utf8 (take (e - s) (drop s cps)))) \<and>
    prim_string_copy st [v, a, b] =
      (if e < s \<or> length cps < e then Inl ''string-copy: range out of bounds''
       else Inr (utf8 (take (e - s) (drop s cps))))"
proof -
  have t: "string_at st v = Some (utf8 cps)" and w: "list_all is_scalar cps" using assms(1) by (simp_all add: text_at_def)
  note p = parse_index [OF assms(2)] parse_index [OF assms(3)]
  show ?thesis
    by (auto simp: prim_string_length_def prim_string_ref_def prim_substring_def prim_string_copy_def t p
      loops_text [OF w] slice_text ch_parse_optional_range_def)
qed

text \<open>
  C21. The writing primitives refine updates of the list of characters: \<open>string-set!\<close> replaces one
  character, \<open>string-fill!\<close> a range and \<open>string-copy!\<close> a range by a slice of another or the same
  string, also where the encodings have different lengths; the object again holds well-formed text.
\<close>
theorem string_write_text:
  assumes "text_at st v cps" "is_index a s" "is_index b e" "is_char c cp" "4 * length cps < SIZE_MAX"
    and "text_at st w ds" "is_index d k" "\<not> immutable (ch_to_object v)"
  shows "prim_string_set st v a c =
      (if s < length cps then Inr (put_string st v (utf8 (cps[s := cp]))) else Inl ''string-set!: index out of range'') \<and>
    prim_string_fill st [v, c, a, b] =
      (if e < s \<or> length cps < e then Inl ''string-fill!: range out of bounds''
       else Inr (put_string st v (utf8 (take s cps @ replicate (e - s) cp @ drop e cps)))) \<and>
    prim_string_copy_bang immutable st [v, d, w, a, b] =
      (if e < s \<or> length ds < e \<or> length cps < k + (e - s) then Inl ''string-copy!: range out of bounds''
       else Inr (put_string st v (utf8 (take k cps @ take (e - s) (drop s ds) @ drop (k + (e - s)) cps)))) \<and>
    text_at (put_string st v (utf8 (cps[s := cp]))) v (cps[s := cp])"
proof -
  have t: "string_at st v = Some (utf8 cps)" and w: "list_all is_scalar cps" using assms(1) by (simp_all add: text_at_def)
  have t': "string_at st w = Some (utf8 ds)" and w': "list_all is_scalar ds" using assms(6) by (simp_all add: text_at_def)
  have c: "is_scalar cp" using assms(4) by (simp add: is_char_def)
  note p = parse_index [OF assms(2)] parse_index [OF assms(3)] parse_index [OF assms(7)]
  note ec = encode_char [OF assms(4), THEN conjunct1] encode_char [OF assms(4), THEN conjunct2]
  show ?thesis
  proof (intro conjI)
    have splice: "string_splice_bytes (utf8 cps) (offset cps s) (offset cps (Suc s)) (utf8_char cp) = utf8 (cps[s := cp])"
      if "s < length cps"
      using splice_text [of cps s "Suc s" "[cp]"] that by (simp add: upd_conv_take_nth_drop)
    then show "prim_string_set st v a c =
      (if s < length cps then Inr (put_string st v (utf8 (cps[s := cp]))) else Inl ''string-set!: index out of range'')"
      by (simp add: prim_string_set_def t p loops_text [OF w] ec)
    have "\<not> (SIZE_MAX - 1) div (e - s) < length (utf8_char cp)" if "0 < e - s" "e \<le> length cps"
    proof -
      have "length (utf8_char cp) * (e - s) \<le> 4 * length cps" using utf8_char_length [of cp] that by (intro mult_le_mono) auto
      then show ?thesis using assms(5) that by (simp add: not_less less_eq_div_iff_mult_less_eq)
    qed
    then show "prim_string_fill st [v, c, a, b] =
      (if e < s \<or> length cps < e then Inl ''string-fill!: range out of bounds''
       else Inr (put_string st v (utf8 (take s cps @ replicate (e - s) cp @ drop e cps))))"
      using splice_text [of cps s e "replicate (e - s) cp"]
      by (auto simp: prim_string_fill_def t p loops_text [OF w] ec ch_parse_optional_range_def utf8_replicate) (meson not_le)
    show "prim_string_copy_bang immutable st [v, d, w, a, b] =
      (if e < s \<or> length ds < e \<or> length cps < k + (e - s) then Inl ''string-copy!: range out of bounds''
       else Inr (put_string st v (utf8 (take k cps @ take (e - s) (drop s ds) @ drop (k + (e - s)) cps))))"
      using assms(8) splice_text [of cps k "k + (e - s)" "take (e - s) (drop s ds)"]
      by (auto simp: prim_string_copy_bang_def t t' p loops_text [OF w] loops_text [OF w'] ch_parse_optional_range_def slice_text)
    show "text_at (put_string st v (utf8 (cps[s := cp]))) v (cps[s := cp])"
      using text_at_put [OF assms(1)] w c by simp
  qed
qed

lemma make_char_facts: "ch_is_char (ch_make_char cp)" "unat cp < 2 ^ 21 \<Longrightarrow> ch_to_char (ch_make_char cp) = cp"
proof -
  have p: "ch_make_char cp AND CH_NANBOX_PAYLOAD = 0x100 + take_bit 21 (ucast cp)"
    by (simp only: payload_mask ch_make_char_box take_box_word char_payload_small)
  then have u: "unat (ch_make_char cp AND CH_NANBOX_PAYLOAD) = 256 + unat (ucast cp :: u64) mod 2 ^ 21"
    by (simp only: unat_char_payload)
  then show "ch_is_char (ch_make_char cp)" by (simp add: ch_is_char_def class_make Let_def word_le_nat_alt)
  have "ch_to_char (ch_make_char cp) = ucast (take_bit 21 (ucast cp :: u64))" by (simp add: ch_to_char_def p)
  also have "\<dots> = take_bit 21 cp" by (rule bit_word_eqI) (auto simp: bit_simps)
  finally show "ch_to_char (ch_make_char cp) = cp" if "unat cp < 2 ^ 21"
    using that by (simp add: word_unat_eq_iff unsigned_take_bit_eq take_bit_nat_eq_self_iff)
qed

lemma scalar_bound: "is_scalar cp \<Longrightarrow> unat cp < 2 ^ 21"
  by (auto simp: is_scalar_def encode_bytes scalar_value_def)

lemma make_char_scalar: "is_scalar cp \<Longrightarrow> is_char (ch_make_char cp) cp"
  using make_char_facts scalar_bound by (simp add: is_char_def)

text \<open>A proper list in the store.\<close>

inductive list_at :: "store \<Rightarrow> chvalue \<Rightarrow> chvalue list \<Rightarrow> bool" for st where
  nil: "\<not> st_is_pair st p \<Longrightarrow> list_at st p []"
| cons: "st_is_pair st p \<Longrightarrow> list_at st (ch_cdr st p) vs \<Longrightarrow> list_at st p (ch_car st p # vs)"

lemma encode_chars_text:
  "list_all is_scalar cps \<Longrightarrow> tot + 4 * length cps \<le> SIZE_MAX \<Longrightarrow> encode_chars who (map ch_make_char cps) tot = Inr (utf8 cps)"
proof (induction cps arbitrary: tot)
  case (Cons cp cps)
  have "is_char (ch_make_char cp) cp" using Cons.prems make_char_scalar by simp
  moreover have "tot + length (utf8_char cp) + 4 * length cps \<le> SIZE_MAX" "\<not> SIZE_MAX - length (utf8_char cp) < tot"
    using Cons.prems(2) utf8_char_length [of cp] by simp_all
  ultimately show ?case using Cons.IH [of "tot + length (utf8_char cp)"] Cons.prems(1) encode_char by simp
qed simp

lemma encode_list_chars: "list_at st p vs \<Longrightarrow> encode_list who st p tot = encode_chars who vs tot"
  by (induction arbitrary: tot rule: list_at.induct) (auto simp: encode_list.simps split: option.split)

lemma list_items_text:
  assumes "list_all is_scalar cps"
  shows "list_items_loop (pre @ utf8 cps) 0 (n + length cps) (length pre) n = Inr (map ch_make_char cps)"
  using assms
proof (induction cps arbitrary: pre n)
  case (Cons cp cps)
  then show ?case using Cons.IH [of "pre @ utf8_char cp" "Suc n"] utf8_char_nonempty [of cp]
    by (subst list_items_loop.simps) (simp add: decode_at)
qed (simp add: list_items_loop.simps)

text \<open>
  C31. Strings and lists of characters convert into each other without loss: \<open>string->list\<close> of
  well-formed text gives its characters, and \<open>string\<close> and \<open>list->string\<close> of these characters give
  the same bytes back.
\<close>
theorem string_list_roundtrip:
  assumes "text_at st v cps" "4 * length cps \<le> SIZE_MAX" "list_at st p (map ch_make_char cps)"
  shows "prim_string_to_list st [v] = Inr (map ch_make_char cps) \<and>
    prim_string (map ch_make_char cps) = Inr (utf8 cps) \<and> prim_list_to_string st p = Inr (utf8 cps)"
proof -
  have t: "string_at st v = Some (utf8 cps)" and w: "list_all is_scalar cps" using assms(1) by (simp_all add: text_at_def)
  show ?thesis
    using list_items_text [OF w, of "[]" 0] encode_chars_text [OF w, of 0] assms(2)
    by (simp add: prim_string_to_list_def t loops_text [OF w] ch_parse_optional_range_def prim_string_def
        prim_list_to_string_def encode_list_chars [OF assms(3)])
qed

section \<open>Order\<close>

definition cmp_result :: "u8 list \<Rightarrow> u8 list \<Rightarrow> nat \<times> nat \<times> int \<Rightarrow> int" where
  "cmp_result a b t =
     (case t of (ap, bp, r) \<Rightarrow> if r \<noteq> 0 then r else if ap < length a then 1 else if bp < length b then - 1 else 0)"

lemma cmp_loop_text:
  assumes "list_all is_scalar as" "list_all is_scalar bs"
  shows "cmp_result (pa @ utf8 as) (pb @ utf8 bs) (cmp_loop (pa @ utf8 as) (pb @ utf8 bs) (length pa) (length pb)) =
    (if as = bs then 0 else if (as, bs) \<in> lexord {(x, y). x < y} then - 1 else 1)"
  using assms
proof (induction as arbitrary: bs pa pb)
  case Nil
  then show ?case using utf8_char_nonempty by (cases bs) (simp_all add: cmp_loop.simps cmp_result_def)
next
  case (Cons a as)
  show ?case
  proof (cases bs)
    case Nil
    then show ?thesis using Cons.prems utf8_char_nonempty by (simp add: cmp_loop.simps cmp_result_def)
  next
    case b: (Cons b bs')
    have d: "ch_utf8_decode_next (pa @ utf8 (a # as)) (length pa) = Some (a, length pa + length (utf8_char a))"
      "ch_utf8_decode_next (pb @ utf8 (b # bs')) (length pb) = Some (b, length pb + length (utf8_char b))"
      using Cons.prems b by (simp_all add: decode_at)
    have ne: "utf8_char a \<noteq> []" "utf8_char b \<noteq> []" using Cons.prems b utf8_char_nonempty by simp_all
    show ?thesis
    proof (cases "a = b")
      case True
      then show ?thesis
        using Cons.IH [of bs' "pa @ utf8_char a" "pb @ utf8_char b"] Cons.prems b d ne
        by (subst cmp_loop.simps) (simp add: lexord_cons_cons)
    next
      case False
      then show ?thesis using b d ne by (subst cmp_loop.simps) (auto simp: lexord_cons_cons cmp_result_def)
    qed
  qed
qed

text \<open>
  String comparison is the lexicographic order of code points: on well-formed texts it is zero
  exactly for equal strings, negative for the smaller one and positive otherwise, so the five
  predicates are those of a linear order.
\<close>
theorem string_compare_lexicographic:
  assumes "list_all is_scalar as" "list_all is_scalar bs"
  shows "string_cmp_utf8 (utf8 as) (utf8 bs) =
    (if as = bs then 0 else if (as, bs) \<in> lexord {(x, y). x < y} then - 1 else 1)"
  using cmp_loop_text [OF assms, of "[]" "[]"]
  by (simp add: string_cmp_utf8_def cmp_result_def)

section \<open>Witnesses\<close>

text \<open>A store with the strings \<open>a\<close>-umlaut \<open>bc\<close> and \<open>xy\<close>, and the list of the characters of the second.\<close>

definition text_store :: store where
  "text_store = [16 \<mapsto> HString [0xC3, 0xA4, 0x62, 0x63], 32 \<mapsto> HString [0x78, 0x79],
     48 \<mapsto> HPair (ch_make_char 0x78) (ch_make_pointer 64), 64 \<mapsto> HPair (ch_make_char 0x79) CH_NIL]"

lemma text_store_objects:
  "object_at text_store (ch_make_pointer 16) = Some (HString [0xC3, 0xA4, 0x62, 0x63])"
  "object_at text_store (ch_make_pointer 32) = Some (HString [0x78, 0x79])"
  "object_at text_store (ch_make_pointer 48) = Some (HPair (ch_make_char 0x78) (ch_make_pointer 64))"
  "object_at text_store (ch_make_pointer 64) = Some (HPair (ch_make_char 0x79) CH_NIL)"
  "object_at text_store CH_NIL = None"
  by (simp_all add: object_at_def text_store_def ch_is_pointer_def ch_make_pointer_def ch_to_object_def
    CH_NANBOX_PTR_def CH_NANBOX_PAYLOAD_def CH_NANBOX_IMM_def CH_NIL_def)

lemma witness_texts:
  "text_at text_store (ch_make_pointer 16) [0xE4, 0x62, 0x63]" "text_at text_store (ch_make_pointer 32) [0x78, 0x79]"
  by (simp_all add: text_at_def string_at_def text_store_objects utf8_char_def is_scalar_def ch_utf8_encode_codepoint_def)

lemma witness_index: "is_index (ch_make_fixnum 0) 0" "is_index (ch_make_fixnum 1) 1" "is_index (ch_make_fixnum 2) 2"
  by (simp_all add: is_index_def ch_to_make_fixnum signed_take_bit_47_self value_simps)

lemma witness_char: "is_char (ch_make_char 0x20AC) 0x20AC"
  by (rule make_char_scalar) (simp add: is_scalar_def ch_utf8_encode_codepoint_def)

lemma string_read_text_witness:
  "prim_substring text_store (ch_make_pointer 16) (ch_make_fixnum 0) (ch_make_fixnum 2) = Inr [0xC3, 0xA4, 0x62]"
  using string_read_text [OF witness_texts(1) witness_index(1) witness_index(3)]
  by (simp add: utf8_char_def ch_utf8_encode_codepoint_def)

lemma string_write_text_witness:
  "prim_string_set text_store (ch_make_pointer 16) (ch_make_fixnum 0) (ch_make_char 0x20AC) =
     Inr (put_string text_store (ch_make_pointer 16) [0xE2, 0x82, 0xAC, 0x62, 0x63]) \<and>
   prim_string_copy_bang (\<lambda>_. False) text_store
     [ch_make_pointer 16, ch_make_fixnum 1, ch_make_pointer 32, ch_make_fixnum 0, ch_make_fixnum 2] =
     Inr (put_string text_store (ch_make_pointer 16) [0xC3, 0xA4, 0x78, 0x79])"
  using string_write_text [OF witness_texts(1) witness_index(1) witness_index(3) witness_char _ witness_texts(2)
      witness_index(2), of "\<lambda>_. False"]
  by (simp add: SIZE_MAX_def utf8_char_def ch_utf8_encode_codepoint_def)

lemma string_list_roundtrip_witness:
  "prim_string_to_list text_store [ch_make_pointer 32] = Inr [ch_make_char 0x78, ch_make_char 0x79] \<and>
   prim_list_to_string text_store (ch_make_pointer 48) = Inr [0x78, 0x79]"
proof -
  have p: "st_is_pair text_store (ch_make_pointer 48)" "st_is_pair text_store (ch_make_pointer 64)" "\<not> st_is_pair text_store CH_NIL"
    by (simp_all add: st_is_pair_def text_store_objects)
  have "list_at text_store (ch_make_pointer 48) [ch_make_char 0x78, ch_make_char 0x79]"
    using list_at.cons [OF p(1)] list_at.cons [OF p(2)] list_at.nil [OF p(3)]
    by (simp add: ch_car_def ch_cdr_def text_store_objects)
  then show ?thesis
    using string_list_roundtrip [OF witness_texts(2), of "ch_make_pointer 48"]
    by (simp add: SIZE_MAX_def utf8_char_def ch_utf8_encode_codepoint_def)
qed

lemma string_compare_lexicographic_witness: "string_cmp_utf8 [0xC3, 0xA4] [0x7A] = 1"
proof -
  have "list_all is_scalar [0xE4]" "list_all is_scalar [0x7A]" by (simp_all add: is_scalar_def ch_utf8_encode_codepoint_def)
  then show ?thesis
    using string_compare_lexicographic [of "[0xE4]" "[0x7A]"]
    by (simp add: utf8_char_def ch_utf8_encode_codepoint_def lexord_cons_cons)
qed

end
