(* ===== verification/Chaaya_Gc.thy ===== *)
theory Chaaya_Gc
  imports Chaaya_Value
begin

text \<open>
  The generational mark-sweep collector of \<open>src/src/gc.c\<close> over a heap of the objects it knows. A heap
  maps an address to its object while that is allocated; looking at an address without an object is
  the use of freed memory and makes an operation \<open>None\<close>. The roots that the virtual machine, the
  libraries and the foreign callbacks mark are a list of values in the state.
\<close>

section \<open>Objects\<close>

type_synonym addr = u64

text \<open>
  What the collector reads of an object, by its tag. A field that points to an object header is an
  address, 0 for the null pointer. The value of an upvalue is its closed value or the register it
  is open on.
\<close>

datatype gc_object =
    GPair chvalue chvalue
  | GVector "chvalue list"
  | GFunction "chvalue list"
  | GClosure addr "chvalue option list"
  | GContinuation "chvalue list" "addr list" "(chvalue \<times> chvalue) list" "chvalue list" "(chvalue \<times> chvalue) list"
      "chvalue option list"
  | GValues "chvalue list"
  | GNoReferences nat
  | GTransformer "addr list" "(chvalue \<times> chvalue) list" "(addr \<times> addr) list" addr
  | GRecordType chvalue addr
  | GRecord addr "chvalue list"
  | GPromise chvalue
  | GRational chvalue chvalue
  | GEnvironment "(addr \<times> chvalue option) list"
  | GErrorObj chvalue chvalue
  | GParameter chvalue chvalue chvalue
  | GHashtable chvalue chvalue "(chvalue \<times> chvalue) option list"
  | GTime chvalue
  | GFiber "chvalue list"
      "(chvalue list \<times> addr list \<times> (chvalue \<times> chvalue) list \<times> chvalue list \<times> (chvalue \<times> chvalue) list) option"
  | GChannel bool "chvalue list" "chvalue list" "chvalue list"
  | GForeignProc chvalue chvalue
  | GEphemeron chvalue chvalue bool
  | GMutex chvalue chvalue chvalue
  | GCondvar chvalue chvalue
  | GGroupInfo chvalue

definition targets :: "chvalue list \<Rightarrow> addr list" where
  "targets vs = map ch_to_object (filter ch_is_pointer vs)"

definition pairs :: "('a \<times> 'a) list \<Rightarrow> 'a list" where
  "pairs ps = concat (map (\<lambda>(x, y). [x, y]) ps)"

definition somes :: "'a option list \<Rightarrow> 'a list" where
  "somes xs = concat (map (\<lambda>x. case x of None \<Rightarrow> [] | Some y \<Rightarrow> [y]) xs)"

text \<open>The addresses that \<open>mark_object_contents\<close> goes to, in order.\<close>

fun mark_children :: "gc_object \<Rightarrow> addr list" where
  "mark_children (GPair a d) = targets [a, d]"
| "mark_children (GVector items) = targets items"
| "mark_children (GFunction constants) = targets constants"
| "mark_children (GClosure fn uvs) = fn # targets (somes uvs)"
| "mark_children (GContinuation regs frames winds handlers params uvs) =
     targets regs @ frames @ targets (pairs winds) @ targets handlers @ targets (pairs params) @ targets (somes uvs)"
| "mark_children (GValues items) = targets items"
| "mark_children (GNoReferences tag) = []"
| "mark_children (GTransformer literals rules captures ellipsis) = literals @ targets (pairs rules) @ pairs captures"
| "mark_children (GRecordType name parent) = targets [name] @ [parent]"
| "mark_children (GRecord rtype fields) = rtype # targets fields"
| "mark_children (GPromise v) = targets [v]"
| "mark_children (GRational n d) = targets [n, d]"
| "mark_children (GEnvironment bindings) = concat (map (\<lambda>(name, v). name # targets (somes [v])) bindings)"
| "mark_children (GErrorObj message irritants) = targets [message, irritants]"
| "mark_children (GParameter init converter v) = targets [init, converter, v]"
| "mark_children (GHashtable equiv_fn hash_fn slots) = targets (pairs (somes slots))"
| "mark_children (GTime type_sym) = targets [type_sym]"
| "mark_children (GFiber vs snapshot) =
     targets vs @ (case snapshot of None \<Rightarrow> []
       | Some (regs, frames, winds, handlers, params) \<Rightarrow>
           targets regs @ frames @ targets (pairs winds) @ targets handlers @ targets (pairs params))"
| "mark_children (GChannel shared items recv_waiters send_waiters) =
     (if shared then [] else targets items) @ targets recv_waiters @ targets send_waiters"
| "mark_children (GForeignProc library name) = targets [library, name]"
| "mark_children (GEphemeron key val broken) = []"
| "mark_children (GMutex owner name specific) = targets [owner, name, specific]"
| "mark_children (GCondvar name specific) = targets [name, specific]"
| "mark_children (GGroupInfo name) = targets [name]"

text \<open>The addresses whose generation \<open>references_young\<close> asks for, in order.\<close>

fun young_candidates :: "gc_object \<Rightarrow> addr list" where
  "young_candidates (GContinuation regs frames winds handlers params uvs) =
     targets regs @ frames @ targets (pairs winds) @ targets handlers @ targets (pairs params)"
| "young_candidates (GFiber vs snapshot) =
     targets vs @ (case snapshot of None \<Rightarrow> [] | Some (regs, frames, winds, handlers, params) \<Rightarrow> targets regs)"
| "young_candidates (GClosure fn uvs) = (if fn = 0 then [] else fn # targets (somes uvs))"
| "young_candidates x = mark_children x"

definition is_ephemeron :: "gc_object \<Rightarrow> bool" where
  "is_ephemeron x = (case x of GEphemeron _ _ _ \<Rightarrow> True | _ \<Rightarrow> False)"

section \<open>State\<close>

record cell =
  c_marked :: bool
  c_old :: bool
  c_age :: u8
  c_object :: gc_object

type_synonym heap = "addr \<Rightarrow> cell option"

record gc =
  gc_heap :: heap
  young_objects :: "addr list"
  old_objects :: "addr list"
  young_count :: nat
  old_count :: nat
  object_count :: nat
  alloc_count :: nat
  threshold :: nat
  collections :: nat
  minor_collections :: nat
  major_collections :: nat
  promotion_age :: u8
  major_interval :: nat
  vm_roots :: "chvalue list"
  compiling_fns :: "addr list"
  root_slots :: "chvalue list"
  extra_roots :: "chvalue list"
  symbols :: "addr list"
  remembered_set :: "addr list"
  no_collect :: nat

definition CH_GC_DEFAULT_THRESHOLD :: nat where "CH_GC_DEFAULT_THRESHOLD = 1024"

section \<open>Marking\<close>

definition unmarked :: "heap \<Rightarrow> addr set" where
  "unmarked h = {a. \<exists>c. h a = Some c \<and> \<not> c_marked c}"

text \<open>
  The recursion of \<open>mark_object\<close> and \<open>mark_value\<close> with its stack of addresses still to mark as a
  list, and the list of ephemerons pending.
\<close>

function mark_list :: "heap \<Rightarrow> addr list \<Rightarrow> addr list \<Rightarrow> (heap \<times> addr list) option" where
  "mark_list h pending [] = Some (h, pending)"
| "mark_list h pending (a # as) =
     (if a = 0 then mark_list h pending as
      else case h a of
             None \<Rightarrow> None
           | Some c \<Rightarrow>
               if c_marked c then mark_list h pending as
               else mark_list (h(a \<mapsto> c\<lparr>c_marked := True\<rparr>))
                      (if is_ephemeron (c_object c) then pending @ [a] else pending) (mark_children (c_object c) @ as))"
  by pat_completeness auto
termination
proof (relation "inv_image ({(x, y). x < y} <*lex*> {(x, y). x < y}) (\<lambda>(h, pending, as). (card (unmarked h), length as))",
    goal_cases)
  case 1
  show ?case by (intro wf_inv_image wf_lex_prod wf_less)
next
  case (4 h pending a as c)
  then have "unmarked (h(a \<mapsto> c\<lparr>c_marked := True\<rparr>)) \<subset> unmarked h"
    by (auto simp: unmarked_def split: if_splits)
  then have "card (unmarked (h(a \<mapsto> c\<lparr>c_marked := True\<rparr>))) < card (unmarked h)" by (intro psubset_card_mono) simp_all
  then show ?case by simp
qed simp_all

section \<open>Weak references\<close>

definition weak_reachable :: "heap \<Rightarrow> chvalue \<Rightarrow> bool option" where
  "weak_reachable h v =
     (if \<not> ch_is_pointer v then Some True
      else if ch_to_object v = 0 then Some False
      else map_option c_marked (h (ch_to_object v)))"

text \<open>The list of pending ephemerons without the one at an index, whose place the last one takes.\<close>

definition drop_pending :: "addr list \<Rightarrow> nat \<Rightarrow> addr list" where
  "drop_pending pending i = butlast (pending[i := last pending])"

lemma mark_list_progress:
  "mark_list h pending as = Some (h', pending') \<Longrightarrow>
     unmarked h' \<subseteq> unmarked h \<and> (\<exists>new. pending' = pending @ new) \<and> (unmarked h' = unmarked h \<longrightarrow> pending' = pending)"
proof (induction h pending as arbitrary: h' pending' rule: mark_list.induct)
  case (2 h pending a as)
  show ?case
  proof (cases "a = 0")
    case True
    then show ?thesis using "2.IH"(1) "2.prems" by simp
  next
    case a: False
    show ?thesis
    proof (cases "h a")
      case None
      then show ?thesis using "2.prems" a by simp
    next
      case (Some c)
      show ?thesis
      proof (cases "c_marked c")
        case True
        then show ?thesis using "2.IH"(2) [OF a Some True] "2.prems" a Some by simp
      next
        case False
        let ?h = "h(a \<mapsto> c\<lparr>c_marked := True\<rparr>)"
        let ?p = "if is_ephemeron (c_object c) then pending @ [a] else pending"
        have u: "unmarked ?h = unmarked h - {a}" "a \<in> unmarked h" using Some False by (auto simp: unmarked_def)
        have m: "mark_list ?h ?p (mark_children (c_object c) @ as) = Some (h', pending')" using "2.prems" a Some False by simp
        have IH: "unmarked h' \<subseteq> unmarked ?h \<and> (\<exists>new. pending' = ?p @ new)"
          using "2.IH"(3) [OF a Some False m] by blast
        then have "a \<notin> unmarked h'" using u by blast
        then show ?thesis using IH u by (auto split: if_splits)
      qed
    qed
  qed
qed simp

text \<open>One pass over the pending ephemerons; the result tells whether one of them was finished.\<close>

function weak_pass :: "heap \<Rightarrow> addr list \<Rightarrow> nat \<Rightarrow> bool \<Rightarrow> (heap \<times> addr list \<times> bool) option" where
  "weak_pass h pending i progress =
     (if length pending \<le> i then Some (h, pending, progress)
      else case h (pending ! i) of
             None \<Rightarrow> None
           | Some c \<Rightarrow>
               (case c_object c of
                  GEphemeron key val broken \<Rightarrow>
                    (case weak_reachable h key of
                       None \<Rightarrow> None
                     | Some False \<Rightarrow> weak_pass h pending (i + 1) progress
                     | Some True \<Rightarrow>
                         (case mark_list h pending (targets [key, val]) of
                            None \<Rightarrow> None
                          | Some (h', pending') \<Rightarrow> weak_pass h' (drop_pending pending' i) i True))
                | _ \<Rightarrow> None))"
  by pat_completeness auto

definition weak_measure :: "(heap \<times> addr list \<times> nat) \<Rightarrow> nat \<times> nat" where
  "weak_measure = (\<lambda>(h, pending, i). (card (unmarked h), length pending - i))"

lemma card_unmarked_mono: "unmarked h' \<subseteq> unmarked h \<Longrightarrow> card (unmarked h') \<le> card (unmarked h)"
  by (intro card_mono) simp_all

lemma drop_pending_length [simp]: "length (drop_pending pending i) = length pending - 1"
  by (simp add: drop_pending_def)

lemma mark_list_measure:
  assumes "mark_list h pending as = Some (h', pending')"
  shows "card (unmarked h') < card (unmarked h) \<or> card (unmarked h') = card (unmarked h) \<and> pending' = pending"
proof (cases "unmarked h' = unmarked h")
  case True
  then show ?thesis using mark_list_progress [OF assms(1)] by auto
next
  case False
  then have "unmarked h' \<subset> unmarked h" using mark_list_progress [OF assms(1)] by blast
  then show ?thesis by (simp add: psubset_card_mono)
qed

termination weak_pass
proof (relation "inv_image ({(x, y). x < y} <*lex*> {(x, y). x < y})
    (\<lambda>(h, pending, i, progress). (card (unmarked h), length pending - i))", goal_cases)
  case 1
  show ?case by (intro wf_inv_image wf_lex_prod wf_less)
qed (auto dest!: mark_list_measure)

declare weak_pass.simps [simp del]

lemma weak_pass_measure:
  "weak_pass h pending i progress = Some (h', pending', p) \<Longrightarrow>
     (p = progress \<and> h' = h \<and> pending' = pending) \<or>
     (p \<and> (card (unmarked h') < card (unmarked h) \<or>
       card (unmarked h') = card (unmarked h) \<and> length pending' < length pending))"
proof (induction h pending i progress rule: weak_pass.induct)
  case (1 h pending i progress)
  show ?case
  proof (cases "i < length pending")
    case False
    then show ?thesis using "1.prems" by (simp add: weak_pass.simps [of h pending i progress])
  next
    case i: True
    then obtain c key val broken where c: "h (pending ! i) = Some c" "c_object c = GEphemeron key val broken"
      using "1.prems" by (auto simp: weak_pass.simps [of h pending i progress] split: option.splits gc_object.splits)
    show ?thesis
    proof (cases "weak_reachable h key")
      case None
      then show ?thesis using "1.prems" i c by (simp add: weak_pass.simps [of h pending i progress])
    next
      case (Some r)
      show ?thesis
      proof (cases r)
        case False
        then have w: "weak_pass h pending (i + 1) progress = Some (h', pending', p)"
          using "1.prems" i c Some by (simp add: weak_pass.simps [of h pending i progress])
        show ?thesis using "1.IH"(2) [OF _ c Some _ w] i False by simp
      next
        case True
        then obtain h1 p1 where m: "mark_list h pending (targets [key, val]) = Some (h1, p1)"
            and w: "weak_pass h1 (drop_pending p1 i) i True = Some (h', pending', p)"
          using "1.prems" i c Some by (auto simp: weak_pass.simps [of h pending i progress] split: option.splits)
        show ?thesis
          using "1.IH"(1) [OF _ c Some _ m refl w] True i mark_list_measure [OF m] i by auto
      qed
    qed
  qed
qed

function weak_fixpoint :: "heap \<Rightarrow> addr list \<Rightarrow> (heap \<times> addr list) option" where
  "weak_fixpoint h pending =
     (case weak_pass h pending 0 False of
        None \<Rightarrow> None
      | Some (h', pending', progress) \<Rightarrow> if progress then weak_fixpoint h' pending' else Some (h', pending'))"
  by pat_completeness auto
termination
proof (relation "inv_image ({(x, y). x < y} <*lex*> {(x, y). x < y}) (\<lambda>(h, pending). (card (unmarked h), length pending))", goal_cases)
  case 1
  show ?case by (intro wf_inv_image wf_lex_prod wf_less)
next
  case (2 h pending r h' r' pending' progress)
  then show ?case using weak_pass_measure [of h pending 0 False h' pending' progress] by auto
qed

declare weak_fixpoint.simps [simp del]

definition break_ephemeron :: "cell \<Rightarrow> cell" where
  "break_ephemeron c = c\<lparr>c_object := GEphemeron CH_FALSE CH_FALSE True\<rparr>"

fun break_ephemerons :: "heap \<Rightarrow> addr list \<Rightarrow> heap option" where
  "break_ephemerons h [] = Some h"
| "break_ephemerons h (a # as) =
     (case h a of None \<Rightarrow> None | Some c \<Rightarrow> break_ephemerons (h(a \<mapsto> break_ephemeron c)) as)"

definition process_weak_refs :: "heap \<Rightarrow> addr list \<Rightarrow> heap option" where
  "process_weak_refs h pending =
     (case weak_fixpoint h pending of None \<Rightarrow> None | Some (h', pending') \<Rightarrow> break_ephemerons h' pending')"

section \<open>Remembered set\<close>

text \<open>Whether an object refers to a young one: the look stops at the first that does.\<close>

fun any_young :: "heap \<Rightarrow> addr list \<Rightarrow> bool option" where
  "any_young h [] = Some False"
| "any_young h (a # as) =
     (if a = 0 then any_young h as
      else case h a of None \<Rightarrow> None | Some c \<Rightarrow> if \<not> c_old c then Some True else any_young h as)"

definition references_young :: "heap \<Rightarrow> gc_object \<Rightarrow> bool option" where
  "references_young h x = any_young h (young_candidates x)"

definition remembered_set_add :: "gc \<Rightarrow> addr \<Rightarrow> gc" where
  "remembered_set_add s a =
     (case gc_heap s a of
        None \<Rightarrow> s
      | Some c \<Rightarrow> if c_old c then s\<lparr>remembered_set := remembered_set s @ [a]\<rparr> else s)"

fun prune_loop :: "heap \<Rightarrow> addr list \<Rightarrow> addr list option" where
  "prune_loop h [] = Some []"
| "prune_loop h (a # as) =
     (case h a of
        None \<Rightarrow> None
      | Some c \<Rightarrow>
          (case (if c_old c then references_young h (c_object c) else Some False) of
             None \<Rightarrow> None
           | Some keep \<Rightarrow> map_option (\<lambda>rest. if keep then a # rest else rest) (prune_loop h as)))"

definition prune_remembered_set :: "gc \<Rightarrow> gc option" where
  "prune_remembered_set s = map_option (\<lambda>r. s\<lparr>remembered_set := r\<rparr>) (prune_loop (gc_heap s) (remembered_set s))"

section \<open>Sweeping\<close>

definition root_addresses :: "gc \<Rightarrow> addr list" where
  "root_addresses s =
     targets (vm_roots s) @ compiling_fns s @ targets (root_slots s) @ targets (extra_roots s) @ symbols s"

definition mark_roots_and_symbols :: "gc \<Rightarrow> (heap \<times> addr list) option" where
  "mark_roots_and_symbols s = mark_list (gc_heap s) [] (root_addresses s)"

fun sweep_list_major :: "heap \<Rightarrow> addr list \<Rightarrow> nat \<Rightarrow> nat \<Rightarrow> (heap \<times> addr list \<times> nat \<times> nat) option" where
  "sweep_list_major h [] count objects = Some (h, [], count, objects)"
| "sweep_list_major h (a # as) count objects =
     (case h a of
        None \<Rightarrow> None
      | Some c \<Rightarrow>
          if \<not> c_marked c then sweep_list_major (h(a := None)) as (count - 1) (objects - 1)
          else map_option (\<lambda>(h', kept, n, m). (h', a # kept, n, m))
                 (sweep_list_major (h(a \<mapsto> c\<lparr>c_marked := False\<rparr>)) as count objects))"

fun clear_marks :: "heap \<Rightarrow> addr list \<Rightarrow> heap option" where
  "clear_marks h [] = Some h"
| "clear_marks h (a # as) =
     (case h a of None \<Rightarrow> None | Some c \<Rightarrow> clear_marks (h(a \<mapsto> c\<lparr>c_marked := False\<rparr>)) as)"

text \<open>The new cell and lists of an object that becomes old.\<close>

definition make_old :: "gc \<Rightarrow> addr \<Rightarrow> cell \<Rightarrow> gc" where
  "make_old s a c =
     s\<lparr>gc_heap := (gc_heap s)(a \<mapsto> c\<lparr>c_old := True, c_age := 0\<rparr>), young_count := young_count s - 1,
       old_objects := a # old_objects s, old_count := old_count s + 1\<rparr>"

text \<open>The result has the objects that stay young, in the order of the list.\<close>

fun sweep_young_loop :: "addr list \<Rightarrow> gc \<Rightarrow> (addr list \<times> gc) option" where
  "sweep_young_loop [] s = Some ([], s)"
| "sweep_young_loop (a # as) s =
     (case gc_heap s a of
        None \<Rightarrow> None
      | Some c \<Rightarrow>
          if \<not> c_marked c
          then sweep_young_loop as (s\<lparr>gc_heap := (gc_heap s)(a := None), young_count := young_count s - 1,
                 object_count := object_count s - 1\<rparr>)
          else let c1 = c\<lparr>c_marked := False, c_age := c_age c + 1\<rparr> in
            if promotion_age s \<le> c_age c1
            then (case references_young (gc_heap (make_old s a c1)) (c_object c1) of
                    None \<Rightarrow> None
                  | Some y \<Rightarrow>
                      sweep_young_loop as (if y then remembered_set_add (make_old s a c1) a else make_old s a c1))
            else map_option (\<lambda>(kept, s'). (a # kept, s'))
                   (sweep_young_loop as (s\<lparr>gc_heap := (gc_heap s)(a \<mapsto> c1)\<rparr>)))"

definition sweep_young_minor :: "gc \<Rightarrow> gc option" where
  "sweep_young_minor s =
     map_option (\<lambda>(kept, s'). s'\<lparr>young_objects := kept\<rparr>) (sweep_young_loop (young_objects s) s)"

section \<open>Collections\<close>

text \<open>The contents of the remembered objects, without marking these themselves.\<close>

fun mark_remembered :: "heap \<Rightarrow> addr list \<Rightarrow> addr list \<Rightarrow> (heap \<times> addr list) option" where
  "mark_remembered h pending [] = Some (h, pending)"
| "mark_remembered h pending (a # as) =
     (case h a of
        None \<Rightarrow> None
      | Some c \<Rightarrow>
          (case mark_list h (if is_ephemeron (c_object c) then pending @ [a] else pending) (mark_children (c_object c)) of
             None \<Rightarrow> None
           | Some (h', pending') \<Rightarrow> mark_remembered h' pending' as))"

definition ch_gc_collect_minor :: "gc \<Rightarrow> gc option" where
  "ch_gc_collect_minor s =
     (case clear_marks (gc_heap s) (old_objects s) of
        None \<Rightarrow> None
      | Some h0 \<Rightarrow>
     (case mark_roots_and_symbols (s\<lparr>gc_heap := h0\<rparr>) of
        None \<Rightarrow> None
      | Some (h1, p1) \<Rightarrow>
     (case mark_remembered h1 p1 (remembered_set s) of
        None \<Rightarrow> None
      | Some (h2, p2) \<Rightarrow>
     (case process_weak_refs h2 p2 of
        None \<Rightarrow> None
      | Some h3 \<Rightarrow>
     (case sweep_young_minor (s\<lparr>gc_heap := h3\<rparr>) of
        None \<Rightarrow> None
      | Some s4 \<Rightarrow>
     (case prune_remembered_set s4 of
        None \<Rightarrow> None
      | Some s5 \<Rightarrow>
     (case clear_marks (gc_heap s5) (old_objects s5) of
        None \<Rightarrow> None
      | Some h6 \<Rightarrow>
          Some (s5\<lparr>gc_heap := h6, alloc_count := 0, minor_collections := minor_collections s5 + 1,
                   collections := collections s5 + 1,
                   threshold := object_count s5 * 2 + CH_GC_DEFAULT_THRESHOLD\<rparr>))))))))"

definition ch_gc_collect_major :: "gc \<Rightarrow> gc option" where
  "ch_gc_collect_major s =
     (case mark_roots_and_symbols s of
        None \<Rightarrow> None
      | Some (h1, p1) \<Rightarrow>
     (case process_weak_refs h1 p1 of
        None \<Rightarrow> None
      | Some h2 \<Rightarrow>
     (case sweep_list_major h2 (young_objects s) (young_count s) (object_count s) of
        None \<Rightarrow> None
      | Some (h3, young, ycount, objects3) \<Rightarrow>
     (case sweep_list_major h3 (old_objects s) (old_count s) objects3 of
        None \<Rightarrow> None
      | Some (h4, old, ocount, objects4) \<Rightarrow>
          Some (s\<lparr>gc_heap := h4, young_objects := young, young_count := ycount, old_objects := old, old_count := ocount,
                  object_count := objects4, remembered_set := [], alloc_count := 0,
                  major_collections := major_collections s + 1, collections := collections s + 1,
                  threshold := objects4 * 2 + CH_GC_DEFAULT_THRESHOLD\<rparr>)))))"

section \<open>The mutator\<close>

definition ch_gc_write_barrier :: "gc \<Rightarrow> addr \<Rightarrow> chvalue \<Rightarrow> gc option" where
  "ch_gc_write_barrier s owner v =
     (case gc_heap s owner of
        None \<Rightarrow> None
      | Some c \<Rightarrow>
          if \<not> c_old c \<or> \<not> ch_is_pointer v \<or> ch_to_object v = 0 then Some s
          else (case gc_heap s (ch_to_object v) of
                  None \<Rightarrow> None
                | Some child \<Rightarrow> Some (if c_old child then s else remembered_set_add s owner)))"

definition ch_gc_promote_to_old :: "gc \<Rightarrow> addr \<Rightarrow> gc option" where
  "ch_gc_promote_to_old s a =
     (case gc_heap s a of
        None \<Rightarrow> None
      | Some c \<Rightarrow>
          if c_old c \<or> a \<notin> set (young_objects s) then Some s
          else let s1 = (make_old s a c)\<lparr>young_objects := remove1 a (young_objects s)\<rparr> in
            (case references_young (gc_heap s1) (c_object c) of
               None \<Rightarrow> None
             | Some y \<Rightarrow> Some (if y then remembered_set_add s1 a else s1)))"

text \<open>
  A new object at the address that \<open>calloc\<close> returns, after the collections that may be due. The
  caller gives the object as it is right after the allocation.
\<close>

definition ch_gc_alloc :: "gc \<Rightarrow> addr \<Rightarrow> gc_object \<Rightarrow> gc option" where
  "ch_gc_alloc s a x =
     (let due = no_collect s = 0 \<and> threshold s \<le> alloc_count s in
      case (if due then ch_gc_collect_minor s else Some s) of
        None \<Rightarrow> None
      | Some s1 \<Rightarrow>
     (case (if due \<and> major_interval s1 \<noteq> 0 \<and> minor_collections s1 mod major_interval s1 = 0
            then ch_gc_collect_major s1 else Some s1) of
        None \<Rightarrow> None
      | Some s2 \<Rightarrow>
          Some (s2\<lparr>gc_heap := (gc_heap s2)(a \<mapsto> \<lparr>c_marked = False, c_old = False, c_age = 0, c_object = x\<rparr>),
                   young_objects := a # young_objects s2, young_count := young_count s2 + 1,
                   object_count := object_count s2 + 1, alloc_count := alloc_count s2 + 1\<rparr>)))"

definition CH_GC_ROOT_MAX :: nat where "CH_GC_ROOT_MAX = 65536"

definition ch_gc_push :: "gc \<Rightarrow> chvalue \<Rightarrow> gc option" where
  "ch_gc_push s v =
     (if CH_GC_ROOT_MAX \<le> length (root_slots s) then None else Some (s\<lparr>root_slots := root_slots s @ [v]\<rparr>))"

definition ch_gc_pop_n :: "gc \<Rightarrow> nat \<Rightarrow> gc option" where
  "ch_gc_pop_n s n =
     (if length (root_slots s) < n then None
      else Some (s\<lparr>root_slots := take (length (root_slots s) - n) (root_slots s)\<rparr>))"

definition ch_gc_cons :: "gc \<Rightarrow> addr \<Rightarrow> chvalue \<Rightarrow> chvalue \<Rightarrow> (chvalue \<times> gc) option" where
  "ch_gc_cons s a car cdr =
     Option.bind (ch_gc_push s car) (\<lambda>s1.
     Option.bind (ch_gc_push s1 cdr) (\<lambda>s2.
     Option.bind (ch_gc_alloc s2 a (GPair 0 0)) (\<lambda>s3.
     Option.bind (gc_heap s3 a) (\<lambda>c.
     Option.bind (ch_gc_pop_n (s3\<lparr>gc_heap := (gc_heap s3)(a \<mapsto> c\<lparr>c_object := GPair car cdr\<rparr>)\<rparr>) 2) (\<lambda>s4.
       Some (ch_make_pointer a, s4))))))"

text \<open>A store into a pair, as \<open>set-car!\<close> does it: the field, then the barrier.\<close>

definition gc_set_car :: "gc \<Rightarrow> addr \<Rightarrow> chvalue \<Rightarrow> gc option" where
  "gc_set_car s a v =
     Option.bind (gc_heap s a) (\<lambda>c.
       case c_object c of
         GPair x d \<Rightarrow> ch_gc_write_barrier (s\<lparr>gc_heap := (gc_heap s)(a \<mapsto> c\<lparr>c_object := GPair v d\<rparr>)\<rparr>) a v
       | _ \<Rightarrow> None)"

end
