(* ===== verification/Chaaya_Gc_Marking.thy ===== *)
theory Chaaya_Gc_Marking
  imports Chaaya_Gc
begin

text \<open>
  What the mark phase of the collector establishes: it never follows a freed reference, the marks
  are closed under references, and the ephemerons that stay pending are those whose keys are dead.
\<close>

section \<open>Heaps up to marks\<close>

definition marked :: "heap \<Rightarrow> addr set" where
  "marked h = {a. \<exists>c. h a = Some c \<and> c_marked c}"

definition strip :: "heap \<Rightarrow> heap" where
  "strip h = (\<lambda>a. map_option (\<lambda>c. c\<lparr>c_marked := False\<rparr>) (h a))"

definition object_of :: "heap \<Rightarrow> addr \<Rightarrow> gc_object option" where
  "object_of h a = map_option c_object (h a)"

lemma strip_at: "strip h = strip h' \<Longrightarrow>
    map_option (\<lambda>c. c\<lparr>c_marked := False\<rparr>) (h a) = map_option (\<lambda>c. c\<lparr>c_marked := False\<rparr>) (h' a)"
  by (simp add: strip_def fun_eq_iff)

lemma strip_dom: "strip h = strip h' \<Longrightarrow> dom h = dom h'"
proof -
  assume s: "strip h = strip h'"
  have "h a = None \<longleftrightarrow> h' a = None" for a using strip_at [OF s, of a] by (cases "h a"; cases "h' a") simp_all
  then show ?thesis by (simp add: dom_def)
qed

lemma strip_object: "strip h = strip h' \<Longrightarrow> object_of h a = object_of h' a"
proof -
  assume "strip h = strip h'"
  then have "map_option c_object (strip h a) = map_option c_object (strip h' a)" by simp
  then show ?thesis by (simp add: strip_def object_of_def option.map_comp comp_def)
qed

lemma strip_cell:
  assumes "strip h = strip h'" "h a = Some c"
  shows "\<exists>c'. h' a = Some c' \<and> c'\<lparr>c_marked := False\<rparr> = c\<lparr>c_marked := False\<rparr>"
  using strip_at [OF assms(1), of a] assms(2) by (cases "h' a") simp_all

lemma strip_mark: "h a = Some c \<Longrightarrow> strip (h(a \<mapsto> c\<lparr>c_marked := m\<rparr>)) = strip h"
  by (auto simp: strip_def)

lemma marked_mark: "h a = Some c \<Longrightarrow> marked (h(a \<mapsto> c\<lparr>c_marked := True\<rparr>)) = insert a (marked h)"
  by (auto simp: marked_def)

lemma marked_dom: "marked h \<subseteq> dom h"
  by (auto simp: marked_def)

definition ephemerons :: "heap \<Rightarrow> addr set" where
  "ephemerons h = {a. \<exists>x. object_of h a = Some x \<and> is_ephemeron x}"

definition children_of :: "heap \<Rightarrow> addr \<Rightarrow> addr set" where
  "children_of h a = (case object_of h a of None \<Rightarrow> {} | Some x \<Rightarrow> set (mark_children x) - {0})"

lemma strip_sets:
  assumes "strip h = strip h'"
  shows "ephemerons h = ephemerons h'" "children_of h = children_of h'" "object_of h = object_of h'" "dom h = dom h'"
  using strip_object [OF assms] strip_dom [OF assms] by (simp_all add: ephemerons_def children_of_def fun_eq_iff)

section \<open>One traversal\<close>

lemma mark_list_spec:
  "mark_list h pending as = Some (h', pending') \<Longrightarrow>
     strip h' = strip h \<and> marked h \<subseteq> marked h' \<and> set as - {0} \<subseteq> marked h' \<and>
     (\<forall>a \<in> marked h' - marked h. children_of h a \<subseteq> marked h') \<and>
     set pending' = set pending \<union> (marked h' - marked h) \<inter> ephemerons h"
proof (induction h pending as arbitrary: h' pending' rule: mark_list.induct)
  case (2 h pending a as)
  show ?case
  proof (cases "a = 0")
    case True
    then show ?thesis using "2.IH"(1) [OF True] "2.prems" by auto
  next
    case a: False
    show ?thesis
    proof (cases "h a")
      case None
      then show ?thesis using "2.prems" a by simp
    next
      case (Some c)
      show ?thesis
      proof (cases "c_marked c")
        case True
        then have m: "mark_list h pending as = Some (h', pending')" using "2.prems" a Some by simp
        have "a \<in> marked h" using Some True by (auto simp: marked_def)
        then show ?thesis using "2.IH"(2) [OF a Some True m] by auto
      next
        case False
        let ?h = "h(a \<mapsto> c\<lparr>c_marked := True\<rparr>)"
        let ?p = "if is_ephemeron (c_object c) then pending @ [a] else pending"
        have m: "mark_list ?h ?p (mark_children (c_object c) @ as) = Some (h', pending')" using "2.prems" a Some False by simp
        obtain hh where hh: "hh = ?h" by blast
        have m': "mark_list hh ?p (mark_children (c_object c) @ as) = Some (h', pending')" using m hh by simp
        have IH: "strip h' = strip hh \<and> marked hh \<subseteq> marked h' \<and> set (mark_children (c_object c) @ as) - {0} \<subseteq> marked h' \<and>
            (\<forall>a \<in> marked h' - marked hh. children_of hh a \<subseteq> marked h') \<and>
            set pending' = set ?p \<union> (marked h' - marked hh) \<inter> ephemerons hh"
          unfolding hh by (rule "2.IH"(3) [OF a Some False m])
        have s: "strip hh = strip h" using Some unfolding hh by (rule strip_mark)
        have mk: "marked hh = insert a (marked h)" using Some unfolding hh by (rule marked_mark)
        have n: "a \<notin> marked h" using Some False by (auto simp: marked_def)
        have o: "object_of h a = Some (c_object c)" using Some by (simp add: object_of_def)
        have ca: "children_of h a \<subseteq> marked h'" using IH o by (auto simp: children_of_def)
        have e: "a \<in> ephemerons h \<longleftrightarrow> is_ephemeron (c_object c)" using o by (simp add: ephemerons_def)
        have am: "a \<in> marked h'" using IH mk by blast
        have "set pending' = set pending \<union> (marked h' - marked h) \<inter> ephemerons h"
          using IH mk strip_sets(1) [OF s] e am n by (auto split: if_splits)
        then show ?thesis using IH s mk ca am strip_sets(2) [OF s] a by auto
      qed
    qed
  qed
qed simp

text \<open>A set that is closed under references and has no freed address in it bounds the traversal.\<close>

definition closed :: "heap \<Rightarrow> addr set \<Rightarrow> bool" where
  "closed h S \<longleftrightarrow> S \<subseteq> dom h \<and> (\<forall>a \<in> S. children_of h a \<subseteq> S)"

lemma closed_strip: "strip h = strip h' \<Longrightarrow> closed h S = closed h' S"
  using strip_sets [of h h'] by (simp add: closed_def)

lemma mark_list_returns:
  "closed h S \<Longrightarrow> set as - {0} \<subseteq> S \<Longrightarrow> \<exists>h' pending'. mark_list h pending as = Some (h', pending') \<and> marked h' \<subseteq> marked h \<union> S"
proof (induction h pending as rule: mark_list.induct)
  case (2 h pending a as)
  show ?case
  proof (cases "a = 0")
    case True
    then show ?thesis using "2.IH"(1) [OF True] "2.prems" by auto
  next
    case a: False
    then have aS: "a \<in> S" using "2.prems" by auto
    then obtain c where c: "h a = Some c" using "2.prems"(1) by (auto simp: closed_def)
    show ?thesis
    proof (cases "c_marked c")
      case True
      then show ?thesis using "2.IH"(2) [OF a c True] "2.prems" a c by auto
    next
      case False
      let ?h = "h(a \<mapsto> c\<lparr>c_marked := True\<rparr>)"
      have cl: "closed ?h S" using closed_strip [of ?h h S] strip_mark [of h a c True] c "2.prems"(1) by blast
      have "object_of h a = Some (c_object c)" using c by (simp add: object_of_def)
      moreover have "children_of h a \<subseteq> S" using "2.prems"(1) aS by (simp add: closed_def)
      ultimately have "set (mark_children (c_object c)) - {0} \<subseteq> S" by (simp add: children_of_def)
      then have "set (mark_children (c_object c) @ as) - {0} \<subseteq> S" using "2.prems"(2) by auto
      then obtain h' p' where "mark_list ?h (if is_ephemeron (c_object c) then pending @ [a] else pending)
            (mark_children (c_object c) @ as) = Some (h', p')" "marked h' \<subseteq> marked ?h \<union> S"
        using "2.IH"(3) [OF a c False cl] by blast
      then show ?thesis using a c False aS marked_mark [of h a c] by auto
    qed
  qed
qed simp

section \<open>Liveness\<close>

text \<open>All the references of an object, those of an ephemeron included.\<close>

definition refs_of :: "heap \<Rightarrow> addr \<Rightarrow> addr set" where
  "refs_of h a = children_of h a \<union>
     (case object_of h a of Some (GEphemeron key val broken) \<Rightarrow> set (targets [key, val]) - {0} | _ \<Rightarrow> {})"

text \<open>A set of allocated objects that no reference leaves.\<close>

definition intact :: "heap \<Rightarrow> addr set \<Rightarrow> bool" where
  "intact h S \<longleftrightarrow> S \<subseteq> dom h \<and> (\<forall>a \<in> S. refs_of h a \<subseteq> S)"

definition key_alive :: "addr set \<Rightarrow> chvalue \<Rightarrow> bool" where
  "key_alive L key \<longleftrightarrow> \<not> ch_is_pointer key \<or> ch_to_object key \<noteq> 0 \<and> ch_to_object key \<in> L"

text \<open>
  The objects that roots and the contents of further objects keep alive: an ephemeron keeps its
  value alive when its key is alive without it.
\<close>

inductive_set live :: "heap \<Rightarrow> addr set \<Rightarrow> addr set \<Rightarrow> addr set" for h R V where
  live_root: "a \<in> R \<Longrightarrow> a \<noteq> 0 \<Longrightarrow> a \<in> live h R V"
| live_child: "a \<in> live h R V \<or> a \<in> V \<Longrightarrow> b \<in> children_of h a \<Longrightarrow> b \<in> live h R V"
| live_value: "a \<in> live h R V \<or> a \<in> V \<Longrightarrow> object_of h a = Some (GEphemeron key val broken) \<Longrightarrow>
    \<not> ch_is_pointer key \<or> ch_to_object key \<noteq> 0 \<and> ch_to_object key \<in> live h R V \<Longrightarrow>
    b \<in> set (targets [val]) - {0} \<Longrightarrow> b \<in> live h R V"

lemma ephemeronE:
  assumes "a \<in> ephemerons h"
  obtains key val broken where "object_of h a = Some (GEphemeron key val broken)"
proof -
  obtain x where x: "object_of h a = Some x" "is_ephemeron x" using assms by (auto simp: ephemerons_def)
  then show ?thesis using that by (cases x) (simp_all add: is_ephemeron_def)
qed

lemma ephemeronI: "object_of h a = Some (GEphemeron key val broken) \<Longrightarrow> a \<in> ephemerons h"
  by (simp add: ephemerons_def is_ephemeron_def)

lemma strip_refs: "strip h = strip h' \<Longrightarrow> refs_of h = refs_of h'"
  using strip_sets [of h h'] by (simp add: refs_of_def fun_eq_iff)

lemma intact_strip: "strip h = strip h' \<Longrightarrow> intact h S = intact h' S"
  using strip_sets(4) [of h h'] strip_refs [of h h'] by (simp add: intact_def)

lemma intact_closed: "intact h S \<Longrightarrow> closed h S"
  by (auto simp: intact_def closed_def refs_of_def)

lemma key_alive_mono: "key_alive L key \<Longrightarrow> L \<subseteq> L' \<Longrightarrow> key_alive L' key"
  by (auto simp: key_alive_def)

lemma weak_reachable_marked:
  assumes "ch_is_pointer key \<Longrightarrow> ch_to_object key \<noteq> 0 \<Longrightarrow> ch_to_object key \<in> dom h"
  shows "weak_reachable h key = Some (key_alive (marked h) key)"
  using assms by (auto simp: weak_reachable_def key_alive_def marked_def)

lemma targets_pointer: "ch_is_pointer v \<Longrightarrow> targets (v # vs) = ch_to_object v # targets vs"
  by (simp add: targets_def)

lemma targets_immediate: "\<not> ch_is_pointer v \<Longrightarrow> targets (v # vs) = targets vs"
  by (simp add: targets_def)

lemma targets_Nil [simp]: "targets [] = []"
  by (simp add: targets_def)

lemma targets_two: "set (targets [k, v]) = set (targets [k]) \<union> set (targets [v])"
  by (simp add: targets_def)

lemma key_alive_targets: "key_alive L key \<Longrightarrow> set (targets [key]) - {0} \<subseteq> L"
  by (auto simp: key_alive_def targets_def)

lemma intact_key:
  assumes "intact h S" "a \<in> S" "object_of h a = Some (GEphemeron key val broken)" "ch_is_pointer key" "ch_to_object key \<noteq> 0"
  shows "ch_to_object key \<in> dom h"
proof -
  have "ch_to_object key \<in> refs_of h a" using assms(3-5) by (simp add: refs_of_def targets_def)
  then show ?thesis using assms(1,2) by (auto simp: intact_def)
qed

lemma live_intact:
  assumes "intact h S" "R - {0} \<subseteq> S" "V \<subseteq> S"
  shows "live h R V \<subseteq> S"
proof
  fix a
  assume "a \<in> live h R V"
  then show "a \<in> S"
  proof (induction rule: live.induct)
    case (live_child a b)
    then have "b \<in> refs_of h a" "a \<in> S" using assms(3) by (auto simp: refs_of_def)
    then show ?case using assms(1) by (auto simp: intact_def)
  next
    case (live_value a key val broken b)
    then have "b \<in> refs_of h a" "a \<in> S" using assms(3) by (auto simp: refs_of_def targets_two)
    then show ?case using assms(1) by (auto simp: intact_def)
  qed (use assms(2) in auto)
qed

section \<open>Pending ephemerons\<close>

definition finished :: "heap \<Rightarrow> addr set \<Rightarrow> addr \<Rightarrow> bool" where
  "finished h L a \<longleftrightarrow> (\<exists>key val broken. object_of h a = Some (GEphemeron key val broken) \<and> key_alive L key \<and>
     set (targets [key, val]) - {0} \<subseteq> L)"

text \<open>
  The state of the mark phase between two ephemerons: \<open>h0\<close> is the heap it began on, \<open>R\<close> the roots
  and \<open>V\<close> the remembered objects.
\<close>

definition weak_inv :: "heap \<Rightarrow> addr set \<Rightarrow> addr set \<Rightarrow> heap \<Rightarrow> addr list \<Rightarrow> bool" where
  "weak_inv h0 R V h pending \<longleftrightarrow>
     strip h = strip h0 \<and> marked h \<subseteq> live h0 R V \<and> R - {0} \<subseteq> marked h \<and>
     (\<forall>a \<in> marked h \<union> V. children_of h0 a \<subseteq> marked h) \<and>
     (\<forall>a \<in> (marked h \<union> V) \<inter> ephemerons h0. a \<in> set pending \<or> finished h0 (marked h) a) \<and>
     set pending \<subseteq> (marked h \<union> V) \<inter> ephemerons h0"

lemma weak_invD:
  assumes "weak_inv h0 R V h pending"
  shows "strip h = strip h0" "marked h \<subseteq> live h0 R V" "R - {0} \<subseteq> marked h"
    "a \<in> marked h \<union> V \<Longrightarrow> children_of h0 a \<subseteq> marked h"
    "a \<in> marked h \<union> V \<Longrightarrow> a \<in> ephemerons h0 \<Longrightarrow> a \<in> set pending \<or> finished h0 (marked h) a"
    "set pending \<subseteq> marked h \<union> V" "set pending \<subseteq> ephemerons h0"
  using assms by (auto simp: weak_inv_def)

lemma finished_mono: "finished h L a \<Longrightarrow> L \<subseteq> L' \<Longrightarrow> finished h L' a"
  unfolding finished_def by (meson key_alive_mono subset_trans)

lemma drop_pending_set:
  assumes "i < length pending"
  shows "set pending - {pending ! i} \<subseteq> set (drop_pending pending i)" "set (drop_pending pending i) \<subseteq> set pending"
proof -
  have ne: "pending \<noteq> []" using assms by auto
  show "set (drop_pending pending i) \<subseteq> set pending"
    unfolding drop_pending_def
    by (meson ne in_set_butlastD last_in_set set_update_subsetI subset_iff order_refl)
  show "set pending - {pending ! i} \<subseteq> set (drop_pending pending i)"
  proof
    fix x
    assume "x \<in> set pending - {pending ! i}"
    then obtain j where j: "j < length pending" "pending ! j = x" "j \<noteq> i" by (auto simp: in_set_conv_nth)
    show "x \<in> set (drop_pending pending i)"
    proof (cases "j = length pending - 1")
      case True
      then have "x = last pending" using j ne by (simp add: last_conv_nth)
      moreover have "i < length pending - 1" using True j assms by simp
      ultimately have "drop_pending pending i ! i = x" by (simp add: drop_pending_def nth_butlast)
      then show ?thesis using \<open>i < length pending - 1\<close> by (metis drop_pending_length nth_mem)
    next
      case False
      then have "j < length pending - 1" using j by simp
      moreover from this have "drop_pending pending i ! j = x" using j by (simp add: drop_pending_def nth_butlast)
      ultimately show ?thesis by (metis drop_pending_length nth_mem)
    qed
  qed
qed

lemma live_mono: "R \<subseteq> R' \<Longrightarrow> V \<subseteq> V' \<Longrightarrow> live h R V \<subseteq> live h R' V'"
proof
  fix a
  assume sub: "R \<subseteq> R'" "V \<subseteq> V'" and "a \<in> live h R V"
  from this(3) show "a \<in> live h R' V'"
  proof (induction rule: live.induct)
    case (live_root a)
    then show ?case using sub by (auto intro: live.live_root)
  next
    case (live_child a b)
    then show ?case using sub by (auto intro: live.live_child)
  next
    case (live_value a key val broken b)
    then show ?case using sub by (auto intro: live.live_value)
  qed
qed

lemma live_closed: "live h R V \<subseteq> dom h \<Longrightarrow> closed h (live h R V)"
  by (auto simp: closed_def intro: live_child)

lemma live_ephemeron:
  assumes "a \<in> live h R V \<or> a \<in> V" "object_of h a = Some (GEphemeron key val broken)" "key_alive (live h R V) key"
  shows "set (targets [key, val]) - {0} \<subseteq> live h R V"
proof -
  have "set (targets [val]) - {0} \<subseteq> live h R V"
    using live_value [OF assms(1,2)] assms(3) by (auto simp: key_alive_def)
  then show ?thesis using key_alive_targets [OF assms(3)] targets_two [of key val] by blast
qed

text \<open>
  Marking more, from new roots and the contents of new remembered objects, leads from a state of the
  phase to a state of the phase.
\<close>

lemma weak_inv_mark:
  assumes inv: "weak_inv h0 R V h pending" and sub: "R \<subseteq> R'" "V \<subseteq> V'"
    and m: "mark_list h (pending @ new) as = Some (h', pending')"
    and dom: "live h0 R' V' \<subseteq> dom h0"
    and as: "set as - {0} \<subseteq> live h0 R' V'" "R' - R - {0} \<subseteq> set as" "\<And>a. a \<in> V' - V \<Longrightarrow> children_of h0 a \<subseteq> set as"
    and new: "(V' - V) \<inter> ephemerons h0 \<subseteq> set new" "set new \<subseteq> V' \<inter> ephemerons h0"
  shows "weak_inv h0 R' V' h' pending'"
proof -
  have s: "strip h = strip h0" and lv: "marked h \<subseteq> live h0 R V" and R: "R - {0} \<subseteq> marked h"
    and ch: "\<And>a. a \<in> marked h \<union> V \<Longrightarrow> children_of h0 a \<subseteq> marked h"
    and ep: "\<And>a. a \<in> (marked h \<union> V) \<inter> ephemerons h0 \<Longrightarrow> a \<in> set pending \<or> finished h0 (marked h) a"
    and pe: "set pending \<subseteq> (marked h \<union> V) \<inter> ephemerons h0"
    using inv by (auto simp: weak_inv_def)
  note M = mark_list_spec [OF m]
  then have s': "strip h' = strip h0" and mono: "marked h \<subseteq> marked h'" and am: "set as - {0} \<subseteq> marked h'"
    and nch: "\<And>a. a \<in> marked h' - marked h \<Longrightarrow> children_of h0 a \<subseteq> marked h'"
    and p': "set pending' = set pending \<union> set new \<union> (marked h' - marked h) \<inter> ephemerons h0"
    using s strip_sets(1,2) [OF s] by auto
  have "closed h (live h0 R' V')" using live_closed [OF dom] closed_strip [OF s] by simp
  then have "marked h' \<subseteq> marked h \<union> live h0 R' V'"
    using mark_list_returns [OF _ as(1), of h "pending @ new"] m by auto
  then have lv': "marked h' \<subseteq> live h0 R' V'" using lv live_mono [OF sub, of h0] by blast
  have R': "R' - {0} \<subseteq> marked h'" using R mono am as(2) by blast
  have ch': "children_of h0 a \<subseteq> marked h'" if a: "a \<in> marked h' \<union> V'" for a
  proof -
    consider "a \<in> marked h' - marked h" | "a \<in> marked h \<union> V" | "a \<in> V' - V" using a by blast
    then show ?thesis
    proof cases
      case 3
      have "0 \<notin> children_of h0 a" by (simp add: children_of_def split: option.split)
      then show ?thesis using as(3) [OF 3] am by blast
    qed (use nch ch mono in blast)+
  qed
  have ep': "a \<in> set pending' \<or> finished h0 (marked h') a" if "a \<in> (marked h' \<union> V') \<inter> ephemerons h0" for a
    using that ep [of a] p' new finished_mono [OF _ mono, of h0 a] by blast
  have "set pending' \<subseteq> (marked h' \<union> V') \<inter> ephemerons h0" using p' pe new(2) sub(2) mono by blast
  then show ?thesis using s' lv' R' ch' ep' by (simp add: weak_inv_def)
qed

lemma weak_inv_start: "marked h = {} \<Longrightarrow> weak_inv h {} {} h []"
  by (simp add: weak_inv_def)

text \<open>An ephemeron whose key is alive is marked from and leaves the list.\<close>

lemma weak_inv_finish:
  assumes inv: "weak_inv h0 R V h pending" and dom: "live h0 R V \<subseteq> dom h0" and i: "i < length pending"
    and x: "object_of h0 (pending ! i) = Some (GEphemeron key val broken)" and k: "key_alive (marked h) key"
    and m: "mark_list h pending (targets [key, val]) = Some (h', pending')"
  shows "weak_inv h0 R V h' (drop_pending pending' i)"
proof -
  let ?a = "pending ! i"
  have "?a \<in> set pending" using i by simp
  then have lv: "marked h \<subseteq> live h0 R V" and "?a \<in> marked h \<union> V" using weak_invD(2,6) [OF inv] by blast+
  then have aV: "?a \<in> live h0 R V \<or> ?a \<in> V" by blast
  have kl: "key_alive (live h0 R V) key" using key_alive_mono [OF k lv] .
  note as = live_ephemeron [OF aV x kl]
  have w: "weak_inv h0 R V h' pending'"
    by (rule weak_inv_mark [OF inv subset_refl subset_refl, of "[]"]) (use m dom as in auto)
  have mono: "marked h \<subseteq> marked h'" and am: "set (targets [key, val]) - {0} \<subseteq> marked h'"
    using mark_list_spec [OF m] by auto
  then have fin: "finished h0 (marked h') ?a" using x key_alive_mono [OF k mono] by (auto simp: finished_def)
  have i': "i < length pending'" "pending' ! i = ?a"
    using mark_list_progress [OF m] i by (auto simp: nth_append)
  have "set pending' - {?a} \<subseteq> set (drop_pending pending' i)" "set (drop_pending pending' i) \<subseteq> set pending'"
    using drop_pending_set [OF i'(1)] i'(2) by simp_all
  note drop = this
  have "b \<in> set (drop_pending pending' i) \<or> finished h0 (marked h') b" if "b \<in> marked h' \<union> V" "b \<in> ephemerons h0" for b
    using weak_invD(5) [OF w that] fin drop(1) by blast
  moreover have "set (drop_pending pending' i) \<subseteq> marked h' \<union> V" "set (drop_pending pending' i) \<subseteq> ephemerons h0"
    using drop(2) weak_invD(6,7) [OF w] by blast+
  ultimately show ?thesis using weak_invD(1-4) [OF w] by (simp add: weak_inv_def)
qed

section \<open>The fixpoint\<close>

definition dead_key :: "heap \<Rightarrow> addr set \<Rightarrow> addr \<Rightarrow> bool" where
  "dead_key h L a \<longleftrightarrow> (\<exists>key val broken. object_of h a = Some (GEphemeron key val broken) \<and> \<not> key_alive L key)"

lemma weak_inv_at:
  assumes inv: "weak_inv h0 R V h pending" and ok: "intact h0 S" "R - {0} \<subseteq> S" "V \<subseteq> S" and a: "a \<in> set pending"
  obtains c key val broken where "h a = Some c" "c_object c = GEphemeron key val broken"
    "object_of h0 a = Some (GEphemeron key val broken)" "weak_reachable h key = Some (key_alive (marked h) key)"
proof -
  have s: "strip h = strip h0" and e: "a \<in> ephemerons h0" and aS: "a \<in> S"
    using weak_invD(1,2,6,7) [OF inv] a live_intact [OF ok] ok(3) by blast+
  obtain key val broken where x: "object_of h0 a = Some (GEphemeron key val broken)" using e by (rule ephemeronE)
  then have "object_of h a = Some (GEphemeron key val broken)" using strip_sets(3) [OF s] by simp
  then obtain c where c: "h a = Some c" "c_object c = GEphemeron key val broken" by (auto simp: object_of_def)
  have "weak_reachable h key = Some (key_alive (marked h) key)"
    by (rule weak_reachable_marked) (use intact_key [OF ok(1) aS x] strip_sets(4) [OF s] in simp)
  then show ?thesis using that [OF c x] by simp
qed

lemma weak_pass_spec:
  assumes ok: "intact h0 S" "R - {0} \<subseteq> S" "V \<subseteq> S"
  shows "weak_inv h0 R V h pending \<Longrightarrow>
    \<exists>h' pending' p. weak_pass h pending i progress = Some (h', pending', p) \<and> weak_inv h0 R V h' pending' \<and>
      (\<not> p \<longrightarrow> (\<forall>j. i \<le> j \<and> j < length pending \<longrightarrow> dead_key h0 (marked h) (pending ! j)))"
proof (induction h pending i progress rule: weak_pass.induct)
  case (1 h pending i progress)
  have dom: "live h0 R V \<subseteq> dom h0" using live_intact [OF ok] ok(1) by (auto simp: intact_def)
  show ?case
  proof (cases "i < length pending")
    case False
    then have "weak_pass h pending i progress = Some (h, pending, progress)"
      by (simp add: weak_pass.simps [of h pending i progress])
    then show ?thesis using "1.prems" False by auto
  next
    case i: True
    then have "pending ! i \<in> set pending" by simp
    from weak_inv_at [OF "1.prems" ok this] obtain c key val broken where
      c: "h (pending ! i) = Some c" "c_object c = GEphemeron key val broken"
      and x: "object_of h0 (pending ! i) = Some (GEphemeron key val broken)"
      and w: "weak_reachable h key = Some (key_alive (marked h) key)" .
    have ni: "\<not> length pending \<le> i" using i by simp
    show ?thesis
    proof (cases "key_alive (marked h) key")
      case False
      have eq: "weak_pass h pending i progress = weak_pass h pending (i + 1) progress"
        using i c w False by (simp add: weak_pass.simps [of h pending i progress])
      obtain h' pending' p where r: "weak_pass h pending (i + 1) progress = Some (h', pending', p)"
          "weak_inv h0 R V h' pending'"
          "\<not> p \<longrightarrow> (\<forall>j. i + 1 \<le> j \<and> j < length pending \<longrightarrow> dead_key h0 (marked h) (pending ! j))"
        using "1.IH"(2) [OF ni c w _ "1.prems"] False by blast
      have "dead_key h0 (marked h) (pending ! i)" using x False by (auto simp: dead_key_def)
      then have "\<not> p \<longrightarrow> (\<forall>j. i \<le> j \<and> j < length pending \<longrightarrow> dead_key h0 (marked h) (pending ! j))"
        using r(3) by (metis Suc_eq_plus1 Suc_leI le_neq_implies_less)
      then show ?thesis using eq r by auto
    next
      case k: True
      have kl: "key_alive (live h0 R V) key" using "1.prems" key_alive_mono [OF k] by (simp add: weak_inv_def)
      have aV: "pending ! i \<in> live h0 R V \<or> pending ! i \<in> V"
        using weak_invD(2,6) [OF "1.prems"] \<open>pending ! i \<in> set pending\<close> by blast
      note as = live_ephemeron [OF aV x kl]
      have "closed h (live h0 R V)"
        using live_closed [OF dom] closed_strip [of h h0] "1.prems" by (simp add: weak_inv_def)
      then obtain h1 p1 where m: "mark_list h pending (targets [key, val]) = Some (h1, p1)"
        using mark_list_returns [OF _ as] by blast
      have eq: "weak_pass h pending i progress = weak_pass h1 (drop_pending p1 i) i True"
        using i c w k m by (simp add: weak_pass.simps [of h pending i progress])
      have inv: "weak_inv h0 R V h1 (drop_pending p1 i)" by (rule weak_inv_finish [OF "1.prems" dom i x k m])
      obtain h' pending' p where r: "weak_pass h1 (drop_pending p1 i) i True = Some (h', pending', p)" "weak_inv h0 R V h' pending'"
        using "1.IH"(1) [OF ni c w _ m refl inv] k by blast
      have "p" using weak_pass_measure [OF r(1)] by auto
      then show ?thesis using eq r by auto
    qed
  qed
qed

lemma weak_fixpoint_spec:
  assumes ok: "intact h0 S" "R - {0} \<subseteq> S" "V \<subseteq> S"
  shows "weak_inv h0 R V h pending \<Longrightarrow>
    \<exists>h' pending'. weak_fixpoint h pending = Some (h', pending') \<and> weak_inv h0 R V h' pending' \<and>
      (\<forall>a \<in> set pending'. dead_key h0 (marked h') a)"
proof (induction h pending rule: weak_fixpoint.induct)
  case (1 h pending)
  obtain h' pending' p where r: "weak_pass h pending 0 False = Some (h', pending', p)" "weak_inv h0 R V h' pending'"
      "\<not> p \<Longrightarrow> \<forall>j < length pending. dead_key h0 (marked h) (pending ! j)"
    using weak_pass_spec [OF ok "1.prems", of 0 False] by auto
  show ?case
  proof (cases p)
    case True
    then show ?thesis using "1.IH" [OF r(1) refl refl True r(2)] r(1) by (simp add: weak_fixpoint.simps [of h pending])
  next
    case False
    then have "h' = h" "pending' = pending" using weak_pass_measure [OF r(1)] by auto
    then show ?thesis using r False by (auto simp: weak_fixpoint.simps [of h pending] in_set_conv_nth)
  qed
qed

lemma weak_inv_complete:
  assumes inv: "weak_inv h0 R V h pending" and dead: "\<forall>a \<in> set pending. dead_key h0 (marked h) a"
  shows "marked h = live h0 R V"
proof
  show "live h0 R V \<subseteq> marked h"
  proof
    fix a
    assume "a \<in> live h0 R V"
    then show "a \<in> marked h"
    proof (induction rule: live.induct)
      case (live_root a)
      then show ?case using inv by (auto simp: weak_inv_def)
    next
      case (live_child a b)
      then show ?case using weak_invD(4) [OF inv] by blast
    next
      case (live_value a key val broken b)
      have k: "key_alive (marked h) key" using live_value.IH by (auto simp: key_alive_def)
      then have "\<not> dead_key h0 (marked h) a" using live_value.hyps by (simp add: dead_key_def)
      then have "a \<notin> set pending" using dead by blast
      moreover have "a \<in> marked h \<union> V" "a \<in> ephemerons h0" using live_value.IH live_value.hyps ephemeronI by blast+
      ultimately have "finished h0 (marked h) a" using weak_invD(5) [OF inv] by blast
      then show ?case using live_value.hyps targets_two [of key val] by (auto simp: finished_def)
    qed
  qed
qed (use inv in \<open>simp add: weak_inv_def\<close>)

section \<open>The mark phase\<close>

text \<open>The heap that the mark phase leaves: the live objects marked, the ephemerons with dead keys broken.\<close>

definition mark_result :: "heap \<Rightarrow> addr set \<Rightarrow> addr set \<Rightarrow> heap" where
  "mark_result h L V =
     (\<lambda>a. map_option (\<lambda>c. (if a \<in> L \<union> V \<and> dead_key h L a then break_ephemeron c else c)\<lparr>c_marked := a \<in> L\<rparr>) (h a))"

lemma break_ephemerons_spec:
  "set as \<subseteq> dom h \<Longrightarrow>
     break_ephemerons h as = Some (\<lambda>a. if a \<in> set as then map_option break_ephemeron (h a) else h a)"
proof (induction as arbitrary: h)
  case (Cons a as)
  then obtain c where c: "h a = Some c" by auto
  have "set as \<subseteq> dom (h(a \<mapsto> break_ephemeron c))" using Cons.prems by auto
  then have IH: "break_ephemerons (h(a \<mapsto> break_ephemeron c)) as =
      Some (\<lambda>b. if b \<in> set as then map_option break_ephemeron ((h(a \<mapsto> break_ephemeron c)) b) else (h(a \<mapsto> break_ephemeron c)) b)"
    by (rule Cons.IH)
  have "(if b \<in> set as then map_option break_ephemeron ((h(a \<mapsto> break_ephemeron c)) b) else (h(a \<mapsto> break_ephemeron c)) b) =
      (if b \<in> set (a # as) then map_option break_ephemeron (h b) else h b)" for b
    using c by (simp add: break_ephemeron_def)
  then show ?case using c IH by simp
qed simp

lemma strip_marks:
  assumes "strip h = strip h0" "marked h = L"
  shows "h a = map_option (\<lambda>c. c\<lparr>c_marked := a \<in> L\<rparr>) (h0 a)"
proof (cases "h a")
  case None
  then show ?thesis using strip_at [OF assms(1), of a] by (cases "h0 a") simp_all
next
  case (Some c)
  then obtain c0 where c0: "h0 a = Some c0" "c0\<lparr>c_marked := False\<rparr> = c\<lparr>c_marked := False\<rparr>"
    using strip_cell [OF assms(1)] by blast
  have "a \<in> L \<longleftrightarrow> c_marked c" using Some assms(2) by (auto simp: marked_def)
  moreover have "c0\<lparr>c_marked := c_marked c\<rparr> = (c0\<lparr>c_marked := False\<rparr>)\<lparr>c_marked := c_marked c\<rparr>" by simp
  ultimately have "c0\<lparr>c_marked := a \<in> L\<rparr> = c" using c0(2) by simp
  then show ?thesis using Some c0(1) by simp
qed

lemma process_weak_refs_spec:
  assumes inv: "weak_inv h0 R V h pending" and ok: "intact h0 S" "R - {0} \<subseteq> S" "V \<subseteq> S"
  shows "process_weak_refs h pending = Some (mark_result h0 (live h0 R V) V)"
proof -
  let ?L = "live h0 R V"
  obtain h1 p1 where f: "weak_fixpoint h pending = Some (h1, p1)" and w: "weak_inv h0 R V h1 p1"
      and d: "\<forall>a \<in> set p1. dead_key h0 (marked h1) a"
    using weak_fixpoint_spec [OF ok inv] by blast
  have L: "marked h1 = ?L" by (rule weak_inv_complete [OF w d])
  have p1: "a \<in> set p1 \<longleftrightarrow> a \<in> ?L \<union> V \<and> dead_key h0 ?L a" for a
  proof
    assume "a \<in> set p1"
    then show "a \<in> ?L \<union> V \<and> dead_key h0 ?L a" using weak_invD(6) [OF w] d L by auto
  next
    assume a: "a \<in> ?L \<union> V \<and> dead_key h0 ?L a"
    then have "a \<in> ephemerons h0" by (auto simp: dead_key_def intro: ephemeronI)
    moreover have "\<not> finished h0 ?L a" using a by (auto simp: dead_key_def finished_def)
    ultimately show "a \<in> set p1" using weak_invD(5) [OF w, of a] a L by simp
  qed
  have s: "strip h1 = strip h0" using weak_invD(1) [OF w] .
  have "?L \<union> V \<subseteq> dom h0" using live_intact [OF ok] ok(1,3) by (auto simp: intact_def)
  then have "set p1 \<subseteq> dom h1" using p1 strip_sets(4) [OF s] by auto
  note b = break_ephemerons_spec [OF this]
  have "(if a \<in> set p1 then map_option break_ephemeron (h1 a) else h1 a) = mark_result h0 ?L V a" for a
    using strip_marks [OF s L, of a] p1 [of a]
    by (cases "h0 a") (auto simp: mark_result_def break_ephemeron_def)
  then show ?thesis using f b by (simp add: process_weak_refs_def fun_eq_iff)
qed

lemma mark_remembered_spec:
  assumes ok: "intact h0 S" "R - {0} \<subseteq> S"
  shows "weak_inv h0 R V h pending \<Longrightarrow> V \<union> set as \<subseteq> S \<Longrightarrow>
    \<exists>h' pending'. mark_remembered h pending as = Some (h', pending') \<and> weak_inv h0 R (V \<union> set as) h' pending'"
proof (induction as arbitrary: V h pending)
  case (Cons a as)
  let ?V = "insert a V"
  have VS: "?V \<subseteq> S" using Cons.prems(2) by auto
  have s: "strip h = strip h0" using weak_invD(1) [OF Cons.prems(1)] .
  have "a \<in> dom h" using VS ok(1) strip_sets(4) [OF s] by (auto simp: intact_def)
  then obtain c where c: "h a = Some c" by auto
  have o: "object_of h0 a = Some (c_object c)" using c strip_object [OF s, of a] by (simp add: object_of_def)
  define new where "new = (if is_ephemeron (c_object c) then [a] else [])"
  let ?as = "mark_children (c_object c)"
  have ch: "set ?as - {0} = children_of h0 a" using o by (simp add: children_of_def)
  have dom: "live h0 R ?V \<subseteq> dom h0" using live_intact [OF ok VS] ok(1) by (auto simp: intact_def)
  have as: "set ?as - {0} \<subseteq> live h0 R ?V" using ch by (auto intro: live_child)
  have "closed h (live h0 R ?V)" using live_closed [OF dom] closed_strip [OF s] by simp
  then obtain h1 p1 where m: "mark_list h (pending @ new) ?as = Some (h1, p1)"
    using mark_list_returns [OF _ as] by blast
  have e: "a \<in> ephemerons h0 \<longleftrightarrow> is_ephemeron (c_object c)" using o by (simp add: ephemerons_def)
  have "weak_inv h0 R ?V h1 p1"
    by (rule weak_inv_mark [OF Cons.prems(1) subset_refl _ m dom as]) (use ch e in \<open>auto simp: new_def\<close>)
  moreover have "?V \<union> set as \<subseteq> S" using Cons.prems(2) by simp
  ultimately obtain h' p' where "mark_remembered h1 p1 as = Some (h', p')" "weak_inv h0 R (?V \<union> set as) h' p'"
    using Cons.IH [of ?V h1 p1] by blast
  moreover have "(if is_ephemeron (c_object c) then pending @ [a] else pending) = pending @ new" by (simp add: new_def)
  ultimately show ?case using c m by simp
qed simp

lemma mark_roots_spec:
  assumes ok: "intact h S" "set roots - {0} \<subseteq> S" and m: "marked h = {}"
  shows "\<exists>h' pending. mark_list h [] roots = Some (h', pending) \<and> weak_inv h (set roots) {} h' pending"
proof -
  have dom: "live h (set roots) {} \<subseteq> dom h" using live_intact [OF ok] ok(1) by (auto simp: intact_def)
  have r: "set roots - {0} \<subseteq> live h (set roots) {}" by (auto intro: live_root)
  obtain h' p where ml: "mark_list h [] roots = Some (h', p)"
    using mark_list_returns [OF live_closed [OF dom] r] by blast
  have ml': "mark_list h ([] @ []) roots = Some (h', p)" using ml by simp
  have "weak_inv h (set roots) {} h' p"
    by (rule weak_inv_mark [OF weak_inv_start [OF m] _ _ ml' dom r]) auto
  then show ?thesis using ml by blast
qed

end
