(* ===== verification/Chaaya_Gc_Collect.thy ===== *)
theory Chaaya_Gc_Collect
  imports Chaaya_Gc_Marking
begin

text \<open>
  The collector's invariant, and that minor and major collections keep it: they never follow a freed
  reference, they keep exactly the live objects (a minor one all the old objects too), and they
  break the ephemerons whose keys are dead.
\<close>

section \<open>The invariant\<close>

text \<open>
  The lists of young and old objects partition the heap and agree with the generation bits and the
  counters, no mark is left over, and no reference from a root or a remembered object leads out of
  the heap. Old objects that are garbage may hold freed references.
\<close>

definition gc_ok :: "gc \<Rightarrow> bool" where
  "gc_ok s \<longleftrightarrow>
     distinct (young_objects s @ old_objects s) \<and> dom (gc_heap s) = set (young_objects s) \<union> set (old_objects s) \<and>
     0 \<notin> dom (gc_heap s) \<and> (\<forall>a c. gc_heap s a = Some c \<longrightarrow> (c_old c \<longleftrightarrow> a \<in> set (old_objects s))) \<and>
     marked (gc_heap s) = {} \<and>
     young_count s = length (young_objects s) \<and> old_count s = length (old_objects s) \<and>
     object_count s = length (young_objects s) + length (old_objects s) \<and>
     set (remembered_set s) \<subseteq> set (old_objects s) \<and>
     (\<exists>S. intact (gc_heap s) S \<and> set (root_addresses s) - {0} \<subseteq> S \<and> set (remembered_set s) \<subseteq> S)"

lemma gc_okD:
  assumes "gc_ok s"
  shows "distinct (young_objects s)" "distinct (old_objects s)" "set (young_objects s) \<inter> set (old_objects s) = {}"
    "dom (gc_heap s) = set (young_objects s) \<union> set (old_objects s)" "0 \<notin> dom (gc_heap s)"
    "gc_heap s a = Some c \<Longrightarrow> c_old c \<longleftrightarrow> a \<in> set (old_objects s)" "marked (gc_heap s) = {}"
    "young_count s = length (young_objects s)" "old_count s = length (old_objects s)"
    "object_count s = length (young_objects s) + length (old_objects s)"
    "set (remembered_set s) \<subseteq> set (old_objects s)"
  using assms unfolding gc_ok_def by (auto simp only: distinct_append)

lemma gc_ok_intact:
  assumes "gc_ok s"
  obtains S where "intact (gc_heap s) S" "set (root_addresses s) - {0} \<subseteq> S" "set (remembered_set s) \<subseteq> S"
  using assms unfolding gc_ok_def by blast

section \<open>Sweeping\<close>

lemma filter_heap_cong: "a \<notin> set as \<Longrightarrow> filter (\<lambda>b. P ((h(a := x)) b)) as = filter (\<lambda>b. P (h b)) as"
  by (auto intro: filter_cong)

definition is_marked :: "cell option \<Rightarrow> bool" where
  "is_marked x \<longleftrightarrow> (\<exists>c. x = Some c \<and> c_marked c)"

lemma is_marked_simps [simp]: "\<not> is_marked None" "is_marked (Some c) \<longleftrightarrow> c_marked c"
  by (simp_all add: is_marked_def)

lemma marked_iff: "a \<in> marked h \<longleftrightarrow> is_marked (h a)"
  by (simp add: marked_def is_marked_def)

definition swept_major :: "cell option \<Rightarrow> cell option" where
  "swept_major x = (if is_marked x then map_option (\<lambda>c. c\<lparr>c_marked := False\<rparr>) x else None)"

lemma sweep_list_major_spec:
  "distinct as \<Longrightarrow> set as \<subseteq> dom h \<Longrightarrow>
     sweep_list_major h as n m =
       Some (\<lambda>a. if a \<in> set as then swept_major (h a) else h a, filter (\<lambda>a. is_marked (h a)) as,
         n - length (filter (\<lambda>a. \<not> is_marked (h a)) as), m - length (filter (\<lambda>a. \<not> is_marked (h a)) as))"
proof (induction as arbitrary: h n m)
  case (Cons a as)
  then obtain c where c: "h a = Some c" by auto
  have a: "a \<notin> set as" "distinct as" using Cons.prems(1) by auto
  have f: "filter (\<lambda>b. is_marked ((h(a := x)) b)) as = filter (\<lambda>b. is_marked (h b)) as"
    "filter (\<lambda>b. \<not> is_marked ((h(a := x)) b)) as = filter (\<lambda>b. \<not> is_marked (h b)) as" for x
    using filter_heap_cong [OF a(1), of is_marked] filter_heap_cong [OF a(1), of "\<lambda>x. \<not> is_marked x"] by simp_all
  have IH: "sweep_list_major (h(a := x)) as n m =
       Some (\<lambda>b. if b \<in> set as then swept_major ((h(a := x)) b) else (h(a := x)) b, filter (\<lambda>a. is_marked (h a)) as,
         n - length (filter (\<lambda>a. \<not> is_marked (h a)) as), m - length (filter (\<lambda>a. \<not> is_marked (h a)) as))" for x n m
  proof -
    define g where "g = h(a := x)"
    have "set as \<subseteq> dom g" using a(1) Cons.prems(2) by (auto simp: g_def)
    moreover have "filter (\<lambda>b. is_marked (g b)) as = filter (\<lambda>b. is_marked (h b)) as"
      "filter (\<lambda>b. \<not> is_marked (g b)) as = filter (\<lambda>b. \<not> is_marked (h b)) as"
      unfolding g_def by (rule f)+
    ultimately show ?thesis using Cons.IH [of g n m] a(2) unfolding g_def [symmetric] by simp
  qed
  have e: "(\<lambda>b. if b \<in> set as then swept_major ((h(a := swept_major (h a))) b) else (h(a := swept_major (h a))) b) =
      (\<lambda>b. if b \<in> set (a # as) then swept_major (h b) else h b)"
    using a(1) by (auto simp: fun_eq_iff)
  show ?case
  proof (cases "c_marked c")
    case True
    then have "swept_major (h a) = Some (c\<lparr>c_marked := False\<rparr>)" using c by (simp add: swept_major_def)
    then show ?thesis using c True IH [of "swept_major (h a)" n m] e by simp
  next
    case False
    then have "swept_major (h a) = None" using c by (simp add: swept_major_def)
    then show ?thesis using c False IH [of "swept_major (h a)" "n - 1" "m - 1"] e by simp
  qed
qed simp

lemma clear_marks_spec:
  "set as \<subseteq> dom h \<Longrightarrow>
     clear_marks h as = Some (\<lambda>a. if a \<in> set as then map_option (\<lambda>c. c\<lparr>c_marked := False\<rparr>) (h a) else h a)"
proof (induction as arbitrary: h)
  case (Cons a as)
  then obtain c where c: "h a = Some c" by auto
  let ?h = "h(a \<mapsto> c\<lparr>c_marked := False\<rparr>)"
  have "set as \<subseteq> dom ?h" using Cons.prems by auto
  then have IH: "clear_marks ?h as = Some (\<lambda>b. if b \<in> set as then map_option (\<lambda>c. c\<lparr>c_marked := False\<rparr>) (?h b) else ?h b)"
    by (rule Cons.IH)
  have "(if b \<in> set as then map_option (\<lambda>c. c\<lparr>c_marked := False\<rparr>) (?h b) else ?h b) =
      (if b \<in> set (a # as) then map_option (\<lambda>c. c\<lparr>c_marked := False\<rparr>) (h b) else h b)" for b
    using c by simp
  then show ?case using c IH by simp
qed simp

section \<open>The remembered set\<close>

lemma candidates_children: "set (young_candidates x) \<subseteq> set (mark_children x)"
  by (cases x) (auto split: option.splits)

lemma any_young_returns: "set as - {0} \<subseteq> dom h \<Longrightarrow> \<exists>y. any_young h as = Some y"
  by (induction as) (auto split: option.splits)

lemma references_young_returns: "set (mark_children x) - {0} \<subseteq> dom h \<Longrightarrow> \<exists>y. references_young h x = Some y"
  using any_young_returns [of "young_candidates x" h] candidates_children [of x]
  by (auto simp: references_young_def)

lemma prune_loop_returns:
  "(\<And>a. a \<in> set as \<Longrightarrow> a \<in> dom h \<and> children_of h a \<subseteq> dom h) \<Longrightarrow> \<exists>r. prune_loop h as = Some r \<and> set r \<subseteq> set as"
proof (induction as)
  case (Cons a as)
  obtain r where r: "prune_loop h as = Some r" "set r \<subseteq> set as" using Cons by auto
  obtain c where c: "h a = Some c" using Cons.prems [of a] by auto
  then have "set (mark_children (c_object c)) - {0} \<subseteq> dom h"
    using Cons.prems [of a] by (simp add: children_of_def object_of_def)
  then obtain y where "references_young h (c_object c) = Some y" using references_young_returns by blast
  then show ?case using r c by auto
qed simp

section \<open>The young sweep\<close>

definition promotes :: "u8 \<Rightarrow> cell option \<Rightarrow> bool" where
  "promotes age x \<longleftrightarrow> (\<exists>c. x = Some c \<and> c_marked c \<and> age \<le> c_age c + 1)"

definition stays :: "u8 \<Rightarrow> cell option \<Rightarrow> bool" where
  "stays age x \<longleftrightarrow> (\<exists>c. x = Some c \<and> c_marked c \<and> \<not> age \<le> c_age c + 1)"

definition swept_young :: "u8 \<Rightarrow> cell option \<Rightarrow> cell option" where
  "swept_young age x =
     (if is_marked x
      then map_option (\<lambda>c. if age \<le> c_age c + 1 then c\<lparr>c_marked := False, c_old := True, c_age := 0\<rparr>
                           else c\<lparr>c_marked := False, c_age := c_age c + 1\<rparr>) x
      else None)"

lemma young_simps [simp]:
  "promotes age (Some c) \<longleftrightarrow> c_marked c \<and> age \<le> c_age c + 1" "\<not> promotes age None"
  "stays age (Some c) \<longleftrightarrow> c_marked c \<and> \<not> age \<le> c_age c + 1" "\<not> stays age None"
  by (simp_all add: promotes_def stays_def)

lemma marked_cases: "is_marked x \<longleftrightarrow> promotes age x \<or> stays age x"
  by (auto simp: is_marked_def promotes_def stays_def)

text \<open>The state after the young sweep over a list, with the objects it remembers.\<close>

definition swept_state :: "gc \<Rightarrow> addr list \<Rightarrow> addr list \<Rightarrow> gc" where
  "swept_state s as rem =
     s\<lparr>gc_heap := (\<lambda>a. if a \<in> set as then swept_young (promotion_age s) (gc_heap s a) else gc_heap s a),
       young_count := young_count s - length (filter (\<lambda>a. \<not> stays (promotion_age s) (gc_heap s a)) as),
       old_objects := rev (filter (\<lambda>a. promotes (promotion_age s) (gc_heap s a)) as) @ old_objects s,
       old_count := old_count s + length (filter (\<lambda>a. promotes (promotion_age s) (gc_heap s a)) as),
       object_count := object_count s - length (filter (\<lambda>a. \<not> is_marked (gc_heap s a)) as),
       remembered_set := remembered_set s @ rem\<rparr>"

text \<open>The state after one object.\<close>

definition swept_one :: "gc \<Rightarrow> addr \<Rightarrow> addr list \<Rightarrow> gc" where
  "swept_one s a rem = swept_state s [a] rem"

lemma swept_one_heap: "gc_heap (swept_one s a rem) = (gc_heap s)(a := swept_young (promotion_age s) (gc_heap s a))"
  by (simp add: swept_one_def swept_state_def fun_eq_iff)

lemma swept_state_Cons:
  assumes "a \<notin> set as"
  shows "swept_state (swept_one s a r) as rem = swept_state s (a # as) (r @ rem)"
proof -
  let ?h = "gc_heap s" let ?g = "gc_heap (swept_one s a r)" let ?p = "promotion_age s"
  have f: "filter (\<lambda>b. P (?g b)) as = filter (\<lambda>b. P (?h b)) as" for P
    unfolding swept_one_heap by (rule filter_heap_cong [OF assms])
  have h: "(\<lambda>b. if b \<in> set as then swept_young ?p (?g b) else ?g b) =
      (\<lambda>b. if b \<in> set (a # as) then swept_young ?p (?h b) else ?h b)"
    unfolding swept_one_heap using assms by (auto simp: fun_eq_iff)
  have p: "promotion_age (swept_one s a r) = ?p" by (simp add: swept_one_def swept_state_def)
  show ?thesis
    unfolding swept_state_def [of "swept_one s a r"] p h f
      f [of "\<lambda>x. \<not> stays ?p x"] f [of "promotes ?p"] f [of "\<lambda>x. \<not> is_marked x"]
    by (simp add: swept_one_def swept_state_def diff_diff_left)
qed

lemma sweep_young_loop_spec:
  "distinct as \<Longrightarrow> set as \<subseteq> dom (gc_heap s) \<Longrightarrow> L \<subseteq> dom (gc_heap s) \<Longrightarrow>
   (\<And>a. a \<in> set as \<Longrightarrow> a \<in> L \<Longrightarrow> is_marked (gc_heap s a)) \<Longrightarrow>
   (\<And>a c. a \<in> set as \<Longrightarrow> gc_heap s a = Some c \<Longrightarrow> c_marked c \<Longrightarrow> set (mark_children (c_object c)) - {0} \<subseteq> L) \<Longrightarrow>
   \<exists>rem. set rem \<subseteq> set (filter (\<lambda>a. promotes (promotion_age s) (gc_heap s a)) as) \<and>
     sweep_young_loop as s =
       Some (filter (\<lambda>a. stays (promotion_age s) (gc_heap s a)) as, swept_state s as rem)"
proof (induction as arbitrary: s)
  case Nil
  show ?case by (rule exI [of _ "[]"]) (simp add: swept_state_def)
next
  case (Cons a as)
  let ?h = "gc_heap s" and ?p = "promotion_age s"
  have a: "a \<notin> set as" "distinct as" using Cons.prems(1) by auto
  obtain c where c: "?h a = Some c" using Cons.prems(2) by auto
  have IH: "\<exists>rem. set rem \<subseteq> set (filter (\<lambda>a. promotes ?p (?h a)) as) \<and>
      sweep_young_loop as (swept_one s a r) = Some (filter (\<lambda>a. stays ?p (?h a)) as, swept_state s (a # as) (r @ rem))" for r
  proof -
    let ?s = "swept_one s a r"
    have at: "gc_heap ?s b = ?h b" if "b \<noteq> a" for b using that by (simp add: swept_one_heap)
    have p: "promotion_age ?s = ?p" by (simp add: swept_one_def swept_state_def)
    have f: "filter (\<lambda>b. P (gc_heap ?s b)) as = filter (\<lambda>b. P (?h b)) as" for P
      unfolding swept_one_heap by (rule filter_heap_cong [OF a(1)])
    have ne: "b \<noteq> a" if "b \<in> set as" for b using that a(1) by blast
    have d: "set as \<subseteq> dom (gc_heap ?s)"
    proof
      fix b
      assume b: "b \<in> set as"
      then have "b \<noteq> a" "b \<in> dom ?h" using a(1) Cons.prems(2) by auto
      then show "b \<in> dom (gc_heap ?s)" using at [of b] by (simp add: dom_def)
    qed
    have "a \<in> dom (gc_heap ?s)" if "a \<in> L"
      using that Cons.prems(4) [of a] c by (simp add: swept_one_heap swept_young_def)
    then have L: "L \<subseteq> dom (gc_heap ?s)" using Cons.prems(3) at by (force simp: dom_def)
    have m: "is_marked (gc_heap ?s b)" if "b \<in> set as" "b \<in> L" for b
      using that Cons.prems(4) [of b] at [OF ne] by simp
    have ch: "set (mark_children (c_object c)) - {0} \<subseteq> L" if "b \<in> set as" "gc_heap ?s b = Some c" "c_marked c" for b c
      using that Cons.prems(5) [of b c] at [OF ne] by simp
    show ?thesis using Cons.IH [OF a(2) d L m ch] unfolding p f [of "promotes ?p"] f [of "stays ?p"]
        swept_state_Cons [OF a(1)] by simp
  qed
  consider (dead) "\<not> c_marked c" | (stay) "stays ?p (Some c)" | (promote) "promotes ?p (Some c)" by auto
  then show ?case
  proof cases
    case dead
    have "s\<lparr>gc_heap := ?h(a := None), young_count := young_count s - 1, object_count := object_count s - 1\<rparr> = swept_one s a []"
      using dead c by (simp add: swept_one_def swept_state_def swept_young_def fun_eq_iff)
    then show ?thesis using IH [of "[]"] dead c by simp
  next
    case stay
    have "s\<lparr>gc_heap := ?h(a \<mapsto> c\<lparr>c_marked := False, c_age := c_age c + 1\<rparr>)\<rparr> = swept_one s a []"
      using stay c by (simp add: swept_one_def swept_state_def swept_young_def fun_eq_iff)
    then show ?thesis using IH [of "[]"] stay c by auto
  next
    case promote
    let ?c = "c\<lparr>c_marked := False, c_age := c_age c + 1\<rparr>"
    have o: "make_old s a ?c = swept_one s a []"
      using promote c by (simp add: swept_one_def swept_state_def swept_young_def make_old_def fun_eq_iff)
    have r: "remembered_set_add (make_old s a ?c) a = swept_one s a [a]"
      using promote c by (simp add: swept_one_def swept_state_def swept_young_def make_old_def fun_eq_iff remembered_set_add_def)
    have "set (mark_children (c_object c)) - {0} \<subseteq> dom (gc_heap (make_old s a ?c))"
      using Cons.prems(3,5) c promote by (auto simp: make_old_def)
    then obtain y where y: "references_young (gc_heap (make_old s a ?c)) (c_object c) = Some y"
      using references_young_returns by blast
    define r where "r = (if y then [a] else [])"
    have "sweep_young_loop (a # as) s = sweep_young_loop as (swept_one s a r)"
      using c promote y o r by (simp add: Let_def r_def)
    moreover obtain rem where "set rem \<subseteq> set (filter (\<lambda>a. promotes ?p (?h a)) as)"
        "sweep_young_loop as (swept_one s a r) = Some (filter (\<lambda>a. stays ?p (?h a)) as, swept_state s (a # as) (r @ rem))"
      using IH by blast
    ultimately show ?thesis using c promote by (intro exI [of _ "r @ rem"]) (auto simp: r_def)
  qed
qed

section \<open>After the mark phase\<close>

lemma mark_result_marked: "is_marked (mark_result h L V a) \<longleftrightarrow> a \<in> L \<and> a \<in> dom h"
  by (cases "h a") (auto simp: mark_result_def)

lemma mark_result_dom: "dom (mark_result h L V) = dom h"
  by (simp add: mark_result_def dom_def)

lemma mark_result_cell:
  "h a = Some c \<Longrightarrow> mark_result h L V a =
     Some ((if a \<in> L \<union> V \<and> dead_key h L a then break_ephemeron c else c)\<lparr>c_marked := a \<in> L\<rparr>)"
  by (simp add: mark_result_def)

lemma break_ephemeron_simps [simp]:
  "c_marked (break_ephemeron c) = c_marked c" "c_old (break_ephemeron c) = c_old c" "c_age (break_ephemeron c) = c_age c"
  "c_object (break_ephemeron c) = GEphemeron CH_FALSE CH_FALSE True"
  by (simp_all add: break_ephemeron_def)

text \<open>What became of the object at a kept address.\<close>

definition kept_object :: "heap \<Rightarrow> addr set \<Rightarrow> addr set \<Rightarrow> addr \<Rightarrow> gc_object option" where
  "kept_object h L V a =
     (if a \<in> L \<union> V \<and> dead_key h L a then Some (GEphemeron CH_FALSE CH_FALSE True) else object_of h a)"

lemma mark_result_object: "a \<in> dom h \<Longrightarrow> object_of (mark_result h L V) a = kept_object h L V a"
  by (auto simp: mark_result_def object_of_def kept_object_def)

lemma broken_refs: "targets [CH_FALSE, CH_FALSE] = []"
  by code_simp

lemma intact_after:
  assumes ok: "intact h S" "R - {0} \<subseteq> S" "V \<subseteq> S" and L: "L = live h R V" and dom: "L \<union> V \<subseteq> dom h'"
    and obj: "\<And>a. a \<in> L \<union> V \<Longrightarrow> object_of h' a = kept_object h L V a"
  shows "intact h' (L \<union> V)"
proof -
  have "refs_of h' a \<subseteq> L" if a: "a \<in> L \<union> V" for a
  proof (cases "dead_key h L a")
    case True
    then have "object_of h' a = Some (GEphemeron CH_FALSE CH_FALSE True)" using obj [OF a] a by (simp add: kept_object_def)
    then show ?thesis using broken_refs by (simp add: refs_of_def children_of_def)
  next
    case False
    then have o: "object_of h' a = object_of h a" using obj [OF a] by (simp add: kept_object_def)
    have lv: "a \<in> live h R V \<or> a \<in> V" using a L by blast
    have ch: "children_of h a \<subseteq> L" using live_child [OF lv] L by blast
    show ?thesis
    proof (cases "a \<in> ephemerons h")
      case e: True
      then obtain key val broken where x: "object_of h a = Some (GEphemeron key val broken)" by (rule ephemeronE)
      then have "key_alive (live h R V) key" using False L by (simp add: dead_key_def)
      from live_ephemeron [OF lv x this] have "set (targets [key, val]) - {0} \<subseteq> L" using L by simp
      then show ?thesis using o x by (simp add: refs_of_def children_of_def)
    next
      case False
      then have "refs_of h' a = children_of h a"
        using o by (auto simp: refs_of_def children_of_def ephemerons_def is_ephemeron_def split: option.splits gc_object.splits)
      then show ?thesis using ch by simp
    qed
  qed
  then show ?thesis using dom by (auto simp: intact_def)
qed

section \<open>Major collections\<close>

abbreviation live_of :: "gc \<Rightarrow> addr set \<Rightarrow> addr set" where
  "live_of s V \<equiv> live (gc_heap s) (set (root_addresses s)) V"

lemma live_dom:
  assumes "gc_ok s" "V \<subseteq> set (remembered_set s)"
  shows "live_of s V \<subseteq> dom (gc_heap s)" "V \<subseteq> dom (gc_heap s)"
proof -
  obtain S where S: "intact (gc_heap s) S" "set (root_addresses s) - {0} \<subseteq> S" "set (remembered_set s) \<subseteq> S"
    using gc_ok_intact [OF assms(1)] .
  then have V: "V \<subseteq> S" using assms(2) by blast
  then show "live_of s V \<subseteq> dom (gc_heap s)" "V \<subseteq> dom (gc_heap s)"
    using live_intact [OF S(1,2) V] S(1) unfolding intact_def by blast+
qed

lemma mark_phase_major:
  assumes "gc_ok s"
  shows "\<exists>h p. mark_roots_and_symbols s = Some (h, p) \<and>
    process_weak_refs h p = Some (mark_result (gc_heap s) (live_of s {}) {})"
proof -
  obtain S where S: "intact (gc_heap s) S" "set (root_addresses s) - {0} \<subseteq> S" "set (remembered_set s) \<subseteq> S"
    using gc_ok_intact [OF assms] .
  obtain h p where m: "mark_list (gc_heap s) [] (root_addresses s) = Some (h, p)"
      "weak_inv (gc_heap s) (set (root_addresses s)) {} h p"
    using mark_roots_spec [OF S(1,2) gc_okD(7) [OF assms]] by blast
  show ?thesis
    using m process_weak_refs_spec [OF m(2) S(1,2)] by (auto simp: mark_roots_and_symbols_def)
qed

lemma filter_lengths: "length as - length (filter (\<lambda>a. \<not> P a) as) = length (filter P as)"
  using sum_length_filter_compl [of P as] by simp

lemma major_spec:
  assumes "gc_ok s"
  defines "L \<equiv> live_of s {}"
  defines "h' \<equiv> (\<lambda>a. swept_major (mark_result (gc_heap s) L {} a))"
  defines "ys \<equiv> filter (\<lambda>a. a \<in> L) (young_objects s)"
  defines "os \<equiv> filter (\<lambda>a. a \<in> L) (old_objects s)"
  shows "ch_gc_collect_major s =
    Some (s\<lparr>gc_heap := h', young_objects := ys, young_count := length ys, old_objects := os, old_count := length os,
            object_count := length ys + length os, remembered_set := [], alloc_count := 0,
            major_collections := major_collections s + 1, collections := collections s + 1,
            threshold := (length ys + length os) * 2 + CH_GC_DEFAULT_THRESHOLD\<rparr>)"
proof -
  note ok = gc_okD [OF assms(1)]
  let ?h = "gc_heap s" and ?ys = "young_objects s" and ?os = "old_objects s"
  let ?m = "mark_result ?h L {}"
  obtain h1 p1 where mark: "mark_roots_and_symbols s = Some (h1, p1)" "process_weak_refs h1 p1 = Some ?m"
    using mark_phase_major [OF assms(1)] unfolding L_def by blast
  have mk: "is_marked (?m a) \<longleftrightarrow> a \<in> L" if "a \<in> dom ?h" for a using that mark_result_marked [of ?h L "{}" a] by simp
  have dy: "set ?ys \<subseteq> dom ?m" and doo: "set ?os \<subseteq> dom ?m" using ok(4) mark_result_dom [of ?h L "{}"] by auto
  have fy: "filter (\<lambda>a. is_marked (?m a)) ?ys = ys" "filter (\<lambda>a. \<not> is_marked (?m a)) ?ys = filter (\<lambda>a. a \<notin> L) ?ys"
    using mk ok(4) unfolding ys_def by (auto intro!: filter_cong)
  define h3 where "h3 = (\<lambda>a. if a \<in> set ?ys then swept_major (?m a) else ?m a)"
  have oy: "a \<notin> set ?ys" if "a \<in> set ?os" for a using that ok(3) by blast
  have fo: "filter (\<lambda>a. is_marked (h3 a)) ?os = os" "filter (\<lambda>a. \<not> is_marked (h3 a)) ?os = filter (\<lambda>a. a \<notin> L) ?os"
    using mk ok(4) oy unfolding os_def h3_def by (auto intro!: filter_cong)
  have do3: "set ?os \<subseteq> dom h3" using doo oy by (auto simp: h3_def)
  have c: "object_count s - length (filter (\<lambda>a. a \<notin> L) ?ys) - length (filter (\<lambda>a. a \<notin> L) ?os) = length ys + length os"
    using ok(10) sum_length_filter_compl [of "\<lambda>a. a \<in> L" ?ys] sum_length_filter_compl [of "\<lambda>a. a \<in> L" ?os]
    unfolding ys_def os_def by simp
  have y: "sweep_list_major ?m ?ys (young_count s) (object_count s) =
      Some (h3, ys, length ys, object_count s - length (filter (\<lambda>a. a \<notin> L) ?ys))"
    using sweep_list_major_spec [OF ok(1) dy] ok(8) fy filter_lengths [of ?ys "\<lambda>a. a \<in> L"] unfolding h3_def ys_def by simp
  have h: "(\<lambda>a. if a \<in> set ?os then swept_major (h3 a) else h3 a) = h'"
  proof
    fix a
    have "?m a = None" if "a \<notin> set ?ys \<union> set ?os"
      using that ok(4) mark_result_dom [of ?h L "{}"] by blast
    then show "(if a \<in> set ?os then swept_major (h3 a) else h3 a) = h' a"
      using oy [of a] by (auto simp: h3_def h'_def swept_major_def)
  qed
  have o: "sweep_list_major h3 ?os (old_count s) (object_count s - length (filter (\<lambda>a. a \<notin> L) ?ys)) =
      Some (h', os, length os, length ys + length os)"
    using sweep_list_major_spec [OF ok(2) do3] ok(9) fo filter_lengths [of ?os "\<lambda>a. a \<in> L"] c h unfolding os_def by simp
  show ?thesis using mark y o by (simp add: ch_gc_collect_major_def)
qed

text \<open>Replacing the heap and the lists keeps the roots.\<close>

lemma root_addresses_update:
  "root_addresses (s\<lparr>gc_heap := h, young_objects := ys, young_count := n, old_objects := os, old_count := m,
     object_count := k, remembered_set := r, alloc_count := i, major_collections := j, collections := l, threshold := t\<rparr>) =
   root_addresses s"
  by (simp add: root_addresses_def)

lemma ch_gc_collect_major_ok:
  assumes "gc_ok s"
  obtains s' where "ch_gc_collect_major s = Some s'" "gc_ok s'" "dom (gc_heap s') = live_of s {}"
    "\<And>a. a \<in> live_of s {} \<Longrightarrow> object_of (gc_heap s') a = kept_object (gc_heap s) (live_of s {}) {} a"
    "root_addresses s' = root_addresses s" "remembered_set s' = []" "vm_roots s' = vm_roots s"
    "root_slots s' = root_slots s"
proof -
  note ok = gc_okD [OF assms(1)]
  let ?h = "gc_heap s"
  define L where "L = live_of s {}"
  define h' where "h' = (\<lambda>a. swept_major (mark_result ?h L {} a))"
  define ys where "ys = filter (\<lambda>a. a \<in> L) (young_objects s)"
  define os where "os = filter (\<lambda>a. a \<in> L) (old_objects s)"
  obtain s' where s': "ch_gc_collect_major s = Some s'" and eq: "s' = s\<lparr>gc_heap := h', young_objects := ys,
      young_count := length ys, old_objects := os, old_count := length os, object_count := length ys + length os,
      remembered_set := [], alloc_count := 0, major_collections := major_collections s + 1,
      collections := collections s + 1, threshold := (length ys + length os) * 2 + CH_GC_DEFAULT_THRESHOLD\<rparr>"
    using major_spec [OF assms] unfolding L_def h'_def ys_def os_def by blast
  have r: "root_addresses s' = root_addresses s" unfolding eq by (rule root_addresses_update)
  have Ld: "L \<subseteq> dom ?h" unfolding L_def by (rule live_dom [OF assms]) simp
  have at: "h' a = None" if "a \<notin> L" for a
    using that mark_result_marked [of ?h L "{}" a] by (simp add: h'_def swept_major_def)
  have cell: "\<exists>c c'. ?h a = Some c \<and> h' a = Some c' \<and> \<not> c_marked c' \<and> c_old c' = c_old c \<and>
      Some (c_object c') = kept_object ?h L {} a" if aL: "a \<in> L" for a
  proof -
    obtain c where c: "?h a = Some c" using aL Ld by auto
    show ?thesis using aL mark_result_cell [of ?h a c L "{}"] c
      by (auto simp: h'_def swept_major_def kept_object_def object_of_def)
  qed
  have d: "dom h' = L" using at cell by (fastforce simp: dom_def)
  have obj: "object_of h' a = kept_object ?h L {} a" if "a \<in> L" for a
    using cell [OF that] by (auto simp: object_of_def)
  have int: "intact h' L"
  proof -
    obtain S where S: "intact ?h S" "set (root_addresses s) - {0} \<subseteq> S" using gc_ok_intact [OF assms] .
    have "intact h' (L \<union> {})"
      by (rule intact_after [OF S empty_subsetI L_def]) (use d obj in auto)
    then show ?thesis by simp
  qed
  have roots: "set (root_addresses s) - {0} \<subseteq> L" unfolding L_def by (auto intro: live_root)
  have sets: "set ys = L \<inter> set (young_objects s)" "set os = L \<inter> set (old_objects s)" by (auto simp: ys_def os_def)
  have old: "c_old c \<longleftrightarrow> a \<in> set os" if hc: "h' a = Some c" for a c
  proof -
    have a: "a \<in> L" using hc at [of a] by fastforce
    from cell [OF this] obtain c0 where "?h a = Some c0" "c_old c = c_old c0" using hc by auto
    then show ?thesis using ok(6) a sets(2) by auto
  qed
  have mk: "marked h' = {}"
  proof -
    have "\<not> is_marked (h' a)" for a using at [of a] cell [of a] by (cases "a \<in> L") auto
    then show ?thesis by (auto simp: marked_iff)
  qed
  have dist: "distinct (ys @ os)" using ok(1-3) unfolding ys_def os_def by auto
  have dom': "dom h' = set ys \<union> set os" using d sets Ld ok(4) by blast
  have z: "0 \<notin> dom h'" using d Ld ok(5) by auto
  have "gc_ok s'"
    unfolding gc_ok_def r unfolding eq using dist dom' z old mk int roots by auto
  then show ?thesis using that [of s'] s' r d obj unfolding L_def eq by simp
qed

section \<open>Minor collections\<close>

abbreviation remembered :: "gc \<Rightarrow> addr set" where
  "remembered s \<equiv> set (remembered_set s)"

abbreviation minor_live :: "gc \<Rightarrow> addr set" where
  "minor_live s \<equiv> live_of s (remembered s)"

abbreviation minor_marks :: "gc \<Rightarrow> heap" where
  "minor_marks s \<equiv> mark_result (gc_heap s) (minor_live s) (remembered s)"

lemma clear_marks_unmarked:
  assumes "marked h = {}" "set as \<subseteq> dom h"
  shows "clear_marks h as = Some h"
proof -
  have "map_option (\<lambda>c. c\<lparr>c_marked := False\<rparr>) (h a) = h a" for a
  proof (cases "h a")
    case (Some c)
    then have "\<not> c_marked c" using assms(1) by (auto simp: marked_def)
    then have "c\<lparr>c_marked := False\<rparr> = c" by simp
    then show ?thesis using Some by simp
  qed simp
  then have "(if a \<in> set as then map_option (\<lambda>c. c\<lparr>c_marked := False\<rparr>) (h a) else h a) = h a" for a by simp
  then show ?thesis using clear_marks_spec [OF assms(2)] by presburger
qed

lemma mark_phase_minor:
  assumes "gc_ok s"
  shows "\<exists>h1 p1 h2 p2. mark_roots_and_symbols s = Some (h1, p1) \<and> mark_remembered h1 p1 (remembered_set s) = Some (h2, p2) \<and>
    process_weak_refs h2 p2 = Some (minor_marks s)"
proof -
  obtain S where S: "intact (gc_heap s) S" "set (root_addresses s) - {0} \<subseteq> S" "remembered s \<subseteq> S"
    using gc_ok_intact [OF assms] .
  obtain h1 p1 where m: "mark_list (gc_heap s) [] (root_addresses s) = Some (h1, p1)"
      "weak_inv (gc_heap s) (set (root_addresses s)) {} h1 p1"
    using mark_roots_spec [OF S(1,2) gc_okD(7) [OF assms]] by blast
  obtain h2 p2 where r: "mark_remembered h1 p1 (remembered_set s) = Some (h2, p2)"
      "weak_inv (gc_heap s) (set (root_addresses s)) (remembered s) h2 p2"
    using mark_remembered_spec [OF S(1,2) m(2), of "remembered_set s"] S(3) by auto
  show ?thesis
    using m(1) r(1) process_weak_refs_spec [OF r(2) S] by (auto simp: mark_roots_and_symbols_def)
qed

lemma minor_marks_intact:
  assumes "gc_ok s"
  shows "intact (minor_marks s) (minor_live s \<union> remembered s)"
proof -
  obtain S where S: "intact (gc_heap s) S" "set (root_addresses s) - {0} \<subseteq> S" "remembered s \<subseteq> S"
    using gc_ok_intact [OF assms] .
  have d: "minor_live s \<union> remembered s \<subseteq> dom (gc_heap s)" using live_dom [OF assms subset_refl] by blast
  show ?thesis
  proof (rule intact_after [OF S refl])
    show "minor_live s \<union> remembered s \<subseteq> dom (minor_marks s)" using d mark_result_dom by simp
    show "object_of (minor_marks s) a = kept_object (gc_heap s) (minor_live s) (remembered s) a"
      if "a \<in> minor_live s \<union> remembered s" for a
      by (rule mark_result_object) (use that d in blast)
  qed
qed

lemma minor_marks_children:
  assumes "gc_ok s" "minor_marks s a = Some c" "a \<in> minor_live s \<union> remembered s"
  shows "set (mark_children (c_object c)) - {0} \<subseteq> minor_live s"
proof -
  have d: "a \<in> dom (gc_heap s)" using live_dom [OF assms(1) subset_refl] assms(3) by blast
  have o: "Some (c_object c) = kept_object (gc_heap s) (minor_live s) (remembered s) a"
    using mark_result_object [OF d, of "minor_live s" "remembered s"] assms(2) by (simp add: object_of_def)
  show ?thesis
  proof (cases "dead_key (gc_heap s) (minor_live s) a")
    case True
    then show ?thesis using o assms(3) by (simp add: kept_object_def)
  next
    case False
    then have "object_of (gc_heap s) a = Some (c_object c)" using o by (simp add: kept_object_def)
    then have "set (mark_children (c_object c)) - {0} = children_of (gc_heap s) a" by (simp add: children_of_def)
    then show ?thesis using live_child [of a "gc_heap s" _ "remembered s"] assms(3) by auto
  qed
qed

text \<open>The state after the sweep of the young list.\<close>

definition minor_swept :: "gc \<Rightarrow> addr list \<Rightarrow> gc" where
  "minor_swept s rem =
     (swept_state (s\<lparr>gc_heap := minor_marks s\<rparr>) (young_objects s) rem)
       \<lparr>young_objects := filter (\<lambda>a. stays (promotion_age s) (minor_marks s a)) (young_objects s)\<rparr>"

lemma young_phase:
  assumes "gc_ok s"
  shows "\<exists>rem. set rem \<subseteq> set (filter (\<lambda>a. promotes (promotion_age s) (minor_marks s a)) (young_objects s)) \<and>
    sweep_young_minor (s\<lparr>gc_heap := minor_marks s\<rparr>) = Some (minor_swept s rem)"
proof -
  let ?s = "s\<lparr>gc_heap := minor_marks s\<rparr>" and ?L = "minor_live s"
  note ok = gc_okD [OF assms]
  have ld: "?L \<subseteq> dom (gc_heap s)" using live_dom [OF assms subset_refl] by blast
  then have d: "?L \<subseteq> dom (gc_heap ?s)" "set (young_objects s) \<subseteq> dom (gc_heap ?s)"
    using ok(4) mark_result_dom [of "gc_heap s" ?L "remembered s"] by auto
  have m: "is_marked (gc_heap ?s a)" if "a \<in> ?L" for a
    using that ld mark_result_marked [of "gc_heap s" ?L "remembered s" a] by auto
  have ch: "set (mark_children (c_object c)) - {0} \<subseteq> ?L" if "gc_heap ?s a = Some c" "c_marked c" for a c
  proof -
    have "a \<in> ?L" using that mark_result_marked [of "gc_heap s" ?L "remembered s" a] by simp
    then show ?thesis using minor_marks_children [OF assms, of a c] that by simp
  qed
  have "\<exists>rem. set rem \<subseteq> set (filter (\<lambda>a. promotes (promotion_age ?s) (gc_heap ?s a)) (young_objects s)) \<and>
     sweep_young_loop (young_objects s) ?s =
       Some (filter (\<lambda>a. stays (promotion_age ?s) (gc_heap ?s a)) (young_objects s), swept_state ?s (young_objects s) rem)"
    by (rule sweep_young_loop_spec [OF ok(1) d(2,1)]) (rule m, assumption, rule ch)
  then show ?thesis by (auto simp: sweep_young_minor_def minor_swept_def)
qed

lemma swept_young_cell:
  assumes "x = Some c" "c_marked c"
  shows "\<exists>c'. swept_young age x = Some c' \<and> \<not> c_marked c' \<and> c_object c' = c_object c \<and>
    (c_old c' \<longleftrightarrow> c_old c \<or> promotes age x)"
  using assms by (simp add: swept_young_def)

text \<open>The heap after the young sweep.\<close>

lemma minor_swept_heap:
  fixes rem :: "addr list"
  assumes "gc_ok s"
  defines "H \<equiv> gc_heap (minor_swept s rem)"
  shows "dom H = (minor_live s \<inter> set (young_objects s)) \<union> set (old_objects s)"
    and "a \<in> dom H \<Longrightarrow> object_of H a = kept_object (gc_heap s) (minor_live s) (remembered s) a"
    and "H a = Some c \<Longrightarrow> a \<in> set (young_objects s) \<Longrightarrow>
      \<not> c_marked c \<and> (c_old c \<longleftrightarrow> promotes (promotion_age s) (minor_marks s a))"
    and "H a = Some c \<Longrightarrow> a \<in> set (old_objects s) \<Longrightarrow> c_old c"
proof -
  note ok = gc_okD [OF assms(1)]
  let ?m = "minor_marks s" and ?L = "minor_live s" and ?Y = "set (young_objects s)" and ?O = "set (old_objects s)"
  have H: "H = (\<lambda>a. if a \<in> ?Y then swept_young (promotion_age s) (?m a) else ?m a)"
    by (auto simp: H_def minor_swept_def swept_state_def fun_eq_iff)
  have dm: "dom ?m = ?Y \<union> ?O" using ok(4) mark_result_dom by simp
  have ym: "\<exists>c c'. ?m a = Some c \<and> \<not> c_old c \<and> H a = Some c' \<and> \<not> c_marked c' \<and> c_object c' = c_object c \<and>
      (c_old c' \<longleftrightarrow> promotes (promotion_age s) (?m a))" if aL: "a \<in> ?L" and aY: "a \<in> ?Y" for a
  proof -
    obtain c0 where c0: "gc_heap s a = Some c0" using aY ok(4) by blast
    then obtain c where c: "?m a = Some c" "c_old c = c_old c0"
      using mark_result_cell [of "gc_heap s" a c0 ?L "remembered s"] by simp
    have "c_marked c" using aL c(1) c0 mark_result_marked [of "gc_heap s" ?L "remembered s" a] by (simp add: domI)
    moreover have "\<not> c_old c" using ok(3) ok(6) [of a, OF c0] c(2) aY by blast
    ultimately show ?thesis using swept_young_cell [OF c(1), of "promotion_age s"] aY c(1) by (auto simp: H)
  qed
  have yn: "H a = None" if "a \<notin> ?L" "a \<in> ?Y" for a
    using that mark_result_marked [of "gc_heap s" ?L "remembered s" a] by (simp add: H swept_young_def)
  have oo: "H a = ?m a" if "a \<notin> ?Y" for a using that by (simp add: H)
  show d: "dom H = ?L \<inter> ?Y \<union> ?O"
  proof
    show "dom H \<subseteq> ?L \<inter> ?Y \<union> ?O"
    proof
      fix a
      assume a: "a \<in> dom H"
      show "a \<in> ?L \<inter> ?Y \<union> ?O"
      proof (cases "a \<in> ?Y")
        case True
        moreover have "a \<in> ?L" by (rule ccontr) (use a True yn [of a] in auto)
        ultimately show ?thesis by blast
      next
        case False
        then have "a \<in> dom ?m" using a oo [of a] by (simp add: dom_def)
        then show ?thesis using dm False by blast
      qed
    qed
    show "?L \<inter> ?Y \<union> ?O \<subseteq> dom H"
    proof
      fix a
      assume a: "a \<in> ?L \<inter> ?Y \<union> ?O"
      show "a \<in> dom H"
      proof (cases "a \<in> ?Y")
        case True
        then have "a \<in> ?L" using a ok(3) by blast
        then show ?thesis using ym [of a] True by blast
      next
        case False
        then have "a \<in> dom ?m" using a dm by blast
        then show ?thesis using oo [of a] False by (simp add: dom_def)
      qed
    qed
  qed
  show "H a = Some c \<Longrightarrow> a \<in> ?Y \<Longrightarrow> \<not> c_marked c \<and> (c_old c \<longleftrightarrow> promotes (promotion_age s) (?m a))"
    using ym [of a] yn [of a] by (cases "a \<in> ?L") auto
  show "c_old c" if hc: "H a = Some c" and aO: "a \<in> ?O"
  proof -
    have a: "a \<notin> ?Y" using aO ok(3) by blast
    obtain c0 where c0: "gc_heap s a = Some c0" using aO ok(4) by blast
    then show ?thesis
      using mark_result_cell [of "gc_heap s" a c0 ?L "remembered s"] oo [OF a] hc aO ok(6) [of a, OF c0] by auto
  qed
  assume a: "a \<in> dom H"
  have "object_of H a = object_of ?m a"
    using a ym [of a] yn [of a] oo [of a] by (cases "a \<in> ?Y"; cases "a \<in> ?L") (auto simp: object_of_def)
  moreover have "a \<in> dom (gc_heap s)" using a d ok(4) live_dom [OF assms(1) subset_refl] by blast
  ultimately show "object_of H a = kept_object (gc_heap s) ?L (remembered s) a" using mark_result_object by simp
qed

lemma minor_live_kept:
  assumes "gc_ok s"
  shows "minor_live s \<union> remembered s \<subseteq> dom (gc_heap (minor_swept s rem))"
  using minor_swept_heap(1) [OF assms, where rem = rem] live_dom [OF assms subset_refl] gc_okD(4,11) [OF assms] by blast

lemma minor_swept_intact:
  assumes "gc_ok s"
  shows "intact (gc_heap (minor_swept s rem)) (minor_live s \<union> remembered s)"
proof -
  obtain S where S: "intact (gc_heap s) S" "set (root_addresses s) - {0} \<subseteq> S" "remembered s \<subseteq> S"
    using gc_ok_intact [OF assms] .
  show ?thesis
  proof (rule intact_after [OF S refl])
    show "minor_live s \<union> remembered s \<subseteq> dom (gc_heap (minor_swept s rem))" by (rule minor_live_kept [OF assms])
    show "object_of (gc_heap (minor_swept s rem)) a = kept_object (gc_heap s) (minor_live s) (remembered s) a"
      if "a \<in> minor_live s \<union> remembered s" for a
      using minor_swept_heap(2) [OF assms, where rem = rem and a = a] that minor_live_kept [OF assms, of rem] by blast
  qed
qed

lemma minor_rem_live:
  assumes "gc_ok s" "set rem \<subseteq> set (filter (\<lambda>a. promotes (promotion_age s) (minor_marks s a)) (young_objects s))"
  shows "set rem \<subseteq> minor_live s"
proof
  fix a
  assume "a \<in> set rem"
  then have "is_marked (minor_marks s a)" using assms(2) marked_cases [of "minor_marks s a" "promotion_age s"] by auto
  then show "a \<in> minor_live s" using mark_result_marked by blast
qed

lemma minor_prune:
  assumes "gc_ok s" "set rem \<subseteq> set (filter (\<lambda>a. promotes (promotion_age s) (minor_marks s a)) (young_objects s))"
  shows "\<exists>r. prune_remembered_set (minor_swept s rem) = Some ((minor_swept s rem)\<lparr>remembered_set := r\<rparr>) \<and>
    set r \<subseteq> remembered s \<union> set rem"
proof -
  let ?H = "gc_heap (minor_swept s rem)"
  have r: "remembered_set (minor_swept s rem) = remembered_set s @ rem" by (simp add: minor_swept_def swept_state_def)
  have "a \<in> dom ?H \<and> children_of ?H a \<subseteq> dom ?H" if "a \<in> set (remembered_set s @ rem)" for a
  proof -
    have "a \<in> minor_live s \<union> remembered s" using that minor_rem_live [OF assms] by auto
    moreover have "closed ?H (minor_live s \<union> remembered s)" by (rule intact_closed [OF minor_swept_intact [OF assms(1)]])
    ultimately show ?thesis unfolding closed_def by blast
  qed
  then obtain q where "prune_loop ?H (remembered_set s @ rem) = Some q" "set q \<subseteq> set (remembered_set s @ rem)"
    using prune_loop_returns [of "remembered_set s @ rem" ?H] by blast
  then show ?thesis by (auto simp: prune_remembered_set_def r)
qed

lemma ch_gc_collect_minor_ok:
  assumes "gc_ok s"
  obtains s' where "ch_gc_collect_minor s = Some s'" "gc_ok s'" "dom (gc_heap s') = minor_live s \<union> set (old_objects s)"
    "\<And>a. a \<in> dom (gc_heap s') \<Longrightarrow> object_of (gc_heap s') a = kept_object (gc_heap s) (minor_live s) (remembered s) a"
    "root_addresses s' = root_addresses s" "vm_roots s' = vm_roots s" "root_slots s' = root_slots s"
proof -
  note ok = gc_okD [OF assms]
  let ?p = "promotion_age s" and ?m = "minor_marks s" and ?L = "minor_live s" and ?Y = "young_objects s" and ?O = "old_objects s"
  obtain h1 p1 h2 p2 where mark: "mark_roots_and_symbols s = Some (h1, p1)"
      "mark_remembered h1 p1 (remembered_set s) = Some (h2, p2)" "process_weak_refs h2 p2 = Some ?m"
    using mark_phase_minor [OF assms] by blast
  obtain rem where rem: "set rem \<subseteq> set (filter (\<lambda>a. promotes ?p (?m a)) ?Y)"
      and sw: "sweep_young_minor (s\<lparr>gc_heap := ?m\<rparr>) = Some (minor_swept s rem)"
    using young_phase [OF assms] by blast
  obtain q where pr: "prune_remembered_set (minor_swept s rem) = Some ((minor_swept s rem)\<lparr>remembered_set := q\<rparr>)"
      and q: "set q \<subseteq> remembered s \<union> set rem"
    using minor_prune [OF assms rem] by blast
  let ?H = "gc_heap (minor_swept s rem)"
  note H = minor_swept_heap [OF assms, where rem = rem]
  define os where "os = rev (filter (\<lambda>a. promotes ?p (?m a)) ?Y) @ ?O"
  define ys where "ys = filter (\<lambda>a. stays ?p (?m a)) ?Y"
  have lists: "old_objects (minor_swept s rem) = os" "young_objects (minor_swept s rem) = ys"
    by (simp_all add: minor_swept_def swept_state_def os_def ys_def)
  have mL: "is_marked (?m a) \<longleftrightarrow> a \<in> ?L" for a
    using mark_result_marked [of "gc_heap s" ?L "remembered s" a] live_dom [OF assms subset_refl] by blast
  have ys: "set ys \<union> set (filter (\<lambda>a. promotes ?p (?m a)) ?Y) = ?L \<inter> set ?Y"
    using mL marked_cases [of "?m _" ?p] by (auto simp: ys_def)
  have dH: "dom ?H = set ys \<union> set os" using H(1) ys by (auto simp: os_def)
  have disj: "distinct (ys @ os)"
    using ok(1-3) by (auto simp: ys_def os_def promotes_def stays_def)
  define h6 where "h6 = (\<lambda>a. if a \<in> set os then map_option (\<lambda>c. c\<lparr>c_marked := False\<rparr>) (?H a) else ?H a)"
  have cl: "clear_marks ?H os = Some h6" unfolding h6_def by (rule clear_marks_spec) (use dH in blast)
  have d6: "dom h6 = dom ?H" by (auto simp: h6_def dom_def)
  have o6: "object_of h6 a = object_of ?H a" for a by (cases "?H a") (simp_all add: h6_def object_of_def)
  have old6: "c_old c \<longleftrightarrow> a \<in> set os" if hc: "h6 a = Some c" for a c
  proof -
    obtain c0 where c0: "?H a = Some c0" "c_old c = c_old c0" using hc by (auto simp: h6_def split: if_splits)
    then have "a \<in> dom ?H" by blast
    show ?thesis
    proof (cases "a \<in> set ?Y")
      case True
      then have "a \<in> set os \<longleftrightarrow> promotes ?p (?m a)" using ok(3) by (auto simp: os_def)
      then show ?thesis using H(3) [OF c0(1) True] c0(2) by simp
    next
      case False
      then have "a \<in> set ?O" using H(1) \<open>a \<in> dom ?H\<close> by blast
      then show ?thesis using H(4) [OF c0(1)] c0(2) by (simp add: os_def)
    qed
  qed
  have m6: "\<not> is_marked (h6 a)" for a
  proof (cases "?H a")
    case None
    then show ?thesis by (simp add: h6_def)
  next
    case (Some c)
    then have "a \<in> set os \<or> a \<in> set ?Y" using dH H(1) by (auto simp: dom_def ys_def)
    then show ?thesis using Some H(3) [OF Some] by (auto simp: h6_def)
  qed
  have i6: "intact h6 (?L \<union> remembered s)"
  proof -
    have "refs_of h6 = refs_of ?H" using o6 by (simp add: refs_of_def children_of_def fun_eq_iff)
    then show ?thesis using minor_swept_intact [OF assms, of rem] d6 by (simp add: intact_def)
  qed
  have q': "set q \<subseteq> ?L \<union> remembered s" using q minor_rem_live [OF assms rem] by blast
  have qo: "set q \<subseteq> set os" using q rem ok(11) by (auto simp: os_def)
  have roots: "set (root_addresses s) - {0} \<subseteq> ?L" by (auto intro: live_root)
  have cnt: "young_count (minor_swept s rem) = length ys" "old_count (minor_swept s rem) = length os"
    "object_count (minor_swept s rem) = length ys + length os"
  proof -
    have split: "length ?Y = length ys + length (filter (\<lambda>a. promotes ?p (?m a)) ?Y) + length (filter (\<lambda>a. \<not> is_marked (?m a)) ?Y)"
    proof -
      have "filter (\<lambda>a. is_marked (?m a) \<and> \<not> stays ?p (?m a)) ?Y = filter (\<lambda>a. promotes ?p (?m a)) ?Y"
        by (intro filter_cong refl) (auto simp: promotes_def stays_def is_marked_def)
      moreover have "filter (\<lambda>a. is_marked (?m a) \<and> stays ?p (?m a)) ?Y = ys"
        unfolding ys_def by (intro filter_cong refl) (auto simp: stays_def is_marked_def)
      ultimately show ?thesis
        using sum_length_filter_compl [of "\<lambda>a. is_marked (?m a)" ?Y]
          sum_length_filter_compl [of "\<lambda>a. stays ?p (?m a)" "filter (\<lambda>a. is_marked (?m a)) ?Y"] by (simp add: conj_commute)
    qed
    show "young_count (minor_swept s rem) = length ys"
      using ok(8) filter_lengths [of ?Y "\<lambda>a. stays ?p (?m a)"] by (simp add: minor_swept_def swept_state_def ys_def)
    show "old_count (minor_swept s rem) = length os"
      using ok(9) by (simp add: minor_swept_def swept_state_def os_def)
    show "object_count (minor_swept s rem) = length ys + length os"
      using ok(10) split by (simp add: minor_swept_def swept_state_def os_def)
  qed
  define s' where "s' = (minor_swept s rem)\<lparr>remembered_set := q, gc_heap := h6, alloc_count := 0,
      minor_collections := minor_collections (minor_swept s rem) + 1, collections := collections (minor_swept s rem) + 1,
      threshold := object_count (minor_swept s rem) * 2 + CH_GC_DEFAULT_THRESHOLD\<rparr>"
  have ra: "root_addresses s' = root_addresses s" "vm_roots s' = vm_roots s" "root_slots s' = root_slots s"
    by (simp_all add: s'_def minor_swept_def swept_state_def root_addresses_def)
  have run: "ch_gc_collect_minor s = Some s'"
  proof -
    have "clear_marks (gc_heap s) ?O = Some (gc_heap s)" by (rule clear_marks_unmarked [OF ok(7)]) (use ok(4) in blast)
    then show ?thesis using mark sw pr cl by (simp add: ch_gc_collect_minor_def lists s'_def)
  qed
  have dd: "dom h6 = ?L \<union> set ?O" using d6 H(1) live_dom(1) [OF assms subset_refl] ok(4) by blast
  have "gc_ok s'"
    unfolding gc_ok_def ra(1)
    using disj d6 dH dd live_dom(1) [OF assms subset_refl] ok(4,5) old6 m6 cnt qo i6 roots q'
    by (auto simp: s'_def lists marked_iff)
  then show ?thesis using that [of s'] run ra dd H(2) o6 d6 by (simp add: s'_def)
qed

end
