(* ===== verification/Chaaya_Gc_Mutator.thy ===== *)
theory Chaaya_Gc_Mutator
  imports Chaaya_Gc_Collect
begin

text \<open>
  The collector under a mutator: the operations that allocate, store and promote keep the collector's
  invariant, every reachable state satisfies it and no operation fails there. What the mark phase
  follows is compared with the references that each kind of object holds.
\<close>

section \<open>The operations keep the invariant\<close>

definition valid_address :: "addr \<Rightarrow> bool" where
  "valid_address a \<longleftrightarrow> a \<noteq> 0 \<and> ch_is_pointer (ch_make_pointer a) \<and> ch_to_object (ch_make_pointer a) = a"

lemma gc_okI:
  assumes "gc_ok s" "intact (gc_heap s') S" "set (root_addresses s') - {0} \<subseteq> S" "remembered s' \<subseteq> S"
    "remembered s' \<subseteq> set (old_objects s)"
    "\<And>a. map_option (\<lambda>c. (c_marked c, c_old c)) (gc_heap s' a) = map_option (\<lambda>c. (c_marked c, c_old c)) (gc_heap s a)"
    "young_objects s' = young_objects s" "old_objects s' = old_objects s" "young_count s' = young_count s"
    "old_count s' = old_count s" "object_count s' = object_count s"
  shows "gc_ok s'"
proof -
  note ok = gc_okD [OF assms(1)]
  have d: "dom (gc_heap s') = dom (gc_heap s)"
  proof -
    have "gc_heap s' a = None \<longleftrightarrow> gc_heap s a = None" for a
      using assms(6) [of a] by (cases "gc_heap s' a"; cases "gc_heap s a") simp_all
    then show ?thesis by (simp add: dom_def)
  qed
  have old: "c_old c \<longleftrightarrow> a \<in> set (old_objects s)" if "gc_heap s' a = Some c" for a c
    using that assms(6) [of a] ok(6) [of a] by (cases "gc_heap s a") simp_all
  have mk: "marked (gc_heap s') = {}"
  proof -
    have "is_marked (gc_heap s' a) = is_marked (gc_heap s a)" for a
      using assms(6) [of a] by (cases "gc_heap s' a"; cases "gc_heap s a") simp_all
    then show ?thesis using ok(7) by (auto simp: marked_iff)
  qed
  show ?thesis
    unfolding gc_ok_def assms(7-11) using ok d old mk assms(2-5) by auto
qed

lemma gc_ok_roots:
  assumes "gc_ok s" "set (root_addresses s') - {0} \<subseteq> live_of s (remembered s)"
    "gc_heap s' = gc_heap s" "remembered_set s' = remembered_set s"
    "young_objects s' = young_objects s" "old_objects s' = old_objects s" "young_count s' = young_count s"
    "old_count s' = old_count s" "object_count s' = object_count s"
  shows "gc_ok s'"
proof -
  obtain S where S: "intact (gc_heap s) S" "set (root_addresses s) - {0} \<subseteq> S" "remembered s \<subseteq> S"
    using gc_ok_intact [OF assms(1)] .
  have "live_of s (remembered s) \<subseteq> S" by (rule live_intact [OF S])
  then show ?thesis
    using gc_okI [OF assms(1), of s' S] S assms(2-9) gc_okD(11) [OF assms(1)] by auto
qed

lemma rooted_live: "v \<in> set (vm_roots s) \<Longrightarrow> set (targets [v]) - {0} \<subseteq> live_of s V"
  by (auto simp: root_addresses_def targets_def intro!: live_root)

lemma targets_subset: "set vs \<subseteq> set ws \<Longrightarrow> set (targets vs) \<subseteq> set (targets ws)"
  by (auto simp: targets_def)

lemma targets_append: "targets (vs @ ws) = targets vs @ targets ws"
  by (simp add: targets_def)

lemma root_addresses_live: "set (root_addresses s) - {0} \<subseteq> live_of s V"
  by (auto intro: live_root)

text \<open>The registers and the root stack may take any value that is reachable.\<close>

lemma gc_ok_registers:
  assumes "gc_ok s" "set (targets vs) - {0} \<subseteq> live_of s (remembered s)"
  shows "gc_ok (s\<lparr>vm_roots := vs\<rparr>)"
  by (rule gc_ok_roots [OF assms(1)]) (use assms(2) root_addresses_live [of s "remembered s"] in \<open>auto simp: root_addresses_def\<close>)

lemma gc_ok_slots:
  assumes "gc_ok s" "set (targets vs) - {0} \<subseteq> live_of s (remembered s)"
  shows "gc_ok (s\<lparr>root_slots := vs\<rparr>)"
  by (rule gc_ok_roots [OF assms(1)]) (use assms(2) root_addresses_live [of s "remembered s"] in \<open>auto simp: root_addresses_def\<close>)

text \<open>The collections an allocation may start with.\<close>

definition collect_if_due :: "gc \<Rightarrow> gc option" where
  "collect_if_due s =
     (let due = no_collect s = 0 \<and> threshold s \<le> alloc_count s in
      case (if due then ch_gc_collect_minor s else Some s) of
        None \<Rightarrow> None
      | Some s1 \<Rightarrow>
          if due \<and> major_interval s1 \<noteq> 0 \<and> minor_collections s1 mod major_interval s1 = 0
          then ch_gc_collect_major s1 else Some s1)"

definition add_object :: "gc \<Rightarrow> addr \<Rightarrow> gc_object \<Rightarrow> gc" where
  "add_object s a x =
     s\<lparr>gc_heap := (gc_heap s)(a \<mapsto> \<lparr>c_marked = False, c_old = False, c_age = 0, c_object = x\<rparr>),
       young_objects := a # young_objects s, young_count := young_count s + 1,
       object_count := object_count s + 1, alloc_count := alloc_count s + 1\<rparr>"

lemma ch_gc_alloc_split: "ch_gc_alloc s a x = map_option (\<lambda>s'. add_object s' a x) (collect_if_due s)"
  by (simp add: ch_gc_alloc_def collect_if_due_def add_object_def Let_def split: option.split)

lemma collect_if_due_ok:
  assumes "gc_ok s"
  obtains s' where "collect_if_due s = Some s'" "gc_ok s'" "dom (gc_heap s') \<subseteq> dom (gc_heap s)"
    "root_addresses s' = root_addresses s" "vm_roots s' = vm_roots s" "root_slots s' = root_slots s"
proof -
  obtain s1 where s1: "ch_gc_collect_minor s = Some s1" "gc_ok s1" "dom (gc_heap s1) = minor_live s \<union> set (old_objects s)"
      "root_addresses s1 = root_addresses s" "vm_roots s1 = vm_roots s" "root_slots s1 = root_slots s"
    using ch_gc_collect_minor_ok [OF assms] by metis
  have d1: "dom (gc_heap s1) \<subseteq> dom (gc_heap s)"
    using s1(3) live_dom(1) [OF assms subset_refl] gc_okD(4) [OF assms] by blast
  obtain s2 where s2: "ch_gc_collect_major s1 = Some s2" "gc_ok s2" "dom (gc_heap s2) = live_of s1 {}"
      "root_addresses s2 = root_addresses s1" "vm_roots s2 = vm_roots s1" "root_slots s2 = root_slots s1"
    using ch_gc_collect_major_ok [OF s1(2)] by metis
  have d2: "dom (gc_heap s2) \<subseteq> dom (gc_heap s1)" using s2(3) live_dom(1) [OF s1(2) empty_subsetI] by blast
  show ?thesis
  proof (cases "no_collect s = 0 \<and> threshold s \<le> alloc_count s")
    case False
    then have "collect_if_due s = Some s" by (auto simp: collect_if_due_def Let_def)
    then show ?thesis using that [of s] assms by simp
  next
    case due: True
    show ?thesis
    proof (cases "major_interval s1 \<noteq> 0 \<and> minor_collections s1 mod major_interval s1 = 0")
      case True
      then have "collect_if_due s = Some s2" using due s1(1) s2(1) by (simp add: collect_if_due_def Let_def)
      moreover have "dom (gc_heap s2) \<subseteq> dom (gc_heap s)" using d1 d2 by (rule subset_trans [rotated])
      ultimately show ?thesis using that [of s2] s1(4-6) s2(2,4-6) by simp
    next
      case False
      then have "collect_if_due s = Some s1" using due s1(1) by (auto simp: collect_if_due_def Let_def)
      then show ?thesis using that [of s1] s1 d1 by simp
    qed
  qed
qed

lemma add_object_ok:
  assumes "gc_ok s" "gc_heap s a = None" "a \<noteq> 0" "set (mark_children x) - {0} \<subseteq> live_of s (remembered s)" "\<not> is_ephemeron x"
  shows "gc_ok (add_object s a x)"
proof -
  note ok = gc_okD [OF assms(1)]
  obtain S where S: "intact (gc_heap s) S" "set (root_addresses s) - {0} \<subseteq> S" "remembered s \<subseteq> S"
    using gc_ok_intact [OF assms(1)] .
  have l: "live_of s (remembered s) \<subseteq> S" by (rule live_intact [OF S])
  let ?s = "add_object s a x"
  have aS: "a \<notin> S" using assms(2) S(1) by (auto simp: intact_def)
  have at: "gc_heap ?s b = gc_heap s b" if "b \<noteq> a" for b using that by (simp add: add_object_def)
  have self: "refs_of (gc_heap ?s) a \<subseteq> S"
    using assms(4,5) l by (auto simp: refs_of_def children_of_def object_of_def add_object_def is_ephemeron_def split: gc_object.splits)
  have others: "refs_of (gc_heap ?s) b = refs_of (gc_heap s) b" if "b \<noteq> a" for b
    using at [OF that] by (simp add: refs_of_def children_of_def object_of_def)
  have int: "intact (gc_heap ?s) (insert a S)"
  proof -
    have "insert a S \<subseteq> dom (gc_heap ?s)" using S(1) by (auto simp: intact_def add_object_def)
    moreover have "refs_of (gc_heap ?s) b \<subseteq> insert a S" if "b \<in> insert a S" for b
      using that self others [of b] S(1) by (cases "b = a") (auto simp: intact_def)
    ultimately show ?thesis by (simp add: intact_def)
  qed
  have lists: "a \<notin> set (young_objects s)" "a \<notin> set (old_objects s)" using assms(2) ok(4) by auto
  have mk: "marked (gc_heap ?s) = {}"
    using ok(7) by (auto simp: marked_def add_object_def)
  have roots: "set (root_addresses ?s) - {0} \<subseteq> insert a S" using S(2) by (auto simp: root_addresses_def add_object_def)
  show ?thesis
    unfolding gc_ok_def using ok lists mk int roots S(3) assms(3) by (auto simp: add_object_def)
qed

lemma gc_ok_store:
  assumes "gc_ok s" "gc_heap s a = Some c" "set (mark_children x) - {0} \<subseteq> live_of s (remembered s)" "\<not> is_ephemeron x"
  shows "gc_ok (s\<lparr>gc_heap := (gc_heap s)(a \<mapsto> c\<lparr>c_object := x\<rparr>)\<rparr>)"
proof -
  obtain S where S: "intact (gc_heap s) S" "set (root_addresses s) - {0} \<subseteq> S" "remembered s \<subseteq> S"
    using gc_ok_intact [OF assms(1)] .
  have l: "live_of s (remembered s) \<subseteq> S" by (rule live_intact [OF S])
  let ?s = "s\<lparr>gc_heap := (gc_heap s)(a \<mapsto> c\<lparr>c_object := x\<rparr>)\<rparr>"
  have at: "gc_heap ?s b = gc_heap s b" if "b \<noteq> a" for b using that by simp
  have "refs_of (gc_heap ?s) a \<subseteq> S"
    using assms(3,4) l by (auto simp: refs_of_def children_of_def object_of_def is_ephemeron_def split: gc_object.splits)
  moreover have "refs_of (gc_heap ?s) b = refs_of (gc_heap s) b" if "b \<noteq> a" for b
    using at [OF that] by (simp add: refs_of_def children_of_def object_of_def)
  ultimately have "refs_of (gc_heap ?s) b \<subseteq> S" if "b \<in> S" for b
    using that S(1) by (cases "b = a") (auto simp: intact_def)
  moreover have "S \<subseteq> dom (gc_heap ?s)" using S(1) by (auto simp: intact_def)
  ultimately have int: "intact (gc_heap ?s) S" by (simp add: intact_def)
  show ?thesis
    by (rule gc_okI [OF assms(1) int]) (use S gc_okD(11) [OF assms(1)] assms(2) in \<open>auto simp: root_addresses_def\<close>)
qed

lemma gc_ok_remember:
  assumes "gc_ok s" "a \<in> live_of s (remembered s)" "a \<in> set (old_objects s)"
  shows "gc_ok (s\<lparr>remembered_set := remembered_set s @ [a]\<rparr>)"
proof -
  obtain S where S: "intact (gc_heap s) S" "set (root_addresses s) - {0} \<subseteq> S" "remembered s \<subseteq> S"
    using gc_ok_intact [OF assms(1)] .
  have l: "live_of s (remembered s) \<subseteq> S" by (rule live_intact [OF S])
  have S': "intact (gc_heap (s\<lparr>remembered_set := remembered_set s @ [a]\<rparr>)) S" using S(1) by simp
  show ?thesis
    by (rule gc_okI [OF assms(1) S']) (use S l assms(2,3) gc_okD(11) [OF assms(1)] in \<open>auto simp: root_addresses_def\<close>)
qed

lemma remembered_set_add_ok:
  assumes "gc_ok s" "a \<in> live_of s (remembered s)"
  shows "gc_ok (remembered_set_add s a)"
  using assms gc_ok_remember [OF assms] gc_okD(6) [OF assms(1), of a]
  by (auto simp: remembered_set_add_def split: option.split)

lemma live_value_dom:
  assumes "gc_ok s" "set (targets [v]) - {0} \<subseteq> live_of s (remembered s)" "ch_is_pointer v" "ch_to_object v \<noteq> 0"
  shows "ch_to_object v \<in> dom (gc_heap s)"
  using assms(2-4) live_dom(1) [OF assms(1) subset_refl] by (auto simp: targets_def)

lemma ch_gc_write_barrier_ok:
  assumes "gc_ok s" "a \<in> live_of s (remembered s)" "set (targets [v]) - {0} \<subseteq> live_of s (remembered s)"
  shows "\<exists>s'. ch_gc_write_barrier s a v = Some s' \<and> gc_ok s' \<and> (s' = s \<or> s' = remembered_set_add s a)"
proof -
  obtain c where c: "gc_heap s a = Some c" using assms(2) live_dom(1) [OF assms(1) subset_refl] by blast
  show ?thesis
  proof (cases "\<not> c_old c \<or> \<not> ch_is_pointer v \<or> ch_to_object v = 0")
    case True
    then show ?thesis using c assms(1) by (auto simp: ch_gc_write_barrier_def)
  next
    case False
    then obtain d where "gc_heap s (ch_to_object v) = Some d" using live_value_dom [OF assms(1,3)] by blast
    then show ?thesis
      using False c assms(1) remembered_set_add_ok [OF assms(1,2)] by (auto simp: ch_gc_write_barrier_def)
  qed
qed

text \<open>An object whose references are live may be put into a register.\<close>

lemma gc_ok_new_root:
  assumes "gc_ok s" "targets [v] = [a]" "gc_heap s a = Some c"
    "set (mark_children (c_object c)) - {0} \<subseteq> live_of s (remembered s)" "\<not> is_ephemeron (c_object c)"
  shows "gc_ok (s\<lparr>vm_roots := v # vm_roots s\<rparr>)"
proof -
  obtain S where S: "intact (gc_heap s) S" "set (root_addresses s) - {0} \<subseteq> S" "remembered s \<subseteq> S"
    using gc_ok_intact [OF assms(1)] .
  have l: "live_of s (remembered s) \<subseteq> S" by (rule live_intact [OF S])
  have "object_of (gc_heap s) a = Some (c_object c)" using assms(3) by (simp add: object_of_def)
  then have "refs_of (gc_heap s) a \<subseteq> S"
    using assms(4,5) l by (auto simp: refs_of_def children_of_def is_ephemeron_def split: gc_object.splits)
  then have int: "intact (gc_heap s) (insert a S)" using S(1) assms(3) by (auto simp: intact_def)
  have r: "root_addresses (s\<lparr>vm_roots := v # vm_roots s\<rparr>) = a # root_addresses s"
    using assms(2) targets_append [of "[v]" "vm_roots s"] by (simp add: root_addresses_def)
  have int': "intact (gc_heap (s\<lparr>vm_roots := v # vm_roots s\<rparr>)) (insert a S)" using int by simp
  show ?thesis
    by (rule gc_okI [OF assms(1) int']) (use S r gc_okD(11) [OF assms(1)] in auto)
qed

lemma pair_children: "set (mark_children (GPair x y)) = set (targets [x]) \<union> set (targets [y])"
  by (simp add: targets_two)

lemma zero_pair: "mark_children (GPair 0 0) = []"
  by code_simp

lemma ch_gc_cons_ok:
  assumes "gc_ok s" "set (targets [car, cdr]) - {0} \<subseteq> live_of s (remembered s)" "gc_heap s a = None" "a \<noteq> 0"
    "length (root_slots s) + 2 \<le> CH_GC_ROOT_MAX" "targets [ch_make_pointer a] = [a]"
  obtains s' where "ch_gc_cons s a car cdr = Some (ch_make_pointer a, s')" "gc_ok s'" "object_of (gc_heap s') a = Some (GPair car cdr)"
    "dom (gc_heap s') \<subseteq> insert a (dom (gc_heap s))" "vm_roots s' = vm_roots s" "root_slots s' = root_slots s"
    "gc_ok (s'\<lparr>vm_roots := ch_make_pointer a # vm_roots s\<rparr>)"
proof -
  let ?s2 = "s\<lparr>root_slots := root_slots s @ [car, cdr]\<rparr>"
  have push: "Option.bind (ch_gc_push s car) (\<lambda>s1. Option.bind (ch_gc_push s1 cdr) f) = f ?s2" for f :: "gc \<Rightarrow> 'b option"
    using assms(5) by (simp add: ch_gc_push_def)
  have ok2: "gc_ok ?s2"
    by (rule gc_ok_slots [OF assms(1)])
      (use assms(2) root_addresses_live [of s "remembered s"] in \<open>auto simp: targets_append root_addresses_def\<close>)
  obtain s3 where s3: "collect_if_due ?s2 = Some s3" "gc_ok s3" "dom (gc_heap s3) \<subseteq> dom (gc_heap ?s2)"
      "root_addresses s3 = root_addresses ?s2" "vm_roots s3 = vm_roots ?s2" "root_slots s3 = root_slots ?s2"
    by (rule collect_if_due_ok [OF ok2])
  have a3: "gc_heap s3 a = None" using s3(3) assms(3) by auto
  let ?s4 = "add_object s3 a (GPair 0 0)"
  have ok4: "gc_ok ?s4" by (rule add_object_ok [OF s3(2) a3 assms(4)]) (simp_all add: zero_pair is_ephemeron_def del: mark_children.simps)
  obtain c where c: "gc_heap ?s4 a = Some c" by (auto simp: add_object_def)
  let ?s5 = "?s4\<lparr>gc_heap := (gc_heap ?s4)(a \<mapsto> c\<lparr>c_object := GPair car cdr\<rparr>)\<rparr>"
  have slots4: "root_slots ?s4 = root_slots s @ [car, cdr]" "root_addresses ?s4 = root_addresses ?s2" "vm_roots ?s4 = vm_roots s"
    using s3(4-6) by (simp_all add: add_object_def root_addresses_def)
  have "set (targets [car, cdr]) - {0} \<subseteq> set (root_addresses ?s4) - {0}"
    unfolding slots4(2) by (auto simp: root_addresses_def targets_append)
  then have ch: "set (mark_children (GPair car cdr)) - {0} \<subseteq> live_of ?s4 (remembered ?s4)"
    using root_addresses_live [of ?s4 "remembered ?s4"] by auto
  have ok5: "gc_ok ?s5" by (rule gc_ok_store [OF ok4 c ch]) (simp add: is_ephemeron_def)
  let ?s6 = "?s5\<lparr>root_slots := root_slots s\<rparr>"
  have "set (targets (root_slots s)) \<subseteq> set (root_addresses ?s5)"
    using slots4(1) by (auto simp: root_addresses_def targets_append)
  then have ok6: "gc_ok ?s6"
    by (intro gc_ok_slots [OF ok5]) (use root_addresses_live [of ?s5 "remembered ?s5"] in blast)
  have pop: "ch_gc_pop_n ?s5 2 = Some ?s6" using slots4(1) by (simp add: ch_gc_pop_n_def)
  have run: "ch_gc_cons s a car cdr = Some (ch_make_pointer a, ?s6)"
    unfolding ch_gc_cons_def push ch_gc_alloc_split using s3(1) c pop by simp
  let ?v = "ch_make_pointer a"
  have c5: "gc_heap ?s5 a = Some (c\<lparr>c_object := GPair car cdr\<rparr>)" by simp
  have "set (targets [car, cdr]) - {0} \<subseteq> set (root_addresses ?s5)"
    using slots4(1) by (auto simp: root_addresses_def targets_append)
  then have ch5: "set (mark_children (GPair car cdr)) - {0} \<subseteq> live_of ?s5 (remembered ?s5)"
    using root_addresses_live [of ?s5 "remembered ?s5"] by auto
  have ok7: "gc_ok (?s5\<lparr>vm_roots := ?v # vm_roots s\<rparr>)"
    using gc_ok_new_root [OF ok5 assms(6) c5, simplified, OF ch5 [simplified]] slots4(3) by (simp add: is_ephemeron_def)
  have ok8: "gc_ok (?s6\<lparr>vm_roots := ?v # vm_roots s\<rparr>)"
  proof -
    let ?s7 = "?s5\<lparr>vm_roots := ?v # vm_roots s\<rparr>"
    have "set (targets (root_slots s)) \<subseteq> set (root_addresses ?s7)"
      using slots4(1) by (auto simp: root_addresses_def targets_append)
    then have "gc_ok (?s7\<lparr>root_slots := root_slots s\<rparr>)"
      by (intro gc_ok_slots [OF ok7]) (use root_addresses_live [of ?s7 "remembered ?s7"] in blast)
    moreover have "?s7\<lparr>root_slots := root_slots s\<rparr> = ?s6\<lparr>vm_roots := ?v # vm_roots s\<rparr>"
      by (rule gc.equality) simp_all
    ultimately show ?thesis by (simp only:)
  qed
  show ?thesis
    using that [OF run ok6] ok8 s3(3) slots4(3) by (auto simp: object_of_def add_object_def)
qed

lemma gc_set_car_ok:
  assumes "gc_ok s" "gc_heap s a = Some c" "c_object c = GPair x d" "a \<in> live_of s (remembered s)"
    "set (targets [v]) - {0} \<subseteq> live_of s (remembered s)" "targets [w] = [a]" "w \<in> set (vm_roots s)" "v \<in> set (vm_roots s)"
  shows "\<exists>s'. gc_set_car s a v = Some s' \<and> gc_ok s' \<and> object_of (gc_heap s') a = Some (GPair v d) \<and> vm_roots s' = vm_roots s"
proof -
  let ?s = "s\<lparr>gc_heap := (gc_heap s)(a \<mapsto> c\<lparr>c_object := GPair v d\<rparr>)\<rparr>"
  have "object_of (gc_heap s) a = Some (GPair x d)" using assms(2,3) by (simp add: object_of_def)
  then have "children_of (gc_heap s) a = set (targets [x, d]) - {0}" by (simp add: children_of_def)
  then have "set (targets [x, d]) - {0} \<subseteq> live_of s (remembered s)"
    using live_child [of a "gc_heap s" _ "remembered s"] assms(4) by blast
  then have "set (mark_children (GPair v d)) - {0} \<subseteq> live_of s (remembered s)"
    using assms(5) targets_two [of x d] targets_two [of v d] by auto
  then have ok: "gc_ok ?s" by (rule gc_ok_store [OF assms(1,2)]) (simp add: is_ephemeron_def)
  have a: "a \<noteq> 0" using gc_okD(5) [OF assms(1)] assms(2) by auto
  have reg: "u \<in> set (vm_roots ?s) \<Longrightarrow> set (targets [u]) - {0} \<subseteq> live_of ?s (remembered ?s)" for u
    by (rule rooted_live) simp
  have al: "a \<in> live_of ?s (remembered ?s)" using reg [of w] assms(6,7) a by simp
  have vl: "set (targets [v]) - {0} \<subseteq> live_of ?s (remembered ?s)" using reg [of v] assms(8) by simp
  obtain s' where s': "ch_gc_write_barrier ?s a v = Some s'" "gc_ok s'" "s' = ?s \<or> s' = remembered_set_add ?s a"
    using ch_gc_write_barrier_ok [OF ok al vl] by blast
  have "gc_heap s' = gc_heap ?s" "vm_roots s' = vm_roots ?s"
    using s'(3) by (auto simp: remembered_set_add_def split: option.split)
  then show ?thesis using s'(1,2) assms(2,3) by (auto simp: gc_set_car_def object_of_def)
qed

lemma live_object:
  assumes "object_of h = object_of h'"
  shows "live h R V = live h' R V"
proof -
  have c: "children_of h = children_of h'" using assms by (simp add: children_of_def fun_eq_iff)
  have *: "live g R V \<subseteq> live g' R V" if "object_of g = object_of g'" "children_of g = children_of g'" for g g'
  proof
    fix a
    assume "a \<in> live g R V"
    then show "a \<in> live g' R V"
    proof (induction rule: live.induct)
      case (live_root a)
      then show ?case by (rule live.live_root)
    next
      case (live_child a b)
      then show ?case using that(2) by (auto intro: live.live_child)
    next
      case (live_value a key val broken b)
      then show ?case using that(1) by (auto intro: live.live_value)
    qed
  qed
  show ?thesis using * [OF assms c] * [OF assms [symmetric] c [symmetric]] by blast
qed

lemma ch_gc_promote_to_old_ok:
  assumes "gc_ok s" "a \<in> live_of s (remembered s)"
  shows "\<exists>s'. ch_gc_promote_to_old s a = Some s' \<and> gc_ok s' \<and> vm_roots s' = vm_roots s"
proof -
  note ok = gc_okD [OF assms(1)]
  obtain c where c: "gc_heap s a = Some c" using assms(2) live_dom(1) [OF assms(1) subset_refl] by blast
  show ?thesis
  proof (cases "c_old c \<or> a \<notin> set (young_objects s)")
    case True
    then show ?thesis using c assms(1) by (auto simp: ch_gc_promote_to_old_def)
  next
    case False
    let ?s = "(make_old s a c)\<lparr>young_objects := remove1 a (young_objects s)\<rparr>"
    obtain S where S: "intact (gc_heap s) S" "set (root_addresses s) - {0} \<subseteq> S" "remembered s \<subseteq> S"
      using gc_ok_intact [OF assms(1)] .
    have aS: "a \<in> S" using live_intact [OF S] assms(2) by blast
    have o: "object_of (gc_heap ?s) b = object_of (gc_heap s) b" for b using c by (simp add: make_old_def object_of_def)
    have d: "dom (gc_heap ?s) = dom (gc_heap s)" using c by (auto simp: make_old_def)
    have int: "intact (gc_heap ?s) S"
      using S(1) o d by (simp add: intact_def refs_of_def children_of_def)
    have roots: "root_addresses ?s = root_addresses s" by (simp add: make_old_def root_addresses_def)
    have lists: "young_objects ?s = remove1 a (young_objects s)" "old_objects ?s = a # old_objects s"
      "young_count ?s = young_count s - 1" "old_count ?s = old_count s + 1" "object_count ?s = object_count s"
      "remembered_set ?s = remembered_set s"
      by (simp_all add: make_old_def)
    have sy: "set (remove1 a (young_objects s)) = set (young_objects s) - {a}" using ok(1) by (rule set_remove1_eq)
    have len: "length (remove1 a (young_objects s)) = length (young_objects s) - 1" "0 < length (young_objects s)"
      using False by (auto simp: length_remove1)
    have old: "c_old e \<longleftrightarrow> b \<in> set (a # old_objects s)" if "gc_heap ?s b = Some e" for b e
      using that ok(6) [of b e] by (cases "b = a") (auto simp: make_old_def)
    have mk: "marked (gc_heap ?s) = {}" using ok(7) c by (auto simp: marked_def make_old_def split: if_splits)
    have k: "gc_ok ?s"
      unfolding gc_ok_def roots lists d using ok(1-5,8-11) sy len False old mk int S by auto
    have "children_of (gc_heap ?s) a \<subseteq> dom (gc_heap ?s)"
      using intact_closed [OF int] aS by (auto simp: closed_def)
    then have "set (mark_children (c_object c)) - {0} \<subseteq> dom (gc_heap ?s)"
      using o [of a] c by (auto simp: children_of_def object_of_def)
    then obtain y where y: "references_young (gc_heap ?s) (c_object c) = Some y" using references_young_returns by blast
    have "a \<in> live_of ?s (remembered ?s)"
    proof -
      have "live_of ?s (remembered ?s) = live_of s (remembered s)"
      proof -
        have "object_of (gc_heap ?s) = object_of (gc_heap s)" using o by (rule ext)
        then show ?thesis using live_object [of "gc_heap ?s" "gc_heap s"] roots lists(6) by simp
      qed
      then show ?thesis using assms(2) by simp
    qed
    then have "gc_ok (if y then remembered_set_add ?s a else ?s)" using k remembered_set_add_ok [OF k] by simp
    moreover have "vm_roots (if y then remembered_set_add ?s a else ?s) = vm_roots s"
      by (simp add: remembered_set_add_def make_old_def split: option.split)
    ultimately show ?thesis using c False y by (simp add: ch_gc_promote_to_old_def Let_def)
  qed
qed

section \<open>Steps\<close>

text \<open>
  One step of a program on lists: its registers are \<open>vm_roots\<close>, and every value it uses is in a
  register. It makes a pair at a fresh address, stores into and reads from one, drops and permutes
  registers, loads an immediate, promotes an object, or starts a collection.
\<close>

inductive gc_step :: "gc \<Rightarrow> gc \<Rightarrow> bool" where
  step_cons: "car \<in> set (vm_roots s) \<Longrightarrow> cdr \<in> set (vm_roots s) \<Longrightarrow> gc_heap s a = None \<Longrightarrow> a \<noteq> 0 \<Longrightarrow>
     targets [ch_make_pointer a] = [a] \<Longrightarrow> length (root_slots s) + 2 \<le> CH_GC_ROOT_MAX \<Longrightarrow>
     ch_gc_cons s a car cdr = Some (v, s') \<Longrightarrow> gc_step s (s'\<lparr>vm_roots := v # vm_roots s'\<rparr>)"
| step_set_car: "w \<in> set (vm_roots s) \<Longrightarrow> v \<in> set (vm_roots s) \<Longrightarrow> ch_is_pointer w \<Longrightarrow>
     gc_set_car s (ch_to_object w) v = Some s' \<Longrightarrow> gc_step s s'"
| step_read: "w \<in> set (vm_roots s) \<Longrightarrow> ch_is_pointer w \<Longrightarrow> object_of (gc_heap s) (ch_to_object w) = Some (GPair x d) \<Longrightarrow>
     v = x \<or> v = d \<Longrightarrow> gc_step s (s\<lparr>vm_roots := v # vm_roots s\<rparr>)"
| step_drop: "set vs \<subseteq> set (vm_roots s) \<Longrightarrow> gc_step s (s\<lparr>vm_roots := vs\<rparr>)"
| step_immediate: "\<not> ch_is_pointer v \<Longrightarrow> gc_step s (s\<lparr>vm_roots := v # vm_roots s\<rparr>)"
| step_promote: "w \<in> set (vm_roots s) \<Longrightarrow> ch_is_pointer w \<Longrightarrow> ch_to_object w \<noteq> 0 \<Longrightarrow>
     ch_gc_promote_to_old s (ch_to_object w) = Some s' \<Longrightarrow> gc_step s s'"
| step_minor: "ch_gc_collect_minor s = Some s' \<Longrightarrow> gc_step s s'"
| step_major: "ch_gc_collect_major s = Some s' \<Longrightarrow> gc_step s s'"

inductive_cases gc_stepE: "gc_step s s'"

inductive gc_reachable :: "gc \<Rightarrow> gc \<Rightarrow> bool" for s0 where
  reach_start: "gc_reachable s0 s0"
| reach_step: "gc_reachable s0 s \<Longrightarrow> gc_step s s' \<Longrightarrow> gc_reachable s0 s'"

lemma register_live:
  assumes "w \<in> set (vm_roots s)" "ch_is_pointer w" "ch_to_object w \<noteq> 0"
  shows "ch_to_object w \<in> live_of s V" "targets [w] = [ch_to_object w]"
  using rooted_live [OF assms(1), of V] assms(2,3) by (auto simp: targets_def)

lemma gc_step_ok: "gc_step s s' \<Longrightarrow> gc_ok s \<Longrightarrow> gc_ok s'"
proof (induction rule: gc_step.induct)
  case (step_cons car s cdr a v s')
  have "set (targets [car, cdr]) - {0} \<subseteq> live_of s (remembered s)"
    using rooted_live [OF step_cons.hyps(1)] rooted_live [OF step_cons.hyps(2)] targets_two [of car cdr] by blast
  from ch_gc_cons_ok [OF step_cons.prems this step_cons.hyps(3,4,6,5)]
  obtain t where "ch_gc_cons s a car cdr = Some (ch_make_pointer a, t)" "vm_roots t = vm_roots s"
      "gc_ok (t\<lparr>vm_roots := ch_make_pointer a # vm_roots s\<rparr>)" by blast
  then show ?case using step_cons.hyps(7) by simp
next
  case (step_set_car w s v s')
  obtain c where c1: "gc_heap s (ch_to_object w) = Some c"
    using step_set_car.hyps(4) by (cases "gc_heap s (ch_to_object w)") (simp_all add: gc_set_car_def)
  then have "\<exists>x d. c_object c = GPair x d"
    using step_set_car.hyps(4) by (cases "c_object c") (simp_all add: gc_set_car_def)
  note c = c1 this
  then have nz: "ch_to_object w \<noteq> 0" using gc_okD(5) [OF step_set_car.prems] by auto
  have w: "ch_to_object w \<in> live_of s (remembered s)" "targets [w] = [ch_to_object w]"
    by (rule register_live [OF step_set_car.hyps(1,3) nz])+
  show ?case
    using c(2) gc_set_car_ok [OF step_set_car.prems c(1) _ w(1) rooted_live [OF step_set_car.hyps(2)] w(2) step_set_car.hyps(1,2)]
      step_set_car.hyps(4) by auto
next
  case (step_read w s x d v)
  have "ch_to_object w \<noteq> 0"
    using gc_okD(5) [OF step_read.prems] step_read.hyps(3) by (auto simp: object_of_def)
  then have l: "ch_to_object w \<in> live_of s (remembered s)" by (rule register_live [OF step_read.hyps(1,2)])
  have "set (targets [v]) - {0} \<subseteq> children_of (gc_heap s) (ch_to_object w)"
    using step_read.hyps(3,4) targets_two [of x d] by (auto simp: children_of_def)
  then have v: "set (targets [v]) - {0} \<subseteq> live_of s (remembered s)" using live_child [of _ "gc_heap s"] l by blast
  have "set (targets (vm_roots s)) - {0} \<subseteq> live_of s (remembered s)"
    using root_addresses_live [of s "remembered s"] by (auto simp: root_addresses_def)
  then show ?case
    using v targets_append [of "[v]" "vm_roots s"] by (intro gc_ok_registers [OF step_read.prems]) auto
next
  case (step_drop vs s)
  have "set (targets (vm_roots s)) - {0} \<subseteq> live_of s (remembered s)"
    using root_addresses_live [of s "remembered s"] by (auto simp: root_addresses_def)
  then show ?case using targets_subset [OF step_drop.hyps] by (intro gc_ok_registers [OF step_drop.prems]) auto
next
  case (step_immediate v s)
  have "set (targets (vm_roots s)) - {0} \<subseteq> live_of s (remembered s)"
    using root_addresses_live [of s "remembered s"] by (auto simp: root_addresses_def)
  then show ?case by (intro gc_ok_registers [OF step_immediate.prems]) (simp add: targets_immediate [OF step_immediate.hyps])
next
  case (step_promote w s s')
  show ?case
    using ch_gc_promote_to_old_ok [OF step_promote.prems, of "ch_to_object w"] register_live(1) [OF step_promote.hyps(1-3)]
      step_promote.hyps(4) by auto
next
  case (step_minor s s')
  show ?case using ch_gc_collect_minor_ok [OF step_minor.prems] step_minor.hyps by (metis option.inject)
next
  case (step_major s s')
  show ?case using ch_gc_collect_major_ok [OF step_major.prems] step_major.hyps by (metis option.inject)
qed

lemma gc_reachable_ok: "gc_reachable s0 s \<Longrightarrow> gc_ok s0 \<Longrightarrow> gc_ok s"
  by (induction rule: gc_reachable.induct) (auto intro: gc_step_ok)

end
