(* ===== verification/Chaaya_Gc_Properties.thy ===== *)
theory Chaaya_Gc_Properties
  imports Chaaya_Gc_Mutator
begin

text \<open>
  The properties of the collector of \<open>src/src/gc.c\<close>: what marking follows, what the collections free and
  keep, that programs on lists never lose an object they can reach, and what the collector misses.
\<close>

section \<open>What marking follows\<close>

text \<open>
  The addresses in the fields of an object, by the declarations of its type; those of an ephemeron
  are weak and those of a shared channel's items belong to no heap.
\<close>

definition value_refs :: "chvalue list \<Rightarrow> addr set" where
  "value_refs vs = {ch_to_object v | v. v \<in> set vs \<and> ch_is_pointer v} - {0}"

definition option_refs :: "chvalue option list \<Rightarrow> addr set" where
  "option_refs vs = {ch_to_object v | v. Some v \<in> set vs \<and> ch_is_pointer v} - {0}"

definition pair_refs :: "(chvalue \<times> chvalue) list \<Rightarrow> addr set" where
  "pair_refs ps = value_refs (map fst ps) \<union> value_refs (map snd ps)"

fun field_refs :: "gc_object \<Rightarrow> addr set" where
  "field_refs (GPair a d) = value_refs [a, d]"
| "field_refs (GVector items) = value_refs items"
| "field_refs (GFunction constants) = value_refs constants"
| "field_refs (GClosure fn uvs) = {fn} - {0} \<union> option_refs uvs"
| "field_refs (GContinuation regs frames winds handlers params uvs) =
     value_refs regs \<union> (set frames - {0}) \<union> pair_refs winds \<union> value_refs handlers \<union> pair_refs params \<union> option_refs uvs"
| "field_refs (GValues items) = value_refs items"
| "field_refs (GNoReferences tag) = {}"
| "field_refs (GTransformer literals rules captures ellipsis) =
     (set literals \<union> fst ` set captures \<union> snd ` set captures \<union> {ellipsis}) - {0} \<union> pair_refs rules"
| "field_refs (GRecordType name parent) = {parent} - {0} \<union> value_refs [name]"
| "field_refs (GRecord rtype fs) = {rtype} - {0} \<union> value_refs fs"
| "field_refs (GPromise v) = value_refs [v]"
| "field_refs (GRational n d) = value_refs [n, d]"
| "field_refs (GEnvironment bindings) = fst ` set bindings - {0} \<union> option_refs (map snd bindings)"
| "field_refs (GErrorObj message irritants) = value_refs [message, irritants]"
| "field_refs (GParameter init converter v) = value_refs [init, converter, v]"
| "field_refs (GHashtable equiv_fn hash_fn slots) = value_refs [equiv_fn, hash_fn] \<union>
     value_refs [k. Some (k, v) \<leftarrow> slots] \<union> value_refs [v. Some (k, v) \<leftarrow> slots]"
| "field_refs (GTime type_sym) = value_refs [type_sym]"
| "field_refs (GFiber vs snapshot) = value_refs vs \<union>
     (case snapshot of None \<Rightarrow> {}
      | Some (regs, frames, winds, handlers, params) \<Rightarrow>
          value_refs regs \<union> (set frames - {0}) \<union> pair_refs winds \<union> value_refs handlers \<union> pair_refs params)"
| "field_refs (GChannel shared items recv_waiters send_waiters) =
     (if shared then {} else value_refs items) \<union> value_refs recv_waiters \<union> value_refs send_waiters"
| "field_refs (GForeignProc library name) = value_refs [library, name]"
| "field_refs (GEphemeron key val broken) = {}"
| "field_refs (GMutex owner name specific) = value_refs [owner, name, specific]"
| "field_refs (GCondvar name specific) = value_refs [name, specific]"
| "field_refs (GGroupInfo name) = value_refs [name]"

text \<open>The references in an object that marking it does not follow.\<close>

fun unmarked_refs :: "gc_object \<Rightarrow> addr set" where
  "unmarked_refs (GHashtable equiv_fn hash_fn slots) = value_refs [equiv_fn, hash_fn]"
| "unmarked_refs (GTransformer literals rules captures ellipsis) = {ellipsis} - {0}"
| "unmarked_refs x = {}"

lemma targets_refs: "set (targets vs) - {0} = value_refs vs"
  by (auto simp: targets_def value_refs_def)

lemma in_targets: "a \<noteq> 0 \<Longrightarrow> a \<in> set (targets vs) \<longleftrightarrow> a \<in> value_refs vs"
  using targets_refs [of vs] by blast

lemma value_refs_append: "value_refs (vs @ ws) = value_refs vs \<union> value_refs ws"
  by (auto simp: value_refs_def)

lemma value_refs_Cons: "value_refs (v # vs) = value_refs [v] \<union> value_refs vs"
  using value_refs_append [of "[v]" vs] by simp

lemma somes_refs: "value_refs (somes vs) = option_refs vs"
proof -
  have "set (somes vs) = {v. Some v \<in> set vs}" by (force simp: somes_def split: option.splits)
  then show ?thesis by (simp add: value_refs_def option_refs_def)
qed

lemma pairs_refs: "value_refs (pairs ps) = pair_refs ps"
proof -
  have "set (pairs ps) = set (map fst ps) \<union> set (map snd ps)" by (force simp: pairs_def)
  then show ?thesis by (auto simp: pair_refs_def value_refs_def)
qed

lemma no_null_refs: "0 \<notin> value_refs vs" "0 \<notin> option_refs us" "0 \<notin> pair_refs ps"
  by (simp_all add: value_refs_def option_refs_def pair_refs_def)

lemma set_pairs: "set (pairs ps) = fst ` set ps \<union> snd ` set ps"
  by (force simp: pairs_def)

lemma slots_refs: "pair_refs (somes slots) = value_refs [k. Some (k, v) \<leftarrow> slots] \<union> value_refs [v. Some (k, v) \<leftarrow> slots]"
proof -
  have "map fst (somes slots) = [k. Some (k, v) \<leftarrow> slots]" "map snd (somes slots) = [v. Some (k, v) \<leftarrow> slots]"
    by (induction slots) (auto simp: somes_def split: option.split)
  then show ?thesis by (simp add: pair_refs_def)
qed

lemma option_refs_Cons: "option_refs (v # vs) = option_refs [v] \<union> option_refs vs"
  by (auto simp: option_refs_def)

lemma environment_refs: "a \<noteq> 0 \<Longrightarrow> a \<in> set (mark_children (GEnvironment bindings)) \<longleftrightarrow> a \<in> field_refs (GEnvironment bindings)"
proof (induction bindings)
  case Nil
  then show ?case by (simp add: option_refs_def)
next
  case (Cons b bindings)
  obtain name v where b: "b = (name, v)" by (cases b)
  show ?case using Cons by (auto simp: b in_targets somes_refs option_refs_Cons [of v "map snd bindings"])
qed


section \<open>Properties\<close>

text \<open>A state to apply the properties to: a live pair, a live ephemeron with a dead key, and garbage.\<close>

definition CH_GC_DEFAULT_PROMOTION_AGE :: u8 where "CH_GC_DEFAULT_PROMOTION_AGE = 2"
definition CH_GC_DEFAULT_MAJOR_INTERVAL :: nat where "CH_GC_DEFAULT_MAJOR_INTERVAL = 8"

definition ch_gc_init :: gc where
  "ch_gc_init = \<lparr>gc_heap = Map.empty, young_objects = [], old_objects = [], young_count = 0, old_count = 0,
     object_count = 0, alloc_count = 0, threshold = CH_GC_DEFAULT_THRESHOLD, collections = 0, minor_collections = 0,
     major_collections = 0, promotion_age = CH_GC_DEFAULT_PROMOTION_AGE, major_interval = CH_GC_DEFAULT_MAJOR_INTERVAL,
     vm_roots = [], compiling_fns = [], root_slots = [], extra_roots = [], symbols = [], remembered_set = [], no_collect = 0\<rparr>"

definition demo_cell :: "gc_object \<Rightarrow> cell" where
  "demo_cell x = \<lparr>c_marked = False, c_old = False, c_age = 0, c_object = x\<rparr>"

definition demo_gc :: gc where
  "demo_gc = ch_gc_init\<lparr>gc_heap :=
       [16 \<mapsto> demo_cell (GPair (ch_make_pointer 32) CH_NIL),
        32 \<mapsto> demo_cell (GEphemeron (ch_make_pointer 48) (ch_make_pointer 16) False),
        48 \<mapsto> demo_cell (GNoReferences 0)],
     young_objects := [48, 32, 16], young_count := 3, object_count := 3, vm_roots := [ch_make_pointer 16]\<rparr>"

lemma gc_ok_init: "gc_ok ch_gc_init"
proof -
  have "\<exists>S. intact Map.empty S \<and> S = {}" by (simp add: intact_def)
  then show ?thesis by (auto simp: gc_ok_def ch_gc_init_def marked_def root_addresses_def intact_def)
qed

lemma demo_targets:
  "targets [ch_make_pointer 32, CH_NIL] = [32]" "targets [ch_make_pointer 48, ch_make_pointer 16] = [48, 16]"
  "targets [ch_make_pointer 16] = [16]"
  by code_simp+

lemma gc_ok_demo: "gc_ok demo_gc"
proof -
  have h: "object_of (gc_heap demo_gc) a =
      (if a = 16 then Some (GPair (ch_make_pointer 32) CH_NIL)
       else if a = 32 then Some (GEphemeron (ch_make_pointer 48) (ch_make_pointer 16) False)
       else if a = 48 then Some (GNoReferences 0) else None)" for a
    by (simp add: object_of_def demo_gc_def ch_gc_init_def demo_cell_def)
  have d: "dom (gc_heap demo_gc) = {16, 32, 48}" by (auto simp: demo_gc_def ch_gc_init_def)
  have "intact (gc_heap demo_gc) {16, 32, 48}"
    by (simp add: intact_def d refs_of_def children_of_def h demo_targets)
  moreover have "root_addresses demo_gc = [16]"
    by (simp add: root_addresses_def demo_gc_def ch_gc_init_def demo_targets)
  moreover have "marked (gc_heap demo_gc) = {}" "\<forall>a c. gc_heap demo_gc a = Some c \<longrightarrow> \<not> c_old c"
    by (auto simp: marked_def demo_gc_def ch_gc_init_def demo_cell_def split: if_splits)
  ultimately show ?thesis
    unfolding gc_ok_def d by (auto simp: demo_gc_def ch_gc_init_def intro!: exI [of _ "{16, 32, 48}"])
qed

lemma live_least:
  assumes "R - {0} \<subseteq> L" "\<And>a. a \<in> L \<union> V \<Longrightarrow> children_of h a \<subseteq> L"
    "\<And>a key val broken. a \<in> L \<union> V \<Longrightarrow> object_of h a = Some (GEphemeron key val broken) \<Longrightarrow> key_alive L key \<Longrightarrow>
       set (targets [val]) - {0} \<subseteq> L"
  shows "live h R V \<subseteq> L"
proof
  fix a
  assume "a \<in> live h R V"
  then show "a \<in> L"
  proof (induction rule: live.induct)
    case (live_child a b)
    then show ?case using assms(2) by blast
  next
    case (live_value a key val broken b)
    then have "key_alive L key" by (auto simp: key_alive_def)
    then show ?case using assms(3) live_value by blast
  qed (use assms(1) in auto)
qed

lemma demo_object: "object_of (gc_heap demo_gc) a =
      (if a = 16 then Some (GPair (ch_make_pointer 32) CH_NIL)
       else if a = 32 then Some (GEphemeron (ch_make_pointer 48) (ch_make_pointer 16) False)
       else if a = 48 then Some (GNoReferences 0) else None)"
  by (simp add: object_of_def demo_gc_def ch_gc_init_def demo_cell_def)

lemma demo_roots: "root_addresses demo_gc = [16]" "remembered_set demo_gc = []" "old_objects demo_gc = []"
  by (simp_all add: root_addresses_def demo_gc_def ch_gc_init_def demo_targets)

lemma demo_dead: "\<not> key_alive {16, 32} (ch_make_pointer 48)"
proof -
  have "ch_to_object (ch_make_pointer 48) = 48" "ch_is_pointer (ch_make_pointer 48)" by code_simp+
  then show ?thesis by (simp add: key_alive_def)
qed

lemma demo_live: "live (gc_heap demo_gc) {16} {} = {16, 32}"
proof
  show "live (gc_heap demo_gc) {16} {} \<subseteq> {16, 32}"
    by (rule live_least) (use demo_dead in \<open>auto simp: children_of_def demo_object demo_targets split: if_splits\<close>)
  have "16 \<in> live (gc_heap demo_gc) {16} {}" by (rule live_root) simp_all
  moreover from this have "32 \<in> live (gc_heap demo_gc) {16} {}"
    by (rule live_child [OF disjI1]) (simp add: children_of_def demo_object demo_targets)
  ultimately show "{16, 32} \<subseteq> live (gc_heap demo_gc) {16} {}" by simp
qed

lemma demo_kept: "kept_object (gc_heap demo_gc) {16, 32} {} 32 = Some (GEphemeron CH_FALSE CH_FALSE True)"
proof -
  have "dead_key (gc_heap demo_gc) {16, 32} 32"
    unfolding dead_key_def demo_object using demo_dead by (intro exI conjI, auto)
  then show ?thesis by (simp add: kept_object_def)
qed





text \<open>
  C14. In every state that a program on lists reaches by making pairs, storing into them, reading
  them, dropping registers, promoting objects and collecting, the collector's invariant holds and
  none of these operations fails: no register holds a freed reference, so that storing and promoting
  find their objects, making a pair returns while the root stack has room, and a collection returns.
\<close>

theorem gc_reachable_never_fails:
  assumes "gc_ok s0" "gc_reachable s0 s"
  shows "gc_ok s \<and> ch_gc_collect_minor s \<noteq> None \<and> ch_gc_collect_major s \<noteq> None \<and>
    (\<forall>w \<in> set (vm_roots s). ch_is_pointer w \<and> ch_to_object w \<noteq> 0 \<longrightarrow>
       gc_heap s (ch_to_object w) \<noteq> None \<and> ch_gc_promote_to_old s (ch_to_object w) \<noteq> None \<and>
       (\<forall>v \<in> set (vm_roots s). \<forall>x d. object_of (gc_heap s) (ch_to_object w) = Some (GPair x d) \<longrightarrow>
          gc_set_car s (ch_to_object w) v \<noteq> None)) \<and>
    (\<forall>car \<in> set (vm_roots s). \<forall>cdr \<in> set (vm_roots s). \<forall>a. gc_heap s a = None \<and> a \<noteq> 0 \<and>
       targets [ch_make_pointer a] = [a] \<and> length (root_slots s) + 2 \<le> CH_GC_ROOT_MAX \<longrightarrow> ch_gc_cons s a car cdr \<noteq> None)"
proof -
  have ok: "gc_ok s" by (rule gc_reachable_ok [OF assms(2,1)])
  have reg: "set (targets [v]) - {0} \<subseteq> live_of s (remembered s)" if "v \<in> set (vm_roots s)" for v
    by (rule rooted_live [OF that])
  have coll: "ch_gc_collect_minor s \<noteq> None" "ch_gc_collect_major s \<noteq> None"
    using ch_gc_collect_minor_ok [OF ok] ch_gc_collect_major_ok [OF ok] by (metis option.distinct(1))+
  have obj: "gc_heap s (ch_to_object w) \<noteq> None \<and> ch_gc_promote_to_old s (ch_to_object w) \<noteq> None \<and>
      (\<forall>v \<in> set (vm_roots s). \<forall>x d. object_of (gc_heap s) (ch_to_object w) = Some (GPair x d) \<longrightarrow>
         gc_set_car s (ch_to_object w) v \<noteq> None)"
    if w: "w \<in> set (vm_roots s)" and p: "ch_is_pointer w" "ch_to_object w \<noteq> 0" for w
  proof -
    have l: "ch_to_object w \<in> live_of s (remembered s)" "targets [w] = [ch_to_object w]"
      by (rule register_live [OF w p])+
    obtain c where c: "gc_heap s (ch_to_object w) = Some c" using l(1) live_dom(1) [OF ok subset_refl] by blast
    have "gc_set_car s (ch_to_object w) v \<noteq> None"
      if "v \<in> set (vm_roots s)" "object_of (gc_heap s) (ch_to_object w) = Some (GPair x d)" for v x d
      using gc_set_car_ok [OF ok c _ l(1) reg [OF that(1)] l(2) w that(1)] that(2) c by (auto simp: object_of_def)
    then show ?thesis using c ch_gc_promote_to_old_ok [OF ok l(1)] by auto
  qed
  have cons: "ch_gc_cons s a car cdr \<noteq> None"
    if "car \<in> set (vm_roots s)" "cdr \<in> set (vm_roots s)" "gc_heap s a = None" "a \<noteq> 0"
      "targets [ch_make_pointer a] = [a]" "length (root_slots s) + 2 \<le> CH_GC_ROOT_MAX" for car cdr a
  proof -
    have "set (targets [car, cdr]) - {0} \<subseteq> live_of s (remembered s)"
      using reg [OF that(1)] reg [OF that(2)] targets_two [of car cdr] by blast
    from ch_gc_cons_ok [OF ok this that(3,4,6,5)] show ?thesis by blast
  qed
  show ?thesis using ok coll obj cons by blast
qed

theorem gc_reachable_never_fails_witness:
  "gc_reachable demo_gc (demo_gc\<lparr>vm_roots := CH_NIL # vm_roots demo_gc\<rparr>) \<and>
   ch_gc_collect_minor (demo_gc\<lparr>vm_roots := CH_NIL # vm_roots demo_gc\<rparr>) \<noteq> None"
proof -
  have "\<not> ch_is_pointer CH_NIL" by code_simp
  then have r: "gc_reachable demo_gc (demo_gc\<lparr>vm_roots := CH_NIL # vm_roots demo_gc\<rparr>)"
    by (rule reach_step [OF reach_start step_immediate])
  then show ?thesis using gc_reachable_never_fails [OF gc_ok_demo r] by blast
qed

section \<open>What the collector misses\<close>

definition table_gc :: gc where
  "table_gc = ch_gc_init\<lparr>gc_heap :=
       [16 \<mapsto> demo_cell (GHashtable (ch_make_pointer 32) CH_FALSE []), 32 \<mapsto> demo_cell (GClosure 0 [])],
     young_objects := [32, 16], young_count := 2, object_count := 2, vm_roots := [ch_make_pointer 16]\<rparr>"

lemma gc_ok_table: "gc_ok table_gc"
proof -
  have d: "dom (gc_heap table_gc) = {16, 32}" by (auto simp: table_gc_def ch_gc_init_def)
  have "intact (gc_heap table_gc) {16, 32}"
    by (auto simp: intact_def d refs_of_def children_of_def object_of_def table_gc_def ch_gc_init_def demo_cell_def somes_def pairs_def)
  moreover have "root_addresses table_gc = [16]"
    by (simp add: root_addresses_def table_gc_def ch_gc_init_def demo_targets)
  moreover have "marked (gc_heap table_gc) = {}" "\<forall>a c. gc_heap table_gc a = Some c \<longrightarrow> \<not> c_old c"
    by (auto simp: marked_def table_gc_def ch_gc_init_def demo_cell_def split: if_splits)
  ultimately show ?thesis
    unfolding gc_ok_def d by (auto simp: table_gc_def ch_gc_init_def intro!: exI [of _ "{16, 32}"])
qed

text \<open>
  A collection can free the comparison procedure of a live hash table: the table is in a
  register and keeps its reference to the procedure, whose object is gone.
\<close>

theorem gc_frees_table_procedure:
  "\<exists>s s' a b x. gc_ok s \<and> ch_gc_collect_major s = Some s' \<and> ch_make_pointer a \<in> set (vm_roots s) \<and>
     object_of (gc_heap s') a = Some x \<and> b \<in> field_refs x \<and> gc_heap s b \<noteq> None \<and> gc_heap s' b = None"
proof -
  obtain s' where s': "ch_gc_collect_major table_gc = Some s'" "dom (gc_heap s') = live_of table_gc {}"
      "\<And>a. a \<in> live_of table_gc {} \<Longrightarrow> object_of (gc_heap s') a = kept_object (gc_heap table_gc) (live_of table_gc {}) {} a"
    using ch_gc_collect_major_ok [OF gc_ok_table] by metis
  have r: "root_addresses table_gc = [16]" by (simp add: root_addresses_def table_gc_def ch_gc_init_def demo_targets)
  have o: "object_of (gc_heap table_gc) 16 = Some (GHashtable (ch_make_pointer 32) CH_FALSE [])"
    by (simp add: object_of_def table_gc_def ch_gc_init_def demo_cell_def)
  have "live_of table_gc {} \<subseteq> {16}"
    unfolding r by (rule live_least) (use o in \<open>auto simp: children_of_def somes_def pairs_def\<close>)
  then have "32 \<notin> dom (gc_heap s')" unfolding s'(2) by auto
  then have n: "gc_heap s' 32 = None" by (simp add: domIff)
  have "16 \<in> live_of table_gc {}" unfolding r by (rule live_root) simp_all
  then have "object_of (gc_heap s') 16 = Some (GHashtable (ch_make_pointer 32) CH_FALSE [])"
    using s'(3) o by (auto simp: kept_object_def dead_key_def)
  moreover have "32 \<in> field_refs (GHashtable (ch_make_pointer 32) CH_FALSE [])"
  proof -
    have "ch_is_pointer (ch_make_pointer 32) \<and> ch_to_object (ch_make_pointer 32) = 32" by code_simp
    then show ?thesis by (auto simp: value_refs_def)
  qed
  moreover have "gc_heap table_gc 32 \<noteq> None" by (simp add: table_gc_def ch_gc_init_def)
  moreover have "ch_make_pointer 16 \<in> set (vm_roots table_gc)" by (simp add: table_gc_def)
  ultimately show ?thesis using gc_ok_table s'(1) n by blast
qed

text \<open>
  An old object can refer to a young one without that being seen when the remembered set is
  pruned or the object is promoted: a suspended fiber whose saved frame holds a young closure.
\<close>

theorem references_young_misses_frames:
  "\<exists>h x a c. a \<in> set (mark_children x) \<and> h a = Some c \<and> \<not> c_old c \<and> references_young h x = Some False"
proof -
  let ?x = "GFiber [] (Some ([], [16], [], [], []))"
  have "references_young [16 \<mapsto> demo_cell (GClosure 0 [])] ?x = Some False" by (simp add: references_young_def)
  moreover have "16 \<in> set (mark_children ?x)" by simp
  ultimately show ?thesis
    by (intro exI [of _ "[16 \<mapsto> demo_cell (GClosure 0 [])]"] exI [of _ ?x] exI [of _ 16]) (simp add: demo_cell_def)
qed

end
