(* ===== verification/Chaaya_Ring.thy ===== *)
theory Chaaya_Ring
  imports Chaaya_Value
begin

text \<open>
  Arrays used as rings by the channels and the scheduler, and the contract of a bounded queue that
  they provide.
\<close>

section \<open>Ring buffers\<close>

text \<open>The elements of a ring with a head and a count, in order.\<close>

definition ring_list :: "'a list \<Rightarrow> nat \<Rightarrow> nat \<Rightarrow> 'a list" where
  "ring_list items head count = map (\<lambda>i. items ! ((head + i) mod length items)) [0..<count]"

lemma ring_length [simp]: "length (ring_list items head count) = count"
  by (simp add: ring_list_def)

lemma ring_empty [simp]: "ring_list items head 0 = []"
  by (simp add: ring_list_def)

lemma mod_offset_inj:
  fixes n :: nat
  assumes "(head + i) mod n = (head + j) mod n" "i < n" "j < n"
  shows "i = j"
proof -
  have *: "i = j" if "(head + i) mod n = (head + j) mod n" "i < n" "j < n" "i \<le> j" for i j
  proof -
    have "n dvd (head + j) - (head + i)"
      using mod_eq_dvd_iff_nat [of "head + i" "head + j" n] that(1,4) by simp
    then have "n dvd j - i" by simp
    then have "j - i = 0" using that(3) by (metis dvd_imp_le less_imp_diff_less linorder_not_less neq0_conv)
    then show ?thesis using that(4) by simp
  qed
  show ?thesis using * [of i j] * [of j i] assms by (cases "i \<le> j") auto
qed

lemma ring_push:
  assumes "count < length items"
  shows "ring_list (items[(head + count) mod length items := v]) head (Suc count) = ring_list items head count @ [v]"
proof -
  define k where "k = (head + count) mod length items"
  have k: "k < length items" unfolding k_def by (rule mod_less_divisor) (use assms in linarith)
  have "items[k := v] ! ((head + i) mod length items) = items ! ((head + i) mod length items)" if "i < count" for i
  proof -
    have "(head + i) mod length items \<noteq> k"
      unfolding k_def using mod_offset_inj [of head i "length items" count] that assms by auto
    then show ?thesis by simp
  qed
  then show ?thesis unfolding k_def [symmetric] using k by (simp add: ring_list_def k_def [symmetric])
qed

lemma ring_pop:
  assumes "head < length items" "count < length items"
  shows "ring_list items head (Suc count) = items ! head # ring_list (items[head := u]) ((head + 1) mod length items) count"
proof -
  have s: "[0..<Suc count] = 0 # map Suc [0..<count]" by (simp add: map_Suc_upt upt_conv_Cons del: upt_Suc)
  have "items[head := u] ! (((head + 1) mod length items + i) mod length items) = items ! ((head + Suc i) mod length items)"
    if "i < count" for i
  proof -
    have e: "((head + 1) mod length items + i) mod length items = (head + Suc i) mod length items"
      by (simp add: mod_add_left_eq)
    have "Suc i < length items" using that assms(2) by simp
    then have "(head + Suc i) mod length items \<noteq> (head + 0) mod length items"
      using mod_offset_inj [of head "Suc i" "length items" 0] by fastforce
    then have "head \<noteq> (head + Suc i) mod length items" using assms(1) by simp
    then show ?thesis unfolding e by simp
  qed
  then show ?thesis using assms(1) unfolding ring_list_def s by simp
qed

text \<open>The contract of a bounded queue.\<close>

primrec pop_many :: "('q \<Rightarrow> 'a \<times> 'q) \<Rightarrow> nat \<Rightarrow> 'q \<Rightarrow> 'a list \<times> 'q" where
  "pop_many pop 0 q = ([], q)"
| "pop_many pop (Suc n) q = (case pop q of (x, q') \<Rightarrow> (case pop_many pop n q' of (xs, q'') \<Rightarrow> (x # xs, q'')))"

locale fifo =
  fixes ok :: "'q \<Rightarrow> bool" and contents :: "'q \<Rightarrow> 'a list" and room :: "'q \<Rightarrow> nat"
    and push :: "'q \<Rightarrow> 'a \<Rightarrow> 'q" and pop :: "'q \<Rightarrow> 'a \<times> 'q"
  assumes push_contents: "ok q \<Longrightarrow> 0 < room q \<Longrightarrow> contents (push q x) = contents q @ [x]"
    and push_ok: "ok q \<Longrightarrow> 0 < room q \<Longrightarrow> ok (push q x)"
    and push_room: "ok q \<Longrightarrow> 0 < room q \<Longrightarrow> Suc (room (push q x)) = room q"
    and pop_result: "ok q \<Longrightarrow> contents q = x # xs \<Longrightarrow> \<exists>q'. pop q = (x, q') \<and> ok q' \<and> contents q' = xs \<and> room q' = Suc (room q)"
begin

lemma push_many: "ok q \<Longrightarrow> length xs \<le> room q \<Longrightarrow>
    ok (foldl push q xs) \<and> contents (foldl push q xs) = contents q @ xs \<and> room (foldl push q xs) + length xs = room q"
proof (induction xs arbitrary: q)
  case (Cons x xs)
  have r: "0 < room q" using Cons.prems(2) by simp
  then show ?case
    using Cons.IH [of "push q x"] push_ok [OF Cons.prems(1) r] push_contents [OF Cons.prems(1) r]
      push_room [OF Cons.prems(1) r, of x] Cons.prems(2) by simp
qed simp

lemma pop_contents: "ok q \<Longrightarrow> contents q = xs @ ys \<Longrightarrow>
    \<exists>q'. pop_many pop (length xs) q = (xs, q') \<and> ok q' \<and> contents q' = ys \<and> room q' = room q + length xs"
proof (induction xs arbitrary: q)
  case (Cons x xs)
  then obtain q1 where q1: "pop q = (x, q1)" "ok q1" "contents q1 = xs @ ys" "room q1 = Suc (room q)"
    using pop_result [of q x "xs @ ys"] by auto
  obtain q2 where "pop_many pop (length xs) q1 = (xs, q2)" "ok q2" "contents q2 = ys" "room q2 = room q1 + length xs"
    using Cons.IH [OF q1(2,3)] by blast
  then show ?case using q1 by simp
qed simp

lemma first_in_first_out:
  assumes "ok q" "length xs \<le> room q"
  shows "\<exists>q'. pop_many pop (length (contents q) + length xs) (foldl push q xs) = (contents q @ xs, q') \<and> ok q' \<and> contents q' = []"
  using push_many [OF assms] pop_contents [of "foldl push q xs" "contents q @ xs" "[]"] by auto

end

end
