(* ===== verification/Chaaya_Fiber.thy ===== *)
theory Chaaya_Fiber
  imports Chaaya_Ring
begin

text \<open>
  Cooperative fibers and their channels: the local channels of \<open>src/src/channel.c\<close> and the scheduler
  of \<open>src/src/fiber.c\<close>. Fibers and channels are named by numbers instead of heap pointers, the shared
  channels between threads and the clock are left out, restoring a saved stack does not fail, and the
  virtual machine that runs the code of a fiber is a parameter.
\<close>

section \<open>State\<close>

type_synonym fiber_id = nat
type_synonym channel_id = nat

datatype fiber_state = FIBER_READY | FIBER_RUNNING | FIBER_DONE | FIBER_FAILED | FIBER_WAITING | FIBER_IO_WAITING

datatype park_kind = PARK_NONE | PARK_RECV | PARK_SEND | PARK_SLEEP | PARK_JOIN | PARK_IO

record fiber =
  f_state :: fiber_state
  f_park :: park_kind
  f_queued :: bool
  f_waiting_on :: "channel_id option"
  f_payload :: chvalue
  f_result :: chvalue
  f_snapshot :: bool

record channel =
  capacity :: nat
  ch_items :: "chvalue list"
  ch_count :: nat
  ch_head :: nat
  ch_tail :: nat
  closed :: bool
  rendezvous :: bool
  recv_waiters :: "fiber_id list"
  send_waiters :: "fiber_id list"

record sched =
  fibers :: "fiber_id \<Rightarrow> fiber option"
  channels :: "channel_id \<Rightarrow> channel option"
  ready :: "fiber_id option list"
  ready_head :: nat
  ready_count :: nat
  current :: "fiber_id option"

definition CH_FIBER_READY_MAX :: nat where "CH_FIBER_READY_MAX = 256"
definition CH_CHANNEL_WAITER_MAX :: nat where "CH_CHANNEL_WAITER_MAX = 64"

definition ch_fiber_runtime_init :: sched where
  "ch_fiber_runtime_init = \<lparr>fibers = Map.empty, channels = Map.empty, ready = replicate CH_FIBER_READY_MAX None,
     ready_head = 0, ready_count = 0, current = None\<rparr>"

definition ch_gc_make_fiber :: fiber where
  "ch_gc_make_fiber = \<lparr>f_state = FIBER_READY, f_park = PARK_NONE, f_queued = False, f_waiting_on = None,
     f_payload = CH_UNDEFINED, f_result = CH_UNDEFINED, f_snapshot = False\<rparr>"

definition ch_gc_make_channel :: "nat \<Rightarrow> bool \<Rightarrow> channel" where
  "ch_gc_make_channel cap rv =
     \<lparr>capacity = cap,
      ch_items = replicate (if cap = 0 \<and> \<not> rv then 8 else if cap = 0 then 1 else cap) CH_UNDEFINED,
      ch_count = 0, ch_head = 0, ch_tail = 0, closed = False, rendezvous = rv, recv_waiters = [], send_waiters = []\<rparr>"

definition prim_make_channel :: "chvalue list \<Rightarrow> channel result" where
  "prim_make_channel args =
     (if 1 < length args then Inl ''make-channel: expected 0 or 1 arguments''
      else if args = [] then Inr (ch_gc_make_channel 0 False)
      else if \<not> ch_is_fixnum (args ! 0) then Inl ''make-channel: expected non-negative integer''
      else if sint (ch_to_fixnum (args ! 0)) < 0 then Inl ''make-channel: expected non-negative integer''
      else Inr (ch_gc_make_channel (unat (ch_to_fixnum (args ! 0))) (ch_to_fixnum (args ! 0) = 0)))"

section \<open>The buffer of a channel\<close>

definition channel_grow :: "channel \<Rightarrow> channel" where
  "channel_grow ch =
     ch\<lparr>ch_items := map (\<lambda>i. ch_items ch ! ((ch_head ch + i) mod length (ch_items ch))) [0..<ch_count ch] @
                    replicate (2 * length (ch_items ch) - ch_count ch) CH_UNDEFINED,
        ch_head := 0, ch_tail := ch_count ch\<rparr>"

definition channel_push :: "channel \<Rightarrow> chvalue \<Rightarrow> channel" where
  "channel_push ch v =
     ch\<lparr>ch_items := (ch_items ch)[ch_tail ch := v], ch_tail := (ch_tail ch + 1) mod length (ch_items ch),
        ch_count := ch_count ch + 1\<rparr>"

definition channel_pop :: "channel \<Rightarrow> chvalue \<times> channel" where
  "channel_pop ch =
     (ch_items ch ! ch_head ch,
      ch\<lparr>ch_items := (ch_items ch)[ch_head ch := CH_UNDEFINED], ch_head := (ch_head ch + 1) mod length (ch_items ch),
         ch_count := ch_count ch - 1\<rparr>)"

definition channel_can_send :: "channel \<Rightarrow> bool" where
  "channel_can_send ch =
     (if closed ch then False
      else if rendezvous ch then recv_waiters ch \<noteq> []
      else if capacity ch = 0 then True
      else ch_count ch < capacity ch)"

section \<open>The queue of ready fibers\<close>

definition put_fiber :: "sched \<Rightarrow> fiber_id \<Rightarrow> fiber \<Rightarrow> sched" where
  "put_fiber s f x = s\<lparr>fibers := (fibers s)(f \<mapsto> x)\<rparr>"

definition put_channel :: "sched \<Rightarrow> channel_id \<Rightarrow> channel \<Rightarrow> sched" where
  "put_channel s c ch = s\<lparr>channels := (channels s)(c \<mapsto> ch)\<rparr>"

definition ready_push :: "sched \<Rightarrow> fiber_id option \<Rightarrow> sched" where
  "ready_push s v =
     s\<lparr>ready := (ready s)[(ready_head s + ready_count s) mod CH_FIBER_READY_MAX := v],
       ready_count := ready_count s + 1\<rparr>"

definition ready_pop :: "sched \<Rightarrow> fiber_id option \<times> sched" where
  "ready_pop s =
     (ready s ! ready_head s,
      s\<lparr>ready := (ready s)[ready_head s := None], ready_head := (ready_head s + 1) mod CH_FIBER_READY_MAX,
        ready_count := ready_count s - 1\<rparr>)"

text \<open>The result is false when the fiber could not be queued.\<close>

definition enqueue_ready_fiber :: "sched \<Rightarrow> fiber_id \<Rightarrow> bool \<times> sched" where
  "enqueue_ready_fiber s f =
     (if CH_FIBER_READY_MAX \<le> ready_count s then (False, s)
      else case fibers s f of
             None \<Rightarrow> (False, s)
           | Some x \<Rightarrow>
               if f_queued x then (True, s)
               else (True, put_fiber (ready_push s (Some f)) f (x\<lparr>f_queued := True\<rparr>)))"

definition dequeue_ready_fiber :: "sched \<Rightarrow> fiber_id option \<times> sched" where
  "dequeue_ready_fiber s =
     (if ready_count s = 0 then (None, s)
      else case ready_pop s of
             (None, s') \<Rightarrow> (None, s')
           | (Some f, s') \<Rightarrow>
               (case fibers s' f of
                  None \<Rightarrow> (Some f, s')
                | Some x \<Rightarrow> (Some f, put_fiber s' f (x\<lparr>f_queued := False\<rparr>))))"

text \<open>Waking a fiber makes it ready, whether or not there is room for it in the queue.\<close>

definition wake_fiber :: "sched \<Rightarrow> fiber_id \<Rightarrow> sched" where
  "wake_fiber s f =
     (case fibers s f of
        None \<Rightarrow> s
      | Some x \<Rightarrow>
          if f_state x = FIBER_WAITING \<or> f_state x = FIBER_IO_WAITING
          then snd (enqueue_ready_fiber (put_fiber s f (x\<lparr>f_state := FIBER_READY\<rparr>)) f)
          else s)"

definition wake_waiter_list :: "sched \<Rightarrow> fiber_id list \<Rightarrow> sched" where
  "wake_waiter_list s waiters = foldl wake_fiber s waiters"

definition wake_receivers :: "sched \<Rightarrow> channel_id \<Rightarrow> channel \<Rightarrow> sched" where
  "wake_receivers s c ch = wake_waiter_list (put_channel s c (ch\<lparr>recv_waiters := []\<rparr>)) (recv_waiters ch)"

definition wake_senders :: "sched \<Rightarrow> channel_id \<Rightarrow> channel \<Rightarrow> sched" where
  "wake_senders s c ch = wake_waiter_list (put_channel s c (ch\<lparr>send_waiters := []\<rparr>)) (send_waiters ch)"

definition add_waiter :: "fiber_id list \<Rightarrow> fiber_id \<Rightarrow> fiber_id list option" where
  "add_waiter waiters f = (if CH_CHANNEL_WAITER_MAX \<le> length waiters then None else Some (waiters @ [f]))"

definition park_current_fiber :: "sched \<Rightarrow> fiber_id \<Rightarrow> channel_id option \<Rightarrow> park_kind \<Rightarrow> sched" where
  "park_current_fiber s f waiting kind =
     (case fibers s f of
        None \<Rightarrow> s
      | Some x \<Rightarrow> put_fiber s f (x\<lparr>f_snapshot := True, f_state := FIBER_WAITING, f_park := kind, f_waiting_on := waiting\<rparr>))"

section \<open>Channel operations\<close>

text \<open>
  The result of one look at a channel: the operation is done, the current fiber has parked, the
  operation failed, or (outside of a fiber) another fiber has to run first.
\<close>

datatype outcome = Sent | Received chvalue | Parked | Failed string | Drive

definition must_wait :: "channel \<Rightarrow> bool" where
  "must_wait ch \<longleftrightarrow> \<not> channel_can_send ch \<or> 0 < capacity ch \<and> \<not> rendezvous ch \<and> capacity ch \<le> ch_count ch"

definition channel_deliver :: "sched \<Rightarrow> channel_id \<Rightarrow> channel \<Rightarrow> chvalue \<Rightarrow> sched" where
  "channel_deliver s c ch v =
     (let ch1 = if capacity ch = 0 \<and> \<not> rendezvous ch \<and> length (ch_items ch) \<le> ch_count ch then channel_grow ch else ch;
          ch2 = if rendezvous ch1 \<and> length (ch_items ch1) \<le> ch_count ch1 then channel_grow ch1 else ch1
      in wake_receivers s c (channel_push ch2 v))"

definition send_attempt :: "sched \<Rightarrow> channel_id \<Rightarrow> chvalue \<Rightarrow> outcome \<times> sched" where
  "send_attempt s c v =
     (case channels s c of
        None \<Rightarrow> (Failed ''channel-send!: expected channel'', s)
      | Some ch \<Rightarrow>
          if v = CH_EOF_OBJ
          then (Failed ''channel-send: cannot send an eof-object on a channel; use channel-close! to end the stream'', s)
          else if closed ch then (Failed ''channel-send: send on closed channel'', s)
          else if \<not> must_wait ch then (Sent, channel_deliver s c ch v)
          else case current s of
                 None \<Rightarrow> (Drive, s)
               | Some f \<Rightarrow>
                   (case fibers s f of
                      None \<Rightarrow> (Drive, s)
                    | Some x \<Rightarrow>
                        let s1 = put_fiber s f (x\<lparr>f_payload := v\<rparr>) in
                        case add_waiter (send_waiters ch) f of
                          None \<Rightarrow> (Failed ''channel-send!: waiter queue full'', s1)
                        | Some ws \<Rightarrow>
                            (Parked, park_current_fiber (put_channel s1 c (ch\<lparr>send_waiters := ws\<rparr>)) f (Some c) PARK_SEND)))"

definition recv_attempt :: "sched \<Rightarrow> channel_id \<Rightarrow> outcome \<times> sched" where
  "recv_attempt s c =
     (case channels s c of
        None \<Rightarrow> (Failed ''channel-recv: expected channel'', s)
      | Some ch \<Rightarrow>
          if 0 < ch_count ch then (case channel_pop ch of (v, ch') \<Rightarrow> (Received v, wake_senders s c ch'))
          else if closed ch then (Received CH_EOF_OBJ, s)
          else case current s of
                 None \<Rightarrow> (Drive, s)
               | Some f \<Rightarrow>
                   (case add_waiter (recv_waiters ch) f of
                      None \<Rightarrow> (Failed ''channel-recv: waiter queue full'', s)
                    | Some ws \<Rightarrow>
                        (Parked, park_current_fiber (put_channel s c (ch\<lparr>recv_waiters := ws\<rparr>)) f (Some c) PARK_RECV)))"

text \<open>
  One round of the variants with a timeout, which never park: \<open>Drive\<close> when the deadline is still to
  come.
\<close>

definition send_timeout_attempt :: "sched \<Rightarrow> channel_id \<Rightarrow> chvalue \<Rightarrow> bool \<Rightarrow> outcome \<times> sched" where
  "send_timeout_attempt s c v expired =
     (case channels s c of
        None \<Rightarrow> (Failed ''channel-send!: expected channel'', s)
      | Some ch \<Rightarrow>
          if v = CH_EOF_OBJ
          then (Failed ''channel-send: cannot send an eof-object on a channel; use channel-close! to end the stream'', s)
          else if closed ch then (Failed ''channel-send: send on closed channel'', s)
          else if \<not> must_wait ch then (Sent, channel_deliver s c ch v)
          else if expired then (Failed ''channel-send: timed out'', s)
          else (Drive, s))"

definition recv_timeout_attempt :: "sched \<Rightarrow> channel_id \<Rightarrow> bool \<Rightarrow> outcome \<times> sched" where
  "recv_timeout_attempt s c expired =
     (case channels s c of
        None \<Rightarrow> (Failed ''channel-recv: expected channel'', s)
      | Some ch \<Rightarrow>
          if 0 < ch_count ch then (case channel_pop ch of (v, ch') \<Rightarrow> (Received v, wake_senders s c ch'))
          else if closed ch then (Received CH_EOF_OBJ, s)
          else if expired then (Failed ''channel-receive: timed out'', s)
          else (Drive, s))"

text \<open>
  The loops of \<open>ch_channel_send\<close> and \<open>ch_channel_recv\<close> outside of a fiber; \<open>run\<close> polls the reactor and runs
  the next ready fiber, with the result of \<open>run_next_ready_fiber\<close>.
\<close>

function send_loop :: "(sched \<Rightarrow> int \<times> sched) \<Rightarrow> sched \<Rightarrow> channel_id \<Rightarrow> chvalue \<Rightarrow> nat \<Rightarrow> outcome \<times> sched" where
  "send_loop run s c v spins =
     (case send_attempt s c v of
        (Drive, s1) \<Rightarrow>
          (case run s1 of (rc, s2) \<Rightarrow>
             if rc < 0 then (Failed '''', s2)
             else if rc = 0 then (Failed ''channel-send!: channel full and no runnable fibers'', s2)
             else if CH_FIBER_READY_MAX * 8 < spins + 1
                  then (Failed ''channel-send!: scheduler made no channel progress'', s2)
             else send_loop run s2 c v (spins + 1))
      | r \<Rightarrow> r)"
  by pat_completeness auto
termination by (relation "measure (\<lambda>(run, s, c, v, spins). CH_FIBER_READY_MAX * 8 + 1 - spins)") auto

definition ch_channel_send :: "(sched \<Rightarrow> int \<times> sched) \<Rightarrow> sched \<Rightarrow> channel_id \<Rightarrow> chvalue \<Rightarrow> outcome \<times> sched" where
  "ch_channel_send run s c v = send_loop run s c v 0"

function recv_loop :: "(sched \<Rightarrow> int \<times> sched) \<Rightarrow> sched \<Rightarrow> channel_id \<Rightarrow> nat \<Rightarrow> outcome \<times> sched" where
  "recv_loop run s c spins =
     (case recv_attempt s c of
        (Drive, s1) \<Rightarrow>
          (case run s1 of (rc, s2) \<Rightarrow>
             if rc < 0 then (Failed '''', s2)
             else if rc = 0 then (Failed ''channel-recv: channel empty and no runnable fibers'', s2)
             else if CH_FIBER_READY_MAX * 8 < spins + 1
                  then (Failed ''channel-recv: scheduler made no channel progress'', s2)
             else recv_loop run s2 c (spins + 1))
      | r \<Rightarrow> r)"
  by pat_completeness auto
termination by (relation "measure (\<lambda>(run, s, c, spins). CH_FIBER_READY_MAX * 8 + 1 - spins)") auto

definition ch_channel_recv :: "(sched \<Rightarrow> int \<times> sched) \<Rightarrow> sched \<Rightarrow> channel_id \<Rightarrow> outcome \<times> sched" where
  "ch_channel_recv run s c = recv_loop run s c 0"

declare send_loop.simps [simp del] recv_loop.simps [simp del]

definition ch_channel_close :: "sched \<Rightarrow> channel_id \<Rightarrow> sched result" where
  "ch_channel_close s c =
     (case channels s c of
        None \<Rightarrow> Inl ''channel-close!: expected channel''
      | Some ch \<Rightarrow>
          if closed ch then Inr s
          else let ch' = ch\<lparr>closed := True\<rparr> in
            Inr (wake_senders (wake_receivers s c ch') c (ch'\<lparr>recv_waiters := []\<rparr>)))"

definition ch_channel_closed :: "sched \<Rightarrow> channel_id \<Rightarrow> bool result" where
  "ch_channel_closed s c =
     (case channels s c of None \<Rightarrow> Inl ''channel-closed?: expected channel'' | Some ch \<Rightarrow> Inr (closed ch))"

section \<open>Running fibers\<close>

text \<open>
  How a fiber begins to run again: from its thunk, with a value for the operation it parked in, with
  an error raised there, or not at all since it has to wait on.
\<close>

datatype start = Fresh | Resume chvalue | RaiseClosed | Reparked | StartError

datatype vm_status = VM_PARKED | VM_OK chvalue | VM_CONTINUATION_INVOKED | VM_ERROR

definition resume_receiver :: "sched \<Rightarrow> fiber_id \<Rightarrow> fiber \<Rightarrow> channel_id \<Rightarrow> channel \<Rightarrow> fiber_id option \<Rightarrow> start \<times> sched" where
  "resume_receiver s f x c ch prev =
     (let x1 = x\<lparr>f_state := FIBER_RUNNING, f_waiting_on := None, f_park := PARK_NONE, f_snapshot := False\<rparr> in
      if 0 < ch_count ch
      then (case channel_pop ch of (v, ch') \<Rightarrow> (Resume v, wake_senders (put_fiber s f x1) c ch'))
      else if closed ch then (Resume CH_EOF_OBJ, put_fiber s f x1)
      else let s1 = put_fiber (s\<lparr>current := prev\<rparr>) f (x\<lparr>f_state := FIBER_WAITING\<rparr>) in
        case add_waiter (recv_waiters ch) f of
          None \<Rightarrow> (StartError, s1)
        | Some ws \<Rightarrow> (Reparked, put_channel s1 c (ch\<lparr>recv_waiters := ws\<rparr>)))"

definition resume_sender :: "sched \<Rightarrow> fiber_id \<Rightarrow> fiber \<Rightarrow> channel_id \<Rightarrow> channel \<Rightarrow> fiber_id option \<Rightarrow> start \<times> sched" where
  "resume_sender s f x c ch prev =
     (let x1 = x\<lparr>f_state := FIBER_RUNNING, f_waiting_on := None, f_park := PARK_NONE, f_payload := CH_UNDEFINED,
                 f_snapshot := False\<rparr> in
      if closed ch then (RaiseClosed, put_fiber s f x1)
      else if \<not> channel_can_send ch
           then let s1 = put_fiber (s\<lparr>current := prev\<rparr>) f (x\<lparr>f_state := FIBER_WAITING\<rparr>) in
             case add_waiter (send_waiters ch) f of
               None \<Rightarrow> (StartError, s1)
             | Some ws \<Rightarrow> (Reparked, put_channel s1 c (ch\<lparr>send_waiters := ws\<rparr>))
      else let ch1 = if capacity ch = 0 \<and> \<not> rendezvous ch \<and> length (ch_items ch) \<le> ch_count ch then channel_grow ch else ch
           in (Resume CH_VOID, wake_receivers (put_fiber s f x1) c (channel_push ch1 (f_payload x))))"

text \<open>The part of \<open>run_fiber_to_park_or_done\<close> before the virtual machine runs.\<close>

definition begin_fiber :: "sched \<Rightarrow> fiber_id \<Rightarrow> start \<times> sched" where
  "begin_fiber s f =
     (case fibers s f of
        None \<Rightarrow> (StartError, s)
      | Some x \<Rightarrow>
          let s1 = s\<lparr>current := Some f\<rparr> in
          if \<not> f_snapshot x then (Fresh, put_fiber s1 f (x\<lparr>f_state := FIBER_RUNNING\<rparr>))
          else case Option.bind (f_waiting_on x) (\<lambda>c. map_option (\<lambda>ch. (c, ch)) (channels s c)) of
                 Some (c, ch) \<Rightarrow>
                   if f_park x = PARK_RECV then resume_receiver s1 f x c ch (current s)
                   else if f_park x = PARK_SEND then resume_sender s1 f x c ch (current s)
                   else (Resume CH_VOID, put_fiber s1 f (x\<lparr>f_state := FIBER_RUNNING, f_waiting_on := None,
                           f_park := PARK_NONE, f_snapshot := False\<rparr>))
               | None \<Rightarrow> (Resume CH_VOID, put_fiber s1 f (x\<lparr>f_state := FIBER_RUNNING, f_waiting_on := None,
                           f_park := PARK_NONE, f_snapshot := False\<rparr>)))"

text \<open>The part after it.\<close>

definition finish_fiber :: "sched \<Rightarrow> fiber_id \<Rightarrow> fiber_id option \<Rightarrow> vm_status \<Rightarrow> int \<times> sched" where
  "finish_fiber s f prev st =
     (case fibers s f of
        None \<Rightarrow> (1, s\<lparr>current := prev\<rparr>)
      | Some x \<Rightarrow>
          (case st of
             VM_PARKED \<Rightarrow> (0, s\<lparr>current := prev\<rparr>)
           | VM_OK v \<Rightarrow>
               (1, put_fiber (s\<lparr>current := prev\<rparr>) f (x\<lparr>f_state := FIBER_DONE, f_result := v, f_snapshot := False\<rparr>))
           | _ \<Rightarrow> (1, put_fiber (s\<lparr>current := prev\<rparr>) f (x\<lparr>f_state := FIBER_FAILED, f_result := CH_UNDEFINED\<rparr>))))"

definition run_fiber_to_park_or_done ::
    "(sched \<Rightarrow> fiber_id \<Rightarrow> start \<Rightarrow> vm_status \<times> sched) \<Rightarrow> sched \<Rightarrow> fiber_id \<Rightarrow> int \<times> sched" where
  "run_fiber_to_park_or_done exec s f =
     (case begin_fiber s f of
        (Reparked, s1) \<Rightarrow> (0, s1)
      | (StartError, s1) \<Rightarrow> (- 1, s1)
      | (how, s1) \<Rightarrow> (case exec s1 f how of (st, s2) \<Rightarrow> finish_fiber s2 f (current s) st))"

text \<open>The next fiber to run, if the one that leaves the queue can run.\<close>

definition select_ready :: "sched \<Rightarrow> fiber_id option \<times> sched" where
  "select_ready s =
     (case dequeue_ready_fiber s of
        (None, s1) \<Rightarrow> (None, s1)
      | (Some f, s1) \<Rightarrow>
          (case fibers s1 f of
             None \<Rightarrow> (None, s1)
           | Some x \<Rightarrow>
               if f_state x \<noteq> FIBER_READY \<and> \<not> f_snapshot x then (None, s1)
               else if f_state x = FIBER_WAITING \<and> f_snapshot x
                    then (Some f, put_fiber s1 f (x\<lparr>f_state := FIBER_READY\<rparr>))
               else (Some f, s1)))"

definition run_next_ready_fiber ::
    "(sched \<Rightarrow> fiber_id \<Rightarrow> start \<Rightarrow> vm_status \<times> sched) \<Rightarrow> sched \<Rightarrow> int \<times> sched" where
  "run_next_ready_fiber exec s =
     (case select_ready s of (None, s1) \<Rightarrow> (0, s1) | (Some f, s1) \<Rightarrow> run_fiber_to_park_or_done exec s1 f)"

text \<open>The scheduler without timers or files to wait for: it may run for ever.\<close>

partial_function (option) ch_fiber_drive ::
    "(sched \<Rightarrow> fiber_id \<Rightarrow> start \<Rightarrow> vm_status \<times> sched) \<Rightarrow> nat \<Rightarrow> sched \<Rightarrow> (int \<times> sched) option" where
  "ch_fiber_drive exec idle s =
     (if ready_count s = 0 then Some (0, s)
      else case run_next_ready_fiber exec s of (rc, s1) \<Rightarrow>
        if rc < 0 then Some (- 1, s1)
        else if rc = 0 then (if CH_FIBER_READY_MAX * 4 < idle + 1 then Some (0, s1) else ch_fiber_drive exec (idle + 1) s1)
        else ch_fiber_drive exec 0 s1)"

definition ch_fiber_spawn :: "sched \<Rightarrow> fiber_id \<Rightarrow> sched result" where
  "ch_fiber_spawn s f =
     (case enqueue_ready_fiber (put_fiber s f ch_gc_make_fiber) f of
        (False, s1) \<Rightarrow> Inl ''spawn-fiber: run queue full''
      | (True, s1) \<Rightarrow> Inr s1)"

text \<open>Another fiber runs inside of the call, on the stack of the one that yields.\<close>

definition ch_fiber_yield :: "(sched \<Rightarrow> fiber_id \<Rightarrow> start \<Rightarrow> vm_status \<times> sched) \<Rightarrow> sched \<Rightarrow> int \<times> sched" where
  "ch_fiber_yield exec s = (case run_next_ready_fiber exec s of (rc, s1) \<Rightarrow> (if rc < 0 then - 1 else 0, s1))"

text \<open>
  Joining a fiber, without timers or files to wait for. The primitive raises the condition that a failed
  fiber left behind; here it is a message.
\<close>

partial_function (option) ch_fiber_join ::
    "(sched \<Rightarrow> fiber_id \<Rightarrow> start \<Rightarrow> vm_status \<times> sched) \<Rightarrow> sched \<Rightarrow> fiber_id \<Rightarrow> (chvalue result \<times> sched) option" where
  "ch_fiber_join exec s f =
     (case fibers s f of
        None \<Rightarrow> Some (Inl ''fiber-join: expected fiber'', s)
      | Some x \<Rightarrow>
          if f_state x = FIBER_DONE then Some (Inr (f_result x), s)
          else if f_state x = FIBER_FAILED then Some (Inl ''fiber-join: fiber failed'', s)
          else case (if 0 < ready_count s then run_next_ready_fiber exec s else (0, s)) of (rc, s1) \<Rightarrow>
            if rc < 0 then Some (Inl '''', s1)
            else if rc = 0 \<and> ready_count s1 = 0 then Some (Inl ''fiber-join: deadlock detected'', s1)
            else ch_fiber_join exec s1 f)"

end
