(* ===== verification/Chaaya_Fiber_Queues.thy ===== *)
theory Chaaya_Fiber_Queues
  imports Chaaya_Fiber
begin

text \<open>
  The buffer of a channel and the ready queue of the scheduler are rings: both implement the bounded
  queue of \<open>Chaaya_Ring\<close>, whose interface they interpret.
\<close>

section \<open>The buffer is a queue\<close>

definition buf_ok :: "channel \<Rightarrow> bool" where
  "buf_ok ch \<longleftrightarrow> ch_head ch < length (ch_items ch) \<and> ch_count ch \<le> length (ch_items ch) \<and>
     ch_tail ch = (ch_head ch + ch_count ch) mod length (ch_items ch)"

definition contents :: "channel \<Rightarrow> chvalue list" where
  "contents ch = ring_list (ch_items ch) (ch_head ch) (ch_count ch)"

definition buffer_room :: "channel \<Rightarrow> nat" where
  "buffer_room ch = length (ch_items ch) - ch_count ch"

lemma length_contents [simp]: "length (contents ch) = ch_count ch"
  by (simp add: contents_def)

lemma contents_Nil: "contents ch = [] \<longleftrightarrow> ch_count ch = 0"
  by (metis length_contents length_0_conv)

lemma channel_push_spec:
  assumes "buf_ok ch" "0 < buffer_room ch"
  shows "contents (channel_push ch v) = contents ch @ [v]" "buf_ok (channel_push ch v)"
    "Suc (buffer_room (channel_push ch v)) = buffer_room ch"
proof -
  show "contents (channel_push ch v) = contents ch @ [v]"
    using assms ring_push [of "ch_count ch" "ch_items ch" "ch_head ch" v]
    by (simp add: contents_def channel_push_def buf_ok_def buffer_room_def)
  show "buf_ok (channel_push ch v)"
    using assms by (auto simp: channel_push_def buf_ok_def buffer_room_def mod_Suc_eq)
  show "Suc (buffer_room (channel_push ch v)) = buffer_room ch"
    using assms by (simp add: channel_push_def buffer_room_def)
qed

lemma channel_pop_spec:
  assumes "buf_ok ch" "contents ch = v # vs"
  shows "\<exists>ch'. channel_pop ch = (v, ch') \<and> buf_ok ch' \<and> contents ch' = vs \<and> buffer_room ch' = Suc (buffer_room ch)"
proof -
  have c: "ch_count ch = Suc (length vs)" using assms(2) length_contents [of ch] by simp
  then have l: "length vs < length (ch_items ch)" using assms(1) by (simp add: buf_ok_def)
  have h: "ch_head ch < length (ch_items ch)" using assms(1) by (simp add: buf_ok_def)
  have p: "contents ch = ch_items ch ! ch_head ch #
      ring_list ((ch_items ch)[ch_head ch := CH_UNDEFINED]) ((ch_head ch + 1) mod length (ch_items ch)) (length vs)"
    using ring_pop [OF h l, of CH_UNDEFINED] c by (simp add: contents_def)
  have "(ch_head ch + 1) mod length (ch_items ch) < length (ch_items ch)" by (rule mod_less_divisor) (use h in linarith)
  moreover have "ch_tail ch = ((ch_head ch + 1) mod length (ch_items ch) + length vs) mod length (ch_items ch)"
    using assms(1) c by (simp add: buf_ok_def mod_add_left_eq)
  ultimately show ?thesis
    using p assms(2) c l by (auto simp: channel_pop_def buf_ok_def contents_def buffer_room_def)
qed

interpretation channel_buffer: fifo buf_ok contents buffer_room channel_push channel_pop
  by unfold_locales (simp_all add: channel_push_spec channel_pop_spec)

lemma channel_grow_spec:
  assumes "buf_ok ch"
  shows "contents (channel_grow ch) = contents ch" "buf_ok (channel_grow ch)" "ch_count ch < length (ch_items (channel_grow ch))"
proof -
  have n: "0 < length (ch_items ch)" "ch_count ch \<le> length (ch_items ch)" using assms by (auto simp: buf_ok_def)
  have len: "length (ch_items (channel_grow ch)) = 2 * length (ch_items ch)" using n by (simp add: channel_grow_def)
  show "ch_count ch < length (ch_items (channel_grow ch))" using len n by linarith
  show "buf_ok (channel_grow ch)"
  proof -
    have "ch_tail (channel_grow ch) = (ch_head (channel_grow ch) + ch_count (channel_grow ch)) mod (2 * length (ch_items ch))"
      unfolding channel_grow_def by simp (rule mod_less [symmetric], use n in linarith)
    then show ?thesis using n len by (simp add: buf_ok_def) (simp add: channel_grow_def)
  qed
  have "ch_items (channel_grow ch) ! (i mod (2 * length (ch_items ch))) = ch_items ch ! ((ch_head ch + i) mod length (ch_items ch))"
    if "i < ch_count ch" for i
    using that n by (simp add: channel_grow_def nth_append)
  then show "contents (channel_grow ch) = contents ch"
    using len by (simp add: contents_def ring_list_def) (simp add: channel_grow_def)
qed

section \<open>The ready queue is a queue\<close>

definition ready_ok :: "sched \<Rightarrow> bool" where
  "ready_ok s \<longleftrightarrow> length (ready s) = CH_FIBER_READY_MAX \<and> ready_head s < CH_FIBER_READY_MAX \<and>
     ready_count s \<le> CH_FIBER_READY_MAX"

definition ready_list :: "sched \<Rightarrow> fiber_id option list" where
  "ready_list s = ring_list (ready s) (ready_head s) (ready_count s)"

definition ready_room :: "sched \<Rightarrow> nat" where
  "ready_room s = CH_FIBER_READY_MAX - ready_count s"

lemma length_ready_list [simp]: "length (ready_list s) = ready_count s"
  by (simp add: ready_list_def)

lemma ready_push_spec:
  assumes "ready_ok s" "0 < ready_room s"
  shows "ready_list (ready_push s v) = ready_list s @ [v]" "ready_ok (ready_push s v)"
    "Suc (ready_room (ready_push s v)) = ready_room s"
  using assms ring_push [of "ready_count s" "ready s" "ready_head s" v]
  by (auto simp: ready_list_def ready_push_def ready_ok_def ready_room_def)

lemma ready_pop_spec:
  assumes "ready_ok s" "ready_list s = v # vs"
  shows "\<exists>s'. ready_pop s = (v, s') \<and> ready_ok s' \<and> ready_list s' = vs \<and> ready_room s' = Suc (ready_room s)"
proof -
  have c: "ready_count s = Suc (length vs)" using assms(2) length_ready_list [of s] by simp
  then have l: "length vs < length (ready s)" "ready_head s < length (ready s)" using assms(1) by (simp_all add: ready_ok_def)
  have p: "ready_list s = ready s ! ready_head s #
      ring_list ((ready s)[ready_head s := None]) ((ready_head s + 1) mod length (ready s)) (length vs)"
    using ring_pop [OF l(2,1), of None] c by (simp add: ready_list_def)
  have "0 < CH_FIBER_READY_MAX" by (simp add: CH_FIBER_READY_MAX_def)
  then have "(ready_head s + 1) mod CH_FIBER_READY_MAX < CH_FIBER_READY_MAX" by (rule mod_less_divisor)
  then show ?thesis
    using p assms c l by (auto simp: ready_pop_def ready_ok_def ready_list_def ready_room_def)
qed

interpretation ready_queue: fifo ready_ok ready_list ready_room ready_push ready_pop
  by unfold_locales (simp_all add: ready_push_spec ready_pop_spec)

end
