(* ===== verification/Chaaya_Fiber_Steps.thy ===== *)
theory Chaaya_Fiber_Steps
  imports Chaaya_Fiber_Queues
begin

text \<open>
  The scheduler as a state machine: the steps that the running fiber, the main program, the timers and
  the scheduler make, and the invariant that every reachable state satisfies.
\<close>

section \<open>Steps\<close>

datatype event = Dequeued fiber_id | Put channel_id chvalue | Got channel_id chvalue

text \<open>What crosses a channel when a parked fiber begins to run again.\<close>

definition begin_events :: "sched \<Rightarrow> fiber_id \<Rightarrow> event list" where
  "begin_events s f =
     (case fibers s f of
        None \<Rightarrow> []
      | Some x \<Rightarrow>
          (case Option.bind (f_waiting_on x) (\<lambda>c. map_option (\<lambda>ch. (c, ch)) (channels s c)) of
             None \<Rightarrow> []
           | Some (c, ch) \<Rightarrow>
               if \<not> f_snapshot x then []
               else if f_park x = PARK_RECV \<and> 0 < ch_count ch then [Got c (ch_items ch ! ch_head ch)]
               else if f_park x = PARK_SEND \<and> channel_can_send ch then [Put c (f_payload x)]
               else []))"

text \<open>
  The list beside the state holds what was current when each of the nested runs began, the main
  program (no fiber) at the bottom.
\<close>

inductive sched_step :: "sched \<times> fiber_id option list \<Rightarrow> event list \<Rightarrow> sched \<times> fiber_id option list \<Rightarrow> bool" where
  step_skip: "dequeue_ready_fiber s = (Some f, s0) \<Longrightarrow> select_ready s = (None, s1) \<Longrightarrow>
     sched_step (s, st) [Dequeued f] (s1, st)"
| step_begin: "select_ready s = (Some f, s1) \<Longrightarrow> begin_fiber s1 f = (how, s2) \<Longrightarrow> how \<noteq> Reparked \<Longrightarrow> how \<noteq> StartError \<Longrightarrow>
     sched_step (s, st) (Dequeued f # begin_events s1 f) (s2, current s # st)"
| step_repark: "select_ready s = (Some f, s1) \<Longrightarrow> begin_fiber s1 f = (Reparked, s2) \<Longrightarrow>
     sched_step (s, st) [Dequeued f] (s2, st)"
| step_send: "send_attempt s c v = (Sent, s1) \<Longrightarrow> sched_step (s, st) [Put c v] (s1, st)"
| step_send_timeout: "send_timeout_attempt s c v expired = (Sent, s1) \<Longrightarrow> sched_step (s, st) [Put c v] (s1, st)"
| step_send_failed: "send_attempt s c v = (Failed e, s1) \<Longrightarrow> sched_step (s, st) [] (s1, st)"
| step_send_park: "send_attempt s c v = (Parked, s1) \<Longrightarrow> current s = Some f \<Longrightarrow> finish_fiber s1 f prev VM_PARKED = (rc, s2) \<Longrightarrow>
     sched_step (s, prev # st) [] (s2, st)"
| step_recv: "recv_attempt s c = (Received v, s1) \<Longrightarrow> channels s c = Some ch \<Longrightarrow>
     sched_step (s, st) (if 0 < ch_count ch then [Got c v] else []) (s1, st)"
| step_recv_timeout: "recv_timeout_attempt s c expired = (Received v, s1) \<Longrightarrow> channels s c = Some ch \<Longrightarrow>
     sched_step (s, st) (if 0 < ch_count ch then [Got c v] else []) (s1, st)"
| step_recv_park: "recv_attempt s c = (Parked, s1) \<Longrightarrow> current s = Some f \<Longrightarrow> finish_fiber s1 f prev VM_PARKED = (rc, s2) \<Longrightarrow>
     sched_step (s, prev # st) [] (s2, st)"
| step_sleep: "current s = Some f \<Longrightarrow> finish_fiber (park_current_fiber s f None PARK_SLEEP) f prev VM_PARKED = (rc, s1) \<Longrightarrow>
     sched_step (s, prev # st) [] (s1, st)"
| step_timer: "fibers s f = Some x \<Longrightarrow> f_state x = FIBER_WAITING \<Longrightarrow> f_park x = PARK_SLEEP \<Longrightarrow>
     sched_step (s, st) [] (wake_fiber s f, st)"
| step_close: "ch_channel_close s c = Inr s1 \<Longrightarrow> sched_step (s, st) [] (s1, st)"
| step_make: "channels s c = None \<Longrightarrow> prim_make_channel args = Inr ch \<Longrightarrow> sched_step (s, st) [] (put_channel s c ch, st)"
| step_spawn: "fibers s f = None \<Longrightarrow> ch_fiber_spawn s f = Inr s1 \<Longrightarrow> sched_step (s, st) [] (s1, st)"
| step_finish: "current s = Some f \<Longrightarrow> end \<noteq> VM_PARKED \<Longrightarrow> finish_fiber s f prev end = (rc, s1) \<Longrightarrow>
     sched_step (s, prev # st) [] (s1, st)"

inductive sched_run :: "sched \<times> fiber_id option list \<Rightarrow> event list \<Rightarrow> sched \<times> fiber_id option list \<Rightarrow> bool" where
  run_nil: "sched_run k [] k"
| run_step: "sched_run k es k' \<Longrightarrow> sched_step k' es' k'' \<Longrightarrow> sched_run k (es @ es') k''"

section \<open>The invariant\<close>

definition chan_ok :: "channel \<Rightarrow> bool" where
  "chan_ok ch \<longleftrightarrow> buf_ok ch \<and> (0 < capacity ch \<longrightarrow> length (ch_items ch) = capacity ch \<and> \<not> rendezvous ch) \<and>
     (recv_waiters ch \<noteq> [] \<longrightarrow> ch_count ch = 0 \<and> \<not> closed ch) \<and>
     (send_waiters ch \<noteq> [] \<longrightarrow> \<not> closed ch \<and> (0 < capacity ch \<longrightarrow> ch_count ch = capacity ch) \<and> (capacity ch = 0 \<longrightarrow> rendezvous ch))"

definition running :: "sched \<Rightarrow> fiber_id option list \<Rightarrow> fiber_id list" where
  "running s st = List.map_filter (\<lambda>v. v) (current s # st)"

definition waits :: "(channel_id \<Rightarrow> channel option) \<Rightarrow> fiber_id \<Rightarrow> fiber \<Rightarrow> bool" where
  "waits cs f x \<longleftrightarrow> f_snapshot x \<and>
     (f_park x = PARK_SLEEP \<or>
      (\<exists>c ch. f_waiting_on x = Some c \<and> cs c = Some ch \<and>
         (f_park x = PARK_RECV \<and> f \<in> set (recv_waiters ch) \<or> f_park x = PARK_SEND \<and> f \<in> set (send_waiters ch))))"

definition fiber_ok :: "sched \<Rightarrow> fiber_id option list \<Rightarrow> fiber_id \<Rightarrow> fiber \<Rightarrow> bool" where
  "fiber_ok s st f x \<longleftrightarrow>
     (f_queued x \<longleftrightarrow> Some f \<in> set (ready_list s)) \<and> (f_queued x \<longrightarrow> f_state x = FIBER_READY) \<and>
     (f_state x = FIBER_RUNNING \<longleftrightarrow> f \<in> set (running s st)) \<and> f_state x \<noteq> FIBER_IO_WAITING \<and>
     (f_state x = FIBER_WAITING \<longrightarrow> waits (channels s) f x) \<and>
     (f_state x = FIBER_READY \<and> card (dom (fibers s)) \<le> CH_FIBER_READY_MAX \<longrightarrow> f_queued x)"

text \<open>The invariant but for a set of fibers that are on their way from the queue to running.\<close>

definition sched_ok_but :: "fiber_id set \<Rightarrow> sched \<Rightarrow> fiber_id option list \<Rightarrow> bool" where
  "sched_ok_but F s st \<longleftrightarrow>
     finite (dom (fibers s)) \<and> ready_ok s \<and> distinct (ready_list s) \<and>
     (\<forall>v \<in> set (ready_list s). \<exists>f x. v = Some f \<and> fibers s f = Some x) \<and>
     (\<forall>f x. fibers s f = Some x \<longrightarrow> f \<notin> F \<longrightarrow> fiber_ok s st f x) \<and>
     (\<forall>f x. fibers s f = Some x \<longrightarrow> f \<in> F \<longrightarrow> \<not> f_queued x \<and> Some f \<notin> set (ready_list s)) \<and>
     (\<forall>c ch. channels s c = Some ch \<longrightarrow> chan_ok ch) \<and>
     distinct (running s st) \<and> set (running s st) \<subseteq> dom (fibers s)"

abbreviation sched_ok :: "sched \<Rightarrow> fiber_id option list \<Rightarrow> bool" where
  "sched_ok \<equiv> sched_ok_but {}"

lemma sched_ok_butD:
  assumes "sched_ok_but F s st"
  shows "finite (dom (fibers s))" "ready_ok s" "distinct (ready_list s)"
    "v \<in> set (ready_list s) \<Longrightarrow> \<exists>f x. v = Some f \<and> fibers s f = Some x"
    "fibers s f = Some x \<Longrightarrow> f \<notin> F \<Longrightarrow> fiber_ok s st f x"
    "fibers s f = Some x \<Longrightarrow> f \<in> F \<Longrightarrow> \<not> f_queued x \<and> Some f \<notin> set (ready_list s)"
    "channels s c = Some ch \<Longrightarrow> chan_ok ch" "distinct (running s st)" "set (running s st) \<subseteq> dom (fibers s)"
  using assms unfolding sched_ok_but_def by blast+

lemma sched_ok_init: "sched_ok ch_fiber_runtime_init []"
  by (simp add: sched_ok_but_def ch_fiber_runtime_init_def ready_ok_def ready_list_def CH_FIBER_READY_MAX_def
      running_def List.map_filter_def)

lemma waits_mono:
  assumes "waits cs f x" "\<And>c ch. cs c = Some ch \<Longrightarrow> \<exists>ch'. cs' c = Some ch' \<and>
    (f \<in> set (recv_waiters ch) \<longrightarrow> f \<in> set (recv_waiters ch')) \<and> (f \<in> set (send_waiters ch) \<longrightarrow> f \<in> set (send_waiters ch'))"
  shows "waits cs' f x"
  using assms unfolding waits_def by blast

text \<open>
  Changing one fiber that is not queued, with the channel it waits on and the stack of running
  fibers.
\<close>

lemma update_ok:
  assumes ok: "sched_ok_but {f} s st" and x: "fibers s f = Some x" and n: "\<not> f_queued x'"
    and s': "fibers s' = (fibers s)(f \<mapsto> x')" "ready s' = ready s" "ready_head s' = ready_head s" "ready_count s' = ready_count s"
    and ch: "\<And>c ch. channels s c = Some ch \<Longrightarrow> \<exists>ch'. channels s' c = Some ch' \<and>
      set (recv_waiters ch) \<subseteq> set (recv_waiters ch') \<and> set (send_waiters ch) \<subseteq> set (send_waiters ch')"
    and chok: "\<And>c ch. channels s' c = Some ch \<Longrightarrow> chan_ok ch"
    and run: "distinct (running s' st')" "set (running s' st') - {f} = set (running s st) - {f}"
      "f_state x' = FIBER_RUNNING \<longleftrightarrow> f \<in> set (running s' st')"
    and st: "f_state x' \<noteq> FIBER_IO_WAITING" "f_state x' \<noteq> FIBER_READY" "f_state x' = FIBER_WAITING \<Longrightarrow> waits (channels s') f x'"
  shows "sched_ok s' st'"
proof -
  note K = sched_ok_butD [OF ok]
  have rl: "ready_list s' = ready_list s" using s' by (simp add: ready_list_def)
  have dom: "dom (fibers s') = dom (fibers s)" using x s'(1) by auto
  have fo: "fiber_ok s' st' g y" if g: "fibers s' g = Some y" for g y
  proof (cases "g = f")
    case True
    then have y: "y = x'" using g s'(1) by simp
    have "Some f \<notin> set (ready_list s)" using K(6) [OF x] by simp
    then show ?thesis using True y n run(3) st by (simp add: fiber_ok_def rl)
  next
    case False
    then have y: "fibers s g = Some y" using g s'(1) by simp
    then have o: "fiber_ok s st g y" using K(5) False by simp
    have r: "g \<in> set (running s' st') \<longleftrightarrow> g \<in> set (running s st)" using run(2) False by blast
    have "waits (channels s') g y" if "waits (channels s) g y"
      by (rule waits_mono [OF that]) (use ch in blast)
    then show ?thesis using o r unfolding fiber_ok_def rl dom by blast
  qed
  have "ready_ok s'" using K(2) s' by (simp add: ready_ok_def)
  moreover have "\<exists>g y. v = Some g \<and> fibers s' g = Some y" if "v \<in> set (ready_list s')" for v
    using K(4) [of v] that s'(1) by (auto simp: rl)
  moreover have "set (running s' st') \<subseteq> dom (fibers s')" using run(2) K(9) x dom by blast
  ultimately show ?thesis
    unfolding sched_ok_but_def using K(1,3) fo chok run(1) by (simp add: rl dom)
qed

section \<open>Waking\<close>

lemma wake_fiber_frame: "channels (wake_fiber s f) = channels s" "current (wake_fiber s f) = current s"
  by (auto simp: wake_fiber_def enqueue_ready_fiber_def put_fiber_def ready_push_def split: option.split)

lemma wake_waiter_frame: "channels (wake_waiter_list s ws) = channels s" "current (wake_waiter_list s ws) = current s"
  unfolding wake_waiter_list_def by (induction ws arbitrary: s) (simp_all add: wake_fiber_frame)

lemma running_frame: "current s' = current s \<Longrightarrow> running s' st = running s st"
  by (simp add: running_def)

text \<open>With at most as many fibers as the queue has places, a fiber outside of the queue finds room.\<close>

lemma queue_has_room:
  assumes ok: "sched_ok_but F s st" and f: "fibers s f = Some x" "Some f \<notin> set (ready_list s)"
    and few: "card (dom (fibers s)) \<le> CH_FIBER_READY_MAX"
  shows "ready_count s < CH_FIBER_READY_MAX"
proof -
  note K = sched_ok_butD [OF ok]
  have "set (ready_list s) \<subseteq> Some ` (dom (fibers s) - {f})"
  proof
    fix v
    assume v: "v \<in> set (ready_list s)"
    from K(4) [OF v] obtain g y where "v = Some g" "fibers s g = Some y" by blast
    then show "v \<in> Some ` (dom (fibers s) - {f})" using v f(2) by auto
  qed
  then have "card (set (ready_list s)) \<le> card (Some ` (dom (fibers s) - {f}))" using K(1) by (intro card_mono) simp_all
  also have "\<dots> = card (dom (fibers s) - {f})" by (rule card_image) simp
  also have "\<dots> < card (dom (fibers s))" using f(1) K(1) by (intro card_Diff1_less) auto
  finally show ?thesis using distinct_card [OF K(3)] few by simp
qed

lemma wake_fiber_ok:
  assumes ok: "sched_ok_but (insert f F) s st" and f: "f \<notin> F" and x: "fibers s f = Some x" "f_state x = FIBER_WAITING"
    and r: "f \<notin> set (running s st)"
  shows "sched_ok_but F (wake_fiber s f) st"
    and "\<And>g. g \<noteq> f \<Longrightarrow> fibers (wake_fiber s f) g = fibers s g"
    and "\<exists>q. fibers (wake_fiber s f) f = Some (x\<lparr>f_state := FIBER_READY, f_queued := q\<rparr>)"
proof -
  note K = sched_ok_butD [OF ok]
  have nq: "\<not> f_queued x" "Some f \<notin> set (ready_list s)" using K(6) [OF x(1)] by auto
  define b where "b = (ready_count s < CH_FIBER_READY_MAX)"
  define x' where "x' = x\<lparr>f_state := FIBER_READY, f_queued := b\<rparr>"
  let ?s = "wake_fiber s f"
  have fib: "fibers ?s = (fibers s)(f \<mapsto> x')"
    using x nq by (auto simp: wake_fiber_def enqueue_ready_fiber_def put_fiber_def ready_push_def x'_def b_def fun_eq_iff)
  have rd: "ready ?s = (if b then ready (ready_push s (Some f)) else ready s)" "ready_head ?s = ready_head s"
    "ready_count ?s = (if b then ready_count s + 1 else ready_count s)"
    using x nq by (auto simp: wake_fiber_def enqueue_ready_fiber_def put_fiber_def ready_push_def b_def)
  have rl: "ready_list ?s = (if b then ready_list s @ [Some f] else ready_list s)"
  proof (cases b)
    case True
    then have "ready_list ?s = ready_list (ready_push s (Some f))" using rd by (simp add: ready_list_def ready_push_def)
    then show ?thesis using ready_push_spec(1) [OF K(2)] True by (simp add: b_def ready_room_def)
  next
    case False
    then show ?thesis using rd by (simp add: ready_list_def)
  qed
  have rok: "ready_ok ?s" using K(2) rd by (auto simp: ready_ok_def b_def ready_push_def)
  have dom: "dom (fibers ?s) = dom (fibers s)" using x(1) fib by auto
  have run: "running ?s st = running s st" by (rule running_frame) (rule wake_fiber_frame)
  have room: "card (dom (fibers s)) \<le> CH_FIBER_READY_MAX \<Longrightarrow> b"
    unfolding b_def by (rule queue_has_room [OF ok x(1) nq(2)])
  have fo: "fiber_ok ?s st g y" if g: "fibers ?s g = Some y" "g \<notin> F" for g y
  proof (cases "g = f")
    case True
    then have y: "y = x'" using g fib by simp
    show ?thesis using True y r room nq(2) by (auto simp: fiber_ok_def rl run dom x'_def)
  next
    case False
    then have "fiber_ok s st g y" using K(5) g fib by simp
    moreover have "Some g \<in> set (ready_list ?s) \<longleftrightarrow> Some g \<in> set (ready_list s)" using False by (simp add: rl)
    ultimately show ?thesis unfolding fiber_ok_def run dom wake_fiber_frame by blast
  qed
  have but: "\<not> f_queued y \<and> Some g \<notin> set (ready_list ?s)" if "fibers ?s g = Some y" "g \<in> F" for g y
  proof -
    have "g \<noteq> f" using that(2) f by blast
    then show ?thesis using K(6) [of g y] that fib by (simp add: rl)
  qed
  have ex: "\<exists>g y. v = Some g \<and> fibers ?s g = Some y" if "v \<in> set (ready_list ?s)" for v
    using K(4) [of v] that fib by (auto simp: rl split: if_splits)
  have "distinct (ready_list ?s)" using K(3) nq(2) by (simp add: rl)
  then show "sched_ok_but F ?s st"
    unfolding sched_ok_but_def using K(1,7,8,9) rok fo but ex by (simp add: dom run wake_fiber_frame)
  show "\<And>g. g \<noteq> f \<Longrightarrow> fibers ?s g = fibers s g" using fib by simp
  show "\<exists>q. fibers ?s f = Some (x\<lparr>f_state := FIBER_READY, f_queued := q\<rparr>)" using fib by (auto simp: x'_def)
qed

lemma wake_waiter_ok:
  "sched_ok_but F s st \<Longrightarrow> F \<subseteq> set ws \<Longrightarrow>
   (\<And>f. f \<in> F \<Longrightarrow> \<exists>x. fibers s f = Some x \<and> f_state x = FIBER_WAITING \<and> f \<notin> set (running s st)) \<Longrightarrow>
   (\<And>f x. f \<in> set ws - F \<Longrightarrow> fibers s f = Some x \<Longrightarrow> f_state x \<noteq> FIBER_WAITING \<and> f_state x \<noteq> FIBER_IO_WAITING) \<Longrightarrow>
   sched_ok (wake_waiter_list s ws) st"
proof (induction ws arbitrary: s F)
  case Nil
  then show ?case by (simp add: wake_waiter_list_def)
next
  case (Cons f ws)
  show ?case
  proof (cases "f \<in> F")
    case True
    obtain x where x: "fibers s f = Some x" "f_state x = FIBER_WAITING" "f \<notin> set (running s st)"
      using Cons.prems(3) True by blast
    have "sched_ok_but (insert f (F - {f})) s st" using Cons.prems(1) True by (simp add: insert_absorb)
    note W = wake_fiber_ok [OF this _ x, simplified]
    let ?s = "wake_fiber s f"
    have run: "running ?s st = running s st" by (rule running_frame) (rule wake_fiber_frame)
    have "sched_ok (wake_waiter_list ?s ws) st"
    proof (rule Cons.IH [OF W(1)])
      show "F - {f} \<subseteq> set ws" using Cons.prems(2) by auto
      show "\<exists>x. fibers ?s g = Some x \<and> f_state x = FIBER_WAITING \<and> g \<notin> set (running ?s st)" if "g \<in> F - {f}" for g
        using Cons.prems(3) [of g] W(2) [of g] that run by auto
      show "f_state y \<noteq> FIBER_WAITING \<and> f_state y \<noteq> FIBER_IO_WAITING" if "g \<in> set ws - (F - {f})" "fibers ?s g = Some y" for g y
        using Cons.prems(4) [of g y] W(2) [of g] W(3) that by (cases "g = f") auto
    qed
    then show ?thesis by (simp add: wake_waiter_list_def)
  next
    case False
    have id: "wake_fiber s f = s" using Cons.prems(4) [of f] False by (auto simp: wake_fiber_def split: option.split)
    have "sched_ok (wake_waiter_list s ws) st"
      by (rule Cons.IH [OF Cons.prems(1)]) (use Cons.prems False in auto)
    then show ?thesis using id by (simp add: wake_waiter_list_def)
  qed
qed

text \<open>Replacing a channel and waking those whose names leave its lists of waiters.\<close>

lemma wake_channel_ok:
  assumes ok: "sched_ok s st" and ch: "channels s c = Some ch" and ch': "chan_ok ch'"
    and ws: "set (recv_waiters ch) \<subseteq> set (recv_waiters ch') \<union> set ws" "set (send_waiters ch) \<subseteq> set (send_waiters ch') \<union> set ws"
  shows "sched_ok (wake_waiter_list (put_channel s c ch') ws) st"
proof -
  note K = sched_ok_butD [OF ok]
  let ?s = "put_channel s c ch'"
  define F where "F = {f \<in> set ws. \<exists>x. fibers s f = Some x \<and> f_state x = FIBER_WAITING}"
  have fr: "fibers ?s = fibers s" "ready_list ?s = ready_list s" "running ?s st = running s st" "ready_ok ?s = ready_ok s"
    "channels ?s = (channels s)(c \<mapsto> ch')"
    by (simp_all add: put_channel_def ready_list_def running_def ready_ok_def)
  have fo: "fiber_ok ?s st f x" if f: "fibers s f = Some x" "f \<notin> F" for f x
  proof -
    have o: "fiber_ok s st f x" using K(5) f by simp
    have "waits (channels ?s) f x" if "waits (channels s) f x" "f_state x = FIBER_WAITING"
    proof (rule waits_mono [OF that(1)])
      fix d e
      assume d: "channels s d = Some e"
      have "f \<notin> set ws" using f that(2) by (simp add: F_def)
      then show "\<exists>e'. channels ?s d = Some e' \<and> (f \<in> set (recv_waiters e) \<longrightarrow> f \<in> set (recv_waiters e')) \<and>
          (f \<in> set (send_waiters e) \<longrightarrow> f \<in> set (send_waiters e'))"
        using d ch ws by (cases "d = c") (auto simp: fr)
    qed
    then show ?thesis using o unfolding fiber_ok_def fr by blast
  qed
  have but: "\<not> f_queued x \<and> Some f \<notin> set (ready_list s)" if "fibers s f = Some x" "f \<in> F" for f x
    using K(5) [OF that(1)] that by (auto simp: F_def fiber_ok_def)
  have "sched_ok_but F ?s st"
    unfolding sched_ok_but_def fr(1-4) using K(1-4,8,9) fo but K(7) ch' by (auto simp: fr)
  then show ?thesis
  proof (rule wake_waiter_ok)
    show "F \<subseteq> set ws" by (auto simp: F_def)
    show "\<exists>x. fibers ?s f = Some x \<and> f_state x = FIBER_WAITING \<and> f \<notin> set (running ?s st)" if f: "f \<in> F" for f
    proof -
      obtain x where x: "fibers s f = Some x" "f_state x = FIBER_WAITING" using f by (auto simp: F_def)
      then have "f \<notin> set (running s st)" using K(5) [OF x(1)] by (auto simp: fiber_ok_def)
      then show ?thesis using x by (simp add: fr)
    qed
    show "f_state x \<noteq> FIBER_WAITING \<and> f_state x \<noteq> FIBER_IO_WAITING" if "f \<in> set ws - F" "fibers ?s f = Some x" for f x
      using that K(5) [of f x] by (auto simp: F_def fr fiber_ok_def)
  qed
qed

end
