(* ===== verification/Chaaya_Fiber_Operations.thy ===== *)
theory Chaaya_Fiber_Operations
  imports Chaaya_Fiber_Steps
begin

text \<open>
  Every operation of the channels and the scheduler keeps the invariant of the scheduler: sends and
  receives, the fibers that park or end and those that begin or resume. The last section has what
  each of them puts into the channels and takes out.
\<close>

section \<open>Channel operations\<close>

lemma ready_to_push:
  assumes "chan_ok ch" "\<not> must_wait ch"
  defines "ch1 \<equiv> if capacity ch = 0 \<and> \<not> rendezvous ch \<and> length (ch_items ch) \<le> ch_count ch then channel_grow ch else ch"
  shows "buf_ok ch1" "0 < buffer_room ch1" "contents ch1 = contents ch"
    "rendezvous ch1 \<Longrightarrow> ch_count ch1 < length (ch_items ch1)"
    "capacity ch1 = capacity ch" "rendezvous ch1 = rendezvous ch" "closed ch1 = closed ch" "ch_count ch1 = ch_count ch"
    "recv_waiters ch1 = recv_waiters ch" "send_waiters ch1 = send_waiters ch"
    "0 < capacity ch \<Longrightarrow> length (ch_items ch1) = length (ch_items ch)"
proof -
  have ok: "buf_ok ch" using assms(1) by (simp add: chan_ok_def)
  note g = channel_grow_spec [OF ok]
  have l: "0 < length (ch_items ch)" using ok by (auto simp: buf_ok_def)
  show "buf_ok ch1" "contents ch1 = contents ch" using ok g by (simp_all add: ch1_def)
  have "ch_count ch1 < length (ch_items ch1)"
  proof (cases "capacity ch = 0")
    case True
    show ?thesis
    proof (cases "rendezvous ch")
      case r: True
      then have "recv_waiters ch \<noteq> []" using assms(2) by (auto simp: must_wait_def channel_can_send_def split: if_splits)
      then show ?thesis using assms(1) r l by (simp add: chan_ok_def ch1_def)
    next
      case False
      then show ?thesis using True g(3) by (auto simp: ch1_def) (simp add: channel_grow_def)
    qed
  next
    case False
    then show ?thesis
      using assms(1,2) by (auto simp: must_wait_def chan_ok_def ch1_def)
  qed
  then show "0 < buffer_room ch1" "rendezvous ch1 \<Longrightarrow> ch_count ch1 < length (ch_items ch1)"
    by (simp_all add: buffer_room_def)
  show "capacity ch1 = capacity ch" "rendezvous ch1 = rendezvous ch" "closed ch1 = closed ch" "ch_count ch1 = ch_count ch"
    "recv_waiters ch1 = recv_waiters ch" "send_waiters ch1 = send_waiters ch"
    "0 < capacity ch \<Longrightarrow> length (ch_items ch1) = length (ch_items ch)"
    by (simp_all add: ch1_def channel_grow_def)
qed

lemma channel_push_fields [simp]:
  "capacity (channel_push ch v) = capacity ch" "rendezvous (channel_push ch v) = rendezvous ch"
  "closed (channel_push ch v) = closed ch" "ch_count (channel_push ch v) = ch_count ch + 1"
  "recv_waiters (channel_push ch v) = recv_waiters ch" "send_waiters (channel_push ch v) = send_waiters ch"
  "length (ch_items (channel_push ch v)) = length (ch_items ch)"
  by (simp_all add: channel_push_def)

lemma contents_update [simp]:
  "contents (ch\<lparr>recv_waiters := rs\<rparr>) = contents ch" "contents (ch\<lparr>send_waiters := ss\<rparr>) = contents ch"
  "contents (ch\<lparr>closed := b\<rparr>) = contents ch"
  "buf_ok (ch\<lparr>recv_waiters := rs\<rparr>) = buf_ok ch" "buf_ok (ch\<lparr>send_waiters := ss\<rparr>) = buf_ok ch"
  "buf_ok (ch\<lparr>closed := b\<rparr>) = buf_ok ch"
  by (simp_all add: contents_def buf_ok_def)

text \<open>A push with the receivers woken.\<close>

lemma push_ok:
  assumes ok: "sched_ok s st" and ch: "channels s c = Some ch" and w: "\<not> must_wait ch"
  defines "ch1 \<equiv> if capacity ch = 0 \<and> \<not> rendezvous ch \<and> length (ch_items ch) \<le> ch_count ch then channel_grow ch else ch"
  shows "sched_ok (wake_receivers s c (channel_push ch1 v)) st"
    and "\<exists>ch'. channels (wake_receivers s c (channel_push ch1 v)) = (channels s)(c \<mapsto> ch') \<and> contents ch' = contents ch @ [v]"
    and "current (wake_receivers s c (channel_push ch1 v)) = current s"
proof -
  have cok: "chan_ok ch" using sched_ok_butD(7) [OF ok ch] .
  note P = ready_to_push [OF cok w, folded ch1_def]
  let ?ch = "(channel_push ch1 v)\<lparr>recv_waiters := []\<rparr>"
  have c': "contents ?ch = contents ch @ [v]" using channel_push_spec(1) [OF P(1,2)] P(3) by simp
  have sw: "0 < capacity ch \<Longrightarrow> send_waiters ch = []"
    using cok w by (auto simp: chan_ok_def must_wait_def)
  have "chan_ok ?ch"
    using channel_push_spec(2) [OF P(1,2)] P cok sw by (auto simp: chan_ok_def)
  then have "sched_ok (wake_waiter_list (put_channel s c ?ch) (recv_waiters (channel_push ch1 v))) st"
    by (rule wake_channel_ok [OF ok ch]) (simp_all add: P)
  then show "sched_ok (wake_receivers s c (channel_push ch1 v)) st" by (simp add: wake_receivers_def)
  show "\<exists>ch'. channels (wake_receivers s c (channel_push ch1 v)) = (channels s)(c \<mapsto> ch') \<and> contents ch' = contents ch @ [v]"
    by (rule exI [of _ ?ch]) (simp add: c' wake_receivers_def wake_waiter_frame put_channel_def del: contents_update)
  show "current (wake_receivers s c (channel_push ch1 v)) = current s"
    by (simp add: wake_receivers_def wake_waiter_frame put_channel_def)
qed

lemma channel_deliver_push:
  assumes "chan_ok ch" "\<not> must_wait ch"
  shows "channel_deliver s c ch v = wake_receivers s c (channel_push
    (if capacity ch = 0 \<and> \<not> rendezvous ch \<and> length (ch_items ch) \<le> ch_count ch then channel_grow ch else ch) v)"
  using ready_to_push(4) [OF assms] by (auto simp: channel_deliver_def Let_def)

lemma deliver_ok:
  assumes ok: "sched_ok s st" and ch: "channels s c = Some ch" and w: "\<not> must_wait ch"
  shows "sched_ok (channel_deliver s c ch v) st"
    and "\<exists>ch'. channels (channel_deliver s c ch v) = (channels s)(c \<mapsto> ch') \<and> contents ch' = contents ch @ [v]"
  using push_ok [OF assms] channel_deliver_push [OF sched_ok_butD(7) [OF ok ch] w] by simp_all

lemma channel_pop_fields:
  "channel_pop ch = (v, ch') \<Longrightarrow> capacity ch' = capacity ch \<and> rendezvous ch' = rendezvous ch \<and> closed ch' = closed ch \<and>
     recv_waiters ch' = recv_waiters ch \<and> send_waiters ch' = send_waiters ch \<and> length (ch_items ch') = length (ch_items ch)"
  by (auto simp: channel_pop_def)

text \<open>A pop with the senders woken.\<close>

lemma pop_ok:
  assumes ok: "sched_ok s st" and ch: "channels s c = Some ch" and n: "0 < ch_count ch" and p: "channel_pop ch = (v, ch')"
  shows "sched_ok (wake_senders s c ch') st"
    and "\<exists>ch''. channels (wake_senders s c ch') = (channels s)(c \<mapsto> ch'') \<and> contents ch = v # contents ch''"
    and "current (wake_senders s c ch') = current s" and "v = ch_items ch ! ch_head ch"
proof -
  have cok: "chan_ok ch" using sched_ok_butD(7) [OF ok ch] .
  have "contents ch \<noteq> []" using n by (simp add: contents_Nil)
  then obtain u us where c: "contents ch = u # us" by (cases "contents ch") auto
  have b: "buf_ok ch'" "contents ch = v # contents ch'"
    using channel_pop_spec [of ch u us] cok c p by (auto simp: chan_ok_def)
  note f = channel_pop_fields [OF p]
  have "chan_ok (ch'\<lparr>send_waiters := []\<rparr>)" using cok n b f by (auto simp: chan_ok_def)
  then have "sched_ok (wake_waiter_list (put_channel s c (ch'\<lparr>send_waiters := []\<rparr>)) (send_waiters ch')) st"
    by (rule wake_channel_ok [OF ok ch]) (simp_all add: f)
  then show "sched_ok (wake_senders s c ch') st" by (simp add: wake_senders_def)
  show "\<exists>ch''. channels (wake_senders s c ch') = (channels s)(c \<mapsto> ch'') \<and> contents ch = v # contents ch''"
    by (rule exI [of _ "ch'\<lparr>send_waiters := []\<rparr>"]) (simp add: b(2) wake_senders_def wake_waiter_frame put_channel_def)
  show "current (wake_senders s c ch') = current s"
    by (simp add: wake_senders_def wake_waiter_frame put_channel_def)
  show "v = ch_items ch ! ch_head ch" using p by (simp add: channel_pop_def)
qed

lemma put_channel_wake: "put_channel (wake_waiter_list s ws) c ch = wake_waiter_list (put_channel s c ch) ws"
proof -
  have "put_channel (wake_fiber s f) c ch = wake_fiber (put_channel s c ch) f" for s f
    by (simp add: put_channel_def wake_fiber_def enqueue_ready_fiber_def put_fiber_def ready_push_def split: option.split)
  then show ?thesis unfolding wake_waiter_list_def by (induction ws arbitrary: s) simp_all
qed

lemma close_ok:
  assumes ok: "sched_ok s st" and r: "ch_channel_close s c = Inr s1"
  shows "sched_ok s1 st" and "\<And>d. map_option contents (channels s1 d) = map_option contents (channels s d)"
proof -
  obtain ch where ch: "channels s c = Some ch" using r by (auto simp: ch_channel_close_def split: option.splits)
  have "sched_ok s1 st \<and> (\<forall>d. map_option contents (channels s1 d) = map_option contents (channels s d))"
  proof (cases "closed ch")
    case True
    then show ?thesis using r ch ok by (simp add: ch_channel_close_def)
  next
    case False
    define ch' where "ch' = ch\<lparr>closed := True, recv_waiters := [], send_waiters := []\<rparr>"
    have "put_channel (put_channel s c d) c e = put_channel s c e" for d e by (simp add: put_channel_def)
    then have s1: "s1 = wake_waiter_list (put_channel s c ch') (recv_waiters ch @ send_waiters ch)"
      using r ch False
      by (simp add: ch_channel_close_def Let_def wake_senders_def wake_receivers_def put_channel_wake ch'_def)
        (simp add: wake_waiter_list_def)
    have "chan_ok ch'" using sched_ok_butD(7) [OF ok ch] by (simp add: chan_ok_def ch'_def buf_ok_def)
    then have "sched_ok s1 st" unfolding s1 by (rule wake_channel_ok [OF ok ch]) auto
    moreover have "contents ch' = contents ch" by (simp add: ch'_def contents_def)
    ultimately show ?thesis using ch by (simp add: s1 wake_waiter_frame put_channel_def)
  qed
  then show "sched_ok s1 st" "\<And>d. map_option contents (channels s1 d) = map_option contents (channels s d)" by auto
qed

section \<open>Fibers that stop\<close>

lemma sched_ok_single:
  assumes "sched_ok s st" "fibers s f = Some x" "\<not> f_queued x"
  shows "sched_ok_but {f} s st"
proof -
  note K = sched_ok_butD [OF assms(1)]
  have "Some f \<notin> set (ready_list s)" using K(5) [OF assms(2)] assms(3) by (simp add: fiber_ok_def)
  then show ?thesis unfolding sched_ok_but_def using K(1-5,7-9) assms by auto
qed

lemma running_Cons: "running s st = (case current s of None \<Rightarrow> [] | Some f \<Rightarrow> [f]) @ List.map_filter (\<lambda>v. v) st"
  by (simp add: running_def List.map_filter_def split: option.split)

lemma running_pop:
  assumes "current s = Some f" "current s' = prev"
  shows "running s (prev # st) = f # running s' st"
  using assms by (simp add: running_def List.map_filter_def)

lemma current_fiber:
  assumes "sched_ok s st" "current s = Some f"
  obtains x where "fibers s f = Some x" "f_state x = FIBER_RUNNING" "\<not> f_queued x"
proof -
  have "f \<in> set (running s st)" using assms(2) by (simp add: running_Cons)
  then obtain x where x: "fibers s f = Some x" "f_state x = FIBER_RUNNING"
    using sched_ok_butD(5,9) [OF assms(1)] by (fastforce simp: fiber_ok_def)
  then have "\<not> f_queued x" using sched_ok_butD(5) [OF assms(1) x(1)] by (auto simp: fiber_ok_def)
  then show ?thesis using that x by blast
qed

text \<open>The running fiber stops, with a change to the channel that it waits on.\<close>

lemma stop_ok:
  assumes ok: "sched_ok s (prev # st)" and f: "current s = Some f"
    and s': "fibers s' = (fibers s)(f \<mapsto> x')" "ready s' = ready s" "ready_head s' = ready_head s" "ready_count s' = ready_count s"
      "current s' = prev"
    and ch: "\<And>c ch. channels s c = Some ch \<Longrightarrow> \<exists>ch'. channels s' c = Some ch' \<and>
      set (recv_waiters ch) \<subseteq> set (recv_waiters ch') \<and> set (send_waiters ch) \<subseteq> set (send_waiters ch')"
    and chok: "\<And>c ch. channels s' c = Some ch \<Longrightarrow> chan_ok ch"
    and x': "\<not> f_queued x'" "f_state x' = FIBER_DONE \<or> f_state x' = FIBER_FAILED \<or> f_state x' = FIBER_WAITING"
      "f_state x' = FIBER_WAITING \<Longrightarrow> waits (channels s') f x'"
  shows "sched_ok s' st"
proof -
  obtain x where x: "fibers s f = Some x" "\<not> f_queued x" using current_fiber [OF ok f] by metis
  have r: "running s (prev # st) = f # running s' st" by (rule running_pop [OF f s'(5)])
  then have d: "distinct (running s' st)" "f \<notin> set (running s' st)" using sched_ok_butD(8) [OF ok] by simp_all
  have u: "set (running s' st) - {f} = set (running s (prev # st)) - {f}" unfolding r by simp
  have v: "f_state x' = FIBER_RUNNING \<longleftrightarrow> f \<in> set (running s' st)" using d(2) x'(2) by auto
  have w: "f_state x' \<noteq> FIBER_IO_WAITING" "f_state x' \<noteq> FIBER_READY" using x'(2) by auto
  show ?thesis
    by (rule update_ok [OF sched_ok_single [OF ok x] x(1) x'(1) s'(1-4)]) (fact ch chok d(1) u v w x'(3))+
qed

lemma waiter_chan_ok:
  assumes "chan_ok ch"
  shows "must_wait ch \<Longrightarrow> \<not> closed ch \<Longrightarrow> chan_ok (ch\<lparr>send_waiters := ws\<rparr>)"
    and "ch_count ch = 0 \<Longrightarrow> \<not> closed ch \<Longrightarrow> chan_ok (ch\<lparr>recv_waiters := ws\<rparr>)"
proof -
  assume w: "must_wait ch" "\<not> closed ch"
  have "capacity ch = 0 \<Longrightarrow> rendezvous ch"
    using w by (cases "rendezvous ch") (simp_all add: must_wait_def channel_can_send_def)
  moreover have "0 < capacity ch \<Longrightarrow> ch_count ch = capacity ch"
    using w assms by (cases "rendezvous ch") (auto simp: must_wait_def channel_can_send_def chan_ok_def buf_ok_def)
  ultimately show "chan_ok (ch\<lparr>send_waiters := ws\<rparr>)" using assms w(2) by (simp add: chan_ok_def)
next
  assume "ch_count ch = 0" "\<not> closed ch"
  then show "chan_ok (ch\<lparr>recv_waiters := ws\<rparr>)" using assms by (auto simp: chan_ok_def)
qed

lemma add_waiter_Some: "add_waiter ws f = Some ws' \<longleftrightarrow> length ws < CH_CHANNEL_WAITER_MAX \<and> ws' = ws @ [f]"
  by (auto simp: add_waiter_def)

lemma send_park_ok:
  assumes ok: "sched_ok s (prev # st)" and f: "current s = Some f" and a: "send_attempt s c v = (Parked, s1)"
    and e: "finish_fiber s1 f prev VM_PARKED = (rc, s2)"
  shows "sched_ok s2 st" and "map_option contents (channels s2 d) = map_option contents (channels s d)"
proof -
  obtain x where x: "fibers s f = Some x" "\<not> f_queued x" using current_fiber [OF ok f] by metis
  obtain ch where ch: "channels s c = Some ch" using a by (auto simp: send_attempt_def split: option.splits)
  have c: "\<not> closed ch" "must_wait ch" "length (send_waiters ch) < CH_CHANNEL_WAITER_MAX"
    using a ch f x by (auto simp: send_attempt_def Let_def add_waiter_def split: if_splits)
  define x' where "x' = x\<lparr>f_payload := v, f_snapshot := True, f_state := FIBER_WAITING, f_park := PARK_SEND, f_waiting_on := Some c\<rparr>"
  define ch' where "ch' = ch\<lparr>send_waiters := send_waiters ch @ [f]\<rparr>"
  have s2: "s2 = s\<lparr>fibers := (fibers s)(f \<mapsto> x'), channels := (channels s)(c \<mapsto> ch'), current := prev\<rparr>"
    using a e ch f x c
    by (auto simp: send_attempt_def Let_def add_waiter_def finish_fiber_def park_current_fiber_def put_fiber_def put_channel_def
        x'_def ch'_def split: if_splits)
  have w: "waits (channels s2) f x'" by (simp add: waits_def x'_def s2 ch'_def)
  have cok: "chan_ok ch'" unfolding ch'_def by (rule waiter_chan_ok(1) [OF _ c(2,1)]) (rule sched_ok_butD(7) [OF ok ch])
  show "sched_ok s2 st"
    by (rule stop_ok [OF ok f, where x' = x'])
      (use x ch cok w sched_ok_butD(7) [OF ok] in \<open>auto simp: s2 x'_def ch'_def split: if_splits\<close>)
  show "map_option contents (channels s2 d) = map_option contents (channels s d)"
    using ch by (simp add: s2 ch'_def)
qed

lemma recv_park_ok:
  assumes ok: "sched_ok s (prev # st)" and f: "current s = Some f" and a: "recv_attempt s c = (Parked, s1)"
    and e: "finish_fiber s1 f prev VM_PARKED = (rc, s2)"
  shows "sched_ok s2 st" and "map_option contents (channels s2 d) = map_option contents (channels s d)"
proof -
  obtain x where x: "fibers s f = Some x" "\<not> f_queued x" using current_fiber [OF ok f] by metis
  obtain ch where ch: "channels s c = Some ch" using a by (auto simp: recv_attempt_def split: option.splits)
  have c: "\<not> closed ch" "ch_count ch = 0" "length (recv_waiters ch) < CH_CHANNEL_WAITER_MAX"
    using a ch f x by (auto simp: recv_attempt_def Let_def add_waiter_def split: if_splits prod.splits)
  define x' where "x' = x\<lparr>f_snapshot := True, f_state := FIBER_WAITING, f_park := PARK_RECV, f_waiting_on := Some c\<rparr>"
  define ch' where "ch' = ch\<lparr>recv_waiters := recv_waiters ch @ [f]\<rparr>"
  have s2: "s2 = s\<lparr>fibers := (fibers s)(f \<mapsto> x'), channels := (channels s)(c \<mapsto> ch'), current := prev\<rparr>"
    using a e ch f x c
    by (auto simp: recv_attempt_def Let_def add_waiter_def finish_fiber_def park_current_fiber_def put_fiber_def put_channel_def
        x'_def ch'_def split: if_splits)
  have w: "waits (channels s2) f x'" by (simp add: waits_def x'_def s2 ch'_def)
  have cok: "chan_ok ch'" unfolding ch'_def by (rule waiter_chan_ok(2) [OF _ c(2,1)]) (rule sched_ok_butD(7) [OF ok ch])
  show "sched_ok s2 st"
    by (rule stop_ok [OF ok f, where x' = x'])
      (use x ch cok w sched_ok_butD(7) [OF ok] in \<open>auto simp: s2 x'_def ch'_def split: if_splits\<close>)
  show "map_option contents (channels s2 d) = map_option contents (channels s d)"
    using ch by (simp add: s2 ch'_def)
qed

lemma sleep_ok:
  assumes ok: "sched_ok s (prev # st)" and f: "current s = Some f"
    and e: "finish_fiber (park_current_fiber s f None PARK_SLEEP) f prev VM_PARKED = (rc, s2)"
  shows "sched_ok s2 st" and "channels s2 = channels s"
proof -
  obtain x where x: "fibers s f = Some x" "\<not> f_queued x" using current_fiber [OF ok f] by metis
  define x' where "x' = x\<lparr>f_snapshot := True, f_state := FIBER_WAITING, f_park := PARK_SLEEP, f_waiting_on := None\<rparr>"
  have s2: "s2 = s\<lparr>fibers := (fibers s)(f \<mapsto> x'), current := prev\<rparr>"
    using e x by (auto simp: finish_fiber_def park_current_fiber_def put_fiber_def x'_def)
  have w: "waits (channels s2) f x'" by (simp add: waits_def x'_def)
  show "sched_ok s2 st"
    by (rule stop_ok [OF ok f, where x' = x']) (use x w sched_ok_butD(7) [OF ok] in \<open>auto simp: s2 x'_def\<close>)
  show "channels s2 = channels s" by (simp add: s2)
qed

lemma finish_ok:
  assumes ok: "sched_ok s (prev # st)" and f: "current s = Some f" and n: "end \<noteq> VM_PARKED"
    and e: "finish_fiber s f prev end = (rc, s2)"
  shows "sched_ok s2 st" and "channels s2 = channels s"
proof -
  obtain x where x: "fibers s f = Some x" "\<not> f_queued x" using current_fiber [OF ok f] by metis
  obtain x' where x': "s2 = put_fiber (s\<lparr>current := prev\<rparr>) f x'"
      "f_state x' = FIBER_DONE \<or> f_state x' = FIBER_FAILED" "\<not> f_queued x'"
    using e x n by (cases "end") (auto simp: finish_fiber_def)
  show "sched_ok s2 st"
    by (rule stop_ok [OF ok f, where x' = x']) (use x x'(2,3) sched_ok_butD(7) [OF ok] in \<open>auto simp: x'(1) put_fiber_def\<close>)
  show "channels s2 = channels s" by (simp add: x' put_fiber_def)
qed

lemma send_failed_ok:
  assumes ok: "sched_ok s st" and a: "send_attempt s c v = (Failed e, s1)"
  shows "sched_ok s1 st" and "channels s1 = channels s"
proof -
  have "s1 = s \<or> (\<exists>f x. current s = Some f \<and> fibers s f = Some x \<and> s1 = put_fiber s f (x\<lparr>f_payload := v\<rparr>))"
    using a by (auto simp: send_attempt_def Let_def split: option.splits if_splits)
  then have "sched_ok s1 st \<and> channels s1 = channels s"
  proof
    assume "\<exists>f x. current s = Some f \<and> fibers s f = Some x \<and> s1 = put_fiber s f (x\<lparr>f_payload := v\<rparr>)"
    then obtain f x where f: "current s = Some f" "fibers s f = Some x" and s1: "s1 = put_fiber s f (x\<lparr>f_payload := v\<rparr>)" by blast
    have x: "f_state x = FIBER_RUNNING" "\<not> f_queued x" using current_fiber [OF ok f(1)] f(2) by (metis option.inject)+
    have r: "running s1 st = running s st" by (simp add: s1 put_fiber_def running_def)
    have m: "f \<in> set (running s st)" using f(1) by (simp add: running_Cons)
    have "sched_ok s1 st"
      by (rule update_ok [OF sched_ok_single [OF ok f(2) x(2)] f(2), where x' = "x\<lparr>f_payload := v\<rparr>"])
        (use x r m sched_ok_butD(7,8) [OF ok] in \<open>auto simp: s1 put_fiber_def\<close>)
    then show ?thesis by (simp add: s1 put_fiber_def)
  qed (use ok in simp)
  then show "sched_ok s1 st" "channels s1 = channels s" by auto
qed

section \<open>Fibers that begin\<close>

lemma dequeue_ok:
  assumes ok: "sched_ok s st" and d: "dequeue_ready_fiber s = (Some f, s1)"
  obtains x where "fibers s1 f = Some x" "f_state x = FIBER_READY" "\<not> f_queued x" "sched_ok_but {f} s1 st"
    "ready_list s = Some f # ready_list s1" "channels s1 = channels s" "current s1 = current s" "f \<notin> set (running s st)"
proof -
  note K = sched_ok_butD [OF ok]
  have "ready_count s \<noteq> 0" using d by (cases "ready_count s = 0") (simp_all add: dequeue_ready_fiber_def)
  then obtain v vs where rl: "ready_list s = v # vs" using length_ready_list [of s] by (cases "ready_list s") auto
  obtain s0 where p: "ready_pop s = (v, s0)" "ready_ok s0" "ready_list s0 = vs"
    using ready_pop_spec [OF K(2) rl] by blast
  obtain g y where g: "v = Some g" "fibers s g = Some y" using K(4) [of v] rl by auto
  have s0: "fibers s0 = fibers s" "channels s0 = channels s" "current s0 = current s"
    using p(1) by (auto simp: ready_pop_def)
  have fg: "g = f" and s1: "s1 = put_fiber s0 f (y\<lparr>f_queued := False\<rparr>)"
    using d \<open>ready_count s \<noteq> 0\<close> p(1) g s0(1) by (auto simp: dequeue_ready_fiber_def)
  define x where "x = y\<lparr>f_queued := False\<rparr>"
  have oy: "fiber_ok s st f y" using K(5) g(2) fg by simp
  have q: "f_queued y" "f_state y = FIBER_READY" using oy rl g(1) fg by (auto simp: fiber_ok_def)
  have nr: "f \<notin> set (running s st)" using oy q by (auto simp: fiber_ok_def)
  have rl1: "ready_list s1 = vs" using p(3) by (simp add: s1 put_fiber_def ready_list_def)
  have fib: "fibers s1 = (fibers s)(f \<mapsto> x)" by (simp add: s1 put_fiber_def s0 x_def)
  have dom: "dom (fibers s1) = dom (fibers s)" using g(2) fg by (auto simp: fib)
  have run: "running s1 st = running s st" by (simp add: running_def s1 put_fiber_def s0)
  have ch: "channels s1 = channels s" "current s1 = current s" by (simp_all add: s1 put_fiber_def s0)
  have vs: "distinct vs" "Some f \<notin> set vs" using K(3) rl g(1) fg by auto
  have fo: "fiber_ok s1 st h z" if h: "fibers s1 h = Some z" "h \<noteq> f" for h z
  proof -
    have "fiber_ok s st h z" using K(5) h by (simp add: fib)
    moreover have "Some h \<in> set (ready_list s1) \<longleftrightarrow> Some h \<in> set (ready_list s)" using h(2) rl g(1) fg by (auto simp: rl1)
    ultimately show ?thesis unfolding fiber_ok_def run dom ch by blast
  qed
  have ex: "\<exists>h z. w = Some h \<and> fibers s1 h = Some z" if "w \<in> set vs" for w
    using K(4) [of w] that rl by (auto simp: fib)
  have rok: "ready_ok s1" using p(2) by (simp add: s1 put_fiber_def ready_ok_def)
  have but: "sched_ok_but {f} s1 st"
    unfolding sched_ok_but_def rl1 dom run ch using K(1,7,8,9) rok vs ex fo by (auto simp: fib x_def)
  show ?thesis
    by (rule that [of x]) (use q nr but rl g(1) fg rl1 ch in \<open>simp_all add: fib x_def\<close>)
qed

lemma select_dequeues:
  assumes "sched_ok s st"
  shows "select_ready s = (Some f, s1) \<Longrightarrow> dequeue_ready_fiber s = (Some f, s1)"
    and "dequeue_ready_fiber s = (Some f, s0) \<Longrightarrow> select_ready s = (Some f, s0)"
proof -
  have *: "select_ready s = (Some f, s0)" if d: "dequeue_ready_fiber s = (Some f, s0)" for f s0
  proof -
    obtain x where "fibers s0 f = Some x" "f_state x = FIBER_READY" using dequeue_ok [OF assms d] by metis
    then show ?thesis using d by (simp add: select_ready_def)
  qed
  then show "dequeue_ready_fiber s = (Some f, s0) \<Longrightarrow> select_ready s = (Some f, s0)" .
  assume s: "select_ready s = (Some f, s1)"
  then obtain g s0 where d: "dequeue_ready_fiber s = (Some g, s0)" by (auto simp: select_ready_def split: prod.splits option.splits)
  then show "dequeue_ready_fiber s = (Some f, s1)" using * [OF d] s by simp
qed

text \<open>A fiber out of the queue becomes the running one.\<close>

lemma start_ok:
  assumes ok: "sched_ok_but {f} s st" and x: "fibers s f = Some x" and r: "f \<notin> set (running s st)"
    and x': "f_state x' = FIBER_RUNNING" "\<not> f_queued x'"
  shows "sched_ok (put_fiber (s\<lparr>current := Some f\<rparr>) f x') (current s # st)"
proof -
  let ?s = "put_fiber (s\<lparr>current := Some f\<rparr>) f x'"
  have run: "running ?s (current s # st) = f # running s st"
    by (simp add: running_def put_fiber_def List.map_filter_def)
  note K = sched_ok_butD [OF ok]
  show ?thesis
    by (rule update_ok [OF ok x x'(2)]) (use x' r run K(7,8) in \<open>auto simp: put_fiber_def\<close>)
qed

text \<open>A fiber out of the queue goes back to waiting.\<close>

lemma repark_ok:
  assumes ok: "sched_ok_but {f} s st" and x: "fibers s f = Some x" and r: "f \<notin> set (running s st)" "\<not> f_queued x"
    and ch: "channels s c = Some ch" and ch': "chan_ok ch'"
    and ws: "set (recv_waiters ch) \<subseteq> set (recv_waiters ch')" "set (send_waiters ch) \<subseteq> set (send_waiters ch')"
    and w: "f_snapshot x" "f_waiting_on x = Some c"
      "f_park x = PARK_RECV \<and> f \<in> set (recv_waiters ch') \<or> f_park x = PARK_SEND \<and> f \<in> set (send_waiters ch')"
  shows "sched_ok (put_channel (put_fiber (s\<lparr>current := current s\<rparr>) f (x\<lparr>f_state := FIBER_WAITING\<rparr>)) c ch') st"
proof -
  let ?x = "x\<lparr>f_state := FIBER_WAITING\<rparr>"
  let ?s = "put_channel (put_fiber (s\<lparr>current := current s\<rparr>) f ?x) c ch'"
  have run: "running ?s st = running s st" by (simp add: running_def put_fiber_def put_channel_def)
  note K = sched_ok_butD [OF ok]
  have wt: "waits (channels ?s) f ?x" using w by (auto simp: waits_def put_channel_def put_fiber_def)
  show ?thesis
    by (rule update_ok [OF ok x, where x' = ?x])
      (use r run K(7,8) wt ch ch' ws in \<open>auto simp: put_fiber_def put_channel_def split: if_splits\<close>)
qed

section \<open>What crosses the channels\<close>

definition cont :: "sched \<Rightarrow> channel_id \<Rightarrow> chvalue list" where
  "cont s c = (case channels s c of None \<Rightarrow> [] | Some ch \<Rightarrow> contents ch)"

definition puts :: "channel_id \<Rightarrow> event list \<Rightarrow> chvalue list" where
  "puts c es = concat (map (\<lambda>e. case e of Put d v \<Rightarrow> if d = c then [v] else [] | _ \<Rightarrow> []) es)"

definition gots :: "channel_id \<Rightarrow> event list \<Rightarrow> chvalue list" where
  "gots c es = concat (map (\<lambda>e. case e of Got d v \<Rightarrow> if d = c then [v] else [] | _ \<Rightarrow> []) es)"

definition flows :: "sched \<Rightarrow> event list \<Rightarrow> sched \<Rightarrow> bool" where
  "flows s es s' \<longleftrightarrow> (\<forall>c. cont s c @ puts c es = gots c es @ cont s' c)"

lemma event_simps [simp]:
  "puts c [] = []" "gots c [] = []" "puts c (es @ es') = puts c es @ puts c es'" "gots c (es @ es') = gots c es @ gots c es'"
  "puts c (e # es) = (case e of Put d v \<Rightarrow> if d = c then [v] else [] | _ \<Rightarrow> []) @ puts c es"
  "gots c (e # es) = (case e of Got d v \<Rightarrow> if d = c then [v] else [] | _ \<Rightarrow> []) @ gots c es"
  by (simp_all add: puts_def gots_def)

lemma flows_trans: "flows s es s' \<Longrightarrow> flows s' es' s'' \<Longrightarrow> flows s (es @ es') s''"
  unfolding flows_def by (simp flip: append_assoc) (metis append_assoc)

lemma flows_none: "(\<And>c. cont s' c = cont s c) \<Longrightarrow> flows s [] s'"
  by (simp add: flows_def)

lemma flows_dequeued: "flows s es s' \<Longrightarrow> flows s (Dequeued f # es) s'"
  by (simp add: flows_def)

lemma flows_put:
  assumes "channels s c = Some ch" "channels s' = (channels s)(c \<mapsto> ch')" "contents ch' = contents ch @ [v]"
  shows "flows s [Put c v] s'"
  using assms by (auto simp: flows_def cont_def)

lemma flows_got:
  assumes "channels s c = Some ch" "channels s' = (channels s)(c \<mapsto> ch')" "contents ch = v # contents ch'"
  shows "flows s [Got c v] s'"
  using assms by (auto simp: flows_def cont_def)

lemma cont_same: "map_option contents (channels s' c) = map_option contents (channels s c) \<Longrightarrow> cont s' c = cont s c"
  by (cases "channels s' c"; cases "channels s c") (simp_all add: cont_def)

lemma can_send_must_wait: "chan_ok ch \<Longrightarrow> channel_can_send ch \<Longrightarrow> \<not> must_wait ch"
  by (auto simp: must_wait_def channel_can_send_def split: if_splits)

lemma begin_fiber_ok:
  assumes ok: "sched_ok_but {f} s st" and x: "fibers s f = Some x" "\<not> f_queued x" and r: "f \<notin> set (running s st)"
    and b: "begin_fiber s f = (how, s2)" "how \<noteq> StartError"
  shows "sched_ok s2 (if how = Reparked then st else current s # st) \<and>
    flows s (if how = Reparked then [] else begin_events s f) s2"
proof -
  let ?s1 = "s\<lparr>current := Some f\<rparr>"
  have start: "sched_ok (put_fiber ?s1 f x') (current s # st)" if "f_state x' = FIBER_RUNNING" "\<not> f_queued x'" for x'
    by (rule start_ok [OF ok x(1) r that])
  have same: "flows s [] (put_fiber ?s1 f x')" for x' by (rule flows_none) (simp add: put_fiber_def cont_def)
  have chans: "channels (put_fiber ?s1 f x') = channels s" for x' by (simp add: put_fiber_def)
  let ?look = "Option.bind (f_waiting_on x) (\<lambda>c. map_option (\<lambda>ch. (c, ch)) (channels s c))"
  show ?thesis
  proof (cases "f_snapshot x \<and> (\<exists>c ch. ?look = Some (c, ch) \<and> (f_park x = PARK_RECV \<or> f_park x = PARK_SEND))")
    case False
    then have "begin_events s f = []" using x(1) by (auto simp: begin_events_def split: option.splits)
    moreover have "\<exists>x'. s2 = put_fiber ?s1 f x' \<and> f_state x' = FIBER_RUNNING \<and> \<not> f_queued x' \<and> how \<noteq> Reparked"
      using b False x by (auto simp: begin_fiber_def Let_def split: if_splits option.splits)
    ultimately show ?thesis using start same by auto
  next
    case True
    then obtain c ch where look: "f_waiting_on x = Some c" "channels s c = Some ch" "f_snapshot x"
        and park: "f_park x = PARK_RECV \<or> f_park x = PARK_SEND"
      by (auto simp: bind_eq_Some_conv)
    have cok: "chan_ok ch" using sched_ok_butD(7) [OF ok look(2)] .
    from park show ?thesis
    proof
      assume p: "f_park x = PARK_RECV"
      have bf: "resume_receiver ?s1 f x c ch (current s) = (how, s2)"
        using b(1) x look p by (simp add: begin_fiber_def)
      define x1 where "x1 = x\<lparr>f_state := FIBER_RUNNING, f_waiting_on := None, f_park := PARK_NONE, f_snapshot := False\<rparr>"
      have x1: "f_state x1 = FIBER_RUNNING" "\<not> f_queued x1" using x(2) by (simp_all add: x1_def)
      consider (pop) "0 < ch_count ch" | (eof) "ch_count ch = 0" "closed ch" | (wait) "ch_count ch = 0" "\<not> closed ch" by auto
      then show ?thesis
      proof cases
        case pop
        obtain v ch' where v: "channel_pop ch = (v, ch')" by fastforce
        have s2: "s2 = wake_senders (put_fiber ?s1 f x1) c ch'" "how = Resume v"
          using bf pop v by (auto simp: resume_receiver_def Let_def x1_def)
        note P = pop_ok [OF start [OF x1] _ pop v, unfolded chans, OF look(2)]
        obtain ch'' where "channels s2 = (channels s)(c \<mapsto> ch'')" "contents ch = v # contents ch''" using P(2) s2(1) by blast
        then have "flows s [Got c v] s2" by (rule flows_got [OF look(2)])
        moreover have "begin_events s f = [Got c v]" using x look p pop P(4) by (simp add: begin_events_def)
        ultimately show ?thesis using P(1) s2 by simp
      next
        case eof
        then have "s2 = put_fiber ?s1 f x1" "how = Resume CH_EOF_OBJ" using bf by (auto simp: resume_receiver_def Let_def x1_def)
        moreover have "begin_events s f = []" using x look p eof by (simp add: begin_events_def)
        ultimately show ?thesis using start [OF x1] same by simp
      next
        case wait
        define ch' where "ch' = ch\<lparr>recv_waiters := recv_waiters ch @ [f]\<rparr>"
        have s2: "s2 = put_channel (put_fiber s f (x\<lparr>f_state := FIBER_WAITING\<rparr>)) c ch'" "how = Reparked"
          using bf wait b(2) by (auto simp: resume_receiver_def Let_def ch'_def add_waiter_def split: if_splits)
        have "chan_ok ch'" unfolding ch'_def by (rule waiter_chan_ok(2) [OF cok wait])
        then have "sched_ok s2 st"
          using repark_ok [OF ok x(1) r x(2) look(2), of ch'] look p by (auto simp: s2(1) ch'_def)
        moreover have "flows s [] s2"
          by (rule flows_none) (use look(2) in \<open>auto simp: cont_def s2(1) put_channel_def put_fiber_def ch'_def\<close>)
        ultimately show ?thesis using s2(2) by simp
      qed
    next
      assume p: "f_park x = PARK_SEND"
      have bf: "resume_sender ?s1 f x c ch (current s) = (how, s2)"
        using b(1) x look p by (simp add: begin_fiber_def)
      define x1 where "x1 = x\<lparr>f_state := FIBER_RUNNING, f_waiting_on := None, f_park := PARK_NONE, f_payload := CH_UNDEFINED,
          f_snapshot := False\<rparr>"
      have x1: "f_state x1 = FIBER_RUNNING" "\<not> f_queued x1" using x(2) by (simp_all add: x1_def)
      consider (clo) "closed ch" | (push) "\<not> closed ch" "channel_can_send ch" | (wait) "\<not> closed ch" "\<not> channel_can_send ch" by auto
      then show ?thesis
      proof cases
        case clo
        then have "s2 = put_fiber ?s1 f x1" "how = RaiseClosed" using bf by (auto simp: resume_sender_def Let_def x1_def)
        moreover have "begin_events s f = []" using x look p clo by (simp add: begin_events_def channel_can_send_def)
        ultimately show ?thesis using start [OF x1] same by simp
      next
        case push
        have s2: "s2 = wake_receivers (put_fiber ?s1 f x1) c (channel_push
            (if capacity ch = 0 \<and> \<not> rendezvous ch \<and> length (ch_items ch) \<le> ch_count ch then channel_grow ch else ch) (f_payload x))"
          and h: "how = Resume CH_VOID"
          using bf push by (auto simp: resume_sender_def Let_def x1_def)
        note P = push_ok [OF start [OF x1] _ can_send_must_wait [OF cok push(2)], unfolded chans, OF look(2), of "f_payload x"]
        obtain ch'' where "channels s2 = (channels s)(c \<mapsto> ch'')" "contents ch'' = contents ch @ [f_payload x]"
          using P(2) s2 by blast
        then have "flows s [Put c (f_payload x)] s2" by (rule flows_put [OF look(2)])
        moreover have "begin_events s f = [Put c (f_payload x)]" using x look p push by (simp add: begin_events_def)
        ultimately show ?thesis using P(1) s2 h by simp
      next
        case wait
        define ch' where "ch' = ch\<lparr>send_waiters := send_waiters ch @ [f]\<rparr>"
        have s2: "s2 = put_channel (put_fiber s f (x\<lparr>f_state := FIBER_WAITING\<rparr>)) c ch'" "how = Reparked"
          using bf wait b(2) by (auto simp: resume_sender_def Let_def ch'_def add_waiter_def split: if_splits)
        have "chan_ok ch'" unfolding ch'_def
          by (rule waiter_chan_ok(1) [OF cok]) (use wait in \<open>simp_all add: must_wait_def\<close>)
        then have "sched_ok s2 st"
          using repark_ok [OF ok x(1) r x(2) look(2), of ch'] look p by (auto simp: s2(1) ch'_def)
        moreover have "flows s [] s2"
          by (rule flows_none) (use look(2) in \<open>auto simp: cont_def s2(1) put_channel_def put_fiber_def ch'_def\<close>)
        ultimately show ?thesis using s2(2) by simp
      qed
    qed
  qed
qed

end
