(* ===== verification/Chaaya_Fiber_Runs.thy ===== *)
theory Chaaya_Fiber_Runs
  imports Chaaya_Fiber_Operations
begin

text \<open>
  Runs of the scheduler: every step keeps the invariant, what crosses a channel comes out in the order
  in which it went in, and the fibers leave the ready queue in the order in which they entered it.
\<close>

section \<open>New fibers, new channels, timers\<close>

lemma new_channel:
  assumes "prim_make_channel args = Inr ch"
  shows "chan_ok ch" and "contents ch = []" and "recv_waiters ch = []" and "send_waiters ch = []"
proof -
  have "ch = ch_gc_make_channel 0 False \<or> (\<exists>w :: 64 word. ch = ch_gc_make_channel (unat w) (w = 0))"
    using assms by (auto simp: prim_make_channel_def split: if_splits)
  then obtain cap rv where ch: "ch = ch_gc_make_channel cap rv" and rv: "0 < cap \<longrightarrow> \<not> rv"
    by fastforce
  show "chan_ok ch" "contents ch = []" "recv_waiters ch = []" "send_waiters ch = []"
    using rv by (auto simp: ch ch_gc_make_channel_def chan_ok_def buf_ok_def contents_def)
qed

lemma make_ok:
  assumes ok: "sched_ok s st" and n: "channels s c = None" and ch: "chan_ok ch"
  shows "sched_ok (put_channel s c ch) st"
proof -
  note K = sched_ok_butD [OF ok]
  let ?s = "put_channel s c ch"
  have fr: "fibers ?s = fibers s" "ready_list ?s = ready_list s" "running ?s st = running s st" "ready_ok ?s = ready_ok s"
    by (simp_all add: put_channel_def ready_list_def running_def ready_ok_def)
  have w: "waits (channels ?s) f x" if "waits (channels s) f x" for f x
    by (rule waits_mono [OF that]) (use n in \<open>auto simp: put_channel_def\<close>)
  have fo: "fiber_ok ?s st f x" if "fibers s f = Some x" for f x
    using K(5) [OF that] w unfolding fiber_ok_def fr by blast
  have co: "chan_ok e" if "channels ?s d = Some e" for d e
    using that ch K(7) by (auto simp: put_channel_def split: if_splits)
  show ?thesis unfolding sched_ok_but_def fr using K(1-4,8,9) fo co by simp
qed

lemma timer_ok:
  assumes ok: "sched_ok s st" and x: "fibers s f = Some x" "f_state x = FIBER_WAITING"
  shows "sched_ok (wake_fiber s f) st"
proof -
  have o: "fiber_ok s st f x" using sched_ok_butD(5) [OF ok x(1)] by simp
  then have "\<not> f_queued x" "f \<notin> set (running s st)" using x(2) by (auto simp: fiber_ok_def)
  then show ?thesis
    using wake_fiber_ok(1) [of f "{}", OF sched_ok_single [OF ok x(1)] _ x] by simp
qed

lemma spawn_ok:
  assumes ok: "sched_ok s st" and n: "fibers s f = None" and r: "ch_fiber_spawn s f = Inr s1"
  shows "sched_ok s1 st" and "channels s1 = channels s" and "ready_list s1 = ready_list s @ [Some f]"
proof -
  note K = sched_ok_butD [OF ok]
  define x where "x = ch_gc_make_fiber\<lparr>f_queued := True\<rparr>"
  have rc: "ready_count s < CH_FIBER_READY_MAX"
    using r by (auto simp: ch_fiber_spawn_def enqueue_ready_fiber_def put_fiber_def split: if_splits)
  then have s1: "s1 = (ready_push s (Some f))\<lparr>fibers := (fibers s)(f \<mapsto> x)\<rparr>"
    using r by (auto simp: ch_fiber_spawn_def enqueue_ready_fiber_def put_fiber_def ready_push_def ch_gc_make_fiber_def x_def)
  have P: "ready_list (ready_push s (Some f)) = ready_list s @ [Some f]" "ready_ok (ready_push s (Some f))"
    using ready_push_spec [OF K(2)] rc by (simp_all add: ready_room_def)
  show rl: "ready_list s1 = ready_list s @ [Some f]" using P(1) by (simp add: s1 ready_list_def)
  show cs: "channels s1 = channels s" by (simp add: s1 ready_push_def)
  have fib: "fibers s1 = (fibers s)(f \<mapsto> x)" by (simp add: s1)
  have run: "running s1 st = running s st" by (simp add: s1 running_def ready_push_def)
  have nl: "Some f \<notin> set (ready_list s)" using K(4) [of "Some f"] n by auto
  have nr: "f \<notin> set (running s st)" using K(9) n by auto
  have fo: "fiber_ok s1 st g y" if g: "fibers s1 g = Some y" for g y
  proof (cases "g = f")
    case True
    then have "y = x" using g fib by simp
    then show ?thesis using True nr by (simp add: fiber_ok_def rl run x_def ch_gc_make_fiber_def)
  next
    case False
    then have "fiber_ok s st g y" using K(5) g fib by simp
    moreover have "card (dom (fibers s)) \<le> card (dom (fibers s1))" using K(1) by (intro card_mono) (auto simp: fib)
    moreover have "Some g \<in> set (ready_list s1) \<longleftrightarrow> Some g \<in> set (ready_list s)" using False by (simp add: rl)
    ultimately show ?thesis unfolding fiber_ok_def run cs by (meson le_trans)
  qed
  have ex: "\<exists>g y. v = Some g \<and> fibers s1 g = Some y" if "v \<in> set (ready_list s1)" for v
    using K(4) [of v] that by (auto simp: fib rl)
  have "ready_ok s1" using P(2) by (simp add: s1 ready_ok_def)
  moreover have "set (running s1 st) \<subseteq> dom (fibers s1)" using K(9) by (auto simp: run fib)
  moreover have "finite (dom (fibers s1))" using K(1) by (simp add: fib)
  ultimately show "sched_ok s1 st"
    unfolding sched_ok_but_def using K(3,7,8) nl fo ex by (simp add: rl cs run)
qed

section \<open>The ready queue only grows at its end\<close>

definition grows :: "sched \<Rightarrow> sched \<Rightarrow> bool" where
  "grows s s' \<longleftrightarrow> (ready_ok s \<longrightarrow> ready_ok s' \<and> (\<exists>ws. ready_list s' = ready_list s @ ws))"

lemma grows_same: "ready s' = ready s \<Longrightarrow> ready_head s' = ready_head s \<Longrightarrow> ready_count s' = ready_count s \<Longrightarrow> grows s s'"
  by (simp add: grows_def ready_ok_def ready_list_def)

lemma grows_trans: "grows s s' \<Longrightarrow> grows s' s'' \<Longrightarrow> grows s s''"
  by (auto simp: grows_def)

lemma grows_refl [simp]: "grows s s"
  by (simp add: grows_def)

lemma grows_put [simp]:
  "grows s (put_fiber s' f x) = grows s s'" "grows s (put_channel s' c ch) = grows s s'" "grows s (s'\<lparr>current := p\<rparr>) = grows s s'"
  "grows s (s'\<lparr>fibers := fs\<rparr>) = grows s s'"
  "grows (put_fiber s f x) s' = grows s s'" "grows (put_channel s c ch) s' = grows s s'" "grows (s\<lparr>current := p\<rparr>) s' = grows s s'"
  by (simp_all add: grows_def put_fiber_def put_channel_def ready_ok_def ready_list_def)

lemma grows_push: "ready_count s < CH_FIBER_READY_MAX \<Longrightarrow> grows s (ready_push s v)"
  using ready_push_spec [of s v] by (auto simp: grows_def ready_room_def)

lemma grows_enqueue: "grows s (snd (enqueue_ready_fiber s f))"
  by (auto simp: enqueue_ready_fiber_def intro: grows_push split: option.split)

lemma grows_wake_fiber: "grows s (wake_fiber s f)"
  using grows_enqueue [of "put_fiber s f x" f for x] by (auto simp: wake_fiber_def split: option.split)

lemma grows_wake_waiters: "grows s (wake_waiter_list s ws)"
  unfolding wake_waiter_list_def by (induction ws arbitrary: s) (auto intro: grows_trans grows_wake_fiber)

lemma grows_wake [simp]:
  assumes "grows s s'"
  shows "grows s (wake_receivers s' c ch)" and "grows s (wake_senders s' c ch)"
  unfolding wake_receivers_def wake_senders_def using assms
  by (auto intro: grows_trans [OF _ grows_wake_waiters])


lemma grows_begin: "begin_fiber s f = (how, s1) \<Longrightarrow> grows s s1"
  by (auto simp: begin_fiber_def resume_receiver_def resume_sender_def Let_def split: option.splits if_splits prod.splits)

lemma grows_finish: "finish_fiber s f prev end = (rc, s1) \<Longrightarrow> grows s s1"
  by (auto simp: finish_fiber_def split: option.splits vm_status.splits)

lemma grows_park [simp]: "grows s (park_current_fiber s' f w k) = grows s s'"
  by (simp add: park_current_fiber_def split: option.split)

lemma grows_send: "send_attempt s c v = (r, s1) \<Longrightarrow> grows s s1"
  by (auto simp: send_attempt_def channel_deliver_def Let_def split: option.splits if_splits)

lemma grows_recv: "recv_attempt s c = (r, s1) \<Longrightarrow> grows s s1"
  by (auto simp: recv_attempt_def split: option.splits if_splits prod.splits)

lemma grows_close: "ch_channel_close s c = Inr s1 \<Longrightarrow> grows s s1"
  by (auto simp: ch_channel_close_def Let_def split: option.splits if_splits)

section \<open>Steps and runs\<close>

text \<open>The fibers that left the ready queue, in order.\<close>

definition deqs :: "event list \<Rightarrow> fiber_id list" where
  "deqs es = concat (map (\<lambda>e. case e of Dequeued f \<Rightarrow> [f] | _ \<Rightarrow> []) es)"

definition moves :: "sched \<Rightarrow> event list \<Rightarrow> sched \<Rightarrow> bool" where
  "moves s es s' \<longleftrightarrow> (\<exists>ws. ready_list s @ ws = map Some (deqs es) @ ready_list s')"

lemma deqs_simps [simp]:
  "deqs [] = []" "deqs (es @ es') = deqs es @ deqs es'"
  "deqs (e # es) = (case e of Dequeued f \<Rightarrow> [f] | _ \<Rightarrow> []) @ deqs es"
  by (simp_all add: deqs_def)

lemma deqs_begin [simp]: "deqs (begin_events s f) = []"
  by (simp add: begin_events_def split: option.split)

lemma grows_moves: "sched_ok s st \<Longrightarrow> grows s s' \<Longrightarrow> deqs es = [] \<Longrightarrow> moves s es s'"
  using sched_ok_butD(2) [of "{}" s st] by (auto simp: grows_def moves_def)

lemma moves_trans: "moves s es s' \<Longrightarrow> moves s' es' s'' \<Longrightarrow> moves s (es @ es') s''"
  unfolding moves_def by (metis append_assoc deqs_simps(2) map_append)

definition good :: "sched \<Rightarrow> event list \<Rightarrow> sched \<Rightarrow> fiber_id option list \<Rightarrow> bool" where
  "good s es s' st' \<longleftrightarrow> sched_ok s' st' \<and> flows s es s' \<and> moves s es s'"

lemma begin_good:
  assumes ok: "sched_ok s st" and d: "select_ready s = (Some f, s1)" and b: "begin_fiber s1 f = (how, s2)" "how \<noteq> StartError"
  shows "good s (Dequeued f # (if how = Reparked then [] else begin_events s1 f)) s2 (if how = Reparked then st else current s # st)"
proof -
  obtain x where x: "fibers s1 f = Some x" "\<not> f_queued x" "sched_ok_but {f} s1 st" "ready_list s = Some f # ready_list s1"
      "channels s1 = channels s" "current s1 = current s" "f \<notin> set (running s st)"
    using dequeue_ok [OF ok select_dequeues(1) [OF ok d]] by metis
  have r: "f \<notin> set (running s1 st)" using x by (simp add: running_def)
  note B = begin_fiber_ok [OF x(3,1,2) r b]
  have "cont s1 = cont s" by (rule ext) (simp add: cont_def x)
  then have "flows s es s2" if "flows s1 es s2" for es using that by (simp add: flows_def)
  moreover have "\<exists>ws. ready_list s2 = ready_list s1 @ ws"
    using grows_begin [OF b(1)] sched_ok_butD(2) [OF x(3)] by (simp add: grows_def)
  ultimately show ?thesis using B x(4,6) by (auto simp: good_def moves_def intro: flows_dequeued)
qed

lemma sent_good:
  assumes ok: "sched_ok s st" and a: "send_attempt s c v = (Sent, s1)"
  shows "good s [Put c v] s1 st"
proof -
  obtain ch where ch: "channels s c = Some ch" using a by (auto simp: send_attempt_def split: option.splits)
  then have w: "\<not> must_wait ch" "s1 = channel_deliver s c ch v"
    using a by (auto simp: send_attempt_def Let_def split: option.splits if_splits)
  note D = deliver_ok [OF ok ch w(1), of v, folded w(2)]
  have "flows s [Put c v] s1" using D(2) flows_put [OF ch] by blast
  then show ?thesis using D(1) grows_moves [OF ok grows_send [OF a]] by (simp add: good_def)
qed

lemma received_good:
  assumes ok: "sched_ok s st" and a: "recv_attempt s c = (Received v, s1)" and ch: "channels s c = Some ch"
  shows "good s (if 0 < ch_count ch then [Got c v] else []) s1 st"
proof (cases "0 < ch_count ch")
  case True
  obtain ch' where p: "channel_pop ch = (v, ch')" "s1 = wake_senders s c ch'"
    using a True ch by (auto simp: recv_attempt_def split: prod.splits)
  note P = pop_ok [OF ok ch True p(1), folded p(2)]
  have "flows s [Got c v] s1" using P(2) flows_got [OF ch] by blast
  then show ?thesis using P(1) True grows_moves [OF ok grows_recv [OF a]] by (simp add: good_def)
next
  case False
  then have "s1 = s" using a ch by (auto simp: recv_attempt_def split: option.splits if_splits)
  then show ?thesis using ok False by (simp add: good_def flows_def moves_def)
qed

lemma timeout_same:
  "send_timeout_attempt s c v b = (Sent, s1) \<Longrightarrow> send_attempt s c v = (Sent, s1)"
  "recv_timeout_attempt s c b = (Received u, s1) \<Longrightarrow> recv_attempt s c = (Received u, s1)"
  by (auto simp: send_timeout_attempt_def send_attempt_def recv_timeout_attempt_def recv_attempt_def
      split: option.splits if_splits prod.splits)

lemma silent_good:
  assumes "sched_ok s st" "sched_ok s' st'" "\<And>c. map_option contents (channels s' c) = map_option contents (channels s c)" "grows s s'"
  shows "good s [] s' st'"
  unfolding good_def using assms by (intro conjI flows_none cont_same grows_moves) simp_all

lemma step_good:
  assumes "sched_step (s, st) es (s', st')" and ok: "sched_ok s st"
  shows "good s es s' st'"
  using assms(1)
proof (cases rule: sched_step.cases)
  case (step_skip f s0)
  then show ?thesis using select_dequeues(2) [OF ok] by simp
next
  case (step_begin f s1 how)
  then show ?thesis using begin_good [OF ok] by fastforce
next
  case (step_repark f s1)
  then show ?thesis using begin_good [OF ok step_repark(3,4)] by simp
next
  case (step_send c v)
  then show ?thesis using sent_good [OF ok] by simp
next
  case (step_send_timeout c v b)
  then show ?thesis using sent_good [OF ok timeout_same(1)] by simp
next
  case (step_send_failed c v e)
  then show ?thesis using silent_good [OF ok] send_failed_ok [OF ok] grows_send by simp
next
  case (step_send_park c v s1 f prev rc)
  have "sched_ok s (prev # st')" using ok step_send_park by simp
  note P = send_park_ok [OF this step_send_park(4,3,5)]
  show ?thesis using silent_good [OF ok P] step_send_park grows_trans [OF grows_send grows_finish] by blast
next
  case (step_recv c v ch)
  then show ?thesis using received_good [OF ok] by simp
next
  case (step_recv_timeout c b v ch)
  then show ?thesis using received_good [OF ok timeout_same(2)] by simp
next
  case (step_recv_park c s1 f prev rc)
  have "sched_ok s (prev # st')" using ok step_recv_park by simp
  note P = recv_park_ok [OF this step_recv_park(4,3,5)]
  show ?thesis using silent_good [OF ok P] step_recv_park grows_trans [OF grows_recv grows_finish] by blast
next
  case (step_sleep f prev rc)
  have "sched_ok s (prev # st')" using ok step_sleep by simp
  note P = sleep_ok [OF this step_sleep(3,4)]
  have "grows s s'" using grows_finish [OF step_sleep(4)] by (simp add: grows_def park_current_fiber_def put_fiber_def ready_ok_def ready_list_def split: option.splits)
  then show ?thesis using silent_good [OF ok P(1)] P(2) step_sleep by simp
next
  case (step_timer f x)
  then show ?thesis using silent_good [OF ok timer_ok [OF ok]] by (simp add: wake_fiber_frame grows_wake_fiber)
next
  case (step_close c)
  then show ?thesis using silent_good [OF ok] close_ok [OF ok] grows_close by simp
next
  case (step_make c args ch)
  note N = new_channel [OF step_make(5)]
  have "flows s [] s'" by (rule flows_none) (use step_make N in \<open>simp add: cont_def put_channel_def\<close>)
  then show ?thesis using make_ok [OF ok step_make(4) N(1)] step_make grows_moves [OF ok, of s' "[]"] by (simp add: good_def)
next
  case (step_spawn f)
  note P = spawn_ok [OF ok step_spawn(3,4)]
  have "moves s [] s'" using P(3) by (auto simp: moves_def)
  then show ?thesis using P(1,2) step_spawn by (simp add: good_def flows_def cont_def)
next
  case (step_finish f "end" prev rc)
  have "sched_ok s (prev # st')" using ok step_finish by simp
  note P = finish_ok [OF this step_finish(3,4,5)]
  then show ?thesis using silent_good [OF ok P(1)] step_finish grows_finish by simp
qed

abbreviation reaches :: "event list \<Rightarrow> sched \<Rightarrow> fiber_id option list \<Rightarrow> bool" where
  "reaches es s st \<equiv> sched_run (ch_fiber_runtime_init, []) es (s, st)"

lemma run_good:
  "sched_run k es k' \<Longrightarrow> sched_ok (fst k) (snd k) \<Longrightarrow> good (fst k) es (fst k') (snd k')"
proof (induction rule: sched_run.induct)
  case (run_nil k)
  then show ?case by (simp add: good_def flows_def moves_def)
next
  case (run_step k es k' es' k'')
  then have g: "good (fst k) es (fst k') (snd k')" by blast
  then have "good (fst k') es' (fst k'') (snd k'')"
    using step_good [of "fst k'" "snd k'" es' "fst k''" "snd k''"] run_step.hyps(2) by (simp add: good_def)
  then show ?case using g flows_trans moves_trans by (simp add: good_def) blast
qed

lemma reaches_good: "reaches es s st \<Longrightarrow> good ch_fiber_runtime_init es s st"
  using run_good [of "(ch_fiber_runtime_init, [])"] sched_ok_init by fastforce

lemma run_from_reached:
  assumes "reaches es s st" "sched_run (s, st) es' (s', st')"
  shows "good s es' s' st'"
  using run_good [OF assms(2)] reaches_good [OF assms(1)] by (simp add: good_def)

lemma cont_init [simp]: "cont ch_fiber_runtime_init c = []" "ready_list ch_fiber_runtime_init = []"
  by (simp_all add: cont_def ch_fiber_runtime_init_def ready_list_def)

section \<open>Waking is noticed\<close>

lemma wake_fiber_state:
  "fibers s f = Some x \<Longrightarrow> \<exists>y. fibers (wake_fiber s g) f = Some y \<and>
     (f_state x = FIBER_READY \<or> f = g \<and> f_state x = FIBER_WAITING \<longrightarrow> f_state y = FIBER_READY) \<and>
     (f \<noteq> g \<longrightarrow> y = x)"
  by (auto simp: wake_fiber_def enqueue_ready_fiber_def put_fiber_def ready_push_def split: option.split)

lemma wake_waiters_ready: "fibers s f = Some x \<Longrightarrow> f_state x = FIBER_READY \<or> f \<in> set ws \<and> f_state x = FIBER_WAITING \<Longrightarrow>
    \<exists>y. fibers (wake_waiter_list s ws) f = Some y \<and> f_state y = FIBER_READY"
proof (induction ws arbitrary: s x)
  case (Cons g ws)
  obtain y where y: "fibers (wake_fiber s g) f = Some y"
      "f_state x = FIBER_READY \<or> f = g \<and> f_state x = FIBER_WAITING \<longrightarrow> f_state y = FIBER_READY" "f \<noteq> g \<longrightarrow> y = x"
    using wake_fiber_state [OF Cons.prems(1)] by blast
  then have "f_state y = FIBER_READY \<or> f \<in> set ws \<and> f_state y = FIBER_WAITING" using Cons.prems(2) by auto
  then show ?case using Cons.IH [OF y(1)] by (simp add: wake_waiter_list_def)
qed (simp add: wake_waiter_list_def)

lemma wake_fiber_dom: "dom (fibers (wake_fiber s f)) = dom (fibers s)"
  by (auto simp: wake_fiber_def enqueue_ready_fiber_def put_fiber_def ready_push_def split: option.split)

lemma wake_waiters_dom: "dom (fibers (wake_waiter_list s ws)) = dom (fibers s)"
  unfolding wake_waiter_list_def by (induction ws arbitrary: s) (simp_all add: wake_fiber_dom)

text \<open>A receiver that waits is queued by the send that it waits for.\<close>

lemma send_queues:
  assumes ok: "sched_ok s st" and few: "card (dom (fibers s)) \<le> CH_FIBER_READY_MAX"
    and x: "fibers s f = Some x" "f_state x = FIBER_WAITING" "f_park x = PARK_RECV" "f_waiting_on x = Some c"
    and a: "send_attempt s c v = (Sent, s1)"
  shows "Some f \<in> set (ready_list s1)"
proof -
  have "waits (channels s) f x" using sched_ok_butD(5) [OF ok x(1)] x(2) by (simp add: fiber_ok_def)
  then obtain ch where ch: "channels s c = Some ch" "f \<in> set (recv_waiters ch)" using x by (auto simp: waits_def)
  then have w: "\<not> must_wait ch" "s1 = channel_deliver s c ch v"
    using a by (auto simp: send_attempt_def Let_def split: option.splits if_splits)
  obtain ch' where s1: "s1 = wake_receivers s c ch'" "recv_waiters ch' = recv_waiters ch"
    unfolding w(2) channel_deliver_push [OF sched_ok_butD(7) [OF ok ch(1)] w(1)] by (auto simp: channel_grow_def)
  have dom: "dom (fibers s1) = dom (fibers s)" by (simp add: s1(1) wake_receivers_def wake_waiters_dom) (simp add: put_channel_def)
  obtain y where y: "fibers s1 f = Some y" "f_state y = FIBER_READY"
    unfolding s1(1) wake_receivers_def
    using wake_waiters_ready [of "put_channel s c (ch'\<lparr>recv_waiters := []\<rparr>)" f x "recv_waiters ch'"] x ch(2) s1(2)
    by (auto simp: put_channel_def)
  have "sched_ok s1 st" using deliver_ok(1) [OF ok ch(1) w(1)] w(2) by simp
  then have "fiber_ok s1 st f y" using sched_ok_butD(5) y(1) by blast
  then show ?thesis using y(2) few dom by (auto simp: fiber_ok_def)
qed

text \<open>What is in the queue leaves it in its turn.\<close>

lemma queue_turn:
  assumes m: "moves s es s'" and q: "n < ready_count s" "ready_list s ! n = Some f" and d: "n < length (deqs es)"
  shows "deqs es ! n = f"
proof -
  obtain ws where "ready_list s @ ws = map Some (deqs es) @ ready_list s'" using m by (auto simp: moves_def)
  then have "(ready_list s @ ws) ! n = (map Some (deqs es) @ ready_list s') ! n" by simp
  then show ?thesis using q d by (simp add: nth_append)
qed

end
