(* ===== verification/Chaaya_Fiber_Properties.thy ===== *)
theory Chaaya_Fiber_Properties
  imports Chaaya_Fiber_Runs
begin

text \<open>
  The properties of fibers and channels: the order of delivery, the bounds of the buffers, no fiber
  that waits is forgotten, what is woken runs in its turn, and where these promises end.
\<close>

section \<open>An example run\<close>

text \<open>A fiber that receives from an empty channel, and the main program that then sends to it.\<close>

lemma example_make: "reaches [] (put_channel ch_fiber_runtime_init 0 (ch_gc_make_channel 0 False)) []"
  using run_step [OF run_nil step_make [of ch_fiber_runtime_init 0 "[]"]]
  by (simp add: ch_fiber_runtime_init_def prim_make_channel_def)

lemma void_not_eof: "CH_VOID \<noteq> CH_EOF_OBJ"
  by (simp add: CH_VOID_def CH_EOF_OBJ_def CH_NANBOX_IMM_def)

lemma example_transfer: "\<exists>s. reaches [Put 0 CH_VOID, Got 0 CH_VOID] s []"
proof -
  define s0 where "s0 = put_channel ch_fiber_runtime_init 0 (ch_gc_make_channel 0 False)"
  have 1: "send_attempt s0 0 CH_VOID = (Sent, channel_deliver s0 0 (ch_gc_make_channel 0 False) CH_VOID)"
    by (simp add: send_attempt_def s0_def put_channel_def ch_gc_make_channel_def must_wait_def channel_can_send_def
        void_not_eof)
  define s1 where "s1 = channel_deliver s0 0 (ch_gc_make_channel 0 False) CH_VOID"
  have r1: "reaches [Put 0 CH_VOID] s1 []"
    using run_step [OF example_make step_send [OF 1 [unfolded s0_def]]] by (simp add: s1_def s0_def)
  have c1: "channels s1 0 = Some (channel_push (ch_gc_make_channel 0 False) CH_VOID)"
    by (simp add: s1_def s0_def channel_deliver_def Let_def ch_gc_make_channel_def wake_receivers_def wake_waiter_list_def
        put_channel_def channel_push_def)
  then have "\<exists>s2. recv_attempt s1 0 = (Received CH_VOID, s2)"
    by (simp add: recv_attempt_def channel_push_def channel_pop_def ch_gc_make_channel_def)
  then obtain s2 where "recv_attempt s1 0 = (Received CH_VOID, s2)" by blast
  from run_step [OF r1 step_recv [OF this c1]] show ?thesis by (auto simp: channel_push_def)
qed

definition example_parked :: sched where
  "example_parked = ch_fiber_runtime_init\<lparr>ready_head := 1,
     fibers := [0 \<mapsto> ch_gc_make_fiber\<lparr>f_snapshot := True, f_state := FIBER_WAITING, f_park := PARK_RECV, f_waiting_on := Some 0\<rparr>],
     channels := [0 \<mapsto> (ch_gc_make_channel 0 False)\<lparr>recv_waiters := [0]\<rparr>]\<rparr>"

lemma example_parked: "reaches [Dequeued 0] example_parked []"
proof -
  define s0 where "s0 = put_channel ch_fiber_runtime_init 0 (ch_gc_make_channel 0 False)"
  define s1 where "s1 = put_fiber (ready_push s0 (Some 0)) 0 (ch_gc_make_fiber\<lparr>f_queued := True\<rparr>)"
  define s2 where "s2 = s0\<lparr>ready_head := 1, fibers := [0 \<mapsto> ch_gc_make_fiber]\<rparr>"
  define s3 where "s3 = s2\<lparr>current := Some 0, fibers := [0 \<mapsto> ch_gc_make_fiber\<lparr>f_state := FIBER_RUNNING\<rparr>]\<rparr>"
  define s4 where "s4 = example_parked\<lparr>current := Some 0\<rparr>"
  note defs = s0_def s1_def s2_def s3_def s4_def example_parked_def
  have s0: "fibers s0 0 = None" "ready_count s0 = 0" by (simp_all add: s0_def put_channel_def ch_fiber_runtime_init_def)
  have "ch_fiber_spawn s0 0 = Inr s1"
    by (simp add: ch_fiber_spawn_def enqueue_ready_fiber_def s1_def put_fiber_def ready_push_def s0 CH_FIBER_READY_MAX_def
        ch_gc_make_fiber_def)
  then have r1: "reaches [] s1 []" using run_step [OF example_make step_spawn [OF s0(1) [unfolded s0_def]]] by (simp add: s0_def)
  have rs: "(replicate CH_FIBER_READY_MAX None)[0 := Some (0 :: nat), 0 := None] = replicate CH_FIBER_READY_MAX None"
    by (simp add: list_update_same_conv CH_FIBER_READY_MAX_def)
  have "dequeue_ready_fiber s1 = (Some 0, s2)"
    using rs by (simp add: defs dequeue_ready_fiber_def ready_pop_def ready_push_def put_fiber_def put_channel_def
        ch_fiber_runtime_init_def CH_FIBER_READY_MAX_def ch_gc_make_fiber_def)
  then have sel: "select_ready s1 = (Some 0, s2)"
    by (simp add: select_ready_def s2_def ch_gc_make_fiber_def)
  have c: "current s1 = None" "current s2 = None"
    by (simp_all add: defs put_fiber_def ready_push_def put_channel_def ch_fiber_runtime_init_def)
  have b: "begin_fiber s2 0 = (Fresh, s3)" "begin_events s2 0 = []"
    by (simp_all add: begin_fiber_def begin_events_def defs Let_def put_fiber_def ch_gc_make_fiber_def)
  have r2: "reaches [Dequeued 0] s3 [None]" using run_step [OF r1 step_begin [OF sel b(1)]] b(2) c by simp
  have a: "recv_attempt s3 0 = (Parked, s4)"
    by (simp add: recv_attempt_def defs put_channel_def ch_gc_make_channel_def add_waiter_def CH_CHANNEL_WAITER_MAX_def
        park_current_fiber_def put_fiber_def ch_fiber_runtime_init_def)
  have e: "finish_fiber s4 0 None VM_PARKED = (0, example_parked)"
    by (simp add: finish_fiber_def defs ch_fiber_runtime_init_def)
  show ?thesis using run_step [OF r2 step_recv_park [OF a _ e]] by (simp add: s3_def)
qed

section \<open>Order of delivery\<close>

text \<open>C35. A ring buffer of a channel is a queue: values pushed into it as long as there is room come out after the
  values that were there, in the order of the pushes and each exactly once, and growing the buffer changes nothing
  but makes room.\<close>

theorem channel_buffer_fifo:
  assumes "buf_ok ch" "length vs \<le> buffer_room ch"
  shows "(\<exists>ch'. pop_many channel_pop (ch_count ch + length vs) (foldl channel_push ch vs) = (contents ch @ vs, ch') \<and>
            contents ch' = []) \<and>
         contents (channel_grow ch) = contents ch \<and> 0 < buffer_room (channel_grow ch)"
proof -
  have "ch_count (channel_grow ch) = ch_count ch" by (simp add: channel_grow_def)
  then show ?thesis
    using channel_buffer.first_in_first_out [OF assms] channel_grow_spec [OF assms(1)] by (auto simp: buffer_room_def)
qed

theorem channel_buffer_fifo_witness:
  "\<exists>ch'. pop_many channel_pop 3 (foldl channel_push (ch_gc_make_channel 3 False) [CH_VOID, CH_TRUE, CH_NIL]) =
     ([CH_VOID, CH_TRUE, CH_NIL], ch') \<and> contents ch' = []"
proof -
  have "buf_ok (ch_gc_make_channel 3 False)" "buffer_room (ch_gc_make_channel 3 False) = 3"
    "ch_count (ch_gc_make_channel 3 False) = 0" "contents (ch_gc_make_channel 3 False) = []"
    by (simp_all add: ch_gc_make_channel_def buf_ok_def buffer_room_def contents_def)
  then show ?thesis
    using channel_buffer_fifo [of "ch_gc_make_channel 3 False" "[CH_VOID, CH_TRUE, CH_NIL]"]
    by (simp add: numeral_3_eq_3 del: foldl_Cons pop_many.simps)
qed



section \<open>What holds in every state\<close>

lemma reached_channel:
  assumes "reaches es s st" "channels s c = Some ch"
  shows "0 < capacity ch \<longrightarrow> ch_count ch \<le> capacity ch" "recv_waiters ch \<noteq> [] \<longrightarrow> contents ch = []"
    "send_waiters ch \<noteq> [] \<longrightarrow> rendezvous ch \<or> 0 < capacity ch \<and> ch_count ch = capacity ch"
    "closed ch \<longrightarrow> recv_waiters ch = [] \<and> send_waiters ch = []"
proof -
  have "chan_ok ch" using reaches_good [OF assms(1)] assms(2) by (auto simp: good_def dest: sched_ok_butD(7))
  then show "0 < capacity ch \<longrightarrow> ch_count ch \<le> capacity ch" "recv_waiters ch \<noteq> [] \<longrightarrow> contents ch = []"
    "send_waiters ch \<noteq> [] \<longrightarrow> rendezvous ch \<or> 0 < capacity ch \<and> ch_count ch = capacity ch"
    "closed ch \<longrightarrow> recv_waiters ch = [] \<and> send_waiters ch = []"
    by (auto simp: chan_ok_def buf_ok_def contents_Nil)
qed

text \<open>C33. In every state that the scheduler reaches, a buffered channel holds at most as many values as its
  capacity, receivers wait only on an empty channel, senders only on a full or rendezvous channel, and nobody waits
  on a closed channel.\<close>

theorem channel_bounds:
  assumes "reaches es s st" "channels s c = Some ch"
  shows "(0 < capacity ch \<longrightarrow> ch_count ch \<le> capacity ch) \<and> (recv_waiters ch \<noteq> [] \<longrightarrow> contents ch = []) \<and>
         (send_waiters ch \<noteq> [] \<longrightarrow> rendezvous ch \<or> 0 < capacity ch \<and> ch_count ch = capacity ch) \<and>
         (closed ch \<longrightarrow> recv_waiters ch = [] \<and> send_waiters ch = [])"
  using reached_channel [OF assms] by blast

theorem channel_bounds_witness:
  "contents ((ch_gc_make_channel 0 False)\<lparr>recv_waiters := [0]\<rparr>) = []"
  using channel_bounds [OF example_parked, of 0] by (simp add: example_parked_def)



section \<open>What is woken runs\<close>

text \<open>The scheduler serves the ready fibers in turn: with at least one in the queue, the next round takes the fiber
  at its head, and whatever happens from then on, the fiber at position \<open>n\<close> of the queue is the \<open>n\<close>-th to leave it.\<close>

theorem ready_fibers_in_turn:
  assumes "reaches es s st" "ready_list s = Some f # fs"
  shows "(\<exists>s'. ready_list s' = fs \<and> run_next_ready_fiber exec s = run_fiber_to_park_or_done exec s' f) \<and>
         (\<forall>es' s' st' n. sched_run (s, st) es' (s', st') \<longrightarrow> n < ready_count s \<longrightarrow> n < length (deqs es') \<longrightarrow>
            ready_list s ! n = Some (deqs es' ! n))"
proof -
  have ok: "sched_ok s st" using reaches_good [OF assms(1)] by (simp add: good_def)
  have n: "ready_count s \<noteq> 0" using assms(2) length_ready_list [of s] by simp
  obtain s0 where p: "ready_pop s = (Some f, s0)" using ready_pop_spec [OF sched_ok_butD(2) [OF ok] assms(2)] by blast
  obtain s1 where d: "dequeue_ready_fiber s = (Some f, s1)"
    using n p by (cases "fibers s0 f") (simp_all add: dequeue_ready_fiber_def)
  have "ready_list s1 = fs" using dequeue_ok [OF ok d] assms(2) by (metis list.inject)
  moreover have "select_ready s = (Some f, s1)" by (rule select_dequeues(2) [OF ok d])
  ultimately have "\<exists>s'. ready_list s' = fs \<and> run_next_ready_fiber exec s = run_fiber_to_park_or_done exec s' f"
    by (intro exI [of _ s1]) (simp add: run_next_ready_fiber_def)
  moreover have "ready_list s ! m = Some (deqs es' ! m)"
    if r: "sched_run (s, st) es' (s', st')" and m: "m < ready_count s" "m < length (deqs es')" for es' s' st' m
  proof -
    have "ready_list s ! m \<in> set (ready_list s)" using m(1) by simp
    then obtain g where g: "ready_list s ! m = Some g" using sched_ok_butD(4) [OF ok] by blast
    have "moves s es' s'" using run_from_reached [OF assms(1) r] by (simp add: good_def)
    then show ?thesis using queue_turn m g by simp
  qed
  ultimately show ?thesis by blast
qed


lemma example_send: "send_attempt example_parked 0 CH_VOID =
    (Sent, channel_deliver example_parked 0 ((ch_gc_make_channel 0 False)\<lparr>recv_waiters := [0]\<rparr>) CH_VOID)"
  by (simp add: send_attempt_def example_parked_def ch_gc_make_channel_def must_wait_def channel_can_send_def void_not_eof)


text \<open>The scheduler has one fiber in its queue after that send.\<close>

lemma example_ready:
  "reaches [Dequeued 0, Put 0 CH_VOID] (channel_deliver example_parked 0 ((ch_gc_make_channel 0 False)\<lparr>recv_waiters := [0]\<rparr>) CH_VOID) []"
  using run_step [OF example_parked step_send [OF example_send]] by simp

lemma example_ready_list:
  "ready_list (channel_deliver example_parked 0 ((ch_gc_make_channel 0 False)\<lparr>recv_waiters := [0]\<rparr>) CH_VOID) = [Some 0]"
  by (simp add: channel_deliver_def Let_def ch_gc_make_channel_def wake_receivers_def wake_waiter_list_def put_channel_def
      channel_push_def wake_fiber_def example_parked_def enqueue_ready_fiber_def put_fiber_def ready_push_def
      ready_list_def ring_list_def ch_fiber_runtime_init_def CH_FIBER_READY_MAX_def ch_gc_make_fiber_def)

theorem ready_fibers_in_turn_witness:
  "\<exists>s'. ready_list s' = [] \<and>
     run_next_ready_fiber (\<lambda>s f how. (VM_OK CH_VOID, s))
       (channel_deliver example_parked 0 ((ch_gc_make_channel 0 False)\<lparr>recv_waiters := [0]\<rparr>) CH_VOID) =
     run_fiber_to_park_or_done (\<lambda>s f how. (VM_OK CH_VOID, s)) s' 0"
  using ready_fibers_in_turn [OF example_ready example_ready_list] by blast

section \<open>Closed channels\<close>

primrec recv_many :: "nat \<Rightarrow> sched \<Rightarrow> channel_id \<Rightarrow> chvalue list" where
  "recv_many 0 s c = []"
| "recv_many (Suc n) s c = (case recv_attempt s c of (Received v, s') \<Rightarrow> v # recv_many n s' c | _ \<Rightarrow> [])"

lemma recv_many_eof:
  "channels s c = Some ch \<Longrightarrow> closed ch \<Longrightarrow> ch_count ch = 0 \<Longrightarrow> recv_many k s c = replicate k CH_EOF_OBJ"
  by (induction k) (simp_all add: recv_attempt_def)

lemma recv_many_closed:
  "sched_ok s st \<Longrightarrow> channels s c = Some ch \<Longrightarrow> closed ch \<Longrightarrow> contents ch = vs \<Longrightarrow>
   recv_many (length vs + k) s c = vs @ replicate k CH_EOF_OBJ"
proof (induction vs arbitrary: s ch)
  case Nil
  then show ?case using recv_many_eof by (simp add: contents_Nil)
next
  case (Cons v vs)
  have n: "0 < ch_count ch" using Cons.prems(4) length_contents [of ch] by simp
  obtain u ch' where p: "channel_pop ch = (u, ch')" by fastforce
  note P = pop_ok [OF Cons.prems(1,2) n p]
  let ?s = "wake_senders s c ch'"
  obtain ch'' where ch'': "channels ?s = (channels s)(c \<mapsto> ch'')" "contents ch = u # contents ch''" using P(2) by blast
  have "ch'' = ch'\<lparr>send_waiters := []\<rparr>"
    using fun_cong [OF ch''(1), of c] by (simp add: wake_senders_def wake_waiter_frame put_channel_def)
  then have "closed ch''" using Cons.prems(3) channel_pop_fields [OF p] by simp
  then have "recv_many (length vs + k) ?s c = vs @ replicate k CH_EOF_OBJ"
    using Cons.IH [OF P(1)] ch'' Cons.prems(4) by simp
  moreover have "recv_attempt s c = (Received v, ?s)"
    using n p ch''(2) Cons.prems(2,4) by (simp add: recv_attempt_def)
  ultimately show ?case by simp
qed

text \<open>C34. Closing a channel ends its stream without cutting it: receiving from a closed channel first yields every value
  that the channel still holds, in order, and then the end-of-file object as often as one asks, while a send on it
  fails and changes nothing.\<close>

theorem closed_channel_drains:
  assumes "reaches es s st" "channels s c = Some ch" "closed ch"
  shows "recv_many (ch_count ch + k) s c = contents ch @ replicate k CH_EOF_OBJ \<and>
         (\<exists>e. send_attempt s c v = (Failed e, s))"
proof -
  have "sched_ok s st" using reaches_good [OF assms(1)] by (simp add: good_def)
  then show ?thesis using recv_many_closed [of s st c ch "contents ch" k] assms(2,3) by (simp add: send_attempt_def)
qed

lemma example_closed:
  "\<exists>s. reaches [] s [] \<and> channels s 0 = Some ((ch_gc_make_channel 0 False)\<lparr>closed := True\<rparr>)"
proof -
  define s0 where "s0 = put_channel ch_fiber_runtime_init 0 (ch_gc_make_channel 0 False)"
  have "\<exists>s1. ch_channel_close s0 0 = Inr s1 \<and> channels s1 0 = Some ((ch_gc_make_channel 0 False)\<lparr>closed := True\<rparr>)"
    by (simp add: ch_channel_close_def s0_def put_channel_def ch_gc_make_channel_def Let_def wake_senders_def wake_receivers_def
        wake_waiter_list_def)
  then obtain s1 where s1: "ch_channel_close s0 0 = Inr s1" "channels s1 0 = Some ((ch_gc_make_channel 0 False)\<lparr>closed := True\<rparr>)"
    by blast
  show ?thesis
    by (rule exI [of _ s1]) (use run_step [OF example_make step_close [OF s1(1) [unfolded s0_def]]] s1(2) in simp)
qed

theorem closed_channel_drains_witness: "\<exists>s. recv_many 2 s 0 = [CH_EOF_OBJ, CH_EOF_OBJ]"
proof -
  obtain s where s: "reaches [] s []" "channels s 0 = Some ((ch_gc_make_channel 0 False)\<lparr>closed := True\<rparr>)"
    using example_closed by blast
  have "recv_many (0 + 2) s 0 = [] @ replicate 2 CH_EOF_OBJ"
    using closed_channel_drains [OF s, of 2] by (simp add: ch_gc_make_channel_def contents_def)
  then show ?thesis by (intro exI [of _ s]) (simp add: numeral_2_eq_2)
qed

section \<open>Where the promises end\<close>

text \<open>Two fibers, one that sends a value on channel 0 and one that receives from it.\<close>

definition transfer_exec :: "fiber_id \<Rightarrow> chvalue \<Rightarrow> sched \<Rightarrow> fiber_id \<Rightarrow> start \<Rightarrow> vm_status \<times> sched" where
  "transfer_exec sender v s f how =
     (case how of
        Fresh \<Rightarrow> (case if f = sender then send_attempt s 0 v else recv_attempt s 0 of
                    (Parked, s1) \<Rightarrow> (VM_PARKED, s1)
                  | (Sent, s1) \<Rightarrow> (VM_OK CH_VOID, s1)
                  | (Received u, s1) \<Rightarrow> (VM_OK u, s1)
                  | (_, s1) \<Rightarrow> (VM_ERROR, s1))
      | Resume u \<Rightarrow> (VM_OK u, s)
      | _ \<Rightarrow> (VM_ERROR, s))"

definition two_fibers :: "channel \<Rightarrow> sched result" where
  "two_fibers ch =
     (case ch_fiber_spawn (put_channel ch_fiber_runtime_init 0 ch) 0 of
        Inl e \<Rightarrow> Inl e
      | Inr s1 \<Rightarrow> ch_fiber_spawn s1 1)"

definition ending :: "channel \<Rightarrow> fiber_id \<Rightarrow> (int \<times> nat \<times> (fiber_state \<times> chvalue) option \<times> (fiber_state \<times> chvalue) option) option" where
  "ending ch sender =
     (case two_fibers ch of
        Inl e \<Rightarrow> None
      | Inr s \<Rightarrow> map_option (\<lambda>(rc, s'). (rc, ready_count s', map_option (\<lambda>x. (f_state x, f_result x)) (fibers s' 0),
                                       map_option (\<lambda>x. (f_state x, f_result x)) (fibers s' 1)))
                 (ch_fiber_drive (transfer_exec sender CH_TRUE) 0 s))"

lemmas run_simps = ending_def two_fibers_def ch_fiber_spawn_def enqueue_ready_fiber_def ready_push_def put_fiber_def put_channel_def
  ch_fiber_runtime_init_def ch_gc_make_fiber_def ch_gc_make_channel_def CH_FIBER_READY_MAX_def ch_fiber_drive.simps
  run_next_ready_fiber_def select_ready_def dequeue_ready_fiber_def ready_pop_def run_fiber_to_park_or_done_def begin_fiber_def
  transfer_exec_def send_attempt_def recv_attempt_def must_wait_def channel_can_send_def add_waiter_def CH_CHANNEL_WAITER_MAX_def
  park_current_fiber_def finish_fiber_def Let_def channel_deliver_def channel_push_def channel_pop_def wake_receivers_def
  wake_senders_def wake_waiter_list_def wake_fiber_def resume_receiver_def resume_sender_def

lemma true_not_eof: "CH_TRUE \<noteq> CH_EOF_OBJ" "CH_UNDEFINED \<noteq> CH_VOID"
  by (simp_all add: CH_TRUE_def CH_EOF_OBJ_def CH_UNDEFINED_def CH_VOID_def CH_NANBOX_IMM_def)

text \<open>Whether a transfer ends depends on who comes first. On a channel of capacity 0 made by \<open>(make-channel 0)\<close>,
  a fiber that sends before the other receives waits for ever: the receiver parks without waking the sender, the
  scheduler stops with both fibers waiting, and nothing was transferred. With the receiver first, or with a buffer of
  one place and either order, both fibers finish and the receiver has the value.\<close>

theorem rendezvous_needs_receiver_first:
  "ending (ch_gc_make_channel 0 True) 0 = Some (0, 0, Some (FIBER_WAITING, CH_UNDEFINED), Some (FIBER_WAITING, CH_UNDEFINED)) \<and>
   ending (ch_gc_make_channel 0 True) 1 = Some (0, 0, Some (FIBER_DONE, CH_TRUE), Some (FIBER_DONE, CH_VOID)) \<and>
   ending (ch_gc_make_channel 1 False) 0 = Some (0, 0, Some (FIBER_DONE, CH_VOID), Some (FIBER_DONE, CH_TRUE)) \<and>
   ending (ch_gc_make_channel 1 False) 1 = Some (0, 0, Some (FIBER_DONE, CH_TRUE), Some (FIBER_DONE, CH_VOID))"
  by (intro conjI) (simp_all add: run_simps true_not_eof)

text \<open>A fiber that is woken while the ready queue is full is lost: it is marked ready but not queued, so that the
  scheduler never runs it, and waking it again, now that it does not wait, does nothing.\<close>

theorem wake_into_full_queue_is_lost:
  assumes "CH_FIBER_READY_MAX \<le> ready_count s" "fibers s f = Some x" "f_state x = FIBER_WAITING" "\<not> f_queued x"
  shows "\<exists>y. fibers (wake_fiber s f) f = Some y \<and> f_state y = FIBER_READY \<and> \<not> f_queued y \<and>
     ready_list (wake_fiber s f) = ready_list s \<and>
     (\<forall>s'. fibers s' f = Some y \<longrightarrow> wake_fiber s' f = s')"
  using assms by (auto simp: wake_fiber_def enqueue_ready_fiber_def put_fiber_def ready_list_def)

theorem wake_into_full_queue_is_lost_witness:
  "\<exists>y. fibers (wake_fiber (example_parked\<lparr>ready_count := 256\<rparr>) 0) 0 = Some y \<and> f_state y = FIBER_READY \<and> \<not> f_queued y"
proof -
  have "CH_FIBER_READY_MAX \<le> ready_count (example_parked\<lparr>ready_count := 256\<rparr>)" by (simp add: CH_FIBER_READY_MAX_def)
  moreover have "fibers (example_parked\<lparr>ready_count := 256\<rparr>) 0 =
      Some (ch_gc_make_fiber\<lparr>f_snapshot := True, f_state := FIBER_WAITING, f_park := PARK_RECV, f_waiting_on := Some 0\<rparr>)"
    by (simp add: example_parked_def)
  ultimately show ?thesis
    using wake_into_full_queue_is_lost [of "example_parked\<lparr>ready_count := 256\<rparr>" 0] by (auto simp: ch_gc_make_fiber_def)
qed

text \<open>
  Fiber 0 yields, so that fiber 1 runs to its end on top of it, and then waits on a channel.
\<close>

definition finishing_exec :: "sched \<Rightarrow> fiber_id \<Rightarrow> start \<Rightarrow> vm_status \<times> sched" where
  "finishing_exec s f how = (VM_OK CH_TRUE, s)"

definition yielding_exec :: "sched \<Rightarrow> fiber_id \<Rightarrow> start \<Rightarrow> vm_status \<times> sched" where
  "yielding_exec s f how =
     (if f = 1 then finishing_exec s f how
      else case ch_fiber_yield finishing_exec s of (_, s1) \<Rightarrow>
        (case recv_attempt s1 0 of (Parked, s2) \<Rightarrow> (VM_PARKED, s2) | (_, s2) \<Rightarrow> (VM_ERROR, s2)))"

definition join_yielding :: "(chvalue result \<times> (fiber_state \<times> chvalue) option) option" where
  "join_yielding =
     (case two_fibers (ch_gc_make_channel 0 False) of
        Inl e \<Rightarrow> None
      | Inr s \<Rightarrow> map_option (\<lambda>(r, s'). (r, map_option (\<lambda>x. (f_state x, f_result x)) (fibers s' 1)))
                 (ch_fiber_join yielding_exec s 1))"

text \<open>Joining looks for a deadlock before it looks again at the fiber: when the fiber that the round ran has itself
  run the awaited fiber to its end (by a yield) and then parked, with nothing left to run, the join reports a deadlock
  although the fiber has ended and its result is there.\<close>

theorem join_reports_false_deadlock:
  "join_yielding = Some (Inl ''fiber-join: deadlock detected'', Some (FIBER_DONE, CH_TRUE))"
  by (simp add: run_simps join_yielding_def yielding_exec_def finishing_exec_def ch_fiber_yield_def ch_fiber_join.simps)

end
