(* ===== verification/Chaaya_Copy.thy ===== *)
theory Chaaya_Copy
  imports Chaaya_Hashtable
begin

text \<open>
  Copies between the heaps of two virtual machines: \<open>src/src/gc_deep_copy.c\<close>. An object is named by a
  number, in the order of allocation, and a value is a word that is no pointer or a reference to an
  object; one memory holds the objects of both heaps. The table of the objects that were visited
  is a map here; \<open>Chaaya_Copy_Visited\<close> has the table itself. Allocation does not fail.
\<close>

section \<open>Objects\<close>

datatype cvalue = Val chvalue | Ref nat

text \<open>The code of a function: instructions, arity, registers, rest argument, and where its upvalues come from.\<close>

type_synonym func_code = "u8 list \<times> u8 \<times> u8 \<times> u8 \<times> u8 list \<times> u8 list"

datatype cobject =
    CPair cvalue cvalue
  | CSymbol "u8 list" bool
  | CString "u8 list"
  | CVector "cvalue list"
  | CBytevector "u8 list"
  | CBignum limbs bool
  | CRational cvalue cvalue
  | CComplex u64 u64 bool bool
  | CFunction func_code "cvalue list"
  | CClosure cvalue nat "cvalue option list"
  | CNative nat nat int int
  | CValues "cvalue list"
  | CPromise bool bool cvalue
  | CParameter cvalue cvalue cvalue
  | CErrorObj cvalue cvalue u8
  | CHashtable hashtable_mode cvalue cvalue "(cvalue \<times> cvalue) option list" nat
  | CRecordType cvalue nat nat "nat option"
  | CRecord nat "cvalue list"
  | CTime u64 u32 cvalue
  | CRandomSource "u64 list"
  | CChannel "nat option" nat bool bool
  | CRefused string

type_synonym memory = "nat \<Rightarrow> cobject option"

record copy_state =
  memory :: memory
  next_addr :: nat
  visited :: "nat \<Rightarrow> cvalue option"
  symtab :: "nat list"

text \<open>An error, or the result and the state; nothing when the fuel does not suffice.\<close>

type_synonym 'a cresult = "(string + 'a \<times> copy_state) option"

definition new_object :: "copy_state \<Rightarrow> cobject \<Rightarrow> nat \<times> copy_state" where
  "new_object st ob = (next_addr st, st\<lparr>memory := (memory st)(next_addr st \<mapsto> ob), next_addr := next_addr st + 1\<rparr>)"

definition set_object :: "copy_state \<Rightarrow> nat \<Rightarrow> cobject \<Rightarrow> copy_state" where
  "set_object st d ob = st\<lparr>memory := (memory st)(d \<mapsto> ob)\<rparr>"

definition dc_visited_put :: "copy_state \<Rightarrow> nat \<Rightarrow> cvalue \<Rightarrow> copy_state" where
  "dc_visited_put st a v = st\<lparr>visited := (visited st)(a \<mapsto> v)\<rparr>"

fun find_symbol :: "memory \<Rightarrow> u8 list \<Rightarrow> nat list \<Rightarrow> nat option" where
  "find_symbol m name [] = None"
| "find_symbol m name (a # as) =
     (case m a of Some (CSymbol n i) \<Rightarrow> if n = name then Some a else find_symbol m name as | _ \<Rightarrow> find_symbol m name as)"

definition ch_gc_intern_symbol :: "copy_state \<Rightarrow> u8 list \<Rightarrow> cvalue \<times> copy_state" where
  "ch_gc_intern_symbol st name =
     (case find_symbol (memory st) name (symtab st) of
        Some a \<Rightarrow> (Ref a, st)
      | None \<Rightarrow> (case new_object st (CSymbol name True) of (a, st') \<Rightarrow> (Ref a, st'\<lparr>symtab := symtab st' @ [a]\<rparr>)))"

section \<open>Numbers\<close>

definition number_view :: "memory \<Rightarrow> cvalue \<Rightarrow> exnum" where
  "number_view m v =
     (case v of
        Val w \<Rightarrow> Imm w
      | Ref a \<Rightarrow> (case m a of Some (CBignum ls p) \<Rightarrow> Big ls p | _ \<Rightarrow> undef))"

text \<open>A number of the arithmetic as a value; a number that did not change keeps its object.\<close>

fun store_number :: "copy_state \<Rightarrow> cvalue \<Rightarrow> exnum \<Rightarrow> cvalue \<times> copy_state" where
  "store_number st old (Imm w) = (Val w, st)"
| "store_number st old (Big ls p) =
     (if number_view (memory st) old = Big ls p then (old, st)
      else case new_object st (CBignum ls p) of (a, st') \<Rightarrow> (Ref a, st'))"
| "store_number st old (Rat n d) =
     (case store_number st (Val CH_UNDEFINED) n of (n', st1) \<Rightarrow>
        (case store_number st1 (Val CH_UNDEFINED) d of (d', st2) \<Rightarrow>
           (case new_object st2 (CRational n' d') of (a, st3) \<Rightarrow> (Ref a, st3))))"

definition make_rational :: "copy_state \<Rightarrow> cvalue \<Rightarrow> cvalue \<Rightarrow> (cvalue \<times> copy_state) option" where
  "make_rational st num den =
     (case ch_make_rational (number_view (memory st) num) (number_view (memory st) den) of
        None \<Rightarrow> None
      | Some (Rat n d) \<Rightarrow>
          (case store_number st num n of (n', st1) \<Rightarrow>
             (case store_number st1 den d of (d', st2) \<Rightarrow>
                (case new_object st2 (CRational n' d') of (a, st3) \<Rightarrow> Some (Ref a, st3))))
      | Some e \<Rightarrow> Some (store_number st num e))"

definition make_complex_ex :: "copy_state \<Rightarrow> u64 \<Rightarrow> u64 \<Rightarrow> bool \<Rightarrow> bool \<Rightarrow> (cvalue \<times> copy_state) option" where
  "make_complex_ex st re im exact_real exact_imag =
     (if im = 0 \<and> exact_imag
      then if \<not> exact_real then Some (Val (ch_make_flonum re), st)
           else (case ch_exact_from_flonum re of
                   None \<Rightarrow> None
                 | Some e \<Rightarrow> Some (if e = undef then (Val (ch_make_flonum re), st) else store_number st (Val CH_UNDEFINED) e))
      else case new_object st (CComplex re im exact_real exact_imag) of (a, st') \<Rightarrow> Some (Ref a, st'))"

section \<open>The walk\<close>

definition cbind :: "'a cresult \<Rightarrow> ('a \<Rightarrow> copy_state \<Rightarrow> 'b cresult) \<Rightarrow> 'b cresult" where
  "cbind r f =
     (case r of None \<Rightarrow> None | Some (Inl e) \<Rightarrow> Some (Inl e) | Some (Inr (x, st)) \<Rightarrow> f x st)"

definition creturn :: "'a \<Rightarrow> copy_state \<Rightarrow> 'a cresult" where "creturn x st = Some (Inr (x, st))"

definition dc_reject :: "string \<Rightarrow> 'a cresult" where "dc_reject msg = Some (Inl msg)"

definition children_of_slots :: "(cvalue \<times> cvalue) option list \<Rightarrow> cvalue list" where
  "children_of_slots slots = concat (map (\<lambda>s. case s of None \<Rightarrow> [] | Some (k, v) \<Rightarrow> [k, v]) slots)"

fun fill_slots :: "(cvalue \<times> cvalue) option list \<Rightarrow> cvalue list \<Rightarrow> (cvalue \<times> cvalue) option list" where
  "fill_slots (Some kv # slots) (k # v # vs) = Some (k, v) # fill_slots slots vs"
| "fill_slots (None # slots) vs = None # fill_slots slots vs"
| "fill_slots slots vs = []"

definition make_object :: "copy_state \<Rightarrow> cobject \<Rightarrow> cvalue cresult" where
  "make_object st ob = (case new_object st ob of (d, st') \<Rightarrow> creturn (Ref d) st')"

definition copy_bignum :: "limbs \<Rightarrow> bool \<Rightarrow> cobject" where
  "copy_bignum ls p = (case make_bignum_from_limbs ls p of Big ls' p' \<Rightarrow> CBignum ls' p' | _ \<Rightarrow> CBignum [] True)"

definition number_result :: "(cvalue \<times> copy_state) option \<Rightarrow> cvalue cresult" where
  "number_result r =
     (case r of
        None \<Rightarrow> None
      | Some (w, st) \<Rightarrow> if w = Val CH_UNDEFINED then dc_reject ''deep-copy: rational copy failed'' else creturn w st)"

definition copy_slots :: "(cvalue \<times> cvalue) option list \<Rightarrow> cvalue list \<Rightarrow> (cvalue \<times> cvalue) option list" where
  "copy_slots slots ws = (if slots = [] then replicate 8 None else fill_slots slots ws)"

definition record_fields :: "memory \<Rightarrow> nat \<Rightarrow> nat" where
  "record_fields m p = (case m p of Some (CRecordType name n start parent) \<Rightarrow> n | _ \<Rightarrow> 0)"

definition CH_RECORD_MAX_FIELDS :: nat where "CH_RECORD_MAX_FIELDS = 64"

definition make_record_type :: "copy_state \<Rightarrow> cvalue list \<Rightarrow> nat \<Rightarrow> nat option \<Rightarrow> cvalue cresult" where
  "make_record_type st ws nf parent =
     (case (parent, ws) of
        (Some p, [name, Ref p']) \<Rightarrow>
          let own = (nf + 65536 - record_fields (memory st) p) mod 65536; pn = record_fields (memory st) p' in
          if CH_RECORD_MAX_FIELDS < pn + own then dc_reject ''deep-copy: record type allocation failed''
          else make_object st (CRecordType name (pn + own) pn (Some p'))
      | _ \<Rightarrow> make_object st (CRecordType (hd ws) nf 0 None))"

definition make_record :: "copy_state \<Rightarrow> cvalue list \<Rightarrow> cvalue cresult" where
  "make_record st ws = (case ws of Ref rt # flds \<Rightarrow> make_object st (CRecord rt flds) | _ \<Rightarrow> None)"

definition present :: "cvalue option list \<Rightarrow> cvalue list" where
  "present uvs = map the (takeWhile (\<lambda>u. u \<noteq> None) uvs)"

text \<open>
  What \<open>dc_copy_value\<close> does with an object, by its tag. With \<open>Before\<close> the copies of some values go into
  a new object, which is registered as the copy before the remaining values are copied, so that a
  cycle through them finds it. With \<open>After\<close> all values are copied first. A pair is registered too
  before its fields are copied.
\<close>

datatype plan =
    Spine cvalue cvalue
  | Intern "u8 list"
  | Before "cvalue list" "cvalue list \<Rightarrow> cobject" "cvalue list" "cvalue list \<Rightarrow> cvalue list \<Rightarrow> string + cobject"
  | After "cvalue list" "copy_state \<Rightarrow> cvalue list \<Rightarrow> cvalue cresult"
  | Reject string

text \<open>
  The parameter \<open>promote\<close> says for a channel that is not shared yet which shared channel it becomes,
  or why it cannot.
\<close>

fun copy_plan :: "(nat \<Rightarrow> string + nat) \<Rightarrow> nat \<Rightarrow> cobject \<Rightarrow> plan" where
  "copy_plan promote a (CPair x y) = Spine x y"
| "copy_plan promote a (CSymbol name interned) =
     (if interned then Intern name else After [] (\<lambda>st ws. make_object st (CSymbol name False)))"
| "copy_plan promote a (CString bs) = After [] (\<lambda>st ws. make_object st (CString bs))"
| "copy_plan promote a (CVector vs) =
     Before [] (\<lambda>us. CVector (replicate (length vs) (Val CH_UNDEFINED))) vs (\<lambda>us ws. Inr (CVector ws))"
| "copy_plan promote a (CBytevector bs) = After [] (\<lambda>st ws. make_object st (CBytevector bs))"
| "copy_plan promote a (CBignum ls p) = After [] (\<lambda>st ws. make_object st (copy_bignum ls p))"
| "copy_plan promote a (CRational num den) =
     After [num, den] (\<lambda>st ws. number_result (make_rational st (ws ! 0) (ws ! 1)))"
| "copy_plan promote a (CComplex re im er ei) = After [] (\<lambda>st ws. map_option Inr (make_complex_ex st re im er ei))"
| "copy_plan promote a (CFunction code consts) =
     Before [] (\<lambda>us. CFunction code (replicate (length consts) (Val 0))) consts (\<lambda>us ws. Inr (CFunction code ws))"
| "copy_plan promote a (CClosure fn home uvs) =
     Before [fn] (\<lambda>us. CClosure (us ! 0) home []) (present uvs)
       (\<lambda>us ws. if length ws < length uvs then Inl ''deep-copy: missing upvalue'' else Inr (CClosure (us ! 0) home (map Some ws)))"
| "copy_plan promote a (CNative f name arity min_arity) = After [] (\<lambda>st ws. make_object st (CNative f name arity min_arity))"
| "copy_plan promote a (CValues vs) = After vs (\<lambda>st ws. make_object st (CValues ws))"
| "copy_plan promote a (CPromise forced forcing v) =
     Before [] (\<lambda>us. CPromise forced False (Val CH_NIL)) [v] (\<lambda>us ws. Inr (CPromise forced False (ws ! 0)))"
| "copy_plan promote a (CParameter init converter v) =
     Before [init, converter] (\<lambda>us. CParameter (us ! 0) (us ! 1) (us ! 0)) [v]
       (\<lambda>us ws. Inr (CParameter (us ! 0) (us ! 1) (ws ! 0)))"
| "copy_plan promote a (CErrorObj message irritants t) =
     After [message, irritants] (\<lambda>st ws. make_object st (CErrorObj (ws ! 0) (ws ! 1) t))"
| "copy_plan promote a (CHashtable mode eqf hsf slots count) =
     Before [] (\<lambda>us. CHashtable mode (Val 0) (Val 0) (copy_slots (replicate (length slots) None) []) 0) (children_of_slots slots)
       (\<lambda>us ws. Inr (CHashtable mode (Val 0) (Val 0) (copy_slots slots ws) (length (filter (\<lambda>s. s \<noteq> None) slots))))"
| "copy_plan promote a (CRecordType name nf start parent) =
     After (name # map Ref (case parent of None \<Rightarrow> [] | Some p \<Rightarrow> [p])) (\<lambda>st ws. make_record_type st ws nf parent)"
| "copy_plan promote a (CRecord rtype flds) = After (Ref rtype # flds) make_record"
| "copy_plan promote a (CTime s ns type_sym) = After [type_sym] (\<lambda>st ws. make_object st (CTime s ns (ws ! 0)))"
| "copy_plan promote a (CRandomSource s) = After [] (\<lambda>st ws. make_object st (CRandomSource s))"
| "copy_plan promote a (CChannel shared capacity rendezvous clsd) =
     (case (case shared of Some sc \<Rightarrow> Inr sc | None \<Rightarrow> promote a) of
        Inl e \<Rightarrow> Reject e
      | Inr sc \<Rightarrow> After [] (\<lambda>st ws. make_object st (CChannel (Some sc) capacity rendezvous clsd)))"
| "copy_plan promote a (CRefused what) = Reject what"

text \<open>
  The walk. The last function is the loop of \<open>dc_copy_pair\<close> over the pairs along the \<open>cdr\<close>s, with the
  new pair for the pair in hand. The fuel bounds the calls and rounds that are nested.
\<close>

fun dc_copy_value :: "(nat \<Rightarrow> string + nat) \<Rightarrow> nat \<Rightarrow> copy_state \<Rightarrow> cvalue \<Rightarrow> cvalue cresult"
and copy_values :: "(nat \<Rightarrow> string + nat) \<Rightarrow> nat \<Rightarrow> copy_state \<Rightarrow> cvalue list \<Rightarrow> cvalue list cresult"
and copy_spine :: "(nat \<Rightarrow> string + nat) \<Rightarrow> nat \<Rightarrow> copy_state \<Rightarrow> cvalue \<Rightarrow> cvalue \<Rightarrow> nat \<Rightarrow> unit cresult" where
  "dc_copy_value promote 0 st v = None"
| "dc_copy_value promote (Suc n) st v =
     (case v of
        Val w \<Rightarrow> creturn v st
      | Ref a \<Rightarrow>
          (case visited st a of
             Some w \<Rightarrow> creturn w st
           | None \<Rightarrow>
               (case map_option (copy_plan promote a) (memory st a) of
                  None \<Rightarrow> None
                | Some (Spine x y) \<Rightarrow>
                    (case new_object st (CPair (Val CH_NIL) (Val CH_NIL)) of
                       (d, st1) \<Rightarrow> cbind (copy_spine promote n (dc_visited_put st1 a (Ref d)) x y d) (\<lambda>_. creturn (Ref d)))
                | Some (Intern name) \<Rightarrow> (case ch_gc_intern_symbol st name of (w, st1) \<Rightarrow> creturn w st1)
                | Some (Before us shell vs mk) \<Rightarrow>
                    cbind (copy_values promote n st us) (\<lambda>us' st1.
                      case new_object st1 (shell us') of
                        (d, st2) \<Rightarrow> cbind (copy_values promote n (dc_visited_put st2 a (Ref d)) vs) (\<lambda>ws st3.
                          case mk us' ws of Inl e \<Rightarrow> dc_reject e | Inr ob \<Rightarrow> creturn (Ref d) (set_object st3 d ob)))
                | Some (After vs mk) \<Rightarrow>
                    cbind (copy_values promote n st vs) (\<lambda>ws st1. cbind (mk st1 ws) (\<lambda>w st2. creturn w (dc_visited_put st2 a w)))
                | Some (Reject msg) \<Rightarrow> dc_reject msg)))"
| "copy_values promote n st [] = creturn [] st"
| "copy_values promote 0 st (v # vs) = None"
| "copy_values promote (Suc n) st (v # vs) =
     cbind (dc_copy_value promote n st v) (\<lambda>w st1. cbind (copy_values promote n st1 vs) (\<lambda>ws. creturn (w # ws)))"
| "copy_spine promote 0 st x y d = None"
| "copy_spine promote (Suc n) st x y d =
     cbind (dc_copy_value promote n st x) (\<lambda>x' st1.
       case y of
         Val w \<Rightarrow> creturn () (set_object st1 d (CPair x' y))
       | Ref b \<Rightarrow>
           (case memory st1 b of
              Some (CPair x2 y2) \<Rightarrow>
                (case visited st1 b of
                   Some w \<Rightarrow> creturn () (set_object st1 d (CPair x' w))
                 | None \<Rightarrow>
                     (case new_object st1 (CPair (Val CH_NIL) (Val CH_NIL)) of
                        (d2, st2) \<Rightarrow>
                          copy_spine promote n (set_object (dc_visited_put st2 b (Ref d2)) d (CPair x' (Ref d2))) x2 y2 d2))
            | _ \<Rightarrow> cbind (dc_copy_value promote n st1 y) (\<lambda>y' st2. creturn () (set_object st2 d (CPair x' y')))))"

definition ch_gc_deep_copy :: "(nat \<Rightarrow> string + nat) \<Rightarrow> nat \<Rightarrow> copy_state \<Rightarrow> cvalue \<Rightarrow> cvalue cresult" where
  "ch_gc_deep_copy promote n st v = dc_copy_value promote n (st\<lparr>visited := Map.empty\<rparr>) v"

end
