(* ===== verification/Chaaya_Copy_Image.thy ===== *)
theory Chaaya_Copy_Image
  imports Chaaya_Copy
begin

text \<open>
  What a deep copy is: an image of the source object graph in new objects, with the source left as it
  is. Every new object has an origin, whose content it has, and its references are images of those of
  its origin.
\<close>

section \<open>References and images\<close>

fun refs :: "cobject \<Rightarrow> cvalue list" where
  "refs (CPair x y) = [x, y]"
| "refs (CVector vs) = vs"
| "refs (CRational num den) = [num, den]"
| "refs (CFunction code consts) = consts"
| "refs (CClosure fn home uvs) = fn # map the uvs"
| "refs (CValues vs) = vs"
| "refs (CPromise forced forcing v) = [v]"
| "refs (CParameter init converter v) = [init, converter, v]"
| "refs (CErrorObj message irritants t) = [message, irritants]"
| "refs (CHashtable mode eqf hsf slots count) = children_of_slots slots"
| "refs (CRecordType name nf start parent) = name # map Ref (case parent of None \<Rightarrow> [] | Some p \<Rightarrow> [p])"
| "refs (CRecord rtype flds) = Ref rtype # flds"
| "refs (CTime s ns type_sym) = [type_sym]"
| "refs ob = []"

definition ref_of :: "cvalue \<Rightarrow> nat" where
  "ref_of v = (case v of Ref a \<Rightarrow> a | Val w \<Rightarrow> 0)"

text \<open>
  The object with other references. A copy differs from its origin in nothing else, but for a promise
  that is being forced, the procedures and the count of a hash table, and the channel that a local
  channel turns into.
\<close>

fun image_of :: "(nat \<Rightarrow> string + nat) \<Rightarrow> nat \<Rightarrow> cobject \<Rightarrow> cvalue list \<Rightarrow> cobject" where
  "image_of promote a (CPair x y) ws = CPair (ws ! 0) (ws ! 1)"
| "image_of promote a (CVector vs) ws = CVector ws"
| "image_of promote a (CRational num den) ws = CRational (ws ! 0) (ws ! 1)"
| "image_of promote a (CFunction code consts) ws = CFunction code ws"
| "image_of promote a (CClosure fn home uvs) ws = CClosure (ws ! 0) home (map Some (tl ws))"
| "image_of promote a (CValues vs) ws = CValues ws"
| "image_of promote a (CPromise forced forcing v) ws = CPromise forced False (ws ! 0)"
| "image_of promote a (CParameter init converter v) ws = CParameter (ws ! 0) (ws ! 1) (ws ! 2)"
| "image_of promote a (CErrorObj message irritants t) ws = CErrorObj (ws ! 0) (ws ! 1) t"
| "image_of promote a (CHashtable mode eqf hsf slots count) ws =
     CHashtable mode (Val 0) (Val 0) (fill_slots slots ws) (length (filter (\<lambda>s. s \<noteq> None) slots))"
| "image_of promote a (CRecordType name nf start parent) ws =
     CRecordType (ws ! 0) nf start (map_option (\<lambda>p. ref_of (ws ! 1)) parent)"
| "image_of promote a (CRecord rtype flds) ws = CRecord (ref_of (ws ! 0)) (tl ws)"
| "image_of promote a (CTime s ns type_sym) ws = CTime s ns (ws ! 0)"
| "image_of promote a (CChannel shared capacity rendezvous clsd) ws =
     CChannel (Some (case shared of Some sc \<Rightarrow> sc | None \<Rightarrow> projr (promote a))) capacity rendezvous clsd"
| "image_of promote a ob ws = ob"

text \<open>The objects that are copied: what the rest of the program makes sure of.\<close>

fun healthy :: "(nat \<Rightarrow> string + nat) \<Rightarrow> memory \<Rightarrow> nat \<Rightarrow> cobject \<Rightarrow> bool" where
  "healthy promote m a (CBignum ls p) \<longleftrightarrow> make_bignum_from_limbs ls p = Big ls p"
| "healthy promote m a (CRational num den) \<longleftrightarrow>
     ch_make_rational (number_view m num) (number_view m den) = Some (Rat (number_view m num) (number_view m den)) \<and>
     is_exact_integer (number_view m num) \<and> is_exact_integer (number_view m den)"
| "healthy promote m a (CComplex re im er ei) \<longleftrightarrow> \<not> (im = 0 \<and> ei)"
| "healthy promote m a (CClosure fn home uvs) \<longleftrightarrow> None \<notin> set uvs"
| "healthy promote m a (CHashtable mode eqf hsf slots count) \<longleftrightarrow> slots \<noteq> []"
| "healthy promote m a (CRecordType name nf start parent) \<longleftrightarrow>
     (case parent of
        None \<Rightarrow> start = 0
      | Some p \<Rightarrow> (\<exists>name' start' parent'. m p = Some (CRecordType name' start start' parent')) \<and>
          start \<le> nf \<and> nf \<le> CH_RECORD_MAX_FIELDS)"
| "healthy promote m a (CChannel shared capacity rendezvous clsd) \<longleftrightarrow> shared \<noteq> None \<or> (\<exists>sc. promote a = Inr sc)"
| "healthy promote m a (CRefused what) \<longleftrightarrow> False"
| "healthy promote m a ob \<longleftrightarrow> True"

fun registered_first :: "cobject \<Rightarrow> bool" where
  "registered_first (CPair x y) \<longleftrightarrow> True"
| "registered_first (CVector vs) \<longleftrightarrow> True"
| "registered_first (CFunction code consts) \<longleftrightarrow> True"
| "registered_first (CClosure fn home uvs) \<longleftrightarrow> True"
| "registered_first (CPromise forced forcing v) \<longleftrightarrow> True"
| "registered_first (CParameter init converter v) \<longleftrightarrow> True"
| "registered_first (CHashtable mode eqf hsf slots count) \<longleftrightarrow> True"
| "registered_first ob \<longleftrightarrow> False"

definition source_ok :: "(nat \<Rightarrow> string + nat) \<Rightarrow> memory \<Rightarrow> nat set \<Rightarrow> bool" where
  "source_ok promote m S \<longleftrightarrow>
     (\<forall>a \<in> S. \<exists>ob. m a = Some ob \<and> healthy promote m a ob \<and> (\<forall>b. Ref b \<in> set (refs ob) \<longrightarrow> b \<in> S))"

text \<open>A value and its image: the same word, the copy of the object, or the interned symbol of that name.\<close>

definition related :: "memory \<Rightarrow> (nat \<Rightarrow> nat option) \<Rightarrow> copy_state \<Rightarrow> cvalue \<Rightarrow> cvalue \<Rightarrow> bool" where
  "related m \<psi> st v w \<longleftrightarrow>
     (case (v, w) of
        (Val x, Val y) \<Rightarrow> x = y
      | (Ref a, Ref d) \<Rightarrow> \<psi> d = Some a \<or>
          (\<exists>name. d \<in> set (symtab st) \<and> m a = Some (CSymbol name True) \<and> memory st d = Some (CSymbol name True))
      | _ \<Rightarrow> False)"

definition copies :: "bool \<Rightarrow> (nat \<Rightarrow> string + nat) \<Rightarrow> memory \<Rightarrow> nat set \<Rightarrow> nat \<Rightarrow> (nat \<Rightarrow> nat option) \<Rightarrow> nat set \<Rightarrow> copy_state \<Rightarrow> bool" where
  "copies share promote m S k \<psi> G st \<longleftrightarrow>
     k \<le> next_addr st \<and> (\<forall>a < k. memory st a = m a) \<and>
     (\<forall>d a. \<psi> d = Some a \<longrightarrow> k \<le> d \<and> d < next_addr st \<and> a \<in> S) \<and>
     (\<forall>a w. visited st a = Some w \<longrightarrow> (\<exists>d. w = Ref d \<and> \<psi> d = Some a)) \<and>
     (\<forall>d a. \<psi> d = Some a \<longrightarrow> d \<notin> G \<longrightarrow>
        (\<exists>ob ws. m a = Some ob \<and> list_all2 (related m \<psi> st) (refs ob) ws \<and> memory st d = Some (image_of promote a ob ws))) \<and>
     (\<forall>d \<in> G. \<exists>a ob. \<psi> d = Some a \<and> m a = Some ob \<and> registered_first ob) \<and>
     (\<forall>d \<in> set (symtab st). \<psi> d = None \<and> d < next_addr st \<and> (\<exists>name. memory st d = Some (CSymbol name True))) \<and>
     (share \<longrightarrow> (\<forall>d a. \<psi> d = Some a \<longrightarrow> visited st a = Some (Ref d)))"

definition grown :: "(nat \<Rightarrow> nat option) \<Rightarrow> copy_state \<Rightarrow> (nat \<Rightarrow> nat option) \<Rightarrow> copy_state \<Rightarrow> bool" where
  "grown \<psi> st \<psi>' st' \<longleftrightarrow>
     (\<forall>d a. \<psi> d = Some a \<longrightarrow> \<psi>' d = Some a) \<and> set (symtab st) \<subseteq> set (symtab st') \<and> (\<forall>d \<in> set (symtab st). memory st' d = memory st d) \<and>
     next_addr st \<le> next_addr st' \<and> (\<forall>a. visited st' a = None \<longrightarrow> visited st a = None)"

lemma copiesD:
  assumes "copies share promote m S k \<psi> G st"
  shows "k \<le> next_addr st" "a < k \<Longrightarrow> memory st a = m a"
    "\<psi> d = Some a \<Longrightarrow> k \<le> d" "\<psi> d = Some a \<Longrightarrow> d < next_addr st" "\<psi> d = Some a \<Longrightarrow> a \<in> S"
    "visited st a = Some w \<Longrightarrow> \<exists>d. w = Ref d \<and> \<psi> d = Some a"
    "\<psi> d = Some a \<Longrightarrow> d \<notin> G \<Longrightarrow> \<exists>ob ws. m a = Some ob \<and> list_all2 (related m \<psi> st) (refs ob) ws \<and> memory st d = Some (image_of promote a ob ws)"
    "d \<in> G \<Longrightarrow> \<exists>a ob. \<psi> d = Some a \<and> m a = Some ob \<and> registered_first ob"
    "d \<in> set (symtab st) \<Longrightarrow> \<psi> d = None" "d \<in> set (symtab st) \<Longrightarrow> d < next_addr st"
    "d \<in> set (symtab st) \<Longrightarrow> \<exists>name. memory st d = Some (CSymbol name True)"
    "share \<Longrightarrow> \<psi> d = Some a \<Longrightarrow> visited st a = Some (Ref d)"
  using assms unfolding copies_def by blast+

lemma grown_refl [simp]: "grown \<psi> st \<psi> st"
  by (simp add: grown_def)

lemma grown_trans: "grown \<psi> st \<psi>' st' \<Longrightarrow> grown \<psi>' st' \<psi>'' st'' \<Longrightarrow> grown \<psi> st \<psi>'' st''"
  unfolding grown_def by (auto dest: subsetD)

lemma related_mono: "grown \<psi> st \<psi>' st' \<Longrightarrow> related m \<psi> st v w \<Longrightarrow> related m \<psi>' st' v w"
  unfolding grown_def related_def by (auto split: cvalue.splits dest: subsetD)

lemma related_list_mono: "grown \<psi> st \<psi>' st' \<Longrightarrow> list_all2 (related m \<psi> st) vs ws \<Longrightarrow> list_all2 (related m \<psi>' st') vs ws"
  by (erule list_all2_mono) (erule related_mono)


section \<open>The steps of a copy\<close>

text \<open>One more object with an origin, finished or not.\<close>

lemma copies_add:
  fixes ob' :: cobject
  assumes c: "copies share promote m S k \<psi> G st" and a: "a \<in> S" "m a = Some ob"
    and new: "share \<Longrightarrow> visited st a = None"
  defines "d \<equiv> next_addr st"
  defines "st' \<equiv> dc_visited_put (snd (new_object st ob')) a (Ref d)"
  assumes G': "G' = insert d G \<and> registered_first ob \<or>
      G' = G \<and> (\<exists>ws. list_all2 (related m \<psi> st) (refs ob) ws \<and> ob' = image_of promote a ob ws)"
  shows "copies share promote m S k (\<psi>(d \<mapsto> a)) G' st'" and "grown \<psi> st (\<psi>(d \<mapsto> a)) st'" and "\<psi> d = None"
proof -
  note K = copiesD [OF c]
  have st': "memory st' = (memory st)(d \<mapsto> ob')" "next_addr st' = d + 1" "visited st' = (visited st)(a \<mapsto> Ref d)" "symtab st' = symtab st"
    by (simp_all add: st'_def d_def new_object_def dc_visited_put_def)
  show n: "\<psi> d = None" using K(4) [of d] by (cases "\<psi> d") (auto simp: d_def)
  show g: "grown \<psi> st (\<psi>(d \<mapsto> a)) st'"
    using n K(10) by (auto simp: grown_def st' d_def)
  have old: "\<exists>ob ws. m b = Some ob \<and> list_all2 (related m (\<psi>(d \<mapsto> a)) st') (refs ob) ws \<and> memory st' e = Some (image_of promote b ob ws)"
    if "\<psi> e = Some b" "e \<notin> G" for e b
  proof -
    have "e < d" using K(4) that(1) by (simp add: d_def)
    then show ?thesis using K(7) [OF that] related_list_mono [OF g] by (fastforce simp: st')
  qed
  have newfin: "\<exists>ob ws. m a = Some ob \<and> list_all2 (related m (\<psi>(d \<mapsto> a)) st') (refs ob) ws \<and> memory st' d = Some (image_of promote a ob ws)"
    if "d \<notin> G'"
    using G' that a(2) related_list_mono [OF g] by (auto simp: st')
  have grey: "\<exists>a' ob. (\<psi>(d \<mapsto> a)) e = Some a' \<and> m a' = Some ob \<and> registered_first ob" if "e \<in> G'" for e
    using G' that a(2) K(8) [of e] n by auto
  have vis: "\<exists>e. w = Ref e \<and> (\<psi>(d \<mapsto> a)) e = Some b" if v: "visited st' b = Some w" for b w
  proof (cases "b = a")
    case False
    then obtain e where "w = Ref e" "\<psi> e = Some b" using K(6) v by (auto simp: st')
    then show ?thesis using n by auto
  qed (use v in \<open>auto simp: st'\<close>)
  have fin: "\<exists>ob ws. m b = Some ob \<and> list_all2 (related m (\<psi>(d \<mapsto> a)) st') (refs ob) ws \<and> memory st' e = Some (image_of promote b ob ws)"
    if e: "(\<psi>(d \<mapsto> a)) e = Some b" "e \<notin> G'" for e b
  proof (cases "e = d")
    case True
    then show ?thesis using newfin e by simp
  next
    case False
    then show ?thesis using old [of e b] e G' by auto
  qed
  have kd: "k \<le> d" using K(1) by (simp add: d_def)
  have src: "k \<le> e \<and> e < next_addr st' \<and> b \<in> S" if "(\<psi>(d \<mapsto> a)) e = Some b" for e b
    using that K(3,4,5) [of e b] kd a(1) by (auto simp: st' d_def split: if_splits)
  have mem: "memory st' b = m b" if "b < k" for b using K(2) that kd by (simp add: st')
  have sym: "(\<psi>(d \<mapsto> a)) e = None \<and> e < next_addr st' \<and> (\<exists>name. memory st' e = Some (CSymbol name True))" if "e \<in> set (symtab st')" for e
  proof -
    have "e \<noteq> d" using K(10) that by (auto simp: d_def st')
    then show ?thesis using K(9-11) [of e] that by (auto simp: st' d_def)
  qed
  have shr: "visited st' b = Some (Ref e)" if e: "(\<psi>(d \<mapsto> a)) e = Some b" "share" for e b
  proof (cases "e = d")
    case False
    then have v: "visited st b = Some (Ref e)" using K(12) [of e b] e by simp
    then have "b \<noteq> a" using new e(2) by auto
    then show ?thesis using v by (simp add: st')
  qed (use e in \<open>auto simp: st'\<close>)
  have "k \<le> next_addr st'" using kd by (simp add: st')
  then show "copies share promote m S k (\<psi>(d \<mapsto> a)) G' st'"
    unfolding copies_def using src mem vis fin grey sym shr by blast
qed


text \<open>A registered object gets its content.\<close>

lemma copies_fill:
  assumes c: "copies share promote m S k \<psi> (insert d G) st" and d: "d \<notin> G" "\<psi> d = Some a" "m a = Some ob"
    and ws: "list_all2 (related m \<psi> st) (refs ob) ws"
  defines "st' \<equiv> set_object st d (image_of promote a ob ws)"
  shows "copies share promote m S k \<psi> G st'" and "grown \<psi> st \<psi> st'"
proof -
  note K = copiesD [OF c]
  have st': "memory st' = (memory st)(d \<mapsto> image_of promote a ob ws)" "next_addr st' = next_addr st" "visited st' = visited st" "symtab st' = symtab st"
    by (simp_all add: st'_def set_object_def)
  have ns: "d \<notin> set (symtab st)" using K(9) d(2) by auto
  show g: "grown \<psi> st \<psi> st'" using ns by (auto simp: grown_def st')
  have fin: "\<exists>ob ws. m b = Some ob \<and> list_all2 (related m \<psi> st') (refs ob) ws \<and> memory st' e = Some (image_of promote b ob ws)"
    if e: "\<psi> e = Some b" "e \<notin> G" for e b
  proof (cases "e = d")
    case True
    then show ?thesis using e d related_list_mono [OF g ws] by (auto simp: st')
  next
    case False
    then show ?thesis using K(7) [of e b] e related_list_mono [OF g] by (fastforce simp: st')
  qed
  have mem: "memory st' b = m b" if "b < k" for b using K(2) K(3) [OF d(2)] that by (simp add: st')
  have "k \<le> next_addr st'" "\<And>e b. \<psi> e = Some b \<Longrightarrow> k \<le> e \<and> e < next_addr st' \<and> b \<in> S" using K(1,3,4,5) by (simp_all add: st')
  moreover have "\<And>b w. visited st' b = Some w \<Longrightarrow> \<exists>e. w = Ref e \<and> \<psi> e = Some b" using K(6) by (simp add: st')
  moreover have "\<And>e. e \<in> G \<Longrightarrow> \<exists>a' ob. \<psi> e = Some a' \<and> m a' = Some ob \<and> registered_first ob" using K(8) by simp
  moreover have "\<psi> e = None \<and> e < next_addr st' \<and> (\<exists>name. memory st' e = Some (CSymbol name True))" if "e \<in> set (symtab st')" for e
    using K(9-11) [of e] that ns by (auto simp: st')
  ultimately show "copies share promote m S k \<psi> G st'"
    unfolding copies_def using fin mem K(12) st'(3) by auto
qed

lemma find_symbol_Some: "find_symbol m name as = Some a \<Longrightarrow> a \<in> set as \<and> (\<exists>i. m a = Some (CSymbol name i))"
  by (induction m name as rule: find_symbol.induct) (auto split: option.splits cobject.splits if_splits)

lemma copies_intern:
  assumes c: "copies share promote m S k \<psi> G st" and a: "m a = Some (CSymbol name True)" and i: "ch_gc_intern_symbol st name = (w, st')"
  shows "copies share promote m S k \<psi> G st'" and "grown \<psi> st \<psi> st'" and "related m \<psi> st' (Ref a) w" and "visited st' = visited st"
proof -
  note K = copiesD [OF c]
  have "copies share promote m S k \<psi> G st' \<and> grown \<psi> st \<psi> st' \<and> related m \<psi> st' (Ref a) w \<and> visited st' = visited st"
  proof (cases "find_symbol (memory st) name (symtab st)")
    case (Some d)
    then have st': "st' = st" "w = Ref d" using i by (simp_all add: ch_gc_intern_symbol_def)
    obtain j where "d \<in> set (symtab st)" "memory st d = Some (CSymbol name j)" using find_symbol_Some [OF Some] by blast
    then have "related m \<psi> st (Ref a) w" using K(11) [of d] a st' by (auto simp: related_def)
    then show ?thesis using c st' by simp
  next
    case None
    define d where "d = next_addr st"
    have st': "memory st' = (memory st)(d \<mapsto> CSymbol name True)" "next_addr st' = d + 1" "visited st' = visited st"
        "symtab st' = symtab st @ [d]" and w: "w = Ref d"
      using i None by (auto simp: ch_gc_intern_symbol_def new_object_def d_def)
    have n: "\<psi> d = None" using K(4) [of d] by (cases "\<psi> d") (auto simp: d_def)
    have ns: "d \<notin> set (symtab st)" using K(10) by (auto simp: d_def)
    have g: "grown \<psi> st \<psi> st'" using ns by (auto simp: grown_def st' d_def)
    have fin: "\<exists>ob ws. m b = Some ob \<and> list_all2 (related m \<psi> st') (refs ob) ws \<and> memory st' e = Some (image_of promote b ob ws)"
      if e: "\<psi> e = Some b" "e \<notin> G" for e b
    proof -
      have "e \<noteq> d" using e n by auto
      then show ?thesis using K(7) [of e b] e related_list_mono [OF g] by (fastforce simp: st')
    qed
    have mem: "memory st' b = m b" if "b < k" for b using K(2) K(1) that by (simp add: st' d_def)
    have "k \<le> next_addr st'" "\<And>e b. \<psi> e = Some b \<Longrightarrow> k \<le> e \<and> e < next_addr st' \<and> b \<in> S"
      using K(1,3,4,5) by (auto simp: st' d_def less_Suc_eq)
    moreover have "\<And>b w. visited st' b = Some w \<Longrightarrow> \<exists>e. w = Ref e \<and> \<psi> e = Some b" using K(6) by (simp add: st')
    moreover have "\<psi> e = None \<and> e < next_addr st' \<and> (\<exists>name. memory st' e = Some (CSymbol name True))" if "e \<in> set (symtab st')" for e
      using K(9-11) [of e] that ns n by (auto simp: st' d_def)
    ultimately have "copies share promote m S k \<psi> G st'" unfolding copies_def using fin mem K(8,12) st'(3) by auto
    then show ?thesis using g a w by (auto simp: related_def st')
  qed
  then show "copies share promote m S k \<psi> G st'" "grown \<psi> st \<psi> st'" "related m \<psi> st' (Ref a) w" "visited st' = visited st" by auto
qed

section \<open>The plans\<close>

lemma present_all: "None \<notin> set uvs \<Longrightarrow> present uvs = map the uvs"
  by (induction uvs) (auto simp: present_def neq_commute)

lemma plan_spine: "copy_plan promote a ob = Spine x y \<Longrightarrow> ob = CPair x y"
  by (cases ob) (auto split: if_splits sum.splits option.splits)

lemma plan_intern: "copy_plan promote a ob = Intern name \<Longrightarrow> ob = CSymbol name True"
  by (cases ob) (auto split: if_splits sum.splits option.splits)

lemma plan_reject: "healthy promote m a ob \<Longrightarrow> copy_plan promote a ob \<noteq> Reject msg"
  by (cases ob) (auto split: if_splits sum.splits option.splits)

lemma plan_before:
  assumes "copy_plan promote a ob = Before us shell vs mk" "healthy promote m a ob"
  shows "registered_first ob" and "refs ob = us @ vs"
    and "length us' = length us \<Longrightarrow> length ws = length vs \<Longrightarrow> mk us' ws = Inr (image_of promote a ob (us' @ ws))"
proof -
  have "registered_first ob \<and> refs ob = us @ vs \<and>
      (length us' = length us \<longrightarrow> length ws = length vs \<longrightarrow> mk us' ws = Inr (image_of promote a ob (us' @ ws)))"
  proof (cases ob)
    case (CClosure fn home uvs)
    then have p: "present uvs = map the uvs" using assms(2) by (simp add: present_all)
    show ?thesis using assms CClosure by (auto simp: length_Suc_conv p)
  next
    case (CParameter init converter v)
    then show ?thesis using assms by (auto simp: length_Suc_conv numeral_2_eq_2)
  next
    case (CPromise forced forcing v)
    then show ?thesis using assms by (auto simp: length_Suc_conv)
  qed (use assms in \<open>auto simp: copy_slots_def split: if_splits sum.splits option.splits\<close>)
  then show "registered_first ob" "refs ob = us @ vs"
    "length us' = length us \<Longrightarrow> length ws = length vs \<Longrightarrow> mk us' ws = Inr (image_of promote a ob (us' @ ws))" by auto
qed

lemma plan_after: "copy_plan promote a ob = After vs mk \<Longrightarrow> refs ob = vs \<and> \<not> registered_first ob"
  by (cases ob) (auto split: if_splits sum.splits option.splits)

lemma related_finished:
  assumes c: "copies share promote m S k \<psi> G st" and r: "related m \<psi> st (Ref b) w" and b: "m b = Some ob" "\<not> registered_first ob"
    and s: "\<And>name. ob \<noteq> CSymbol name True"
  obtains d ws where "w = Ref d" "memory st d = Some (image_of promote b ob ws)"
proof -
  obtain d where d: "w = Ref d" "\<psi> d = Some b" using r b(1) s by (auto simp: related_def split: cvalue.splits)
  have "d \<notin> G" using copiesD(8) [OF c, of d] d(2) b by auto
  then obtain ws where "memory st d = Some (image_of promote b ob ws)" using copiesD(7) [OF c d(2)] b(1) by auto
  then show ?thesis using that d(1) by blast
qed

lemma related_number:
  assumes c: "copies share promote m S k \<psi> G st" and ok: "source_ok promote m S"
    and r: "related m \<psi> st v w" and v: "is_exact_integer (number_view m v)" "\<And>b. v = Ref b \<Longrightarrow> b \<in> S"
  shows "number_view (memory st) w = number_view m v"
proof (cases v)
  case (Val x)
  then show ?thesis using r by (auto simp: related_def number_view_def split: cvalue.splits)
next
  case (Ref b)
  have "\<not> is_exact_integer undef" by (simp add: is_exact_integer_def is_fixnum_def is_bignum_def ch_is_fixnum_def CH_UNDEFINED_def CH_NANBOX_IMM_def)
  then obtain ls p where b: "m b = Some (CBignum ls p)"
    using v(1) Ref by (auto simp: number_view_def split: option.splits cobject.splits)
  have h: "healthy promote m b (CBignum ls p)" using ok v(2) [OF Ref] b by (auto simp: source_ok_def)
  obtain d ws where "w = Ref d" "memory st d = Some (image_of promote b (CBignum ls p) ws)"
    using related_finished [OF c _ b, of w] r Ref by auto
  then show ?thesis using b Ref by (simp add: number_view_def)
qed


lemma store_same:
  assumes "number_view (memory st) v = e" "is_exact_integer e"
  shows "store_number st v e = (v, st)"
proof (cases v)
  case (Val w)
  then show ?thesis using assms(1) by (auto simp: number_view_def)
next
  case (Ref b)
  have "\<not> is_exact_integer undef" by (simp add: is_exact_integer_def is_fixnum_def is_bignum_def ch_is_fixnum_def CH_UNDEFINED_def CH_NANBOX_IMM_def)
  then obtain ls p where "e = Big ls p" using assms Ref by (auto simp: number_view_def split: option.splits cobject.splits)
  then show ?thesis using assms(1) by simp
qed

lemma make_new: "make_object st ob = Some (Inr (Ref (next_addr st), snd (new_object st ob)))"
  by (simp add: make_object_def new_object_def creturn_def)

lemma plan_after_result:
  assumes c: "copies share promote m S k \<psi> G st" and ok: "source_ok promote m S" and k: "S \<subseteq> {..<k}"
    and a: "a \<in> S" "m a = Some ob" and p: "copy_plan promote a ob = After vs mk"
    and ws: "list_all2 (related m \<psi> st) vs ws"
  shows "mk st ws = make_object st (image_of promote a ob ws)"
proof -
  have h: "healthy promote m a ob" and S: "\<And>b. Ref b \<in> set (refs ob) \<Longrightarrow> b \<in> S" using ok a by (auto simp: source_ok_def)
  note R = related_finished [OF c]
  show ?thesis
  proof (cases ob)
    case (CRational num den)
    then obtain n' d' where w: "ws = [n', d']" "related m \<psi> st num n'" "related m \<psi> st den d'"
      using p ws by (auto simp: list_all2_Cons1)
    have e: "is_exact_integer (number_view m num)" "is_exact_integer (number_view m den)" using h CRational by auto
    have v: "number_view (memory st) n' = number_view m num" "number_view (memory st) d' = number_view m den"
      using related_number [OF c ok w(2) e(1)] related_number [OF c ok w(3) e(2)] S CRational by auto
    then have "make_rational st n' d' = Some (Ref (next_addr st), snd (new_object st (CRational n' d')))"
      using h e CRational by (simp add: make_rational_def store_same new_object_def)
    then show ?thesis using CRational p w(1) by (auto simp: number_result_def make_new creturn_def)
  next
    case (CRecordType name nf start parent)
    show ?thesis
    proof (cases parent)
      case None
      then show ?thesis using CRecordType p ws h by (auto simp: make_record_type_def list_all2_Cons1)
    next
      case (Some q)
      then obtain name' start' parent' where q: "m q = Some (CRecordType name' start start' parent')" and b: "start \<le> nf" "nf \<le> CH_RECORD_MAX_FIELDS"
        using h CRecordType by auto
      obtain n' w' where w: "ws = [n', w']" "related m \<psi> st (Ref q) w'" using CRecordType Some p ws by (auto simp: list_all2_Cons1)
      obtain d us where d: "w' = Ref d" "memory st d = Some (image_of promote q (CRecordType name' start start' parent') us)"
        using R [OF w(2) q] by auto
      have "q < k" using S [of q] CRecordType Some k by auto
      then have f: "record_fields (memory st) q = start" "record_fields (memory st) d = start"
        using q d(2) copiesD(2) [OF c] by (simp_all add: record_fields_def)
      have "(nf + 65536 - start) mod 65536 = nf - start" using b by (simp add: CH_RECORD_MAX_FIELDS_def mod_if)
      then show ?thesis using CRecordType Some p w(1) d(1) f b
        by (auto simp: make_record_type_def Let_def ref_of_def)
    qed
  next
    case (CRecord rt flds)
    then obtain w' us where w: "ws = w' # us" "related m \<psi> st (Ref rt) w'" using p ws by (auto simp: list_all2_Cons1)
    then obtain d where "w' = Ref d" by (auto simp: related_def split: cvalue.splits)
    then show ?thesis using CRecord p w(1) by (auto simp: make_record_def ref_of_def)
  next
    case (CBignum ls q)
    then show ?thesis using p h by (auto simp: copy_bignum_def)
  next
    case (CComplex re im er ei)
    then show ?thesis using p h by (auto simp: make_complex_ex_def make_new new_object_def)
  next
    case (CChannel shared cap rv cl)
    then show ?thesis using p h by (cases shared) (auto split: sum.splits)
  qed (use p in \<open>auto split: if_splits\<close>)
qed

end
