(* ===== verification/Chaaya_Copy_Walk.thy ===== *)
theory Chaaya_Copy_Walk
  imports Chaaya_Copy_Image
begin

text \<open>
  The walk makes an image: by induction on the fuel. A set of objects that is closed under references
  bounds what the walk visits; objects that do not come back to themselves through what is copied
  before they are registered are copied once.
\<close>

definition in_source :: "nat set \<Rightarrow> cvalue \<Rightarrow> bool" where
  "in_source S v \<longleftrightarrow> (\<forall>b. v = Ref b \<longrightarrow> b \<in> S)"

definition closed_in :: "memory \<Rightarrow> nat set \<Rightarrow> nat set \<Rightarrow> bool" where
  "closed_in m S T \<longleftrightarrow> T \<subseteq> S \<and> (\<forall>a \<in> T. \<forall>ob. m a = Some ob \<longrightarrow> list_all (in_source T) (refs ob))"

text \<open>The references that are followed before the copy is registered.\<close>

definition first_refs :: "(nat \<Rightarrow> string + nat) \<Rightarrow> nat \<Rightarrow> cobject \<Rightarrow> cvalue list" where
  "first_refs promote a ob = (case copy_plan promote a ob of Before us shell ws mk \<Rightarrow> us | After ws mk \<Rightarrow> ws | _ \<Rightarrow> [])"

definition no_late_cycle :: "(nat \<Rightarrow> string + nat) \<Rightarrow> memory \<Rightarrow> nat set \<Rightarrow> bool" where
  "no_late_cycle promote m S \<longleftrightarrow>
     (\<forall>a \<in> S. \<forall>ob. m a = Some ob \<longrightarrow> (\<exists>T. closed_in m S T \<and> a \<notin> T \<and> list_all (in_source T) (first_refs promote a ob)))"

definition outside :: "nat set \<Rightarrow> copy_state \<Rightarrow> copy_state \<Rightarrow> bool" where
  "outside T st st' \<longleftrightarrow> (\<forall>a. a \<notin> T \<longrightarrow> visited st' a = visited st a)"

definition walk_ok :: "bool \<Rightarrow> (nat \<Rightarrow> string + nat) \<Rightarrow> memory \<Rightarrow> nat set \<Rightarrow> nat \<Rightarrow> bool" where
  "walk_ok share promote m S k \<longleftrightarrow> source_ok promote m S \<and> S \<subseteq> {..<k} \<and> (share \<longrightarrow> no_late_cycle promote m S)"

definition sound_value :: "bool \<Rightarrow> (nat \<Rightarrow> string + nat) \<Rightarrow> memory \<Rightarrow> nat set \<Rightarrow> nat \<Rightarrow> nat \<Rightarrow> bool" where
  "sound_value share promote m S k n \<longleftrightarrow>
     (\<forall>v st st' w \<psi> G T. dc_copy_value promote n st v = Some (Inr (w, st')) \<longrightarrow> copies share promote m S k \<psi> G st \<longrightarrow>
        closed_in m S T \<longrightarrow> in_source T v \<longrightarrow>
        (\<exists>\<psi>'. copies share promote m S k \<psi>' G st' \<and> grown \<psi> st \<psi>' st' \<and> outside T st st' \<and> related m \<psi>' st' v w))"

definition sound_values :: "bool \<Rightarrow> (nat \<Rightarrow> string + nat) \<Rightarrow> memory \<Rightarrow> nat set \<Rightarrow> nat \<Rightarrow> nat \<Rightarrow> bool" where
  "sound_values share promote m S k n \<longleftrightarrow>
     (\<forall>vs st st' ws \<psi> G T. copy_values promote n st vs = Some (Inr (ws, st')) \<longrightarrow> copies share promote m S k \<psi> G st \<longrightarrow>
        closed_in m S T \<longrightarrow> list_all (in_source T) vs \<longrightarrow>
        (\<exists>\<psi>'. copies share promote m S k \<psi>' G st' \<and> grown \<psi> st \<psi>' st' \<and> outside T st st' \<and> list_all2 (related m \<psi>' st') vs ws))"

definition sound_spine :: "bool \<Rightarrow> (nat \<Rightarrow> string + nat) \<Rightarrow> memory \<Rightarrow> nat set \<Rightarrow> nat \<Rightarrow> nat \<Rightarrow> bool" where
  "sound_spine share promote m S k n \<longleftrightarrow>
     (\<forall>x y d st st' \<psi> G a T. copy_spine promote n st x y d = Some (Inr ((), st')) \<longrightarrow> copies share promote m S k \<psi> (insert d G) st \<longrightarrow>
        closed_in m S T \<longrightarrow> d \<notin> G \<longrightarrow> \<psi> d = Some a \<longrightarrow> a \<in> T \<longrightarrow> m a = Some (CPair x y) \<longrightarrow>
        (\<exists>\<psi>'. copies share promote m S k \<psi>' G st' \<and> grown \<psi> st \<psi>' st' \<and> outside T st st'))"

lemma cbind_Some:
  "cbind r f = Some (Inr (y, st')) \<longleftrightarrow> (\<exists>x st. r = Some (Inr (x, st)) \<and> f x st = Some (Inr (y, st')))"
  by (auto simp: cbind_def split: option.splits sum.splits)

lemma creturn_Some [simp]: "creturn x st = Some (Inr (y, st')) \<longleftrightarrow> x = y \<and> st = st'"
  by (simp add: creturn_def)

lemma dc_reject_Some [simp]: "dc_reject e \<noteq> Some (Inr r)"
  by (simp add: dc_reject_def)

lemma result_Some [simp]:
  "(case r of Inl e \<Rightarrow> dc_reject e | Inr ob \<Rightarrow> creturn x (f ob)) = Some (Inr (w, st')) \<longleftrightarrow> (\<exists>ob. r = Inr ob \<and> w = x \<and> st' = f ob)"
  by (cases r) auto

lemma outside_refl [simp]: "outside T st st"
  by (simp add: outside_def)

lemma outside_trans: "outside T st st' \<Longrightarrow> outside T st' st'' \<Longrightarrow> outside T st st''"
  by (simp add: outside_def)

lemma outside_mono: "outside T' st st' \<Longrightarrow> T' \<subseteq> T \<Longrightarrow> outside T st st'"
  by (auto simp: outside_def)

lemma outside_simps [simp]:
  "outside T st (set_object st' d ob) = outside T st st'" "outside T st (snd (new_object st' ob)) = outside T st st'"
  "outside T (snd (new_object st ob)) st' = outside T st st'" "outside T (set_object st d ob) st' = outside T st st'"
  by (simp_all add: outside_def set_object_def new_object_def)

lemma outside_put: "a \<in> T \<Longrightarrow> outside T st st' \<Longrightarrow> outside T st (dc_visited_put st' a w)"
  by (auto simp: outside_def dc_visited_put_def)

lemma in_source_mono: "T \<subseteq> S \<Longrightarrow> in_source T v \<Longrightarrow> in_source S v"
  by (auto simp: in_source_def)

lemma closed_refs: "closed_in m S T \<Longrightarrow> a \<in> T \<Longrightarrow> m a = Some ob \<Longrightarrow> list_all (in_source T) (refs ob)"
  by (simp add: closed_in_def)

lemma closed_subset: "closed_in m S T \<Longrightarrow> a \<in> T \<Longrightarrow> a \<in> S"
  by (auto simp: closed_in_def)

lemma first_refs_subset: "healthy promote m a ob \<Longrightarrow> set (first_refs promote a ob) \<subseteq> set (refs ob)"
  using plan_before(2) [of promote a ob] plan_after [of promote a ob]
  by (auto simp: first_refs_def split: plan.splits)

text \<open>The objects that the first references lead to.\<close>

lemma first_closed:
  assumes ok: "walk_ok share promote m S k" and T: "closed_in m S T" "a \<in> T" and ob: "m a = Some ob"
  obtains T' where "closed_in m S T'" "T' \<subseteq> T" "list_all (in_source T') (first_refs promote a ob)" "share \<Longrightarrow> a \<notin> T'"
proof -
  have h: "healthy promote m a ob" using ok closed_subset [OF T] ob by (auto simp: walk_ok_def source_ok_def)
  have l: "list_all (in_source T) (first_refs promote a ob)"
    using closed_refs [OF T ob] first_refs_subset [OF h] by (auto simp: list_all_iff)
  show ?thesis
  proof (cases share)
    case True
    then obtain U where U: "closed_in m S U" "a \<notin> U" "list_all (in_source U) (first_refs promote a ob)"
      using ok closed_subset [OF T] ob unfolding walk_ok_def no_late_cycle_def by blast
    have "closed_in m S (U \<inter> T)" using U(1) T(1) by (auto simp: closed_in_def in_source_def list_all_iff)
    moreover have "list_all (in_source (U \<inter> T)) (first_refs promote a ob)" using U(3) l by (auto simp: in_source_def list_all_iff)
    ultimately show ?thesis using that [of "U \<inter> T"] U(2) by blast
  next
    case False
    then show ?thesis using that [of T] T(1) l by blast
  qed
qed

lemma values_sound:
  assumes v: "sound_value share promote m S k n" and vs: "sound_values share promote m S k n"
  shows "sound_values share promote m S k (Suc n)"
  unfolding sound_values_def
proof (intro allI impI)
  fix vs st st' ws \<psi> G T
  assume r: "copy_values promote (Suc n) st vs = Some (Inr (ws, st'))" and c: "copies share promote m S k \<psi> G st"
    and T: "closed_in m S T" and l: "list_all (in_source T) vs"
  show "\<exists>\<psi>'. copies share promote m S k \<psi>' G st' \<and> grown \<psi> st \<psi>' st' \<and> outside T st st' \<and> list_all2 (related m \<psi>' st') vs ws"
  proof (cases vs)
    case Nil
    then show ?thesis using r c by (intro exI [of _ \<psi>]) auto
  next
    case (Cons u us)
    then obtain w st1 ws' where w: "dc_copy_value promote n st u = Some (Inr (w, st1))"
        "copy_values promote n st1 us = Some (Inr (ws', st'))" "ws = w # ws'"
      using r by (auto simp: cbind_Some)
    have l': "in_source T u" "list_all (in_source T) us" using l Cons by simp_all
    obtain \<psi>1 where p1: "copies share promote m S k \<psi>1 G st1" "grown \<psi> st \<psi>1 st1" "outside T st st1" "related m \<psi>1 st1 u w"
      using v w(1) c l'(1) T unfolding sound_value_def by blast
    obtain \<psi>2 where p2: "copies share promote m S k \<psi>2 G st'" "grown \<psi>1 st1 \<psi>2 st'" "outside T st1 st'" "list_all2 (related m \<psi>2 st') us ws'"
      using vs w(2) p1(1) l'(2) T unfolding sound_values_def by blast
    then show ?thesis using Cons w(3) grown_trans [OF p1(2) p2(2)] related_mono [OF p2(2) p1(4)] outside_trans [OF p1(3) p2(3)]
      by (intro exI [of _ \<psi>2]) simp
  qed
qed

lemma spine_sound:
  assumes ok: "walk_ok share promote m S k"
    and v: "sound_value share promote m S k n" and s: "sound_spine share promote m S k n"
  shows "sound_spine share promote m S k (Suc n)"
  unfolding sound_spine_def
proof (intro allI impI)
  fix x y d st st' \<psi> G a T
  assume r: "copy_spine promote (Suc n) st x y d = Some (Inr ((), st'))" and c: "copies share promote m S k \<psi> (insert d G) st"
    and T: "closed_in m S T" and d: "d \<notin> G" "\<psi> d = Some a" and a: "a \<in> T" "m a = Some (CPair x y)"
  have S: "in_source T x" "in_source T y" using closed_refs [OF T a] by simp_all
  obtain x' st1 where x': "dc_copy_value promote n st x = Some (Inr (x', st1))"
    using r by (auto simp: cbind_Some)
  obtain \<psi>1 where p1: "copies share promote m S k \<psi>1 (insert d G) st1" "grown \<psi> st \<psi>1 st1" "outside T st st1" "related m \<psi>1 st1 x x'"
    using v x' c S(1) T unfolding sound_value_def by metis
  have d1: "\<psi>1 d = Some a" using p1(2) d(2) by (simp add: grown_def)
  have finish: "\<exists>\<psi>'. copies share promote m S k \<psi>' G st' \<and> grown \<psi> st \<psi>' st' \<and> outside T st st'"
    if "st' = set_object st2 d (CPair x' y')" "copies share promote m S k \<psi>2 (insert d G) st2" "grown \<psi>1 st1 \<psi>2 st2"
      "outside T st1 st2" "related m \<psi>2 st2 y y'" for st2 \<psi>2 y'
  proof -
    have "\<psi>2 d = Some a" using that(3) d1 by (simp add: grown_def)
    moreover have "list_all2 (related m \<psi>2 st2) (refs (CPair x y)) [x', y']"
      using related_mono [OF that(3) p1(4)] that(5) by simp
    ultimately have "copies share promote m S k \<psi>2 G st' \<and> grown \<psi>2 st2 \<psi>2 st'"
      using copies_fill [OF that(2) d(1) _ a(2), of "[x', y']"] that(1) by (simp add: numeral_2_eq_2)
    moreover have "outside T st st'" using outside_trans [OF p1(3) that(4)] that(1) by simp
    ultimately show ?thesis using grown_trans [OF grown_trans [OF p1(2) that(3)]] by blast
  qed
  show "\<exists>\<psi>'. copies share promote m S k \<psi>' G st' \<and> grown \<psi> st \<psi>' st' \<and> outside T st st'"
  proof (cases y)
    case (Val w)
    then have "st' = set_object st1 d (CPair x' (Val w))" using r x' by (simp add: cbind_def)
    then show ?thesis using finish [OF _ p1(1)] Val by (simp add: related_def)
  next
    case (Ref b)
    have bT: "b \<in> T" using S(2) Ref by (simp add: in_source_def)
    have b: "b \<in> S" "memory st1 b = m b"
      using closed_subset [OF T bT] ok copiesD(2) [OF p1(1), of b] by (auto simp: walk_ok_def)
    show ?thesis
    proof (cases "\<exists>x2 y2. m b = Some (CPair x2 y2)")
      case False
      then obtain y' st2 where y': "dc_copy_value promote n st1 y = Some (Inr (y', st2))" "st' = set_object st2 d (CPair x' y')"
        using r x' Ref b(2) by (auto simp: cbind_def creturn_def split: option.splits cobject.splits sum.splits)
      obtain \<psi>2 where "copies share promote m S k \<psi>2 (insert d G) st2" "grown \<psi>1 st1 \<psi>2 st2" "outside T st1 st2" "related m \<psi>2 st2 y y'"
        using v y'(1) p1(1) S(2) T unfolding sound_value_def by metis
      then show ?thesis using finish [OF y'(2)] by blast
    next
      case True
      then obtain x2 y2 where b2: "m b = Some (CPair x2 y2)" by blast
      show ?thesis
      proof (cases "visited st1 b")
        case (Some w)
        then have "st' = set_object st1 d (CPair x' w)" using r x' Ref b b2 by (simp add: cbind_def)
        moreover have "related m \<psi>1 st1 y w" using copiesD(6) [OF p1(1) Some] Ref by (auto simp: related_def)
        ultimately show ?thesis using finish [OF _ p1(1)] by simp
      next
        case None
        define d2 where "d2 = next_addr st1"
        define st2 where "st2 = dc_visited_put (snd (new_object st1 (CPair (Val CH_NIL) (Val CH_NIL)))) b (Ref d2)"
        have r2: "copy_spine promote n (set_object st2 d (CPair x' (Ref d2))) x2 y2 d2 = Some (Inr ((), st'))"
          using r x' Ref b b2 None by (simp add: cbind_def new_object_def d2_def st2_def)
        note A = copies_add [OF p1(1) b(1) b2 None, of "insert d2 (insert d G)" "CPair (Val CH_NIL) (Val CH_NIL)", folded d2_def]
        have A': "copies share promote m S k (\<psi>1(d2 \<mapsto> b)) (insert d2 (insert d G)) st2" "grown \<psi>1 st1 (\<psi>1(d2 \<mapsto> b)) st2" "\<psi>1 d2 = None"
          using A by (simp_all add: st2_def d2_def)
        have o: "outside T st1 (set_object st2 d (CPair x' (Ref d2)))" using bT by (simp add: st2_def outside_put)
        have dd: "d2 \<noteq> d" using A'(3) d1 by auto
        have l: "list_all2 (related m (\<psi>1(d2 \<mapsto> b)) st2) (refs (CPair x y)) [x', Ref d2]"
          using related_mono [OF A'(2) p1(4)] Ref by (simp add: related_def)
        have d2G: "d2 \<notin> G" using copiesD(8) [OF p1(1), of d2] A'(3) by auto
        have "copies share promote m S k (\<psi>1(d2 \<mapsto> b)) (insert d (insert d2 G)) st2" using A'(1) by (simp add: insert_commute)
        note F = copies_fill [OF this _ _ a(2) l]
        have F': "copies share promote m S k (\<psi>1(d2 \<mapsto> b)) (insert d2 G) (set_object st2 d (CPair x' (Ref d2)))"
            "grown (\<psi>1(d2 \<mapsto> b)) st2 (\<psi>1(d2 \<mapsto> b)) (set_object st2 d (CPair x' (Ref d2)))"
          using F d(1) dd d1 by (simp_all add: numeral_2_eq_2)
        obtain \<psi>2 where p2: "copies share promote m S k \<psi>2 G st'" "grown (\<psi>1(d2 \<mapsto> b)) (set_object st2 d (CPair x' (Ref d2))) \<psi>2 st'"
            "outside T (set_object st2 d (CPair x' (Ref d2))) st'"
          using s r2 F'(1) d2G bT b2 T unfolding sound_spine_def by (metis fun_upd_same)
        have "outside T st st'" by (rule outside_trans [OF p1(3) outside_trans [OF o p2(3)]])
        then show ?thesis using p2(1) grown_trans [OF p1(2) grown_trans [OF A'(2) grown_trans [OF F'(2) p2(2)]]] by blast
      qed
    qed
  qed
qed

lemma before_start:
  assumes ok: "walk_ok share promote m S k" and vs: "sound_values share promote m S k n"
    and c: "copies share promote m S k \<psi> G st" and T: "closed_in m S T" and a: "a \<in> T" "m a = Some ob" "visited st a = None"
    and p: "copy_plan promote a ob = Before us shell ws mk"
    and u: "copy_values promote n st us = Some (Inr (us', st1))"
  defines "d \<equiv> next_addr st1"
  defines "st1' \<equiv> dc_visited_put (snd (new_object st1 (shell us'))) a (Ref d)"
  obtains \<psi>1 where "copies share promote m S k \<psi>1 (insert d G) st1'" "grown \<psi> st \<psi>1 st1'" "outside T st st1'" "d \<notin> G"
    "\<psi>1 d = Some a" "list_all2 (related m \<psi>1 st1') us us'"
proof -
  have aS: "a \<in> S" by (rule closed_subset [OF T a(1)])
  then have h: "healthy promote m a ob" using ok a by (auto simp: walk_ok_def source_ok_def)
  obtain T' where T': "closed_in m S T'" "T' \<subseteq> T" "list_all (in_source T') us" "share \<Longrightarrow> a \<notin> T'"
    using first_closed [OF ok T a(1,2)] p by (auto simp: first_refs_def)
  obtain \<psi>1 where p1: "copies share promote m S k \<psi>1 G st1" "grown \<psi> st \<psi>1 st1" "outside T' st st1" "list_all2 (related m \<psi>1 st1) us us'"
    using vs u c T'(1,3) unfolding sound_values_def by blast
  have n1: "share \<Longrightarrow> visited st1 a = None" using p1(3) T'(4) a(3) by (simp add: outside_def)
  note A = copies_add [OF p1(1) aS a(2) n1, of "insert d G" "shell us'", folded d_def, folded st1'_def]
  have A': "copies share promote m S k (\<psi>1(d \<mapsto> a)) (insert d G) st1'" "grown \<psi>1 st1 (\<psi>1(d \<mapsto> a)) st1'" "\<psi>1 d = None"
    using A plan_before(1) [OF p h] by simp_all
  have d: "d \<notin> G" using copiesD(8) [OF p1(1), of d] A'(3) by auto
  have "outside T st st1'" using outside_mono [OF p1(3) T'(2)] a(1) by (simp add: st1'_def outside_put)
  then show ?thesis
    using that [OF A'(1) grown_trans [OF p1(2) A'(2)] _ d _ related_list_mono [OF A'(2) p1(4)]] by simp
qed

lemma before_sound:
  assumes ok: "walk_ok share promote m S k" and vs: "sound_values share promote m S k n"
    and c: "copies share promote m S k \<psi> G st" and T: "closed_in m S T" and a: "a \<in> T" "m a = Some ob" "visited st a = None"
    and p: "copy_plan promote a ob = Before us shell ws mk"
    and u: "copy_values promote n st us = Some (Inr (us', st1))"
    and w: "copy_values promote n (dc_visited_put (snd (new_object st1 (shell us'))) a (Ref (next_addr st1))) ws = Some (Inr (ws', st2))"
    and mk: "mk us' ws' = Inr ob'"
  shows "\<exists>\<psi>'. copies share promote m S k \<psi>' G (set_object st2 (next_addr st1) ob') \<and>
     grown \<psi> st \<psi>' (set_object st2 (next_addr st1) ob') \<and> outside T st st2 \<and> \<psi>' (next_addr st1) = Some a"
proof -
  have h: "healthy promote m a ob" using ok closed_subset [OF T a(1)] a(2) by (auto simp: walk_ok_def source_ok_def)
  note P = plan_before [OF p h]
  have l: "list_all (in_source T) ws" using closed_refs [OF T a(1,2)] by (simp add: P(2))
  define d where "d = next_addr st1"
  define st1' where "st1' = dc_visited_put (snd (new_object st1 (shell us'))) a (Ref d)"
  obtain \<psi>1 where p1: "copies share promote m S k \<psi>1 (insert d G) st1'" "grown \<psi> st \<psi>1 st1'" "outside T st st1'" "d \<notin> G"
      "\<psi>1 d = Some a" "list_all2 (related m \<psi>1 st1') us us'"
    using before_start [OF ok vs c T a p u] unfolding d_def st1'_def by blast
  obtain \<psi>2 where p2: "copies share promote m S k \<psi>2 (insert d G) st2" "grown \<psi>1 st1' \<psi>2 st2" "outside T st1' st2"
      "list_all2 (related m \<psi>2 st2) ws ws'"
    using vs w p1(1) l T unfolding sound_values_def st1'_def d_def by blast
  have d2: "\<psi>2 d = Some a" using p2(2) p1(5) by (simp add: grown_def)
  have r: "list_all2 (related m \<psi>2 st2) (refs ob) (us' @ ws')"
    using related_list_mono [OF p2(2) p1(6)] p2(4) by (simp add: P(2) list_all2_appendI)
  have ob': "ob' = image_of promote a ob (us' @ ws')"
    using mk P(3) [of us' ws'] list_all2_lengthD [OF p1(6)] list_all2_lengthD [OF p2(4)] by simp
  note F = copies_fill [OF p2(1) p1(4) d2 a(2) r, folded ob']
  have "grown \<psi> st \<psi>2 (set_object st2 d ob')" by (rule grown_trans [OF p1(2) grown_trans [OF p2(2) F(2)]])
  then show ?thesis using F(1) d2 outside_trans [OF p1(3) p2(3)] unfolding d_def by blast
qed

lemma after_sound:
  assumes ok: "walk_ok share promote m S k" and vs: "sound_values share promote m S k n"
    and c: "copies share promote m S k \<psi> G st" and T: "closed_in m S T" and a: "a \<in> T" "m a = Some ob" "visited st a = None"
    and p: "copy_plan promote a ob = After ws mk"
    and w: "copy_values promote n st ws = Some (Inr (ws', st1))"
  shows "\<exists>\<psi>1. mk st1 ws' = make_object st1 (image_of promote a ob ws') \<and> copies share promote m S k \<psi>1 G st1 \<and>
    (\<forall>v' st2. make_object st1 (image_of promote a ob ws') = Some (Inr (v', st2)) \<longrightarrow>
      (\<exists>\<psi>'. copies share promote m S k \<psi>' G (dc_visited_put st2 a v') \<and> grown \<psi> st \<psi>' (dc_visited_put st2 a v') \<and>
         outside T st (dc_visited_put st2 a v') \<and> (\<exists>d. v' = Ref d \<and> \<psi>' d = Some a)))"
proof -
  have aS: "a \<in> S" by (rule closed_subset [OF T a(1)])
  note P = plan_after [OF p]
  obtain T' where T': "closed_in m S T'" "T' \<subseteq> T" "list_all (in_source T') ws" "share \<Longrightarrow> a \<notin> T'"
    using first_closed [OF ok T a(1,2)] p by (auto simp: first_refs_def)
  obtain \<psi>1 where p1: "copies share promote m S k \<psi>1 G st1" "grown \<psi> st \<psi>1 st1" "outside T' st st1" "list_all2 (related m \<psi>1 st1) ws ws'"
    using vs w c T'(1,3) unfolding sound_values_def by blast
  have n1: "share \<Longrightarrow> visited st1 a = None" using p1(3) T'(4) a(3) by (simp add: outside_def)
  have ok': "source_ok promote m S" "S \<subseteq> {..<k}" using ok by (simp_all add: walk_ok_def)
  have eq: "mk st1 ws' = make_object st1 (image_of promote a ob ws')" by (rule plan_after_result [OF p1(1) ok' aS a(2) p p1(4)])
  define d where "d = next_addr st1"
  have "\<exists>\<psi>'. copies share promote m S k \<psi>' G (dc_visited_put st2 a v') \<and> grown \<psi> st \<psi>' (dc_visited_put st2 a v') \<and>
         outside T st (dc_visited_put st2 a v') \<and> (\<exists>d. v' = Ref d \<and> \<psi>' d = Some a)"
    if mk: "make_object st1 (image_of promote a ob ws') = Some (Inr (v', st2))" for v' st2
  proof -
    have v': "v' = Ref d" "st2 = snd (new_object st1 (image_of promote a ob ws'))" using mk by (simp_all add: make_new d_def)
    note A = copies_add [OF p1(1) aS a(2) n1, of G "image_of promote a ob ws'", folded d_def, folded v']
    have "copies share promote m S k (\<psi>1(d \<mapsto> a)) G (dc_visited_put st2 a v')" "grown \<psi>1 st1 (\<psi>1(d \<mapsto> a)) (dc_visited_put st2 a v')"
      using A p1(4) P by blast+
    moreover have "outside T st (dc_visited_put st2 a v')"
      using outside_mono [OF p1(3) T'(2)] a(1) v'(2) by (simp add: outside_put)
    ultimately show ?thesis using grown_trans [OF p1(2)] v'(1) by (intro exI [of _ "\<psi>1(d \<mapsto> a)"]) simp
  qed
  then show ?thesis using eq p1(1) by blast
qed

lemma spine_start:
  assumes c: "copies share promote m S k \<psi> G st" and a: "a \<in> S" "m a = Some (CPair x y)" "visited st a = None"
  defines "d \<equiv> next_addr st"
  defines "st1 \<equiv> dc_visited_put (snd (new_object st (CPair (Val CH_NIL) (Val CH_NIL)))) a (Ref d)"
  shows "copies share promote m S k (\<psi>(d \<mapsto> a)) (insert d G) st1" and "grown \<psi> st (\<psi>(d \<mapsto> a)) st1" and "d \<notin> G"
proof -
  note A = copies_add [OF c a(1,2) a(3), of "insert d G" "CPair (Val CH_NIL) (Val CH_NIL)", folded d_def, folded st1_def]
  show "copies share promote m S k (\<psi>(d \<mapsto> a)) (insert d G) st1" "grown \<psi> st (\<psi>(d \<mapsto> a)) st1" using A by simp_all
  show "d \<notin> G" using copiesD(8) [OF c, of d] A(3) by auto
qed

lemma value_sound:
  assumes ok: "walk_ok share promote m S k"
    and vs: "sound_values share promote m S k n" and s: "sound_spine share promote m S k n"
  shows "sound_value share promote m S k (Suc n)"
  unfolding sound_value_def
proof (intro allI impI)
  fix v st st' w \<psi> G T
  assume r: "dc_copy_value promote (Suc n) st v = Some (Inr (w, st'))" and c: "copies share promote m S k \<psi> G st"
    and T: "closed_in m S T" and v: "in_source T v"
  show "\<exists>\<psi>'. copies share promote m S k \<psi>' G st' \<and> grown \<psi> st \<psi>' st' \<and> outside T st st' \<and> related m \<psi>' st' v w"
  proof (cases v)
    case (Val x)
    then show ?thesis using r c by (intro exI [of _ \<psi>]) (auto simp: related_def)
  next
    case (Ref a)
    show ?thesis
    proof (cases "visited st a")
      case (Some u)
      then show ?thesis using r c Ref copiesD(6) [OF c Some] by (intro exI [of _ \<psi>]) (auto simp: related_def)
    next
      case None
      have a: "a \<in> T" "a \<in> S" using v Ref closed_subset [OF T] by (auto simp: in_source_def)
      obtain ob where ob: "m a = Some ob" and h: "healthy promote m a ob" using ok a(2) by (auto simp: walk_ok_def source_ok_def)
      have mem: "memory st a = Some ob" using copiesD(2) [OF c, of a] a(2) ok ob by (auto simp: walk_ok_def)
      have rel: "related m \<psi>' st' v (Ref d)" if "\<psi>' d = Some a" for \<psi>' d using that Ref by (simp add: related_def)
      show ?thesis
      proof (cases "copy_plan promote a ob")
        case (Spine x y)
        define d where "d = next_addr st"
        define st1 where "st1 = dc_visited_put (snd (new_object st (CPair (Val CH_NIL) (Val CH_NIL)))) a (Ref d)"
        have p: "m a = Some (CPair x y)" using plan_spine [OF Spine] ob by simp
        have r1: "copy_spine promote n st1 x y d = Some (Inr ((), st'))" "w = Ref d"
          using r Ref None mem Spine by (auto simp: cbind_Some new_object_def d_def st1_def)
        note A = spine_start [OF c a(2) p None, folded d_def, folded st1_def]
        obtain \<psi>' where p': "copies share promote m S k \<psi>' G st'" "grown (\<psi>(d \<mapsto> a)) st1 \<psi>' st'" "outside T st1 st'"
          using s r1(1) A(1,3) a(1) p T unfolding sound_spine_def by (metis fun_upd_same)
        have "\<psi>' d = Some a" using p'(2) by (simp add: grown_def)
        moreover have "outside T st st'" using outside_trans [OF _ p'(3)] a(1) by (simp add: st1_def outside_put)
        ultimately show ?thesis using p'(1) grown_trans [OF A(2) p'(2)] rel r1(2) by blast
      next
        case (Intern name)
        then have i: "ch_gc_intern_symbol st name = (w, st')" using r Ref None mem by (auto simp: cbind_Some split: prod.splits)
        have "m a = Some (CSymbol name True)" using ob plan_intern [OF Intern] by simp
        note I = copies_intern [OF c this i]
        have "outside T st st'" using I(4) by (simp add: outside_def)
        then show ?thesis using I(1-3) Ref by blast
      next
        case (Before us shell ws mk)
        obtain us' st1 ws' st2 ob' where q: "copy_values promote n st us = Some (Inr (us', st1))"
            "copy_values promote n (dc_visited_put (snd (new_object st1 (shell us'))) a (Ref (next_addr st1))) ws = Some (Inr (ws', st2))"
            "mk us' ws' = Inr ob'" "w = Ref (next_addr st1)" "st' = set_object st2 (next_addr st1) ob'"
          using r Ref None mem Before by (auto simp: cbind_Some new_object_def)
        obtain \<psi>' where B: "copies share promote m S k \<psi>' G st'" "grown \<psi> st \<psi>' st'" "outside T st st2" "\<psi>' (next_addr st1) = Some a"
          using before_sound [OF ok vs c T a(1) ob None Before q(1-3)] unfolding q(5) by blast
        have "outside T st st'" using B(3) by (simp add: q(5))
        then show ?thesis using B rel unfolding q(4) by blast
      next
        case (After ws mk)
        obtain ws' st1 v' st2 where q: "copy_values promote n st ws = Some (Inr (ws', st1))" "mk st1 ws' = Some (Inr (v', st2))"
            "w = v'" "st' = dc_visited_put st2 a v'"
          using r Ref None mem After by (auto simp: cbind_Some)
        note A = after_sound [OF ok vs c T a(1) ob None After q(1)]
        have "make_object st1 (image_of promote a ob ws') = Some (Inr (v', st2))" using A q(2) by auto
        then obtain \<psi>' d where "copies share promote m S k \<psi>' G st'" "grown \<psi> st \<psi>' st'" "outside T st st'" "w = Ref d" "\<psi>' d = Some a"
          using A unfolding q(3,4) by blast
        then show ?thesis using rel by blast
      next
        case (Reject msg)
        then show ?thesis using plan_reject [OF h] by blast
      qed
    qed
  qed
qed

lemma walk_sound:
  assumes "walk_ok share promote m S k"
  shows "sound_value share promote m S k n \<and> sound_values share promote m S k n \<and> sound_spine share promote m S k n"
proof (induction n)
  case 0
  have "copy_values promote 0 st vs = Some (Inr (ws, st')) \<longleftrightarrow> vs = [] \<and> ws = [] \<and> st' = st" for st vs ws st'
    by (cases vs) auto
  then show ?case unfolding sound_value_def sound_values_def sound_spine_def by auto
next
  case (Suc n)
  then show ?case using value_sound values_sound spine_sound assms by blast
qed

end
