(* ===== verification/Chaaya_Copy_Returns.thy ===== *)
theory Chaaya_Copy_Returns
  imports Chaaya_Copy_Walk
begin

text \<open>
  The walk returns: more fuel changes no result, and every object that is registered leaves fewer to
  copy, while the objects in between that are not yet registered do not lead back to each other.
\<close>

section \<open>Fuel\<close>

definition le :: "'a option \<Rightarrow> 'a option \<Rightarrow> bool" where
  "le r r' \<longleftrightarrow> r = None \<or> r = r'"

lemma le_simps [simp]: "le None r" "le r r"
  by (simp_all add: le_def)

lemma le_trans': "le r r' \<Longrightarrow> le r' r'' \<Longrightarrow> le r r''"
  by (auto simp: le_def)

lemma le_cbind: "le r r' \<Longrightarrow> (\<And>x st. le (f x st) (f' x st)) \<Longrightarrow> le (cbind r f) (cbind r' f')"
  by (auto simp: le_def cbind_def split: option.splits sum.splits)

lemma fuel_step:
  "(\<forall>st v. le (dc_copy_value promote n st v) (dc_copy_value promote (Suc n) st v)) \<and>
   (\<forall>st vs. le (copy_values promote n st vs) (copy_values promote (Suc n) st vs)) \<and>
   (\<forall>st x y d. le (copy_spine promote n st x y d) (copy_spine promote (Suc n) st x y d))"
proof (induction n)
  case 0
  have "le (copy_values promote 0 st vs) (copy_values promote (Suc 0) st vs)" for st vs by (cases vs) simp_all
  then show ?case by simp
next
  case (Suc n)
  define k where "k = Suc n"
  have IH: "\<And>st v. le (dc_copy_value promote n st v) (dc_copy_value promote k st v)"
      "\<And>st vs. le (copy_values promote n st vs) (copy_values promote k st vs)"
      "\<And>st x y d. le (copy_spine promote n st x y d) (copy_spine promote k st x y d)"
    using Suc unfolding k_def by blast+
  have "le (dc_copy_value promote (Suc n) st v) (dc_copy_value promote (Suc k) st v)" for st v
    unfolding dc_copy_value.simps(2)
    by (auto split: cvalue.split option.split plan.split prod.split intro!: le_cbind IH)
  moreover have "le (copy_values promote (Suc n) st vs) (copy_values promote (Suc k) st vs)" for st vs
  proof (cases vs)
    case (Cons u us)
    show ?thesis unfolding Cons copy_values.simps(3) by (intro le_cbind IH) simp
  qed simp
  moreover have "le (copy_spine promote (Suc n) st x y d) (copy_spine promote (Suc k) st x y d)" for st x y d
    unfolding copy_spine.simps(2)
    by (auto split: cvalue.split option.split cobject.split prod.split intro!: le_cbind IH)
  ultimately show ?case unfolding k_def by blast
qed

lemma fuel_mono:
  assumes "n \<le> n'"
  shows "dc_copy_value promote n st v = Some r \<Longrightarrow> dc_copy_value promote n' st v = Some r"
    and "copy_values promote n st vs = Some r' \<Longrightarrow> copy_values promote n' st vs = Some r'"
    and "copy_spine promote n st x y d = Some r'' \<Longrightarrow> copy_spine promote n' st x y d = Some r''"
proof -
  have "le (dc_copy_value promote n st v) (dc_copy_value promote n' st v) \<and>
      le (copy_values promote n st vs) (copy_values promote n' st vs) \<and>
      le (copy_spine promote n st x y d) (copy_spine promote n' st x y d)"
    using assms
  proof (induction n' rule: dec_induct)
    case (step i)
    then show ?case using fuel_step [of promote i] by (metis le_trans')
  qed simp
  then show "dc_copy_value promote n st v = Some r \<Longrightarrow> dc_copy_value promote n' st v = Some r"
    "copy_values promote n st vs = Some r' \<Longrightarrow> copy_values promote n' st vs = Some r'"
    "copy_spine promote n st x y d = Some r'' \<Longrightarrow> copy_spine promote n' st x y d = Some r''"
    by (auto simp: le_def)
qed

section \<open>What is left to copy\<close>

definition todo :: "nat set \<Rightarrow> copy_state \<Rightarrow> nat" where
  "todo S st = card {a \<in> S. visited st a = None}"

lemma todo_mono: "finite S \<Longrightarrow> grown \<psi> st \<psi>' st' \<Longrightarrow> todo S st' \<le> todo S st"
  unfolding todo_def grown_def by (intro card_mono) auto

lemma todo_put:
  assumes "finite S" "a \<in> S" "visited st a = None" "\<And>b. visited st' b = None \<Longrightarrow> visited st b = None" "visited st' a \<noteq> None"
  shows "todo S st' < todo S st"
proof -
  have s: "{a \<in> S. visited st' a = None} \<subseteq> {a \<in> S. visited st a = None}" using assms(4) by auto
  have "a \<in> {a \<in> S. visited st a = None}" "a \<notin> {a \<in> S. visited st' a = None}" using assms(2,3,5) by simp_all
  then have "{a \<in> S. visited st' a = None} \<subset> {a \<in> S. visited st a = None}" using s by blast
  then show ?thesis unfolding todo_def using assms(1) by (intro psubset_card_mono) simp_all
qed

text \<open>The references that are copied first do not lead back.\<close>

definition first_rel :: "(nat \<Rightarrow> string + nat) \<Rightarrow> memory \<Rightarrow> nat set \<Rightarrow> (nat \<times> nat) set" where
  "first_rel promote m S = {(b, a). a \<in> S \<and> (\<exists>ob. m a = Some ob \<and> Ref b \<in> set (first_refs promote a ob))}"

lemma closed_source: "source_ok promote m S \<Longrightarrow> closed_in m S S"
  by (fastforce simp: closed_in_def source_ok_def in_source_def list_all_iff)

lemma first_rel_closed:
  assumes ok: "source_ok promote m S" and T: "closed_in m S T" and r: "(c, b) \<in> (first_rel promote m S)\<^sup>*" and b: "b \<in> T"
  shows "c \<in> T"
  using r b
proof (induction rule: converse_rtrancl_induct)
  case (step c d)
  then obtain ob where ob: "m d = Some ob" "Ref c \<in> set (first_refs promote d ob)" "d \<in> T" by (auto simp: first_rel_def)
  have h: "healthy promote m d ob" using ok closed_subset [OF T ob(3)] ob(1) by (auto simp: source_ok_def)
  have "Ref c \<in> set (refs ob)" using first_refs_subset [OF h] ob(2) by blast
  then show ?case using closed_refs [OF T ob(3,1)] by (auto simp: list_all_iff in_source_def)
qed

lemma first_rel_wf:
  assumes ok: "walk_ok True promote m S k" and fin: "finite S"
  shows "wf (first_rel promote m S)"
proof (rule finite_acyclic_wf)
  have s: "source_ok promote m S" using ok by (simp add: walk_ok_def)
  have "first_rel promote m S \<subseteq> S \<times> S"
    using first_rel_closed [OF s closed_source [OF s]] by (auto simp: first_rel_def)
  then show "finite (first_rel promote m S)" using fin by (meson finite_SigmaI finite_subset)
  show "acyclic (first_rel promote m S)"
  proof (rule acyclicI, intro allI notI)
    fix a
    assume "(a, a) \<in> (first_rel promote m S)\<^sup>+"
    then obtain b where b: "(a, b) \<in> (first_rel promote m S)\<^sup>*" "(b, a) \<in> first_rel promote m S" by (meson tranclD2)
    then obtain ob where ob: "a \<in> S" "m a = Some ob" "Ref b \<in> set (first_refs promote a ob)" by (auto simp: first_rel_def)
    then obtain T where T: "closed_in m S T" "a \<notin> T" "list_all (in_source T) (first_refs promote a ob)"
      using ok unfolding walk_ok_def no_late_cycle_def by blast
    then have "b \<in> T" using ob(3) by (auto simp: list_all_iff in_source_def)
    then show False using first_rel_closed [OF s T(1) b(1)] T(2) by blast
  qed
qed

section \<open>The walk returns\<close>

definition value_returns :: "(nat \<Rightarrow> string + nat) \<Rightarrow> copy_state \<Rightarrow> cvalue \<Rightarrow> bool" where
  "value_returns promote st v \<longleftrightarrow> (\<exists>n w st'. dc_copy_value promote n st v = Some (Inr (w, st')))"

definition values_return :: "(nat \<Rightarrow> string + nat) \<Rightarrow> copy_state \<Rightarrow> cvalue list \<Rightarrow> bool" where
  "values_return promote st vs \<longleftrightarrow> (\<exists>n ws st'. copy_values promote n st vs = Some (Inr (ws, st')))"

definition spine_returns :: "(nat \<Rightarrow> string + nat) \<Rightarrow> copy_state \<Rightarrow> cvalue \<Rightarrow> cvalue \<Rightarrow> nat \<Rightarrow> bool" where
  "spine_returns promote st x y d \<longleftrightarrow> (\<exists>n st'. copy_spine promote n st x y d = Some (Inr ((), st')))"

lemma values_return:
  assumes ok: "walk_ok share promote m S k" and fin: "finite S"
  shows "(\<And>v st \<psi> G. v \<in> set vs \<Longrightarrow> copies share promote m S k \<psi> G st \<Longrightarrow> todo S st \<le> u \<Longrightarrow> value_returns promote st v) \<Longrightarrow>
     copies share promote m S k \<psi> G st \<Longrightarrow> todo S st \<le> u \<Longrightarrow> list_all (in_source S) vs \<Longrightarrow> values_return promote st vs"
proof (induction vs arbitrary: st \<psi>)
  case Nil
  then show ?case by (auto simp: values_return_def)
next
  case (Cons v vs)
  have "value_returns promote st v" using Cons.prems(1) [of v] Cons.prems(2,3) by simp
  then obtain n w st1 where w: "dc_copy_value promote n st v = Some (Inr (w, st1))" by (auto simp: value_returns_def)
  have "closed_in m S S" using ok closed_source [of promote m S] by (simp add: walk_ok_def)
  then obtain \<psi>1 where p1: "copies share promote m S k \<psi>1 G st1" "grown \<psi> st \<psi>1 st1"
    using walk_sound [OF ok, of n] w Cons.prems(2,4) unfolding sound_value_def by (metis list.pred_inject(2))
  have "todo S st1 \<le> u" using todo_mono [OF fin p1(2)] Cons.prems(3) by simp
  then have "values_return promote st1 vs"
    using Cons.IH [OF _ p1(1)] Cons.prems(1,4) by (auto intro: Cons.prems(1))
  then obtain n' ws st2 where ws: "copy_values promote n' st1 vs = Some (Inr (ws, st2))" by (auto simp: values_return_def)
  have "copy_values promote (Suc (max n n')) st (v # vs) = Some (Inr (w # ws, st2))"
    using fuel_mono(1) [OF max.cobounded1 w] fuel_mono(2) [OF max.cobounded2 ws] by (simp add: cbind_def creturn_def)
  then show ?case unfolding values_return_def by blast
qed

lemma spine_returns:
  assumes ok: "walk_ok share promote m S k" and fin: "finite S"
    and tv: "\<And>v st \<psi> G. copies share promote m S k \<psi> G st \<Longrightarrow> in_source S v \<Longrightarrow> todo S st \<le> u \<Longrightarrow> value_returns promote st v"
  shows "copies share promote m S k \<psi> (insert d G) st \<Longrightarrow> d \<notin> G \<Longrightarrow> \<psi> d = Some a \<Longrightarrow> a \<in> S \<Longrightarrow> m a = Some (CPair x y) \<Longrightarrow>
     todo S st \<le> u \<Longrightarrow> spine_returns promote st x y d"
proof (induction "todo S st" arbitrary: st \<psi> d G a x y rule: less_induct)
  case (less st \<psi> d G a x y)
  note c = less.prems(1)
  have clo: "closed_in m S S" using ok closed_source [of promote m S] by (simp add: walk_ok_def)
  have S: "in_source S x" "in_source S y" using closed_refs [OF clo less.prems(4,5)] by simp_all
  obtain n1 x' st1 where x': "dc_copy_value promote n1 st x = Some (Inr (x', st1))"
    using tv [OF c S(1) less.prems(6)] by (auto simp: value_returns_def)
  obtain \<psi>1 where p1: "copies share promote m S k \<psi>1 (insert d G) st1" "grown \<psi> st \<psi>1 st1" "related m \<psi>1 st1 x x'"
    using walk_sound [OF ok, of n1] x' c S(1) clo unfolding sound_value_def by metis
  have d1: "\<psi>1 d = Some a" using p1(2) less.prems(3) by (simp add: grown_def)
  have t1: "todo S st1 \<le> todo S st" by (rule todo_mono [OF fin p1(2)])
  have fin2: "spine_returns promote st x y d" if "copy_spine promote (Suc n) st x y d = Some (Inr ((), st'))" for n st'
    unfolding spine_returns_def using that by blast
  show ?case
  proof (cases y)
    case (Val w)
    then show ?thesis using x' by (intro fin2 [of n1]) (simp add: cbind_def creturn_def)
  next
    case (Ref b)
    have bS: "b \<in> S" using S(2) Ref by (simp add: in_source_def)
    have b: "memory st1 b = m b" using bS ok copiesD(2) [OF p1(1), of b] by (auto simp: walk_ok_def)
    show ?thesis
    proof (cases "\<exists>x2 y2. m b = Some (CPair x2 y2)")
      case False
      have "value_returns promote st1 y" using tv [OF p1(1) S(2)] t1 less.prems(6) by simp
      then obtain n2 y' st2 where y': "dc_copy_value promote n2 st1 y = Some (Inr (y', st2))" by (auto simp: value_returns_def)
      have "copy_spine promote (Suc (max n1 n2)) st x y d = Some (Inr ((), set_object st2 d (CPair x' y')))"
        using fuel_mono(1) [OF max.cobounded1 x', of n2] fuel_mono(1) [OF max.cobounded2 y', of n1] Ref b False
        by (simp add: cbind_def creturn_def split: option.split cobject.split)
      then show ?thesis by (rule fin2)
    next
      case True
      then obtain x2 y2 where b2: "m b = Some (CPair x2 y2)" by blast
      show ?thesis
      proof (cases "visited st1 b")
        case (Some w)
        then show ?thesis using x' Ref b b2 by (intro fin2 [of n1]) (simp add: cbind_def creturn_def)
      next
        case None
        define d2 where "d2 = next_addr st1"
        define st2 where "st2 = dc_visited_put (snd (new_object st1 (CPair (Val CH_NIL) (Val CH_NIL)))) b (Ref d2)"
        define st3 where "st3 = set_object st2 d (CPair x' (Ref d2))"
        note A = spine_start [OF p1(1) bS b2 None, folded d2_def, folded st2_def]
        have dd: "d2 \<noteq> d" using A(3) by auto
        have l: "list_all2 (related m (\<psi>1(d2 \<mapsto> b)) st2) (refs (CPair x y)) [x', Ref d2]"
          using related_mono [OF A(2) p1(3)] Ref by (simp add: related_def)
        have "copies share promote m S k (\<psi>1(d2 \<mapsto> b)) (insert d (insert d2 G)) st2" using A(1) by (simp add: insert_commute)
        note F = copies_fill [OF this _ _ less.prems(5) l]
        have F': "copies share promote m S k (\<psi>1(d2 \<mapsto> b)) (insert d2 G) st3"
          using F(1) less.prems(2) dd d1 by (simp add: st3_def numeral_2_eq_2)
        have "visited st3 = (visited st1)(b \<mapsto> Ref d2)" by (simp add: st3_def st2_def set_object_def dc_visited_put_def new_object_def)
        then have t3: "todo S st3 < todo S st1" by (intro todo_put [OF fin bS None]) (auto split: if_splits)
        have "spine_returns promote st3 x2 y2 d2"
          by (rule less.hyps [OF _ F' _ _ bS b2]) (use t1 t3 less.prems(6) A(3) in auto)
        then obtain n2 st' where r: "copy_spine promote n2 st3 x2 y2 d2 = Some (Inr ((), st'))" by (auto simp: spine_returns_def)
        have "copy_spine promote (Suc (max n1 n2)) st x y d = Some (Inr ((), st'))"
          using fuel_mono(1) [OF max.cobounded1 x', of n2] fuel_mono(3) [OF max.cobounded2 r, of n1] Ref b b2 None
          by (simp add: cbind_def new_object_def d2_def st2_def st3_def)
        then show ?thesis by (rule fin2)
      qed
    qed
  qed
qed


lemma value_returns:
  assumes ok: "walk_ok True promote m S k" and fin: "finite S"
  shows "copies True promote m S k \<psi> G st \<Longrightarrow> in_source S v \<Longrightarrow> todo S st \<le> u \<Longrightarrow> value_returns promote st v"
proof (induction u arbitrary: v st \<psi> G rule: less_induct)
  case (less u)
  have clo: "closed_in m S S" using ok closed_source [of promote m S] by (simp add: walk_ok_def)
  have wf: "wf (first_rel promote m S)" by (rule first_rel_wf [OF ok fin])
  have obj: "copies True promote m S k \<psi> G st \<Longrightarrow> a \<in> S \<Longrightarrow> todo S st \<le> u \<Longrightarrow> value_returns promote st (Ref a)" for a \<psi> G st
  proof (induction a arbitrary: st \<psi> G rule: wf_induct_rule [OF wf])
    case (1 a)
    note c = 1(2) and a = 1(3)
    show ?case
    proof (cases "visited st a")
      case (Some w)
      then have "dc_copy_value promote (Suc 0) st (Ref a) = Some (Inr (w, st))" by (simp add: creturn_def)
      then show ?thesis unfolding value_returns_def by blast
    next
      case None
      obtain ob where ob: "m a = Some ob" and h: "healthy promote m a ob" using ok a by (auto simp: walk_ok_def source_ok_def)
      have mem: "memory st a = Some ob" using copiesD(2) [OF c, of a] a ok ob by (auto simp: walk_ok_def)
      have l: "list_all (in_source S) (refs ob)" by (rule closed_refs [OF clo a ob])
      have lt: "value_returns promote st' v" if "todo S st' < todo S st" "copies True promote m S k \<psi>' G' st'" "in_source S v" for st' \<psi>' G' v
        by (rule less.IH [OF _ that(2,3), of "todo S st'"]) (use that(1) 1(4) in auto)
      have first: "values_return promote st us" if us: "us = first_refs promote a ob" for us
      proof (rule values_return [OF ok fin _ c 1(4)])
        show "list_all (in_source S) us" using l first_refs_subset [OF h] by (auto simp: us list_all_iff)
        fix v st' \<psi>' G'
        assume v: "v \<in> set us" and c': "copies True promote m S k \<psi>' G' st'" "todo S st' \<le> u"
        show "value_returns promote st' v"
        proof (cases v)
          case (Val x)
          then have "dc_copy_value promote (Suc 0) st' v = Some (Inr (v, st'))" by (simp add: creturn_def)
          then show ?thesis unfolding value_returns_def by blast
        next
          case (Ref b)
          then have "(b, a) \<in> first_rel promote m S" using v us a ob by (auto simp: first_rel_def)
          moreover have "b \<in> S" using \<open>list_all (in_source S) us\<close> v Ref by (auto simp: list_all_iff in_source_def)
          ultimately show ?thesis using 1(1) [OF _ c'(1) _ c'(2)] Ref by simp
        qed
      qed
      show ?thesis
      proof (cases "copy_plan promote a ob")
        case (Spine x y)
        have p: "m a = Some (CPair x y)" using plan_spine [OF Spine] ob by simp
        define d where "d = next_addr st"
        define st1 where "st1 = dc_visited_put (snd (new_object st (CPair (Val CH_NIL) (Val CH_NIL)))) a (Ref d)"
        note A = spine_start [OF c a p None, folded d_def, folded st1_def]
        have "visited st1 = (visited st)(a \<mapsto> Ref d)" by (simp add: st1_def dc_visited_put_def new_object_def)
        then have t: "todo S st1 < todo S st" by (intro todo_put [OF fin a None]) (auto split: if_splits)
        have "spine_returns promote st1 x y d"
          by (rule spine_returns [OF ok fin _ A(1,3) _ a p order.refl]) (use lt t in auto)
        then obtain n st' where "copy_spine promote n st1 x y d = Some (Inr ((), st'))" by (auto simp: spine_returns_def)
        then have "dc_copy_value promote (Suc n) st (Ref a) = Some (Inr (Ref d, st'))"
          using None mem Spine by (simp add: cbind_def creturn_def new_object_def d_def st1_def)
        then show ?thesis unfolding value_returns_def by blast
      next
        case (Intern name)
        obtain w st' where "ch_gc_intern_symbol st name = (w, st')" by fastforce
        then have "dc_copy_value promote (Suc 0) st (Ref a) = Some (Inr (w, st'))" using None mem Intern by (simp add: creturn_def)
        then show ?thesis unfolding value_returns_def by blast
      next
        case (Before us shell ws mk)
        obtain n1 us' st1 where u: "copy_values promote n1 st us = Some (Inr (us', st1))"
          using first [of us] Before by (auto simp: first_refs_def values_return_def)
        define d where "d = next_addr st1"
        define st1' where "st1' = dc_visited_put (snd (new_object st1 (shell us'))) a (Ref d)"
        have sv: "sound_values True promote m S k n" for n using walk_sound [OF ok] by blast
        obtain \<psi>1 where p1: "copies True promote m S k \<psi>1 (insert d G) st1'" "grown \<psi> st \<psi>1 st1'"
            "list_all2 (related m \<psi>1 st1') us us'"
          using before_start [OF ok sv c clo a ob None Before u] unfolding d_def st1'_def by blast
        have "visited st1' a \<noteq> None" by (simp add: st1'_def dc_visited_put_def)
        then have t: "todo S st1' < todo S st" using p1(2) by (intro todo_put [OF fin a None]) (auto simp: grown_def)
        note P = plan_before [OF Before h]
        have lw: "list_all (in_source S) ws" using l by (simp add: P(2))
        have "values_return promote st1' ws"
          by (rule values_return [OF ok fin _ p1(1) order.refl lw]) (use lt t lw in \<open>auto simp: list_all_iff\<close>)
        then obtain n2 ws' st2 where w: "copy_values promote n2 st1' ws = Some (Inr (ws', st2))" by (auto simp: values_return_def)
        obtain \<psi>2 where "list_all2 (related m \<psi>2 st2) ws ws'" using sv [of n2] w p1(1) lw clo unfolding sound_values_def by blast
        then have mk: "mk us' ws' = Inr (image_of promote a ob (us' @ ws'))"
          using P(3) list_all2_lengthD p1(3) by metis
        have "dc_copy_value promote (Suc (max n1 n2)) st (Ref a) = Some (Inr (Ref d, set_object st2 d (image_of promote a ob (us' @ ws'))))"
          using fuel_mono(2) [OF max.cobounded1 u, of n2] fuel_mono(2) [OF max.cobounded2 w, of n1] None mem Before mk
          by (simp add: cbind_def creturn_def new_object_def d_def st1'_def)
        then show ?thesis unfolding value_returns_def by blast
      next
        case (After ws mk)
        obtain n ws' st1 where w: "copy_values promote n st ws = Some (Inr (ws', st1))"
          using first [of ws] After by (auto simp: first_refs_def values_return_def)
        have sv: "sound_values True promote m S k n" using walk_sound [OF ok] by blast
        have "mk st1 ws' = make_object st1 (image_of promote a ob ws')"
          using after_sound [OF ok sv c clo a ob None After w] by blast
        then obtain v' st2 where "mk st1 ws' = Some (Inr (v', st2))" by (simp add: make_new)
        then have "dc_copy_value promote (Suc n) st (Ref a) = Some (Inr (v', dc_visited_put st2 a v'))"
          using w None mem After by (simp add: cbind_def creturn_def)
        then show ?thesis unfolding value_returns_def by blast
      next
        case (Reject msg)
        then show ?thesis using plan_reject [OF h] by blast
      qed
    qed
  qed
  show ?case
  proof (cases v)
    case (Val x)
    then have "dc_copy_value promote (Suc 0) st v = Some (Inr (v, st))" by (simp add: creturn_def)
    then show ?thesis unfolding value_returns_def by blast
  next
    case (Ref a)
    then show ?thesis using obj [OF less.prems(1) _ less.prems(3)] less.prems(2) by (simp add: in_source_def)
  qed
qed

end
