(* ===== verification/Chaaya_Copy_Properties.thy ===== *)
theory Chaaya_Copy_Properties
  imports Chaaya_Copy_Returns
begin

text \<open>
  What a deep copy guarantees: an image of the source, with the source left as it is; every object once,
  and a result for every source in which no object leads back to itself before its copy is known.
\<close>

section \<open>The image\<close>

definition symbols_ok :: "copy_state \<Rightarrow> bool" where
  "symbols_ok st \<longleftrightarrow> (\<forall>d \<in> set (symtab st). d < next_addr st \<and> (\<exists>name. memory st d = Some (CSymbol name True)))"

text \<open>The origin of every new object that is a copy; the other new objects are interned symbols.\<close>

definition image_by :: "(nat \<Rightarrow> string + nat) \<Rightarrow> nat set \<Rightarrow> (nat \<Rightarrow> nat option) \<Rightarrow> copy_state \<Rightarrow> copy_state \<Rightarrow> bool" where
  "image_by promote S \<psi> st st' \<longleftrightarrow>
     (\<forall>a < next_addr st. memory st' a = memory st a) \<and>
     (\<forall>d a. \<psi> d = Some a \<longrightarrow> next_addr st \<le> d \<and> d < next_addr st' \<and> a \<in> S \<and>
        (\<exists>ob ws. memory st a = Some ob \<and> list_all2 (related (memory st) \<psi> st') (refs ob) ws \<and>
           memory st' d = Some (image_of promote a ob ws)))"

lemma copies_start:
  assumes "symbols_ok st"
  shows "copies share promote (memory st) S (next_addr st) Map.empty {} (st\<lparr>visited := Map.empty\<rparr>)"
  using assms by (simp add: copies_def symbols_ok_def)

lemma copies_image: "copies share promote (memory st) S (next_addr st) \<psi> {} st' \<Longrightarrow> image_by promote S \<psi> st st'"
  using copiesD(2-5,7) [of share promote "memory st" S "next_addr st" \<psi> "{}" st'] unfolding image_by_def by auto

lemma deep_copy_walk:
  assumes ok: "walk_ok share promote (memory st) S (next_addr st)" and sym: "symbols_ok st" and v: "in_source S v"
    and r: "ch_gc_deep_copy promote n st v = Some (Inr (w, st'))"
  obtains \<psi> where "copies share promote (memory st) S (next_addr st) \<psi> {} st'" "related (memory st) \<psi> st' v w"
proof -
  have clo: "closed_in (memory st) S S" using ok closed_source [of promote "memory st" S] by (simp add: walk_ok_def)
  have "sound_value share promote (memory st) S (next_addr st) n" using walk_sound [OF ok] by blast
  note this [unfolded sound_value_def, rule_format, OF r [unfolded ch_gc_deep_copy_def] copies_start [OF sym] clo v]
  then show ?thesis using that by blast
qed


section \<open>Every object once\<close>

text \<open>
  C15. When no object leads back to itself through what is copied before its copy is registered, every
  object is copied at most once, so sharing and cycles of the source are those of the copy.
\<close>

theorem deep_copy_shares:
  assumes "source_ok promote (memory st) S" and "S \<subseteq> {..<next_addr st}" and "no_late_cycle promote (memory st) S"
    and "symbols_ok st" and "in_source S v"
    and "ch_gc_deep_copy promote n st v = Some (Inr (w, st'))"
  shows "\<exists>\<psi>. image_by promote S \<psi> st st' \<and> related (memory st) \<psi> st' v w \<and> inj_on \<psi> (dom \<psi>)"
proof -
  have ok: "walk_ok True promote (memory st) S (next_addr st)" using assms(1-3) by (simp add: walk_ok_def)
  obtain \<psi> where p: "copies True promote (memory st) S (next_addr st) \<psi> {} st'" "related (memory st) \<psi> st' v w"
    using deep_copy_walk [OF ok assms(4-6)] .
  have "inj_on \<psi> (dom \<psi>)"
  proof (rule inj_onI)
    fix d e
    assume "d \<in> dom \<psi>" "\<psi> d = \<psi> e"
    then obtain a where "\<psi> d = Some a" "\<psi> e = Some a" by fastforce
    then show "d = e" using copiesD(12) [OF p(1) TrueI, of d a] copiesD(12) [OF p(1) TrueI, of e a] by simp
  qed
  then show ?thesis using copies_image [OF p(1)] p(2) by blast
qed

text \<open>
  C17. A deep copy of a finite source with well-formed objects that can be copied, in which no object leads
  back to itself before its copy is registered, returns, on cyclic data too.
\<close>

theorem deep_copy_returns:
  assumes "source_ok promote (memory st) S" and "S \<subseteq> {..<next_addr st}" and "no_late_cycle promote (memory st) S"
    and "symbols_ok st" and "in_source S v" and "finite S"
  shows "\<exists>n w st'. ch_gc_deep_copy promote n st v = Some (Inr (w, st'))"
proof -
  have ok: "walk_ok True promote (memory st) S (next_addr st)" using assms(1-3) by (simp add: walk_ok_def)
  have "value_returns promote (st\<lparr>visited := Map.empty\<rparr>) v"
    by (rule value_returns [OF ok assms(6) copies_start [OF assms(4)] assms(5) order.refl])
  then show ?thesis by (simp add: value_returns_def ch_gc_deep_copy_def)
qed

text \<open>The fuel is only a bound: a result is the result with any more of it.\<close>

lemma deep_copy_fuel: "ch_gc_deep_copy promote n st v = Some r \<Longrightarrow> n \<le> n' \<Longrightarrow> ch_gc_deep_copy promote n' st v = Some r"
  unfolding ch_gc_deep_copy_def by (rule fuel_mono)


text \<open>An example: a vector that holds a record and itself, and a string in the record.\<close>

definition example_memory :: memory where
  "example_memory = [0 \<mapsto> CVector [Ref 1, Ref 0], 1 \<mapsto> CRecord 2 [Ref 3], 2 \<mapsto> CRecordType (Ref 4) 1 0 None,
     3 \<mapsto> CString [97], 4 \<mapsto> CSymbol [112] True]"

definition example_start :: copy_state where
  "example_start = \<lparr>memory = example_memory, next_addr = 5, visited = Map.empty, symtab = []\<rparr>"

definition refuse :: "nat \<Rightarrow> string + nat" where "refuse a = Inl ''deep-copy: channel belongs to another OS thread''"

lemma example_ok:
  "source_ok refuse (memory example_start) {0, 1, 2, 3, 4}" "{0, 1, 2, 3, 4} \<subseteq> {..<next_addr example_start}"
  "symbols_ok example_start" "in_source {0, 1, 2, 3, 4} (Ref 0)"
  by (auto simp: source_ok_def example_start_def example_memory_def symbols_ok_def in_source_def)

lemma example_no_late_cycle: "no_late_cycle refuse (memory example_start) {0, 1, 2, 3, 4}"
proof -
  have "closed_in example_memory {0, 1, 2, 3, 4} {}" "closed_in example_memory {0, 1, 2, 3, 4} {4}"
    "closed_in example_memory {0, 1, 2, 3, 4} {2, 3, 4}"
    by (auto simp: closed_in_def example_memory_def in_source_def)
  then show ?thesis
    unfolding no_late_cycle_def example_start_def
    by (auto simp: example_memory_def first_refs_def in_source_def intro: exI [of _ "{}"] exI [of _ "{4}"] exI [of _ "{2, 3, 4}"])
qed

lemma example_run: "\<exists>st'. ch_gc_deep_copy refuse 9 example_start (Ref 0) = Some (Inr (Ref 5, st'))"
  by (simp add: ch_gc_deep_copy_def example_start_def example_memory_def cbind_def creturn_def new_object_def dc_visited_put_def
    ch_gc_intern_symbol_def make_object_def make_record_type_def make_record_def eval_nat_numeral)



lemma deep_copy_shares_witness:
  "\<exists>\<psi> st'. image_by refuse {0, 1, 2, 3, 4} \<psi> example_start st' \<and> related (memory example_start) \<psi> st' (Ref 0) (Ref 5) \<and> inj_on \<psi> (dom \<psi>)"
  using example_run deep_copy_shares [OF example_ok(1,2) example_no_late_cycle example_ok(3,4), of 9] by blast

lemma deep_copy_returns_witness: "\<exists>n w st'. ch_gc_deep_copy refuse n example_start (Ref 0) = Some (Inr (w, st'))"
  by (rule deep_copy_returns [OF example_ok(1,2) example_no_late_cycle example_ok(3,4)]) simp

section \<open>Cycles through objects that are registered late\<close>

lemma copy_values_prefix:
  "copy_values promote n st (us @ v # vs) = Some (Inr r) \<Longrightarrow>
     \<exists>k us' st1 n' w st2. copy_values promote k st us = Some (Inr (us', st1)) \<and> n' < n \<and> dc_copy_value promote n' st1 v = Some (Inr (w, st2))"
proof (induction us arbitrary: n st r)
  case Nil
  then obtain n0 where n: "n = Suc n0" by (cases n) auto
  obtain ws st' where "r = (ws, st')" by fastforce
  then obtain w st2 where w: "dc_copy_value promote n0 st v = Some (Inr (w, st2))"
    using Nil n by (auto simp: cbind_Some)
  have "copy_values promote 0 st [] = Some (Inr ([], st))" by (simp add: creturn_def)
  then show ?case using w n lessI by blast
next
  case (Cons u us)
  obtain n0 where n: "n = Suc n0" using Cons.prems by (cases n) auto
  obtain ws st' where "r = (ws, st')" by fastforce
  then obtain w st1 ws' where w: "dc_copy_value promote n0 st u = Some (Inr (w, st1))"
      "copy_values promote n0 st1 (us @ v # vs) = Some (Inr (ws', st'))"
    using Cons.prems n by (auto simp: cbind_Some)
  obtain k us' st2 n' w' st3 where i: "copy_values promote k st1 us = Some (Inr (us', st2))" "n' < n0"
      "dc_copy_value promote n' st2 v = Some (Inr (w', st3))"
    using Cons.IH [OF w(2)] by blast
  have "copy_values promote (Suc (max n0 k)) st (u # us) = Some (Inr (w # us', st2))"
    using fuel_mono(1) [OF max.cobounded1 w(1)] fuel_mono(2) [OF max.cobounded2 i(1)] by (simp add: cbind_def creturn_def)
  then show ?case using i(2,3) n less_SucI by blast
qed

lemma late_self_reference:
  assumes ok: "walk_ok False promote m S k" and a: "a \<in> S" "m a = Some ob" "copy_plan promote a ob = After (us @ Ref a # vs) mk"
    and T: "closed_in m S T" "a \<notin> T" "list_all (in_source T) us"
  shows "copies False promote m S k \<psi> G st \<Longrightarrow> visited st a = None \<Longrightarrow> dc_copy_value promote n st (Ref a) \<noteq> Some (Inr r)"
proof (induction n arbitrary: st \<psi> r rule: less_induct)
  case (less n)
  show ?case
  proof
    assume e: "dc_copy_value promote n st (Ref a) = Some (Inr r)"
    obtain n0 where n: "n = Suc n0" using e by (cases n) auto
    have mem: "memory st a = Some ob" using copiesD(2) [OF less.prems(1), of a] a ok by (auto simp: walk_ok_def)
    obtain w st' where "r = (w, st')" by fastforce
    then obtain ws st1 where "copy_values promote n0 st (us @ Ref a # vs) = Some (Inr (ws, st1))"
      using e n less.prems(2) mem a(3) by (auto simp: cbind_Some)
    then obtain j us' st2 n' w' st3 where i: "copy_values promote j st us = Some (Inr (us', st2))" "n' < n0"
        "dc_copy_value promote n' st2 (Ref a) = Some (Inr (w', st3))"
      using copy_values_prefix by blast
    have "sound_values False promote m S k j" using walk_sound [OF ok] by blast
    note this [unfolded sound_values_def, rule_format, OF i(1) less.prems(1) T(1,3)]
    then obtain \<psi>' where "copies False promote m S k \<psi>' G st2" "outside T st st2" by blast
    then have "visited st2 a = None" using less.prems(2) T(2) by (simp add: outside_def)
    then show False using less.IH [OF _ \<open>copies False promote m S k \<psi>' G st2\<close>] i(2,3) n by simp
  qed
qed


definition cyclic_record :: copy_state where
  "cyclic_record = \<lparr>memory = [0 \<mapsto> CRecord 1 [Ref 0], 1 \<mapsto> CRecordType (Ref 2) 1 0 None, 2 \<mapsto> CSymbol [112] True],
     next_addr = 3, visited = Map.empty, symtab = []\<rparr>"


text \<open>A record in a cycle through a vector is copied twice: the vector holds another copy than the result.\<close>

definition record_in_vector :: copy_state where
  "record_in_vector = \<lparr>memory = [0 \<mapsto> CRecord 1 [Ref 3], 1 \<mapsto> CRecordType (Ref 2) 1 0 None, 2 \<mapsto> CSymbol [112] True,
     3 \<mapsto> CVector [Ref 0]], next_addr = 4, visited = Map.empty, symtab = []\<rparr>"

lemma deep_copy_splits_record:
  "\<exists>st' t u r r'. ch_gc_deep_copy refuse 12 record_in_vector (Ref 0) = Some (Inr (Ref r, st')) \<and>
     memory st' r = Some (CRecord t [Ref u]) \<and> memory st' u = Some (CVector [Ref r']) \<and> memory st' r' = Some (CRecord t [Ref u]) \<and> r \<noteq> r'"
  by (simp add: ch_gc_deep_copy_def record_in_vector_def cbind_def creturn_def new_object_def dc_visited_put_def set_object_def
    ch_gc_intern_symbol_def make_object_def make_record_type_def make_record_def eval_nat_numeral)

section \<open>Hash tables\<close>

text \<open>The copy of a table loses its procedures, and it counts every slot in use, deleted keys too.\<close>

lemma deep_copy_of_table:
  assumes "source_ok promote (memory st) S" and "S \<subseteq> {..<next_addr st}" and "symbols_ok st" and "a \<in> S"
    and "memory st a = Some (CHashtable mode eqf hsf slots count)"
    and "ch_gc_deep_copy promote n st (Ref a) = Some (Inr (w, st'))"
  shows "\<exists>d ws. w = Ref d \<and> memory st' d = Some (CHashtable mode (Val 0) (Val 0) (fill_slots slots ws) (length (filter (\<lambda>s. s \<noteq> None) slots)))"
proof -
  have ok: "walk_ok False promote (memory st) S (next_addr st)" using assms(1,2) by (simp add: walk_ok_def)
  have v: "in_source S (Ref a)" using assms(4) by (simp add: in_source_def)
  obtain \<psi> where p: "copies False promote (memory st) S (next_addr st) \<psi> {} st'" "related (memory st) \<psi> st' (Ref a) w"
    using deep_copy_walk [OF ok assms(3) v assms(6)] .
  have im: "image_by promote S \<psi> st st'" by (rule copies_image [OF p(1)])
  obtain d where d: "w = Ref d" "\<psi> d = Some a" using p(2) assms(5) by (auto simp: related_def split: cvalue.splits)
  show ?thesis using im d assms(5) unfolding image_by_def by fastforce
qed

end
