(* ===== verification/Chaaya_Copy_Visited.thy ===== *)
theory Chaaya_Copy_Visited
  imports Chaaya_Copy
begin

text \<open>
  The table of visited objects of \<open>src/src/gc_deep_copy.c\<close>: open addressing by the address of the source
  object, with a capacity that is a power of two and at most half of the entries in use. It is the
  map that the walk keeps in \<open>visited\<close>.
\<close>

section \<open>The table\<close>

text \<open>An entry is an object and its copy; an entry whose object is NULL is free.\<close>

type_synonym visited_entry = "(u64 \<times> chvalue) option"

record visited_table =
  visited_entries :: "visited_entry list"
  entry_count :: nat

definition DC_VISITED_INIT_CAP :: nat where "DC_VISITED_INIT_CAP = 64"

definition dc_visited_init :: visited_table where
  "dc_visited_init = \<lparr>visited_entries = replicate DC_VISITED_INIT_CAP None, entry_count = 0\<rparr>"

definition visited_index :: "u64 \<Rightarrow> nat \<Rightarrow> nat" where
  "visited_index src cap = unat (drop_bit 4 src AND (of_nat cap - 1))"

definition visited_next :: "nat \<Rightarrow> nat \<Rightarrow> nat" where
  "visited_next cap idx = unat ((of_nat idx + 1 :: u64) AND (of_nat cap - 1))"

text \<open>The loops end at a free entry; they are given one round for each entry, and give nothing if that does not suffice.\<close>

fun place_loop :: "visited_entry list \<Rightarrow> u64 \<times> chvalue \<Rightarrow> nat \<Rightarrow> nat \<Rightarrow> visited_entry list option" where
  "place_loop es e 0 idx = None"
| "place_loop es e (Suc n) idx =
     (case es ! idx of
        None \<Rightarrow> Some (es[idx := Some e])
      | Some _ \<Rightarrow> place_loop es e n (visited_next (length es) idx))"

fun reinsert :: "visited_entry list \<Rightarrow> visited_entry list \<Rightarrow> visited_entry list option" where
  "reinsert es [] = Some es"
| "reinsert es (None # old) = reinsert es old"
| "reinsert es (Some e # old) =
     (case place_loop es e (length es) (visited_index (fst e) (length es)) of
        None \<Rightarrow> None | Some es' \<Rightarrow> reinsert es' old)"

definition dc_visited_grow :: "visited_table \<Rightarrow> visited_table option" where
  "dc_visited_grow vis =
     map_option (\<lambda>es. vis\<lparr>visited_entries := es\<rparr>) (reinsert (replicate (length (visited_entries vis) * 2) None) (visited_entries vis))"

fun get_loop :: "visited_entry list \<Rightarrow> u64 \<Rightarrow> nat \<Rightarrow> nat \<Rightarrow> chvalue option option" where
  "get_loop es src 0 idx = None"
| "get_loop es src (Suc n) idx =
     (case es ! idx of
        None \<Rightarrow> Some None
      | Some (s, d) \<Rightarrow> if s = src then Some (Some d) else get_loop es src n (visited_next (length es) idx))"

definition dc_visited_get :: "visited_table \<Rightarrow> u64 \<Rightarrow> chvalue option option" where
  "dc_visited_get vis src =
     (if visited_entries vis = [] then Some None
      else get_loop (visited_entries vis) src (length (visited_entries vis)) (visited_index src (length (visited_entries vis))))"

fun put_loop :: "visited_table \<Rightarrow> u64 \<Rightarrow> chvalue \<Rightarrow> nat \<Rightarrow> nat \<Rightarrow> visited_table option" where
  "put_loop vis src dest 0 idx = None"
| "put_loop vis src dest (Suc n) idx =
     (case visited_entries vis ! idx of
        None \<Rightarrow> Some (vis\<lparr>visited_entries := (visited_entries vis)[idx := Some (src, dest)], entry_count := entry_count vis + 1\<rparr>)
      | Some (s, d) \<Rightarrow>
          if s = src then Some (vis\<lparr>visited_entries := (visited_entries vis)[idx := Some (s, dest)]\<rparr>)
          else put_loop vis src dest n (visited_next (length (visited_entries vis)) idx))"

definition visited_put :: "visited_table \<Rightarrow> u64 \<Rightarrow> chvalue \<Rightarrow> visited_table option" where
  "visited_put vis src dest =
     (case (if length (visited_entries vis) \<le> entry_count vis * 2 then dc_visited_grow vis else Some vis) of
        None \<Rightarrow> None
      | Some vis' \<Rightarrow> put_loop vis' src dest (length (visited_entries vis')) (visited_index src (length (visited_entries vis'))))"

fun visited_puts :: "visited_table \<Rightarrow> (u64 \<times> chvalue) list \<Rightarrow> visited_table option" where
  "visited_puts vis [] = Some vis"
| "visited_puts vis ((src, dest) # ps) =
     (case visited_put vis src dest of None \<Rightarrow> None | Some vis' \<Rightarrow> visited_puts vis' ps)"

section \<open>Probing\<close>

text \<open>For a capacity that is a power of two the mask is the remainder.\<close>

definition capacity_ok :: "nat \<Rightarrow> bool" where "capacity_ok cap \<longleftrightarrow> (\<exists>k. 0 < k \<and> k < 64 \<and> cap = 2 ^ k)"

lemma mask_mod:
  assumes "capacity_ok cap"
  shows "unat (x AND (of_nat cap - 1) :: u64) = unat x mod cap"
proof -
  obtain k where k: "k < 64" "cap = 2 ^ k" using assms by (auto simp: capacity_ok_def)
  have "(of_nat cap - 1 :: u64) = mask k" by (simp add: k mask_eq_exp_minus_1)
  then have "unat (x AND (of_nat cap - 1)) = unat (take_bit k x)" by (simp add: take_bit_eq_mask)
  also have "\<dots> = take_bit k (unat x)" by (rule unsigned_take_bit_eq)
  finally show ?thesis by (simp add: k(2) take_bit_eq_mod)
qed

lemma capacity_okD: "capacity_ok cap \<Longrightarrow> 1 < cap \<and> cap < 2 ^ 64"
  using power_strict_increasing [of _ 64 "2::nat"] one_less_power [of "2::nat"] by (fastforce simp: capacity_ok_def)

lemma visited_index_less: "capacity_ok cap \<Longrightarrow> visited_index src cap < cap"
  using capacity_okD [of cap] by (simp add: visited_index_def mask_mod)

lemma visited_next_mod:
  assumes "capacity_ok cap" "idx < cap"
  shows "visited_next cap idx = Suc idx mod cap"
proof -
  have "Suc idx < 2 ^ 64" using assms capacity_okD [of cap] by simp
  then have "unat (of_nat (Suc idx) :: u64) = Suc idx" unfolding unat_of_nat by simp
  then have "unat (of_nat idx + 1 :: u64) = Suc idx" by (simp add: add.commute)
  then show ?thesis by (simp add: visited_next_def mask_mod [OF assms(1)])
qed

lemma visited_next_probe: "capacity_ok cap \<Longrightarrow> visited_next cap (probe cap h j) = probe cap h (Suc j)"
  using visited_next_mod [of cap "probe cap h j"] capacity_okD [of cap] by (simp add: probe_less probe_step)

text \<open>
  The first entry along the probes that satisfies a condition; the three loops look for the first that
  is free or has the key.
\<close>

definition first_probe :: "visited_entry list \<Rightarrow> nat \<Rightarrow> (visited_entry \<Rightarrow> bool) \<Rightarrow> nat \<Rightarrow> bool" where
  "first_probe es h Q j \<longleftrightarrow> j < length es \<and> Q (es ! probe (length es) h j) \<and> (\<forall>j'<j. \<not> Q (es ! probe (length es) h j'))"

lemma first_probe_exists:
  assumes "h < length es" "i < length es" "Q (es ! i)"
  obtains j where "first_probe es h Q j"
proof -
  obtain j where j: "j < length es" "i = probe (length es) h j" using probe_all [OF assms(2,1)] by blast
  define m where "m = (LEAST j. Q (es ! probe (length es) h j))"
  have "Q (es ! probe (length es) h m)" "m \<le> j" "\<forall>j'<m. \<not> Q (es ! probe (length es) h j')"
    using assms(3) j(2) unfolding m_def by (auto intro: LeastI Least_le dest: not_less_Least)
  then show ?thesis using that [of m] j(1) by (auto simp: first_probe_def)
qed

lemma place_loop_probe:
  assumes c: "capacity_ok (length es)" and f: "first_probe es h (\<lambda>e. e = None) j"
  shows "i \<le> j \<Longrightarrow> j < i + n \<Longrightarrow> place_loop es e n (probe (length es) h i) = Some (es[probe (length es) h j := Some e])"
proof (induction n arbitrary: i)
  case (Suc n)
  show ?case
  proof (cases "i = j")
    case False
    then obtain x where "es ! probe (length es) h i = Some x" using f Suc.prems unfolding first_probe_def by fastforce
    then show ?thesis using Suc False by (simp add: visited_next_probe [OF c])
  qed (use f in \<open>simp add: first_probe_def\<close>)
qed simp

lemma get_loop_probe:
  assumes c: "capacity_ok (length es)" and f: "first_probe es h (\<lambda>e. e = None \<or> fst (the e) = src) j"
  shows "i \<le> j \<Longrightarrow> j < i + n \<Longrightarrow> get_loop es src n (probe (length es) h i) = Some (map_option snd (es ! probe (length es) h j))"
proof (induction n arbitrary: i)
  case (Suc n)
  show ?case
  proof (cases "i = j")
    case True
    then show ?thesis using f by (auto simp: first_probe_def split: option.splits)
  next
    case False
    then have "es ! probe (length es) h i \<noteq> None" "fst (the (es ! probe (length es) h i)) \<noteq> src"
      using f Suc.prems by (auto simp: first_probe_def)
    then show ?thesis using Suc False by (auto simp: visited_next_probe [OF c])
  qed
qed simp

definition put_at :: "visited_table \<Rightarrow> nat \<Rightarrow> u64 \<Rightarrow> chvalue \<Rightarrow> visited_table" where
  "put_at vis i src dest =
     vis\<lparr>visited_entries := (visited_entries vis)[i := Some (src, dest)],
       entry_count := entry_count vis + (if visited_entries vis ! i = None then 1 else 0)\<rparr>"

lemma put_loop_probe:
  assumes c: "capacity_ok (length (visited_entries vis))" and f: "first_probe (visited_entries vis) h (\<lambda>e. e = None \<or> fst (the e) = src) j"
  shows "i \<le> j \<Longrightarrow> j < i + n \<Longrightarrow>
    put_loop vis src dest n (probe (length (visited_entries vis)) h i) = Some (put_at vis (probe (length (visited_entries vis)) h j) src dest)"
proof (induction n arbitrary: i)
  case (Suc n)
  let ?c = "length (visited_entries vis)"
  show ?case
  proof (cases "i = j")
    case True
    then show ?thesis using f by (auto simp: first_probe_def put_at_def split: option.splits)
  next
    case False
    then have "visited_entries vis ! probe ?c h i \<noteq> None" "fst (the (visited_entries vis ! probe ?c h i)) \<noteq> src"
      using f Suc.prems by (auto simp: first_probe_def)
    then show ?thesis using Suc False by (auto simp: visited_next_probe [OF c])
  qed
qed simp


section \<open>The table is a map\<close>

abbreviation stop_at :: "u64 \<Rightarrow> visited_entry \<Rightarrow> bool" where "stop_at s \<equiv> \<lambda>e. e = None \<or> fst (the e) = s"

text \<open>Every entry is the first along the probes from its key that is free or has the key.\<close>

definition entries_rep :: "visited_entry list \<Rightarrow> (u64 \<rightharpoonup> chvalue) \<Rightarrow> bool" where
  "entries_rep es f \<longleftrightarrow> capacity_ok (length es) \<and> (\<forall>s d. f s = Some d \<longleftrightarrow> Some (s, d) \<in> set es) \<and>
     (\<forall>i s d. i < length es \<longrightarrow> es ! i = Some (s, d) \<longrightarrow>
        (\<exists>j. first_probe es (visited_index s (length es)) (stop_at s) j \<and> i = probe (length es) (visited_index s (length es)) j))"

definition used :: "visited_entry list \<Rightarrow> nat" where "used es = card {i. i < length es \<and> es ! i \<noteq> None}"

definition visited_rep :: "visited_table \<Rightarrow> (u64 \<rightharpoonup> chvalue) \<Rightarrow> bool" where
  "visited_rep vis f \<longleftrightarrow>
     entries_rep (visited_entries vis) f \<and> entry_count vis = used (visited_entries vis) \<and> entry_count vis * 2 \<le> length (visited_entries vis)"

lemma first_probe_less: "first_probe es h Q j \<Longrightarrow> probe (length es) h j < length es"
  unfolding first_probe_def by (intro probe_less) auto

lemma first_probe_unique: "first_probe es h Q j \<Longrightarrow> first_probe es h Q j' \<Longrightarrow> j = j'"
  unfolding first_probe_def by (meson linorder_neqE_nat)

lemma entries_repD:
  assumes "entries_rep es f"
  shows "capacity_ok (length es)" "f s = Some d \<longleftrightarrow> Some (s, d) \<in> set es"
    "i < length es \<Longrightarrow> es ! i = Some (s, d) \<Longrightarrow> first_probe es (visited_index s (length es)) (stop_at s) j \<Longrightarrow>
       i = probe (length es) (visited_index s (length es)) j"
    "i < length es \<Longrightarrow> es ! i = Some (s, d) \<Longrightarrow>
       \<exists>j. first_probe es (visited_index s (length es)) (stop_at s) j \<and> i = probe (length es) (visited_index s (length es)) j"
  using assms first_probe_unique unfolding entries_rep_def by blast+

lemma probe_stops:
  assumes "capacity_ok (length es)" "used es < length es"
  obtains j where "first_probe es (visited_index s (length es)) (stop_at s) j"
proof -
  have "{i. i < length es \<and> es ! i \<noteq> None} \<noteq> {..<length es}" using assms(2) unfolding used_def by (metis card_lessThan less_irrefl)
  then obtain i where "i < length es" "es ! i = None" by blast
  then show ?thesis using first_probe_exists [OF visited_index_less [OF assms(1)], of i "stop_at s"] that by blast
qed

lemma rep_at_stop:
  assumes r: "entries_rep es f" and j: "first_probe es (visited_index s (length es)) (stop_at s) j"
  shows "f s = map_option snd (es ! probe (length es) (visited_index s (length es)) j)"
proof (cases "es ! probe (length es) (visited_index s (length es)) j")
  case None
  have "f s = None"
  proof (rule ccontr)
    assume "f s \<noteq> None"
    then obtain d i where "i < length es" "es ! i = Some (s, d)" using entries_repD(2) [OF r] by (fastforce simp: in_set_conv_nth)
    then show False using entries_repD(3) [OF r _ _ j] None by auto
  qed
  then show ?thesis using None by simp
next
  case (Some e)
  have "probe (length es) (visited_index s (length es)) j < length es"
    by (rule first_probe_less [OF j])
  then have "Some e \<in> set es" using Some by (metis nth_mem)
  moreover have "e = (s, snd e)" using j Some by (auto simp: first_probe_def)
  ultimately show ?thesis using Some entries_repD(2) [OF r, of s "snd e"] by simp
qed

lemma get_is_lookup:
  assumes "visited_rep vis f"
  shows "dc_visited_get vis s = Some (f s)"
proof -
  have r: "entries_rep (visited_entries vis) f" using assms by (simp add: visited_rep_def)
  have c: "capacity_ok (length (visited_entries vis))" using entries_repD(1) [OF r] .
  have "used (visited_entries vis) < length (visited_entries vis)" using assms capacity_okD [OF c] by (auto simp: visited_rep_def)
  then obtain j where j: "first_probe (visited_entries vis) (visited_index s (length (visited_entries vis))) (stop_at s) j" using probe_stops [OF c] by blast
  have "visited_entries vis \<noteq> []" using capacity_okD [OF c] by auto
  then show ?thesis
    using get_loop_probe [OF c j, of 0 "length (visited_entries vis)"] j rep_at_stop [OF r j] visited_index_less [OF c]
    by (simp add: dc_visited_get_def probe_0 first_probe_def)
qed

lemma rep_update:
  assumes r: "entries_rep es f" and j: "first_probe es (visited_index s (length es)) (stop_at s) j"
  defines "p \<equiv> probe (length es) (visited_index s (length es)) j"
  shows "entries_rep (es[p := Some (s, d)]) (f(s \<mapsto> d))"
    and "used (es[p := Some (s, d)]) = used es + (if es ! p = None then 1 else 0)"
proof -
  let ?es = "es[p := Some (s, d)]"
  have p: "p < length es" unfolding p_def by (rule first_probe_less [OF j])
  have stop: "stop_at s (es ! p)" using j by (simp add: first_probe_def p_def)
  have other: "s' \<noteq> s" if "i < length es" "es ! i = Some (s', d')" "i \<noteq> p" for i s' d'
    using entries_repD(3) [OF r that(1) _ j] that by (auto simp: p_def)
  have m: "(f(s \<mapsto> d)) s' = Some d' \<longleftrightarrow> Some (s', d') \<in> set ?es" for s' d'
  proof
    assume l: "(f(s \<mapsto> d)) s' = Some d'"
    show "Some (s', d') \<in> set ?es"
    proof (cases "s' = s")
      case True
      then show ?thesis using l p set_update_memI [OF p] by simp
    next
      case False
      then obtain i where i: "i < length es" "es ! i = Some (s', d')" using l entries_repD(2) [OF r, of s' d'] by (auto simp: in_set_conv_nth)
      then have "i \<noteq> p" using stop False by auto
      then show ?thesis using i by (metis length_list_update nth_list_update_neq nth_mem)
    qed
  next
    assume "Some (s', d') \<in> set ?es"
    then obtain i where i: "i < length es" "?es ! i = Some (s', d')" by (auto simp: in_set_conv_nth)
    show "(f(s \<mapsto> d)) s' = Some d'"
    proof (cases "i = p")
      case False
      then have "es ! i = Some (s', d')" using i by simp
      then show ?thesis using other [OF i(1) _ False] entries_repD(2) [OF r, of s' d'] i(1) by (auto simp: in_set_conv_nth)
    qed (use i p in simp)
  qed
  have reach: "\<exists>j. first_probe ?es (visited_index s' (length ?es)) (stop_at s') j \<and> i = probe (length ?es) (visited_index s' (length ?es)) j"
    if i: "i < length ?es" "?es ! i = Some (s', d')" for i s' d'
  proof (cases "i = p")
    case True
    then have s': "s' = s" using i p by simp
    have "\<not> stop_at s (?es ! probe (length es) (visited_index s (length es)) j')" if "j' < j" for j'
      using j that stop by (cases "probe (length es) (visited_index s (length es)) j' = p") (auto simp: first_probe_def)
    then have "first_probe ?es (visited_index s (length es)) (stop_at s) j" using j p by (simp add: first_probe_def flip: p_def)
    then show ?thesis using s' True by (auto simp: p_def)
  next
    case False
    then have e: "es ! i = Some (s', d')" "i < length es" using i by simp_all
    have s': "s' \<noteq> s" by (rule other [OF e(2,1) False])
    obtain j2 where j2: "first_probe es (visited_index s' (length es)) (stop_at s') j2" "i = probe (length es) (visited_index s' (length es)) j2"
      using entries_repD(4) [OF r e(2,1)] by blast
    have "\<not> stop_at s' (?es ! probe (length es) (visited_index s' (length es)) j')" if "j' < j2" for j'
      using j2(1) that s' p by (cases "probe (length es) (visited_index s' (length es)) j' = p") (auto simp: first_probe_def)
    then have "first_probe ?es (visited_index s' (length es)) (stop_at s') j2"
      using j2 e False by (simp add: first_probe_def)
    then show ?thesis using j2(2) by auto
  qed
  show "entries_rep ?es (f(s \<mapsto> d))" using entries_repD(1) [OF r] m reach unfolding entries_rep_def by simp
  have "{i. i < length ?es \<and> ?es ! i \<noteq> None} = insert p {i. i < length es \<and> es ! i \<noteq> None}"
    using p by (auto simp: nth_list_update)
  then show "used ?es = used es + (if es ! p = None then 1 else 0)"
    using p by (simp add: used_def card_insert_if)
qed


section \<open>Growing\<close>

definition in_use :: "visited_entry list \<Rightarrow> (u64 \<times> chvalue) list" where
  "in_use es = map the (filter (\<lambda>e. e \<noteq> None) es)"

lemma in_use_simps [simp]: "in_use [] = []" "in_use (None # es) = in_use es" "in_use (Some e # es) = e # in_use es"
  by (simp_all add: in_use_def)

lemma set_in_use: "set (in_use es) = {e. Some e \<in> set es}"
  by (induction es) (auto simp: in_use_def split: option.splits)

lemma used_in_use: "used es = length (in_use es)"
  by (simp add: used_def in_use_def length_filter_conv_card)

lemma distinct_in_use:
  "(\<And>i j s d d'. i < length es \<Longrightarrow> j < length es \<Longrightarrow> es ! i = Some (s, d) \<Longrightarrow> es ! j = Some (s, d') \<Longrightarrow> i = j) \<Longrightarrow>
     distinct (map fst (in_use es))"
proof (induction es)
  case (Cons e es)
  have "distinct (map fst (in_use es))"
  proof (rule Cons.IH)
    fix i j s d d'
    assume "i < length es" "j < length es" "es ! i = Some (s, d)" "es ! j = Some (s, d')"
    then show "i = j" using Cons.prems [of "Suc i" "Suc j" s d d'] by simp
  qed
  moreover have "s \<notin> fst ` set (in_use es)" if e: "e = Some (s, d)" for s d
  proof
    assume "s \<in> fst ` set (in_use es)"
    then obtain d' j where "j < length es" "es ! j = Some (s, d')" by (auto simp: set_in_use in_set_conv_nth)
    then show False using Cons.prems [of 0 "Suc j" s d d'] e by simp
  qed
  ultimately show ?case by (cases e) force+
qed simp

lemma rep_in_use:
  assumes "entries_rep es f"
  shows "distinct (map fst (in_use es))" and "map_of (in_use es) = f"
proof -
  have u: "i = j" if "i < length es" "j < length es" "es ! i = Some (s, d)" "es ! j = Some (s, d')" for i j s d d'
    using entries_repD(4) [OF assms that(1,3)] entries_repD(3) [OF assms that(2,4)] by blast
  show d: "distinct (map fst (in_use es))" by (rule distinct_in_use) (rule u)
  show "map_of (in_use es) = f"
  proof (intro ext)
    fix s
    show "map_of (in_use es) s = f s"
    proof (cases "f s")
      case None
      then have "Some (s, b) \<notin> set es" for b using entries_repD(2) [OF assms, of s b] by simp
      then have "s \<notin> fst ` set (in_use es)" by (auto simp: set_in_use)
      then show ?thesis using None by (metis map_of_eq_None_iff)
    next
      case (Some x)
      then have "(s, x) \<in> set (in_use es)" using entries_repD(2) [OF assms, of s x] by (simp add: set_in_use)
      then show ?thesis using d Some by simp
    qed
  qed
qed

lemma reinsert_all:
  "entries_rep es f \<Longrightarrow> used es + length (in_use old) < length es \<Longrightarrow> distinct (map fst (in_use old)) \<Longrightarrow>
     (\<And>s. s \<in> fst ` set (in_use old) \<Longrightarrow> f s = None) \<Longrightarrow>
     \<exists>es'. reinsert es old = Some es' \<and> entries_rep es' (f ++ map_of (in_use old)) \<and> length es' = length es \<and>
       used es' = used es + length (in_use old)"
proof (induction old arbitrary: es f)
  case (Cons e old)
  show ?case
  proof (cases e)
    case None
    then show ?thesis using Cons by simp
  next
    case (Some e')
    obtain s d where e': "e' = (s, d)" by fastforce
    note r = Cons.prems(1)
    let ?h = "visited_index s (length es)"
    have c: "capacity_ok (length es)" using entries_repD(1) [OF r] .
    obtain j where j: "first_probe es ?h (stop_at s) j" using probe_stops [OF c] Cons.prems(2) by auto
    have free: "es ! probe (length es) ?h j = None"
      using rep_at_stop [OF r j] Cons.prems(4) [of s] Some e' by simp
    then have "first_probe es ?h (\<lambda>e. e = None) j" using j by (auto simp: first_probe_def)
    from place_loop_probe [OF c this, of 0 "length es" e'] have p: "place_loop es e' (length es) ?h = Some (es[probe (length es) ?h j := Some (s, d)])"
      using j visited_index_less [OF c] e' by (simp add: probe_0 first_probe_def)
    let ?es = "es[probe (length es) ?h j := Some (s, d)]"
    have u: "entries_rep ?es (f(s \<mapsto> d))" "used ?es = used es + 1" using rep_update [OF r j, of d] free by simp_all
    have none: "(f(s \<mapsto> d)) s' = None" if "s' \<in> fst ` set (in_use old)" for s'
      using that Cons.prems(3) Cons.prems(4) [of s'] Some e' by auto
    have "used ?es + length (in_use old) < length ?es" "distinct (map fst (in_use old))" using u(2) Cons.prems(2,3) Some by simp_all
    from Cons.IH [OF u(1) this none]
    obtain es' where "reinsert ?es old = Some es'" "entries_rep es' (f(s \<mapsto> d) ++ map_of (in_use old))"
        "length es' = length es" "used es' = used es + 1 + length (in_use old)"
      unfolding u(2) by (auto simp del: fun_upd_apply)
    moreover have eq: "f(s \<mapsto> d) ++ map_of (in_use old) = f ++ map_of ((s, d) # in_use old)"
      using Cons.prems(3) Some e' by (simp add: map_add_upd_left dom_map_of_conv_image_fst)
    ultimately show ?thesis using p unfolding Some e' in_use_simps eq [symmetric] by simp
  qed
qed simp

lemma rep_empty: "capacity_ok cap \<Longrightarrow> entries_rep (replicate cap None) Map.empty"
  by (auto simp: entries_rep_def)

lemma used_empty: "used (replicate cap None) = 0"
  by (simp add: used_def)

lemma grow_rep:
  assumes r: "visited_rep vis f" and full: "length (visited_entries vis) \<le> entry_count vis * 2" and room: "entry_count vis < 2 ^ 62"
  shows "\<exists>vis'. dc_visited_grow vis = Some vis' \<and> entries_rep (visited_entries vis') f \<and> entry_count vis' = used (visited_entries vis') \<and>
    entry_count vis' = entry_count vis \<and> entry_count vis * 2 < length (visited_entries vis')"
proof -
  let ?es = "visited_entries vis" and ?new = "replicate (length (visited_entries vis) * 2) (None :: visited_entry)"
  have e: "entries_rep ?es f" and n: "entry_count vis = length (in_use ?es)" "entry_count vis * 2 \<le> length ?es"
    using r by (simp_all add: visited_rep_def used_in_use)
  obtain k where k: "0 < k" "k < 64" "length ?es = 2 ^ k" using entries_repD(1) [OF e] by (auto simp: capacity_ok_def)
  have "(2::nat) ^ k < 2 ^ 63" using full room k(3) by simp
  then have "k < 63" by (rule power_less_imp_less_exp [rotated]) simp
  then have c: "capacity_ok (length ?es * 2)" unfolding capacity_ok_def k(3) by (intro exI [of _ "Suc k"]) simp
  have lt: "length (in_use ?es) < length ?es * 2" "0 < length ?es" using n k(3) zero_less_power [of "2::nat" k] by linarith+
  obtain es' where "reinsert ?new ?es = Some es'" "entries_rep es' (Map.empty ++ map_of (in_use ?es))" "length es' = length ?es * 2"
      "used es' = length (in_use ?es)"
    using reinsert_all [OF rep_empty [OF c], of ?es] rep_in_use(1) [OF e] lt(1) by (auto simp: used_empty)
  moreover have "length (in_use ?es) < length ?es" using n lt(2) by linarith
  ultimately show ?thesis using n rep_in_use(2) [OF e] by (simp add: dc_visited_grow_def)
qed

lemma put_rep:
  assumes r: "visited_rep vis f" and room: "entry_count vis < 2 ^ 62"
  shows "\<exists>vis'. visited_put vis s d = Some vis' \<and> visited_rep vis' (f(s \<mapsto> d)) \<and> entry_count vis' \<le> entry_count vis + 1"
proof -
  obtain vis1 where v: "(if length (visited_entries vis) \<le> entry_count vis * 2 then dc_visited_grow vis else Some vis) = Some vis1"
      "entries_rep (visited_entries vis1) f" "entry_count vis1 = used (visited_entries vis1)" "entry_count vis1 = entry_count vis"
      "entry_count vis1 * 2 < length (visited_entries vis1)"
  proof (cases "length (visited_entries vis) \<le> entry_count vis * 2")
    case True
    then show ?thesis using grow_rep [OF r True room] that by auto
  next
    case False
    then show ?thesis using r that [of vis] by (simp add: visited_rep_def)
  qed
  let ?es = "visited_entries vis1"
  let ?h = "visited_index s (length ?es)"
  have c: "capacity_ok (length ?es)" using entries_repD(1) [OF v(2)] .
  obtain j where j: "first_probe ?es ?h (stop_at s) j" using probe_stops [OF c] v(3,5) by auto
  have p: "visited_put vis s d = Some (put_at vis1 (probe (length ?es) ?h j) s d)"
    using put_loop_probe [OF c j, of 0 "length ?es"] j v(1) visited_index_less [OF c] by (simp add: visited_put_def probe_0 first_probe_def)
  note u = rep_update [OF v(2) j, of d]
  obtain k where "0 < k" "length ?es = 2 ^ k" using c by (auto simp: capacity_ok_def)
  then have "even (length ?es)" by simp
  then have "visited_rep (put_at vis1 (probe (length ?es) ?h j) s d) (f(s \<mapsto> d))"
    using u v(3,5) by (auto simp: visited_rep_def put_at_def elim!: evenE)
  then show ?thesis using p v(4) by (simp add: put_at_def)
qed

lemma visited_puts_rep:
  "visited_rep vis f \<Longrightarrow> entry_count vis + length ps < 2 ^ 62 \<Longrightarrow>
     \<exists>vis'. visited_puts vis ps = Some vis' \<and> visited_rep vis' (f ++ map_of (rev ps))"
proof (induction ps arbitrary: vis f)
  case (Cons q ps)
  obtain s d where q: "q = (s, d)" by fastforce
  obtain vis1 where v: "visited_put vis s d = Some vis1" "visited_rep vis1 (f(s \<mapsto> d))" "entry_count vis1 \<le> entry_count vis + 1"
    using put_rep [OF Cons.prems(1), of s d] Cons.prems(2) by auto
  have eq: "f ++ map_of (rev (q # ps)) = f(s \<mapsto> d) ++ map_of (rev ps)"
    by (intro ext) (simp add: q map_of_append map_add_def split: option.split)
  have "entry_count vis1 + length ps < 2 ^ 62" using v(3) Cons.prems(2) by simp
  from Cons.IH [OF v(2) this] show ?case unfolding q visited_puts.simps v(1) option.case eq [unfolded q] .
qed simp

text \<open>
  C37. After any sequence of insertions, with the growth and rehashing they cause, the table of visited
  objects finds for every address the copy that was entered last, and every probe ends.
\<close>

theorem visited_table_is_map:
  assumes "length ps < 2 ^ 62"
  shows "\<exists>vis. visited_puts dc_visited_init ps = Some vis \<and> (\<forall>s. dc_visited_get vis s = Some (map_of (rev ps) s))"
proof -
  have "capacity_ok DC_VISITED_INIT_CAP" unfolding capacity_ok_def DC_VISITED_INIT_CAP_def by (intro exI [of _ 6]) simp
  then have "visited_rep dc_visited_init Map.empty"
    by (simp add: visited_rep_def dc_visited_init_def rep_empty used_empty)
  from visited_puts_rep [OF this, of ps] show ?thesis
    using assms get_is_lookup by (fastforce simp: dc_visited_init_def)
qed

lemma visited_table_is_map_witness:
  "\<exists>vis. visited_puts dc_visited_init [(0x10, 1), (0x410, 2), (0x10, 3)] = Some vis \<and> dc_visited_get vis 0x10 = Some (Some 3)"
  using visited_table_is_map [of "[(0x10, 1), (0x410, 2), (0x10, 3)]"] by auto

end
