(* ===== verification/Chaaya_Math.thy ===== *)
theory Chaaya_Math
  imports Chaaya_Prims "HOL-Library.Monad_Syntax"
begin

text \<open>
  The exact part of \<open>src/src/prim_math.c\<close>: rounding of rationals, the division operators, greatest common
  divisor and least common multiple, powers and integer square roots. As in
  \<open>Chaaya_Rational\<close>, \<open>None\<close> stands for a computation that does not return.
\<close>

section \<open>Rounding\<close>

definition rational_trunc_quot :: "exnum \<Rightarrow> exnum option" where
  "rational_trunc_quot v = (case ch_exact_parts v of (num, den) \<Rightarrow> ch_bignum_quotient num den)"

definition rational_floor :: "exnum \<Rightarrow> exnum option" where
  "rational_floor v =
     (case ch_exact_parts v of (num, den) \<Rightarrow> do {
        q \<leftarrow> ch_bignum_quotient num den;
        r \<leftarrow> ch_bignum_remainder num den;
        Some (if \<not> is_zero_int r \<and> ch_bignum_compare num (fixnum 0) < 0 then ch_bignum_sub q (fixnum 1) else q)
      })"

definition rational_ceiling :: "exnum \<Rightarrow> exnum option" where
  "rational_ceiling v =
     (case ch_exact_parts v of (num, den) \<Rightarrow> do {
        q \<leftarrow> ch_bignum_quotient num den;
        r \<leftarrow> ch_bignum_remainder num den;
        Some (if \<not> is_zero_int r \<and> 0 < ch_bignum_compare num (fixnum 0) then ch_bignum_add q (fixnum 1) else q)
      })"

definition is_even_int :: "exnum \<Rightarrow> bool" where
  "is_even_int v =
     (case v of
        Imm w \<Rightarrow> is_fixnum v \<and> ch_to_fixnum w AND 1 = 0
      | Big ls p \<Rightarrow> ls = [] \<or> ls ! 0 AND 1 = 0
      | Rat _ _ \<Rightarrow> False)"

definition rational_round :: "exnum \<Rightarrow> exnum option" where
  "rational_round v =
     (case ch_exact_parts v of (num, den) \<Rightarrow> do {
        q \<leftarrow> ch_bignum_quotient num den;
        rem \<leftarrow> ch_bignum_remainder num den;
        let away = (if ch_bignum_compare rem (fixnum 0) < 0 then ch_bignum_sub q (fixnum 1) else ch_bignum_add q (fixnum 1));
        let cmp = ch_bignum_compare (ch_bignum_mul (ch_bignum_abs rem) (fixnum 2)) den;
        Some (if is_zero_int rem then q
              else if cmp < 0 then q
              else if 0 < cmp then away
              else if is_even_int q then q else away)
      })"

section \<open>Division\<close>

text \<open>The operands are checked first; an error is a text, a result comes after it in the sum.\<close>

definition division_error :: "string \<Rightarrow> exnum \<Rightarrow> exnum \<Rightarrow> string option" where
  "division_error who a b =
     (if \<not> is_exact_integer a \<or> \<not> is_exact_integer b then Some (who @ '': expected exact integers'')
      else if is_zero_int b then Some (who @ '': division by zero'')
      else None)"

definition signs_differ :: "exnum \<Rightarrow> exnum \<Rightarrow> bool" where
  "signs_differ a b \<longleftrightarrow> (ch_bignum_compare a (fixnum 0) < 0) \<noteq> (ch_bignum_compare b (fixnum 0) < 0)"

definition exact_modulo :: "exnum \<Rightarrow> exnum \<Rightarrow> (string + exnum) option" where
  "exact_modulo a b =
     (case division_error ''modulo'' a b of
        Some e \<Rightarrow> Some (Inl e)
      | None \<Rightarrow> do {
          q \<leftarrow> ch_bignum_quotient a b;
          r \<leftarrow> ch_bignum_remainder a b;
          Some (Inr (if \<not> is_zero_int r \<and> signs_differ a b
                     then ch_bignum_sub a (ch_bignum_mul (ch_bignum_sub q (fixnum 1)) b) else r))
        })"

definition exact_div_pair :: "string \<Rightarrow> bool \<Rightarrow> exnum \<Rightarrow> exnum \<Rightarrow> (string + exnum \<times> exnum) option" where
  "exact_div_pair who use_floor a b =
     (case division_error who a b of
        Some e \<Rightarrow> Some (Inl e)
      | None \<Rightarrow> do {
          q \<leftarrow> ch_bignum_quotient a b;
          r \<leftarrow> ch_bignum_remainder a b;
          Some (Inr (if use_floor \<and> \<not> is_zero_int r \<and> signs_differ a b
                     then (ch_bignum_sub q (fixnum 1), ch_bignum_add r b) else (q, r)))
        })"

definition exact_div_quotient :: "string \<Rightarrow> bool \<Rightarrow> exnum \<Rightarrow> exnum \<Rightarrow> (string + exnum) option" where
  "exact_div_quotient who use_floor a b =
     (case division_error who a b of
        Some e \<Rightarrow> Some (Inl e)
      | None \<Rightarrow> do {
          q \<leftarrow> ch_bignum_quotient a b;
          r \<leftarrow> ch_bignum_remainder a b;
          Some (Inr (if use_floor \<and> \<not> is_zero_int r \<and> signs_differ a b then ch_bignum_sub q (fixnum 1) else q))
        })"

definition exact_div_remainder :: "string \<Rightarrow> bool \<Rightarrow> exnum \<Rightarrow> exnum \<Rightarrow> (string + exnum) option" where
  "exact_div_remainder who use_floor a b =
     (case division_error who a b of
        Some e \<Rightarrow> Some (Inl e)
      | None \<Rightarrow> do {
          r \<leftarrow> ch_bignum_remainder a b;
          Some (Inr (if use_floor \<and> \<not> is_zero_int r \<and> signs_differ a b then ch_bignum_add r b else r))
        })"

text \<open>Operands whose division is exact, as \<open>bignum_division_exact\<close> has it.\<close>

definition divides_well :: "exnum \<Rightarrow> exnum \<Rightarrow> bool" where
  "divides_well a b \<longleftrightarrow> wf_int a \<and> wf_int b \<and> exact_int b \<noteq> 0 \<and> exact_division (view_mag a) (view_mag b)"

lemma one_limb_divides: "wf_int a \<Longrightarrow> wf_int b \<Longrightarrow> one_limb b \<Longrightarrow> exact_int b \<noteq> 0 \<Longrightarrow> divides_well a b"
  by (simp add: divides_well_def one_limb_exact)

lemma divides_wellD:
  assumes "divides_well a b"
  obtains q r where "ch_bignum_quotient a b = Some q" "ch_bignum_remainder a b = Some r" "canonical_int q" "canonical_int r"
    "wf_int q" "wf_int r" "exact_int q = quot_trunc (exact_int a) (exact_int b)" "exact_int r = rem_trunc (exact_int a) (exact_int b)"
    "wf_int a" "wf_int b" "exact_int b \<noteq> 0"
  using assms quotient_int [of a b] remainder_int [of a b] canonical_wf unfolding divides_well_def by metis

lemma fixnum_2: "exact_int (fixnum 2) = 2"
  by (simp add: fixnum_value CH_FIXNUM_MIN_def CH_FIXNUM_MAX_def)

text \<open>The sign tests of the code.\<close>

lemma compare_with_zero [simp]:
  assumes "wf_int a"
  shows "ch_bignum_compare a (fixnum 0) < 0 \<longleftrightarrow> exact_int a < 0" "0 < ch_bignum_compare a (fixnum 0) \<longleftrightarrow> 0 < exact_int a"
  using compare_int [OF assms, of "fixnum 0"] by (simp_all add: fixnum_small sgn_if)

lemma add_one_int:
  assumes "wf_int a"
  shows "canonical_int (ch_bignum_add a (fixnum 1)) \<and> exact_int (ch_bignum_add a (fixnum 1)) = exact_int a + 1"
    "canonical_int (ch_bignum_sub a (fixnum 1)) \<and> exact_int (ch_bignum_sub a (fixnum 1)) = exact_int a - 1"
  using add_int [OF assms, of "fixnum 1"] sub_int [OF assms, of "fixnum 1"] by (simp_all add: fixnum_small)

text \<open>Division towards zero and towards minus infinity.\<close>

lemma floor_of_trunc:
  assumes "b \<noteq> 0"
  shows "(a :: int) div b = (if rem_trunc a b \<noteq> 0 \<and> (a < 0) \<noteq> (b < 0) then quot_trunc a b - 1 else quot_trunc a b)"
    and "a mod b = (if rem_trunc a b \<noteq> 0 \<and> (a < 0) \<noteq> (b < 0) then rem_trunc a b + b else rem_trunc a b)"
proof -
  let ?q = "quot_trunc a b" and ?r = "rem_trunc a b"
  have e: "?q * b + ?r = a" by (rule trunc_div_mod)
  have r: "\<bar>?r\<bar> < \<bar>b\<bar>" using assms by (cases "a = 0") (simp_all add: rem_trunc_def abs_mult)
  have s: "0 \<le> ?r * a"
  proof -
    have "0 \<le> (\<bar>a\<bar> mod \<bar>b\<bar>) * \<bar>a\<bar>" using assms by simp
    then show ?thesis by (simp add: rem_trunc_def mult.commute mult.left_commute abs_sgn)
  qed
  have r0: "rem_trunc 0 b = 0" by (simp add: rem_trunc_def)
  define q r' where "q = (if ?r \<noteq> 0 \<and> (a < 0) \<noteq> (b < 0) then ?q - 1 else ?q)"
    and "r' = (if ?r \<noteq> 0 \<and> (a < 0) \<noteq> (b < 0) then ?r + b else ?r)"
  have a: "a = b * q + r'" using e by (auto simp: q_def r'_def algebra_simps)
  have b: "if 0 < b then 0 \<le> r' \<and> r' < b else b < r' \<and> r' \<le> 0"
    using r s r0 assms by (auto simp: r'_def zero_le_mult_iff split: if_splits)
  have "a div b = q \<and> a mod b = r'"
    using int_div_pos_eq [OF a] int_mod_pos_eq [OF a] int_div_neg_eq [OF a] int_mod_neg_eq [OF a] b by (auto split: if_splits)
  then show "a div b = (if ?r \<noteq> 0 \<and> (a < 0) \<noteq> (b < 0) then ?q - 1 else ?q)"
    "a mod b = (if ?r \<noteq> 0 \<and> (a < 0) \<noteq> (b < 0) then ?r + b else ?r)"
    unfolding q_def r'_def by simp_all
qed




text \<open>A fraction with its parts.\<close>

lemma even_and_1: "(w :: u64) AND 1 = 0 \<longleftrightarrow> even w"
  by (simp add: and_one_eq even_iff_mod_2_eq_zero)

lemma is_even_int_iff:
  assumes "wf_int v"
  shows "is_even_int v \<longleftrightarrow> even (exact_int v)"
proof (cases v)
  case (Imm w)
  have "even (sint x) \<longleftrightarrow> even x" for x :: u64 using bit_sint_iff [of x 0] by (simp add: bit_0)
  then show ?thesis using assms Imm by (auto simp: wf_int_def is_even_int_def is_fixnum_def exact_int_def even_and_1)
next
  case (Big ls p)
  have "even (uint x) \<longleftrightarrow> even x" for x :: u64 by transfer (simp add: even_take_bit_eq)
  then show ?thesis using Big by (cases ls) (simp_all add: is_even_int_def exact_int_def even_and_1)
qed (use assms in simp)

lemma round_half_even_trunc:
  fixes n d :: int
  assumes "0 < d"
  shows "round_half_even (of_int n / of_int d) =
    (let q = quot_trunc n d; r = rem_trunc n d; away = (if r < 0 then q - 1 else q + 1)
     in if r = 0 then q else if \<bar>r\<bar> * 2 < d then q else if d < \<bar>r\<bar> * 2 then away else if even q then q else away)"
proof -
  let ?q = "quot_trunc n d" and ?r = "rem_trunc n d"
  have e: "?q * d + ?r = n" by (rule trunc_div_mod)
  have r: "\<bar>?r\<bar> < d" using assms by (cases "n = 0") (simp_all add: rem_trunc_def abs_mult)
  define f where "f = (if ?r < 0 then ?q - 1 else ?q)"
  define m where "m = (if ?r < 0 then ?r + d else ?r)"
  have n: "n = f * d + m" "0 \<le> m" "m < d" using e r by (auto simp: f_def m_def algebra_simps)
  have div: "(of_int n :: rat) / of_int d = of_int f + of_int m / of_int d" using assms by (simp add: n(1) field_simps)
  have m1: "0 \<le> (of_int m :: rat) / of_int d" "(of_int m :: rat) / of_int d < 1" using n(2,3) assms by simp_all
  then have fl: "\<lfloor>(of_int n :: rat) / of_int d\<rfloor> = f" unfolding div by (intro floor_unique) simp_all
  have lt: "(of_int m :: rat) / of_int d < 1 / 2 \<longleftrightarrow> m * 2 < d" "1 / 2 < (of_int m :: rat) / of_int d \<longleftrightarrow> d < m * 2"
  proof -
    have "(of_int m :: rat) / of_int d < 1 / 2 \<longleftrightarrow> of_int (m * 2) < (of_int d :: rat)"
      "1 / 2 < (of_int m :: rat) / of_int d \<longleftrightarrow> (of_int d :: rat) < of_int (m * 2)"
      using assms by (auto simp: field_simps)
    then show "(of_int m :: rat) / of_int d < 1 / 2 \<longleftrightarrow> m * 2 < d" "1 / 2 < (of_int m :: rat) / of_int d \<longleftrightarrow> d < m * 2"
      unfolding of_int_less_iff by simp_all
  qed
  have "round_half_even (of_int n / of_int d) = (if m * 2 < d then f else if d < m * 2 then f + 1 else if even f then f else f + 1)"
  proof -
    have d: "(of_int n :: rat) / of_int d - of_int f = of_int m / of_int d" by (simp add: div)
    show ?thesis unfolding round_half_even_def fl Let_def d lt ..
  qed
  then show ?thesis using r assms by (auto simp: f_def m_def Let_def)
qed

lemma trunc_minus: "rem_trunc (- a) b = - rem_trunc a b" "quot_trunc (- a) b = - quot_trunc a b"
  by (simp_all add: rem_trunc_def quot_trunc_def)

lemma trunc_sign:
  assumes "0 < b"
  shows "0 \<le> a \<Longrightarrow> 0 \<le> rem_trunc a b" "a \<le> 0 \<Longrightarrow> rem_trunc a b \<le> 0"
  using assms by (simp_all add: rem_trunc_def sgn_if)



section \<open>Greatest common divisor and least common multiple\<close>

text \<open>The loops of \<open>prim_gcd\<close> and \<open>prim_lcm\<close> over exact operands; an operand that is no exact integer is an error.\<close>

fun gcd_args :: "exnum \<Rightarrow> exnum list \<Rightarrow> exnum option" where
  "gcd_args acc [] = Some (ch_bignum_abs acc)"
| "gcd_args acc (x # xs) =
     (if \<not> is_exact_integer x then Some undef
      else do { acc' \<leftarrow> ch_bignum_gcd acc x; gcd_args acc' xs })"

definition exact_gcd :: "exnum list \<Rightarrow> exnum option" where
  "exact_gcd args =
     (case args of
        [] \<Rightarrow> Some (fixnum 0)
      | x # xs \<Rightarrow> if \<not> is_exact_integer x then Some undef else gcd_args x xs)"

fun lcm_args :: "exnum \<Rightarrow> exnum list \<Rightarrow> exnum option" where
  "lcm_args acc [] = Some acc"
| "lcm_args acc (x # xs) =
     (if \<not> is_exact_integer x then Some undef
      else let b = ch_bignum_abs x in
        if is_zero_int acc \<or> is_zero_int b then lcm_args (fixnum 0) xs
        else do {
          g \<leftarrow> ch_bignum_gcd acc b;
          q \<leftarrow> ch_bignum_quotient acc g;
          lcm_args (ch_bignum_mul q b) xs
        })"

definition exact_lcm :: "exnum list \<Rightarrow> exnum option" where
  "exact_lcm args =
     (case args of
        [] \<Rightarrow> Some (fixnum 1)
      | x # xs \<Rightarrow> if \<not> is_exact_integer x then Some undef else lcm_args (ch_bignum_abs x) xs)"

lemma gcd_args_value:
  "wf_int acc \<Longrightarrow> list_all (\<lambda>x. wf_int x \<and> one_limb x) xs \<Longrightarrow>
     \<exists>g. gcd_args acc xs = Some g \<and> wf_int g \<and> exact_int g = gcd (exact_int acc) (Gcd (exact_int ` set xs))"
proof (induction xs arbitrary: acc)
  case Nil
  then show ?case using abs_int [of acc] by simp
next
  case (Cons x xs)
  then obtain g where g: "ch_bignum_gcd acc x = Some g" "wf_int g" "exact_int g = gcd (exact_int acc) (exact_int x)"
    using gcd_one_limb [of acc x] by auto
  then show ?case using Cons.IH [OF g(2)] Cons.prems by (simp add: exact_integer_wf gcd.assoc)
qed

lemma lcm_step:
  assumes "wf_int acc" "0 < exact_int acc" "wf_int b" "one_limb b" "0 < exact_int b"
  shows "\<exists>g q. ch_bignum_gcd acc b = Some g \<and> ch_bignum_quotient acc g = Some q \<and> wf_int (ch_bignum_mul q b) \<and>
    exact_int (ch_bignum_mul q b) = lcm (exact_int acc) (exact_int b)"
proof -
  obtain g where g: "ch_bignum_gcd acc b = Some g" "wf_int g" "exact_int g = gcd (exact_int acc) (exact_int b)"
    using gcd_one_limb [OF assms(1,3,4)] by auto
  have p: "0 < exact_int g" "exact_int g \<le> exact_int b" using assms(2,5) g(3) gcd_le2_int by simp_all
  then have "one_limb g" using assms(4) by (simp add: one_limb_def)
  then have "divides_well acc g" using one_limb_divides [OF assms(1) g(2)] p(1) by simp
  then obtain q where q: "ch_bignum_quotient acc g = Some q" "wf_int q" "exact_int q = quot_trunc (exact_int acc) (exact_int g)"
    using divides_wellD by metis
  have d: "exact_int g dvd exact_int acc" by (simp add: g(3))
  have "exact_int q = exact_int acc div exact_int g" using quot_trunc_dvd [OF d] p(1) q(3) by simp
  then have "exact_int q * exact_int b = exact_int acc * exact_int b div exact_int g" using d by (simp add: dvd_div_mult)
  also have "\<dots> = lcm (exact_int acc) (exact_int b)" using assms(2,5) by (simp add: lcm_gcd g(3) pos_imp_zdiv_nonneg_iff)
  finally show ?thesis using g(1) q(1) mul_int [OF q(2) assms(3)] canonical_wf by auto
qed

lemma lcm_args_value:
  "wf_int acc \<Longrightarrow> 0 \<le> exact_int acc \<Longrightarrow> list_all (\<lambda>x. wf_int x \<and> one_limb x) xs \<Longrightarrow>
     \<exists>l. lcm_args acc xs = Some l \<and> wf_int l \<and> exact_int l = lcm (exact_int acc) (Lcm (exact_int ` set xs))"
proof (induction xs arbitrary: acc)
  case Nil
  then show ?case by simp
next
  case (Cons x xs)
  have x: "wf_int x" "one_limb x" "is_exact_integer x" using Cons.prems(3) by (simp_all add: exact_integer_wf)
  note b = abs_int [OF x(1)]
  show ?case
  proof (cases "exact_int acc = 0 \<or> exact_int x = 0")
    case True
    have "0 \<le> exact_int (fixnum 0)" by (simp add: fixnum_small)
    then obtain l where "lcm_args (fixnum 0) xs = Some l" "wf_int l" "exact_int l = 0"
      using Cons.IH [OF fixnum_canonical(2), of 0] Cons.prems(3) by (auto simp: fixnum_small)
    then show ?thesis using True x Cons.prems(1) b by auto
  next
    case False
    then have "0 < exact_int acc" "0 < exact_int (ch_bignum_abs x)" "one_limb (ch_bignum_abs x)"
      using Cons.prems(2) b x(2) by (simp_all add: one_limb_def)
    then obtain g q where s: "ch_bignum_gcd acc (ch_bignum_abs x) = Some g" "ch_bignum_quotient acc g = Some q"
        "wf_int (ch_bignum_mul q (ch_bignum_abs x))" "exact_int (ch_bignum_mul q (ch_bignum_abs x)) = lcm (exact_int acc) (exact_int x)"
      using lcm_step [OF Cons.prems(1), of "ch_bignum_abs x"] b by auto
    then obtain l where "lcm_args (ch_bignum_mul q (ch_bignum_abs x)) xs = Some l" "wf_int l"
        "exact_int l = lcm (lcm (exact_int acc) (exact_int x)) (Lcm (exact_int ` set xs))"
      using Cons.IH [OF s(3)] Cons.prems(3) by auto
    then show ?thesis using False x Cons.prems(1) b s(1,2) by (simp add: lcm.assoc)
  qed
qed

text \<open>
  C39. \<open>gcd\<close> and \<open>lcm\<close> of any number of integers of one limb return, and are the greatest common divisor
  and the least common multiple of all of them, zeros and signs included; the partial result of \<open>lcm\<close>
  may be as long as it gets.
\<close>

theorem gcd_lcm_values:
  assumes "list_all (\<lambda>x. wf_int x \<and> one_limb x) args"
  shows "\<exists>g l. exact_gcd args = Some g \<and> exact_int g = Gcd (exact_int ` set args) \<and>
    exact_lcm args = Some l \<and> exact_int l = Lcm (exact_int ` set args)"
proof (cases args)
  case Nil
  then show ?thesis by (simp add: exact_gcd_def exact_lcm_def fixnum_small)
next
  case (Cons x xs)
  have x: "wf_int x" "is_exact_integer x" and xs: "list_all (\<lambda>x. wf_int x \<and> one_limb x) xs"
    using assms Cons by (simp_all add: exact_integer_wf)
  note b = abs_int [OF x(1)]
  show ?thesis
    using gcd_args_value [OF x(1) xs] lcm_args_value [OF _ _ xs, of "ch_bignum_abs x"] b x(2) Cons
    by (auto simp: exact_gcd_def exact_lcm_def)
qed

lemma gcd_lcm_values_witness:
  "\<exists>g l. exact_gcd [fixnum 12, fixnum (- 18)] = Some g \<and> exact_int g = 6 \<and> exact_lcm [fixnum 12, fixnum (- 18)] = Some l \<and> exact_int l = 36"
proof -
  have v: "exact_int (fixnum 12) = 12" "exact_int (fixnum (- 18)) = - 18" by (simp_all add: fixnum_value CH_FIXNUM_MIN_def CH_FIXNUM_MAX_def)
  have "gcd (12 :: int) 18 = 6" "lcm (12 :: int) 18 = 36" by code_simp+
  then show ?thesis using gcd_lcm_values [of "[fixnum 12, fixnum (- 18)]"] by (simp add: v one_limb_def)
qed

section \<open>Powers\<close>

partial_function (option) expt_loop :: "exnum \<Rightarrow> exnum \<Rightarrow> exnum \<Rightarrow> exnum option" where
  [code]: "expt_loop result base e =
     (if 0 < ch_bignum_compare e (fixnum 0) then do {
        rem \<leftarrow> ch_bignum_remainder e (fixnum 2);
        e' \<leftarrow> ch_bignum_quotient e (fixnum 2);
        expt_loop (if \<not> is_zero_int rem then ch_bignum_mul result base else result)
          (if 0 < ch_bignum_compare e' (fixnum 0) then ch_bignum_mul base base else base) e'
      }
      else Some result)"

definition expt_nonneg_int :: "exnum \<Rightarrow> exnum \<Rightarrow> exnum option" where
  "expt_nonneg_int base e = expt_loop (fixnum 1) base e"

definition expt_exact_rational :: "exnum \<Rightarrow> exnum \<Rightarrow> exnum option" where
  "expt_exact_rational base e =
     (if \<not> is_exact_integer e then Some undef
      else if ch_bignum_compare e (fixnum 0) = 0 then Some (fixnum 1)
      else let negative_exp = ch_bignum_compare e (fixnum 0) < 0;
               abs_exp = (if negative_exp then ch_bignum_negate e else e)
           in case ch_exact_parts base of (an, ad) \<Rightarrow> do {
                num_pow \<leftarrow> expt_nonneg_int an abs_exp;
                den_pow \<leftarrow> expt_nonneg_int ad abs_exp;
                if negative_exp then ch_make_rational den_pow num_pow else ch_make_rational num_pow den_pow
              })"

text \<open>The branch of \<open>prim_expt\<close> for exact operands; a zero to a negative power is an error.\<close>

definition exact_expt :: "exnum \<Rightarrow> exnum \<Rightarrow> exnum option" where
  "exact_expt z w =
     (if is_rational_obj z then expt_exact_rational z w
      else if 0 \<le> ch_bignum_compare w (fixnum 0) then expt_nonneg_int z w
      else do {
        pow \<leftarrow> expt_nonneg_int z (ch_bignum_negate w);
        if is_zero_int pow then Some undef else ch_make_rational (fixnum 1) pow
      })"

lemma quot_rem_pos:
  assumes "0 \<le> a" "0 < b"
  shows "quot_trunc a b = a div b" "rem_trunc a b = a mod b"
  using assms by (cases "a = 0"; simp add: quot_trunc_def rem_trunc_def)+

lemma expt_loop_value:
  "wf_int result \<Longrightarrow> canonical_int result \<Longrightarrow> wf_int base \<Longrightarrow> wf_int e \<Longrightarrow> 0 \<le> exact_int e \<Longrightarrow>
     \<exists>r. expt_loop result base e = Some r \<and> canonical_int r \<and> exact_int r = exact_int result * exact_int base ^ nat (exact_int e)"
proof (induction "nat (exact_int e)" arbitrary: result base e rule: less_induct)
  case less
  show ?case
  proof (cases "exact_int e = 0")
    case True
    then show ?thesis using less.prems by (subst expt_loop.simps) simp
  next
    case False
    then have pos: "0 < exact_int e" using less.prems(5) by simp
    have "divides_well e (fixnum 2)" by (rule one_limb_divides) (simp_all add: less.prems(4) one_limb_def fixnum_2)
    then obtain q r where D: "ch_bignum_quotient e (fixnum 2) = Some q" "ch_bignum_remainder e (fixnum 2) = Some r"
        "wf_int q" "wf_int r" "exact_int q = exact_int e div 2" "exact_int r = exact_int e mod 2"
      using quot_rem_pos [of "exact_int e" 2] pos by (elim divides_wellD) (simp add: fixnum_2)
    let ?res = "if \<not> is_zero_int r then ch_bignum_mul result base else result"
    let ?base = "if 0 < ch_bignum_compare q (fixnum 0) then ch_bignum_mul base base else base"
    note m = mul_int [OF less.prems(1,3)] and bb = mul_int [OF less.prems(3,3)]
    have lt: "nat (exact_int q) < nat (exact_int e)" "0 \<le> exact_int q" using pos by (simp_all add: D(5))
    have res: "wf_int ?res" "canonical_int ?res" "exact_int ?res = exact_int result * exact_int base ^ nat (exact_int e mod 2)"
      using m less.prems(1,2) D(4,6) by (auto simp: canonical_wf)
    have base: "wf_int ?base" "exact_int ?base ^ nat (exact_int q) = (exact_int base ^ 2) ^ nat (exact_int q)"
      using bb less.prems(3) D(3) lt(2) by (auto simp: canonical_wf power2_eq_square)
    obtain x where x: "expt_loop ?res ?base q = Some x" "canonical_int x" "exact_int x = exact_int ?res * exact_int ?base ^ nat (exact_int q)"
      using less.hyps [OF lt(1) res(1,2) base(1) D(3) lt(2)] by auto
    have "exact_int e = 2 * exact_int q + exact_int e mod 2" using D(5) by simp
    then have "nat (exact_int e) = nat (exact_int e mod 2) + 2 * nat (exact_int q)" using lt(2) by linarith
    then have "exact_int x = exact_int result * exact_int base ^ nat (exact_int e)"
      using x(3) res(3) base(2) by (metis mult.assoc power_add power_mult)
    moreover have "expt_loop result base e = Some x"
      using pos less.prems(4) D(1,2) x(1) by (subst expt_loop.simps) simp
    ultimately show ?thesis using x(2) by blast
  qed
qed

lemma expt_nonneg_value:
  assumes "wf_int base" "wf_int e" "0 \<le> exact_int e"
  shows "\<exists>r. expt_nonneg_int base e = Some r \<and> canonical_int r \<and> exact_int r = exact_int base ^ nat (exact_int e)"
  using expt_loop_value [OF _ _ assms, of "fixnum 1"] by (simp add: expt_nonneg_int_def fixnum_small)

definition numer :: "exnum \<Rightarrow> int" where "numer v = exact_int (fst (ch_exact_parts v))"

text \<open>The denominator of the power fits one limb, and a negative power has a base that is not zero.\<close>

definition expt_fits :: "exnum \<Rightarrow> exnum \<Rightarrow> bool" where
  "expt_fits z w \<longleftrightarrow>
     (if 0 \<le> exact_int w then denom z ^ nat (exact_int w) < 2 ^ 64
      else numer z \<noteq> 0 \<and> \<bar>numer z\<bar> ^ nat (- exact_int w) < 2 ^ 64)"

lemma make_rational_power:
  assumes z: "wf_exact z" and w: "wf_int w" "expt_fits z w" and e: "wf_int e" "exact_int e = \<bar>exact_int w\<bar>"
    and parts: "ch_exact_parts z = (n, d)"
  shows "\<exists>np dp. expt_nonneg_int n e = Some np \<and> expt_nonneg_int d e = Some dp \<and>
    exact_int np = numer z ^ nat \<bar>exact_int w\<bar> \<and> exact_int dp = denom z ^ nat \<bar>exact_int w\<bar> \<and> canonical_int np \<and> canonical_int dp \<and>
    (\<exists>r. (if exact_int w < 0 then ch_make_rational dp np else ch_make_rational np dp) = Some r \<and> wf_exact r \<and>
       exact_rat r = exact_rat z powi exact_int w)"
proof -
  let ?k = "nat \<bar>exact_int w\<bar>"
  have nd: "wf_int n" "wf_int d" "0 < exact_int d" "exact_rat z = of_int (exact_int n) / of_int (exact_int d)"
    using parts_value [OF z] parts by simp_all
  have names: "numer z = exact_int n" "denom z = exact_int d" using parts by (simp_all add: numer_def denom_def)
  have e0: "0 \<le> exact_int e" by (simp add: e(2))
  obtain np where np: "expt_nonneg_int n e = Some np" "canonical_int np" "exact_int np = exact_int n ^ ?k"
    using expt_nonneg_value [OF nd(1) e(1) e0] e(2) by auto
  obtain dp where dp: "expt_nonneg_int d e = Some dp" "canonical_int dp" "exact_int dp = exact_int d ^ ?k"
    using expt_nonneg_value [OF nd(2) e(1) e0] e(2) by auto
  have "\<exists>r. (if exact_int w < 0 then ch_make_rational dp np else ch_make_rational np dp) = Some r \<and> wf_exact r \<and>
      exact_rat r = exact_rat z powi exact_int w"
  proof (cases "exact_int w < 0")
    case True
    then have "one_limb np" "exact_int np \<noteq> 0"
      using w(2) by (simp_all add: expt_fits_def names one_limb_def np(3) power_abs)
    then obtain r where "ch_make_rational dp np = Some r" "wf_exact r" "exact_rat r = of_int (exact_int dp) / of_int (exact_int np)"
      using make_rational_value [of dp np] dp(2) np(2) canonical_wf by blast
    then show ?thesis using True by (simp add: nd(4) np(3) dp(3) power_int_def power_divide)
  next
    case False
    then have "one_limb dp" "exact_int dp \<noteq> 0"
      using w(2) nd(3) by (simp_all add: expt_fits_def names one_limb_def dp(3))
    then obtain r where "ch_make_rational np dp = Some r" "wf_exact r" "exact_rat r = of_int (exact_int np) / of_int (exact_int dp)"
      using make_rational_value [of np dp] dp(2) np(2) canonical_wf by blast
    then show ?thesis using False by (simp add: nd(4) np(3) dp(3) power_int_def power_divide)
  qed
  then show ?thesis using np dp by (simp add: names)
qed



section \<open>Integer square roots\<close>

fun bit_len :: "nat \<Rightarrow> nat" where
  "bit_len n = (if n = 0 then 0 else Suc (bit_len (n div 2)))"

declare bit_len.simps [simp del]

text \<open>\<open>64 - clz\<close> of a word that is not zero is the length of its binary numeral.\<close>

definition exact_int_bit_length :: "exnum \<Rightarrow> nat" where
  "exact_int_bit_length v =
     (case v of
        Imm w \<Rightarrow> bit_len (unat (ch_to_fixnum w))
      | Big ls p \<Rightarrow> if ls = [] then 0 else (length ls - 1) * 64 + bit_len (unat (last ls))
      | Rat _ _ \<Rightarrow> 0)"

text \<open>The two loops that correct the root of a fixnum; \<open>s\<close> starts at the floating-point root.\<close>

function root_down :: "nat \<Rightarrow> nat \<Rightarrow> nat" where
  "root_down ni s = (if ni < s * s then root_down ni (s - 1) else s)"
  by auto
termination
proof (relation "measure snd")
  fix ni s :: nat
  assume "ni < s * s"
  then show "((ni, s - 1), ni, s) \<in> measure snd" by (cases s) simp_all
qed simp

function root_up :: "nat \<Rightarrow> nat \<Rightarrow> nat" where
  "root_up ni s = (if (s + 1) * (s + 1) \<le> ni then root_up ni (s + 1) else s)"
  by auto
termination
proof (relation "measure (\<lambda>(ni, s). ni - s)")
  fix ni s :: nat
  assume "(s + 1) * (s + 1) \<le> ni"
  moreover have "s + 1 \<le> (s + 1) * (s + 1)" by simp
  ultimately have "s < ni" by linarith
  then show "((ni, s + 1), ni, s) \<in> measure (\<lambda>(ni, s). ni - s)" by simp
qed simp

declare root_down.simps [simp del] root_up.simps [simp del]

fun isqrt_search :: "nat \<Rightarrow> exnum \<Rightarrow> exnum \<Rightarrow> exnum \<Rightarrow> exnum option" where
  "isqrt_search 0 n lo hi = Some lo"
| "isqrt_search (Suc guard) n lo hi =
     (if ch_bignum_compare lo hi < 0 then do {
        mid \<leftarrow> ch_bignum_quotient (ch_bignum_add (ch_bignum_add lo hi) (fixnum 1)) (fixnum 2);
        if ch_bignum_compare (ch_bignum_mul mid mid) n \<le> 0 then isqrt_search guard n mid hi
        else isqrt_search guard n lo (ch_bignum_sub mid (fixnum 1))
      }
      else Some lo)"

definition isqrt_non_negative :: "(nat \<Rightarrow> nat) \<Rightarrow> exnum \<Rightarrow> (exnum \<times> exnum) option" where
  "isqrt_non_negative f64_root n =
     (case n of
        Imm w \<Rightarrow>
          let ni = unat (ch_to_fixnum w); s = root_up ni (root_down ni (f64_root ni))
          in Some (fixnum (of_nat s), fixnum (of_nat (ni - s * s)))
      | _ \<Rightarrow>
          let root_bits = (exact_int_bit_length n + 1) div 2 + 1 in do {
            s \<leftarrow> isqrt_search 8192 n (fixnum 0) (mul_two_times root_bits (fixnum 1));
            Some (ch_bignum_normalize s, ch_bignum_normalize (ch_bignum_sub n (ch_bignum_mul s s)))
          })"

text \<open>\<open>prim_exact_integer_sqrt\<close>; nothing is the error it raises.\<close>

definition exact_integer_sqrt :: "(nat \<Rightarrow> nat) \<Rightarrow> exnum \<Rightarrow> (exnum \<times> exnum) option option" where
  "exact_integer_sqrt f64_root n =
     (if \<not> is_exact_integer n \<or> ch_bignum_compare n (fixnum 0) < 0 then Some None
      else if is_zero_int n \<or> ch_bignum_compare n (fixnum 1) = 0 then Some (Some (n, fixnum 0))
      else map_option Some (isqrt_non_negative f64_root n))"


lemma bit_len_bound: "n < 2 ^ bit_len n"
proof (induction n rule: bit_len.induct)
  case (1 n)
  then show ?case by (subst bit_len.simps) auto
qed

lemma bit_length_bound:
  assumes "wf_int (Big ls p)"
  shows "limbs_val ls < 2 ^ exact_int_bit_length (Big ls p)"
proof (cases ls rule: rev_cases)
  case (snoc ys y)
  have "limbs_val ls = limbs_val ys + 2 ^ (64 * length ys) * unat y" by (simp add: snoc limbs_val_append)
  also have "\<dots> < 2 ^ (64 * length ys) * (unat y + 1)" using limbs_val_bound [of ys] by simp
  also have "\<dots> \<le> 2 ^ (64 * length ys) * 2 ^ bit_len (unat y)" using bit_len_bound [of "unat y"] by (intro mult_left_mono) simp_all
  finally show ?thesis by (simp add: exact_int_bit_length_def snoc power_add mult.commute)
qed simp

lemma root_down_le: "root_down ni s * root_down ni s \<le> ni"
proof (induction ni s rule: root_down.induct)
  case (1 ni s)
  then show ?case by (subst (1 2) root_down.simps) (simp add: not_less)
qed

lemma root_up_root:
  "s * s \<le> ni \<Longrightarrow> root_up ni s * root_up ni s \<le> ni \<and> ni < (root_up ni s + 1) * (root_up ni s + 1)"
proof (induction ni s rule: root_up.induct)
  case (1 ni s)
  show ?case
  proof (cases "(s + 1) * (s + 1) \<le> ni")
    case True
    then have "root_up ni s = root_up ni (s + 1)" by (subst root_up.simps) simp
    then show ?thesis using 1 True by simp
  next
    case False
    then have "root_up ni s = s" by (subst root_up.simps) simp
    then show ?thesis using 1(2) False by simp
  qed
qed

lemma compare_less:
  assumes "wf_int a" "wf_int b"
  shows "ch_bignum_compare a b < 0 \<longleftrightarrow> exact_int a < exact_int b" "ch_bignum_compare a b \<le> 0 \<longleftrightarrow> exact_int a \<le> exact_int b"
  using compare_int [OF assms] by (simp_all add: sgn_if)

lemma isqrt_search_root:
  "wf_int n \<Longrightarrow> wf_int lo \<Longrightarrow> wf_int hi \<Longrightarrow> 0 \<le> exact_int lo \<Longrightarrow> exact_int lo \<le> exact_int hi \<Longrightarrow>
     exact_int hi - exact_int lo < 2 ^ guard \<Longrightarrow> exact_int lo ^ 2 \<le> exact_int n \<Longrightarrow> exact_int n < (exact_int hi + 1) ^ 2 \<Longrightarrow>
     \<exists>s. isqrt_search guard n lo hi = Some s \<and> wf_int s \<and> 0 \<le> exact_int s \<and> exact_int s ^ 2 \<le> exact_int n \<and>
       exact_int n < (exact_int s + 1) ^ 2"
proof (induction guard arbitrary: lo hi)
  case 0
  then have "exact_int hi = exact_int lo" by simp
  then show ?case using 0 by auto
next
  case (Suc guard)
  show ?case
  proof (cases "exact_int lo < exact_int hi")
    case False
    then have "exact_int lo = exact_int hi" using Suc.prems(5) by simp
    then show ?thesis using Suc.prems compare_less(1) [OF Suc.prems(2,3)] by (intro exI [of _ lo]) simp
  next
    case True
    let ?sum = "ch_bignum_add (ch_bignum_add lo hi) (fixnum 1)"
    have sum: "wf_int ?sum" "exact_int ?sum = exact_int lo + exact_int hi + 1"
      using add_int [OF Suc.prems(2,3)] add_one_int(1) [of "ch_bignum_add lo hi"] by (simp_all add: canonical_wf)
    have "divides_well ?sum (fixnum 2)" by (rule one_limb_divides) (simp_all add: sum(1) one_limb_def fixnum_2)
    then obtain mid where mid: "ch_bignum_quotient ?sum (fixnum 2) = Some mid" "wf_int mid"
        "exact_int mid = (exact_int lo + exact_int hi + 1) div 2"
      using quot_rem_pos [of "exact_int ?sum" 2] sum(2) Suc.prems(4,5) by (elim divides_wellD) (simp add: fixnum_2)
    have m: "exact_int lo < exact_int mid" "exact_int mid \<le> exact_int hi" using True mid(3) by linarith+
    have half: "exact_int hi - exact_int mid < 2 ^ guard" "exact_int mid - 1 - exact_int lo < 2 ^ guard"
      using Suc.prems(6) mid(3) by simp_all
    have sq: "ch_bignum_compare (ch_bignum_mul mid mid) n \<le> 0 \<longleftrightarrow> exact_int mid ^ 2 \<le> exact_int n"
      using mul_int [OF mid(2,2)] compare_less(2) [OF _ Suc.prems(1), of "ch_bignum_mul mid mid"] canonical_wf
      by (simp add: power2_eq_square)
    show ?thesis
    proof (cases "exact_int mid ^ 2 \<le> exact_int n")
      case le: True
      have "0 \<le> exact_int mid" using m Suc.prems(4) by simp
      from Suc.IH [OF Suc.prems(1) mid(2) Suc.prems(3) this m(2) half(1) le Suc.prems(8)]
      show ?thesis using True mid(1) le sq compare_less(1) [OF Suc.prems(2,3)] by simp
    next
      case gt: False
      note sub = add_one_int(2) [OF mid(2)]
      have "exact_int lo \<le> exact_int (ch_bignum_sub mid (fixnum 1))" "exact_int (ch_bignum_sub mid (fixnum 1)) - exact_int lo < 2 ^ guard"
        "exact_int n < (exact_int (ch_bignum_sub mid (fixnum 1)) + 1) ^ 2"
        using sub m half gt by simp_all
      from Suc.IH [OF Suc.prems(1,2) _ Suc.prems(4) this(1,2) Suc.prems(7) this(3)]
      show ?thesis using True mid(1) gt sq sub canonical_wf compare_less(1) [OF Suc.prems(2,3)] by simp
    qed
  qed
qed

lemma isqrt_is_root:
  assumes "wf_int n" and "0 \<le> exact_int n" and "exact_int_bit_length n \<le> 16380"
  shows "\<exists>s r. isqrt_non_negative f64_root n = Some (s, r) \<and> 0 \<le> exact_int s \<and> exact_int s ^ 2 \<le> exact_int n \<and>
    exact_int n < (exact_int s + 1) ^ 2 \<and> exact_int r = exact_int n - exact_int s ^ 2 \<and> canonical_int s \<and> canonical_int r"
proof (cases n)
  case (Imm w)
  define ni where "ni = unat (ch_to_fixnum w)"
  define s where "s = root_up ni (root_down ni (f64_root ni))"
  have f: "is_fixnum n" using assms(1) Imm by (simp add: wf_int_def is_fixnum_def)
  have ni: "int ni = exact_int n" "int ni \<le> CH_FIXNUM_MAX"
    using sint_u64_nonneg [of "ch_to_fixnum w"] assms(2) fixnum_range [OF f] Imm by (simp_all add: ni_def exact_int_def)
  have s: "s * s \<le> ni" "ni < (s + 1) * (s + 1)" unfolding s_def using root_up_root [OF root_down_le] by blast+
  have v: "exact_int (fixnum (of_nat k)) = int k" if "k \<le> ni" for k
  proof -
    have le: "int k \<le> CH_FIXNUM_MAX" using that ni(2) by linarith
    then have "k < 2 ^ 63" by (simp add: CH_FIXNUM_MAX_def)
    then have "sint (of_nat k :: u64) = int k" using sint_of_unat [of "of_nat k"] by (simp add: unat_of_nat)
    then show ?thesis using le fixnum_value [of "of_nat k"] by (simp add: CH_FIXNUM_MIN_def)
  qed
  have "s \<le> s * s" by (cases s) simp_all
  then have "s \<le> ni" using s(1) by (rule le_trans)
  then have vs1: "exact_int (fixnum (of_nat s)) = int s" by (rule v)
  have vs2: "exact_int (fixnum (of_nat (ni - s * s))) = int ni - int s ^ 2"
    using v [of "ni - s * s"] s(1) by (simp add: of_nat_diff power2_eq_square del: of_nat_diff_if)
  have "int (s * s) \<le> int ni" "int ni < int ((s + 1) * (s + 1))" using s by (simp_all only: of_nat_le_iff of_nat_less_iff)
  then have sq: "int s ^ 2 \<le> int ni" "int ni < (int s + 1) ^ 2" by (simp_all add: power2_eq_square algebra_simps)
  have "isqrt_non_negative f64_root n = Some (fixnum (of_nat s), fixnum (of_nat (ni - s * s)))"
    by (simp only: isqrt_non_negative_def Imm Let_def exnum.case s_def ni_def)
  then show ?thesis using vs1 vs2 sq ni(1) by simp
next
  case (Big ls p)
  let ?rb = "(exact_int_bit_length n + 1) div 2 + 1"
  let ?hi = "mul_two_times ?rb (fixnum 1)"
  have hi: "wf_int ?hi" "exact_int ?hi = 2 ^ ?rb" using mul_two_times_int [of "fixnum 1" ?rb] by (simp_all add: fixnum_small)
  have "exact_int n < 2 ^ exact_int_bit_length n"
  proof -
    have "exact_int n \<le> int (limbs_val ls)" by (simp add: Big exact_int_def)
    also have "\<dots> < int (2 ^ exact_int_bit_length n)" using bit_length_bound [of ls p] assms(1) by (simp only: of_nat_less_iff Big)
    finally show ?thesis by simp
  qed
  also have "\<dots> \<le> 2 ^ (?rb * 2)" by (intro power_increasing) simp_all
  also have "\<dots> = exact_int ?hi ^ 2" by (simp only: hi(2) power_mult)
  also have "\<dots> \<le> (exact_int ?hi + 1) ^ 2" using hi(2) by (intro power_mono) simp_all
  finally have nhi: "exact_int n < (exact_int ?hi + 1) ^ 2" .
  have "?rb < 8192" using assms(3) by simp
  then have "(2 :: int) ^ ?rb < 2 ^ 8192" by (intro power_strict_increasing) simp_all
  then have d: "exact_int ?hi - exact_int (fixnum 0) < 2 ^ 8192" by (simp only: hi(2) fixnum_small diff_0_right)
  have lo: "0 \<le> exact_int (fixnum 0)" "exact_int (fixnum 0) \<le> exact_int ?hi" "exact_int (fixnum 0) ^ 2 \<le> exact_int n"
    using assms(2) hi(2) by (simp_all add: fixnum_small)
  obtain s where s: "isqrt_search 8192 n (fixnum 0) ?hi = Some s" "wf_int s" "0 \<le> exact_int s" "exact_int s ^ 2 \<le> exact_int n"
      "exact_int n < (exact_int s + 1) ^ 2"
    using isqrt_search_root [OF assms(1) fixnum_canonical(2) hi(1) lo(1,2) d lo(3) nhi] by blast
  note ss = mul_int [OF s(2,2)]
  note r = sub_int [OF assms(1) canonical_wf, of "ch_bignum_mul s s"]
  have norm: "canonical_int (ch_bignum_normalize v) \<and> exact_int (ch_bignum_normalize v) = exact_int v" if "wf_int v" for v
    using normalize_int [of v] that by (auto simp: wf_int_def split: exnum.splits)
  show ?thesis using s norm [OF s(2)] norm [of "ch_bignum_sub n (ch_bignum_mul s s)"] ss r canonical_wf
    by (simp add: isqrt_non_negative_def Big Let_def power2_eq_square del: isqrt_search.simps)
next
  case (Rat a b)
  then show ?thesis using assms(1) by simp
qed

text \<open>
  C40. \<open>exact-integer-sqrt\<close> returns the root rounded down and the remainder for every non-negative integer
  of at most 16380 bits, whatever the floating-point estimate \<open>f64_root\<close> for fixnums is.
\<close>

theorem exact_integer_sqrt_value:
  assumes "wf_int n" and "0 \<le> exact_int n" and "exact_int_bit_length n \<le> 16380"
  shows "\<exists>s r. exact_integer_sqrt f64_root n = Some (Some (s, r)) \<and> 0 \<le> exact_int s \<and> exact_int s ^ 2 \<le> exact_int n \<and>
    exact_int n < (exact_int s + 1) ^ 2 \<and> exact_int r = exact_int n - exact_int s ^ 2"
proof -
  have n: "is_exact_integer n" "\<not> ch_bignum_compare n (fixnum 0) < 0" "ch_bignum_compare n (fixnum 1) = 0 \<longleftrightarrow> exact_int n = 1"
    using assms(1,2) compare_int [OF assms(1), of "fixnum 1"] by (simp_all add: exact_integer_wf fixnum_small sgn_if)
  consider "exact_int n = 0 \<or> exact_int n = 1" | "exact_int n \<noteq> 0" "exact_int n \<noteq> 1" by blast
  then show ?thesis
  proof cases
    case 1
    then show ?thesis using n assms(1) by (auto simp: exact_integer_sqrt_def fixnum_small)
  next
    case 2
    then show ?thesis using n assms(1) isqrt_is_root [OF assms, of f64_root] by (auto simp: exact_integer_sqrt_def)
  qed
qed

lemma exact_integer_sqrt_value_witness:
  "\<exists>s r. exact_integer_sqrt (\<lambda>n. 0) (Big [0, 2] True) = Some (Some (s, r)) \<and> exact_int s ^ 2 \<le> 2 ^ 65 \<and> 2 ^ 65 < (exact_int s + 1) ^ 2"
proof -
  have "bit_len 2 = 2" by (simp add: bit_len.simps)
  then show ?thesis using exact_integer_sqrt_value [of "Big [0, 2] True" "\<lambda>n. 0"]
    by (auto simp: wf_int_def normalized_def exact_int_def exact_int_bit_length_def)
qed

end
