(* ===== verification/Chaaya_Math_Text.thy ===== *)
theory Chaaya_Math_Text
  imports Chaaya_Math
begin

text \<open>
  Exact integers in other radices: \<open>number->string\<close> and \<open>string->number\<close> with a radix, in
  \<open>src/src/prim_math.c\<close>.
\<close>

section \<open>To text\<close>

definition radix_char :: "nat \<Rightarrow> char" where
  "radix_char d = (if d < 10 then char_of (48 + d) else char_of (97 + d - 10))"

text \<open>The buffer has room for 511 characters before its terminating NUL; the text grows at the front.\<close>

definition RADIX_BUFFER :: nat where "RADIX_BUFFER = 511"

partial_function (option) radix_loop :: "exnum \<Rightarrow> exnum \<Rightarrow> string \<Rightarrow> (string + string) option" where
  [code]: "radix_loop base n buf =
     (if is_zero_int n then Some (Inr buf)
      else do {
        dig \<leftarrow> ch_bignum_remainder n base;
        if length buf = RADIX_BUFFER then Some (Inl ''number->string: overflow'')
        else do {
          n' \<leftarrow> ch_bignum_quotient n base;
          radix_loop base n' (radix_char (nat (exact_int dig)) # buf)
        }
      })"

definition exact_int_to_radix_string :: "exnum \<Rightarrow> nat \<Rightarrow> (string + string) option" where
  "exact_int_to_radix_string v radix =
     (if is_zero_int v then Some (Inr ''0'')
      else do {
        r \<leftarrow> radix_loop (fixnum (of_nat radix)) (ch_bignum_abs v) [];
        Some (case r of
                Inl e \<Rightarrow> Inl e
              | Inr buf \<Rightarrow>
                  if ch_bignum_compare v (fixnum 0) < 0
                  then if length buf = RADIX_BUFFER then Inl ''number->string: overflow'' else Inr (CHR ''-'' # buf)
                  else Inr buf)
      })"

section \<open>From text\<close>

definition digit_value :: "char \<Rightarrow> nat \<Rightarrow> nat option" where
  "digit_value c radix =
     (let n = of_char c; d = (if 48 \<le> n \<and> n \<le> 57 then Some (n - 48)
                              else if 97 \<le> n \<and> n \<le> 122 then Some (10 + (n - 97))
                              else if 65 \<le> n \<and> n \<le> 90 then Some (10 + (n - 65)) else None)
      in case d of None \<Rightarrow> None | Some d \<Rightarrow> if d < radix then Some d else None)"

definition max_chunk_digits :: "nat list" where
  "max_chunk_digits =
     [0, 0, 63, 40, 31, 27, 24, 22, 21, 20, 19, 18, 17, 17, 16, 16, 15, 15, 15, 14,
      14, 14, 14, 13, 13, 13, 13, 13, 13, 12, 12, 12, 12, 12, 12, 12, 12]"

definition chunk_size :: "nat \<Rightarrow> nat" where
  "chunk_size radix =
     (let chunk = (if 2 \<le> radix \<and> radix \<le> 36 then max_chunk_digits ! radix else 18) in if chunk = 0 then 18 else chunk)"

fun parse_part :: "nat \<Rightarrow> u64 \<Rightarrow> string \<Rightarrow> u64 option" where
  "parse_part radix part [] = Some part"
| "parse_part radix part (c # cs) =
     (case digit_value c radix of
        None \<Rightarrow> None
      | Some d \<Rightarrow> parse_part radix (part * of_nat radix + of_nat d) cs)"

definition radix_power :: "nat \<Rightarrow> nat \<Rightarrow> exnum" where
  "radix_power radix n = ((\<lambda>mul. ch_bignum_mul mul (fixnum (of_nat radix))) ^^ n) (fixnum 1)"

function parse_chunks :: "nat \<Rightarrow> exnum \<Rightarrow> string \<Rightarrow> exnum" where
  "parse_chunks radix acc text' =
     (if text' = [] then acc
      else let n = min (length text') (chunk_size radix)
        in case parse_part radix 0 (take n text') of
             None \<Rightarrow> undef
           | Some part \<Rightarrow>
               parse_chunks radix (ch_bignum_add (ch_bignum_mul acc (radix_power radix n)) (ch_value_from_u64 part)) (drop n text'))"
  by auto
termination
proof (relation "measure (\<lambda>(r, a, t). length t)")
  fix radix acc and text' :: string and n part
  assume "text' \<noteq> []" "n = min (length text') (chunk_size radix)"
  then show "((radix, ch_bignum_add (ch_bignum_mul acc (radix_power radix n)) (ch_value_from_u64 part), drop n text'), radix, acc, text')
      \<in> measure (\<lambda>(r, a, t). length t)"
    by (cases text') (auto simp: chunk_size_def Let_def)
qed simp

declare parse_chunks.simps [simp del]

definition parse_integer_radix :: "string \<Rightarrow> nat \<Rightarrow> exnum" where
  "parse_integer_radix text' radix =
     (let signed = (text' \<noteq> [] \<and> (hd text' = CHR ''+'' \<or> hd text' = CHR ''-''));
          digits = (if signed then tl text' else text')
      in if digits = [] then undef
         else let acc = parse_chunks radix (fixnum 0) digits
           in if acc = undef then undef
              else if signed \<and> hd text' = CHR ''-'' then ch_bignum_negate acc else acc)"


section \<open>Values\<close>

text \<open>The number that a list of digits stands for, the most significant digit first.\<close>

definition radix_val :: "nat \<Rightarrow> string \<Rightarrow> nat" where
  "radix_val radix cs = foldl (\<lambda>n c. n * radix + the (digit_value c radix)) 0 cs"

definition radix_digits :: "nat \<Rightarrow> string \<Rightarrow> bool" where
  "radix_digits radix cs \<longleftrightarrow> list_all (\<lambda>c. digit_value c radix \<noteq> None) cs"

lemma radix_simps [simp]: "radix_val r [] = 0" "radix_digits r []" "radix_digits r (c # cs) \<longleftrightarrow> digit_value c r \<noteq> None \<and> radix_digits r cs"
  by (simp_all add: radix_val_def radix_digits_def)

lemma foldl_radix: "foldl (\<lambda>n c. n * r + f c) (m :: nat) cs = m * r ^ length cs + foldl (\<lambda>n c. n * r + f c) 0 cs"
proof (induction cs arbitrary: m)
  case (Cons c cs)
  show ?case using Cons [of "m * r + f c"] Cons [of "f c"] by (simp add: algebra_simps)
qed simp

lemma radix_val_append: "radix_val r (xs @ ys) = radix_val r xs * r ^ length ys + radix_val r ys"
  unfolding radix_val_def foldl_append by (rule foldl_radix)

lemma radix_val_Cons: "radix_val r (c # cs) = the (digit_value c r) * r ^ length cs + radix_val r cs"
  using radix_val_append [of r "[c]" cs] by (simp add: radix_val_def)

lemma digit_value_less: "digit_value c r = Some d \<Longrightarrow> d < r"
  by (auto simp: digit_value_def Let_def split: option.splits if_splits)

lemma radix_val_bound: "radix_digits r cs \<Longrightarrow> 0 < r \<Longrightarrow> radix_val r cs < r ^ length cs"
proof (induction cs)
  case (Cons c cs)
  then obtain d where d: "digit_value c r = Some d" "d < r" using digit_value_less by auto
  have "d * r ^ length cs + radix_val r cs < d * r ^ length cs + r ^ length cs" using Cons by simp
  also have "\<dots> \<le> r * r ^ length cs" using d(2) by (metis Suc_leI add.commute mult_Suc mult_le_mono1)
  finally show ?case by (simp add: radix_val_Cons d(1))
qed simp

lemma digit_value_char: "d < r \<Longrightarrow> r \<le> 36 \<Longrightarrow> digit_value (radix_char d) r = Some d"
proof -
  assume a: "d < r" "r \<le> 36"
  show ?thesis
  proof (cases "d < 10")
    case True
    then have "of_char (radix_char d) = 48 + d" by (simp add: radix_char_def)
    then show ?thesis using True a by (simp add: digit_value_def)
  next
    case False
    then have "of_char (radix_char d) = 87 + d" using a by (simp add: radix_char_def)
    then show ?thesis using False a by (simp add: digit_value_def)
  qed
qed

section \<open>Parsing\<close>

lemma chunk_fits:
  assumes "2 \<le> r" "r \<le> 36"
  shows "r ^ chunk_size r < 2 ^ 64" "0 < chunk_size r"
proof -
  have "list_all (\<lambda>r. r ^ chunk_size r < 2 ^ 64 \<and> 0 < chunk_size r) [2..<37]"
    by (simp add: chunk_size_def max_chunk_digits_def upt_rec Let_def)
  moreover have "r \<in> set [2..<37]" unfolding set_upt using assms by simp
  ultimately show "r ^ chunk_size r < 2 ^ 64" "0 < chunk_size r" unfolding list_all_iff by blast+
qed

lemma parse_part_value:
  "radix_digits r cs \<Longrightarrow> unat part * r ^ length cs + radix_val r cs < 2 ^ 64 \<Longrightarrow> 0 < r \<Longrightarrow>
     \<exists>p. parse_part r part cs = Some p \<and> unat p = unat part * r ^ length cs + radix_val r cs"
proof (induction cs arbitrary: part)
  case (Cons c cs)
  obtain d where d: "digit_value c r = Some d" using Cons.prems(1) by auto
  let ?p = "part * of_nat r + of_nat d"
  have s: "unat part * r ^ length (c # cs) + radix_val r (c # cs) = (unat part * r + d) * r ^ length cs + radix_val r cs"
    by (simp add: radix_val_Cons d algebra_simps)
  have "unat part * r + d \<le> (unat part * r + d) * r ^ length cs" using Cons.prems(3) by simp
  then have "unat part * r + d < 2 ^ 64" using Cons.prems(2) unfolding s by linarith
  moreover have "?p = of_nat (unat part * r + d)" by simp
  ultimately have u: "unat ?p = unat part * r + d" by (simp only: unat_of_nat) simp
  show ?case using Cons.IH [of ?p] Cons.prems unfolding s u by (simp add: d)
qed simp

lemma radix_power_value:
  assumes "r \<le> 36"
  shows "wf_int (radix_power r n) \<and> exact_int (radix_power r n) = int r ^ n"
proof (induction n)
  case 0
  then show ?case by (simp add: radix_power_def fixnum_small)
next
  case (Suc n)
  have "sint (of_nat r :: u64) = int r" using assms by (intro trans [OF sint_of_unat]) (simp_all add: unat_of_nat)
  then have "exact_int (fixnum (of_nat r)) = int r" using assms by (simp add: fixnum_value CH_FIXNUM_MIN_def CH_FIXNUM_MAX_def)
  then show ?case using Suc mul_int [of "radix_power r n" "fixnum (of_nat r)"] canonical_wf by (simp add: radix_power_def)
qed

lemma parse_chunks_value:
  "canonical_int acc \<Longrightarrow> 2 \<le> r \<Longrightarrow> r \<le> 36 \<Longrightarrow> radix_digits r cs \<Longrightarrow>
     canonical_int (parse_chunks r acc cs) \<and> exact_int (parse_chunks r acc cs) = exact_int acc * int r ^ length cs + int (radix_val r cs)"
proof (induction r acc cs rule: parse_chunks.induct)
  case (1 r acc cs)
  show ?case
  proof (cases "cs = []")
    case True
    then show ?thesis using 1(2) by (simp add: parse_chunks.simps)
  next
    case False
    define n where "n = min (length cs) (chunk_size r)"
    define x y where "x = take n cs" and "y = drop n cs"
    have cs: "cs = x @ y" "length x = n" by (simp_all add: x_def y_def n_def)
    have d: "radix_digits r x" "radix_digits r y" using 1(5) unfolding cs(1) by (simp_all add: radix_digits_def)
    have "radix_val r x < r ^ n" using radix_val_bound [OF d(1)] 1(3) cs(2) by simp
    also have "\<dots> \<le> r ^ chunk_size r" using 1(3) by (intro power_increasing) (simp_all add: n_def)
    finally have "radix_val r x < 2 ^ 64" using chunk_fits(1) [OF 1(3,4)] by simp
    then obtain p where p: "parse_part r 0 x = Some p" "unat p = radix_val r x"
      using parse_part_value [OF d(1), of 0] 1(3) by auto
    let ?acc = "ch_bignum_add (ch_bignum_mul acc (radix_power r n)) (ch_value_from_u64 p)"
    note m = mul_int [OF canonical_wf [OF 1(2)], of "radix_power r n"] and rp = radix_power_value [OF 1(4), of n]
      and u = value_from_u64_int [of p]
    have acc: "canonical_int ?acc" "exact_int ?acc = exact_int acc * int r ^ n + int (radix_val r x)"
      using add_int [of "ch_bignum_mul acc (radix_power r n)" "ch_value_from_u64 p"] m rp u p(2) canonical_wf
      by (simp_all add: uint_nat)
    have e: "parse_chunks r acc cs = parse_chunks r ?acc y"
      using False p(1) by (subst parse_chunks.simps) (simp add: Let_def x_def y_def n_def)
    have "canonical_int (parse_chunks r ?acc y) \<and> exact_int (parse_chunks r ?acc y) = exact_int ?acc * int r ^ length y + int (radix_val r y)"
      using 1(1) [OF False n_def _ acc(1) 1(3,4)] p(1) d(2) by (simp add: x_def y_def)
    then show ?thesis unfolding e acc(2) unfolding cs(1) by (simp add: radix_val_append cs(2) power_add algebra_simps)
  qed
qed


section \<open>The round trip\<close>

lemma radix_small: "r \<le> 36 \<Longrightarrow> exact_int (fixnum (of_nat r)) = int r"
proof -
  assume r: "r \<le> 36"
  have "sint (of_nat r :: u64) = int r" using r by (intro trans [OF sint_of_unat]) (simp_all add: unat_of_nat)
  then show ?thesis using r by (simp add: fixnum_value CH_FIXNUM_MIN_def CH_FIXNUM_MAX_def)
qed

lemma radix_step:
  assumes n: "wf_int n" "0 < exact_int n" and r: "2 \<le> r" "r \<le> 36"
  obtains dig q where "ch_bignum_remainder n (fixnum (of_nat r)) = Some dig" "ch_bignum_quotient n (fixnum (of_nat r)) = Some q"
    "wf_int q" "exact_int dig = exact_int n mod int r" "exact_int q = exact_int n div int r"
proof -
  note b = radix_small [OF r(2)]
  have "divides_well n (fixnum (of_nat r))" by (rule one_limb_divides) (use n r b in \<open>simp_all add: one_limb_def\<close>)
  then show ?thesis using that quot_rem_pos [of "exact_int n" "int r"] n(2) r(1) b by (elim divides_wellD) simp
qed

text \<open>The loop writes digits of the number in front of the buffer, as many as there is room for.\<close>

lemma radix_loop_digits:
  "wf_int n \<Longrightarrow> 0 \<le> exact_int n \<Longrightarrow> 2 \<le> r \<Longrightarrow> r \<le> 36 \<Longrightarrow> length buf \<le> RADIX_BUFFER \<Longrightarrow>
     \<exists>cs. radix_digits r cs \<and> int (radix_val r cs) = exact_int n \<and>
       (cs \<noteq> [] \<longrightarrow> the (digit_value (hd cs) r) \<noteq> 0) \<and>
       radix_loop (fixnum (of_nat r)) n buf =
         Some (if length cs + length buf \<le> RADIX_BUFFER then Inr (cs @ buf) else Inl ''number->string: overflow'')"
proof (induction "nat (exact_int n)" arbitrary: n buf rule: less_induct)
  case less
  show ?case
  proof (cases "exact_int n = 0")
    case True
    then show ?thesis using less.prems(1,5) by (intro exI [of _ "[]"]) (simp add: radix_loop.simps)
  next
    case False
    then have pos: "0 < exact_int n" using less.prems(2) by simp
    obtain dig q where D: "ch_bignum_remainder n (fixnum (of_nat r)) = Some dig" "ch_bignum_quotient n (fixnum (of_nat r)) = Some q"
      "wf_int q" "exact_int dig = exact_int n mod int r" "exact_int q = exact_int n div int r"
      using radix_step [OF less.prems(1) pos less.prems(3,4)] .
    define d where "d = nat (exact_int dig)"
    have d: "d < r" "int d = exact_int n mod int r" using less.prems(3) D(4) by (simp_all add: d_def nat_less_iff)
    note c = digit_value_char [OF d(1) less.prems(4)]
    have lt: "nat (exact_int q) < nat (exact_int n)" "0 \<le> exact_int q"
      using pos less.prems(3) D(5) by (simp_all add: int_div_less_self pos_imp_zdiv_nonneg_iff)
    have n: "exact_int n = exact_int q * int r + int d" unfolding D(5) d(2) by simp
    have step: "radix_loop (fixnum (of_nat r)) n buf =
        (if length buf = RADIX_BUFFER then Some (Inl ''number->string: overflow'') else radix_loop (fixnum (of_nat r)) q (radix_char d # buf))"
      using D(1,2) False less.prems(1) by (subst radix_loop.simps) (simp add: d_def)
    have ext: "radix_digits r (cs @ [radix_char d]) \<and> int (radix_val r (cs @ [radix_char d])) = exact_int n \<and>
        (the (digit_value (hd (cs @ [radix_char d])) r) \<noteq> 0)"
      if cs: "radix_digits r cs" "int (radix_val r cs) = exact_int q" "cs \<noteq> [] \<longrightarrow> the (digit_value (hd cs) r) \<noteq> 0" for cs
    proof -
      have "int (radix_val r (cs @ [radix_char d])) = exact_int n" using cs(2) c n by (simp add: radix_val_append radix_val_Cons)
      moreover have "cs = [] \<Longrightarrow> d \<noteq> 0" using cs(2) n pos by auto
      ultimately show ?thesis using cs c by (auto simp: radix_digits_def hd_append)
    qed
    show ?thesis
    proof (cases "length buf = RADIX_BUFFER")
      case True
      obtain cs where "radix_digits r cs" "int (radix_val r cs) = exact_int q" "cs \<noteq> [] \<longrightarrow> the (digit_value (hd cs) r) \<noteq> 0"
        using less.hyps [OF lt(1) D(3) lt(2) less.prems(3,4), of "[]"] by auto
      from ext [OF this] show ?thesis using True step by (intro exI [of _ "cs @ [radix_char d]"]) simp
    next
      case room: False
      then have "length (radix_char d # buf) \<le> RADIX_BUFFER" using less.prems(5) by simp
      then obtain cs where cs: "radix_digits r cs" "int (radix_val r cs) = exact_int q" "cs \<noteq> [] \<longrightarrow> the (digit_value (hd cs) r) \<noteq> 0"
          "radix_loop (fixnum (of_nat r)) q (radix_char d # buf) =
            Some (if length cs + length (radix_char d # buf) \<le> RADIX_BUFFER then Inr (cs @ radix_char d # buf) else Inl ''number->string: overflow'')"
        using less.hyps [OF lt(1) D(3) lt(2) less.prems(3,4)] by blast
      from ext [OF cs(1-3)] show ?thesis using room step cs(4) by (intro exI [of _ "cs @ [radix_char d]"]) simp
    qed
  qed
qed


lemma radix_digits_length:
  assumes "radix_digits r cs" "cs \<noteq> []" "the (digit_value (hd cs) r) \<noteq> 0" "2 \<le> r" "radix_val r cs < r ^ k"
  shows "length cs \<le> k"
proof (rule ccontr)
  assume "\<not> length cs \<le> k"
  then have "r ^ k \<le> r ^ (length cs - 1)" using assms(4) by (intro power_increasing) simp_all
  also have "\<dots> \<le> radix_val r cs" using assms(2,3) by (cases cs) (simp_all add: radix_val_Cons trans_le_add1)
  finally show False using assms(5) by simp
qed

lemma no_sign_digit: "digit_value (CHR ''+'') r = None" "digit_value (CHR ''-'') r = None"
  by (simp_all add: digit_value_def)

lemma parse_digits:
  assumes "2 \<le> r" "r \<le> 36" "radix_digits r cs" "cs \<noteq> []"
  shows "\<exists>acc. canonical_int acc \<and> exact_int acc = int (radix_val r cs) \<and> parse_integer_radix cs r = acc \<and>
    parse_integer_radix (CHR ''-'' # cs) r = ch_bignum_negate acc"
proof -
  let ?acc = "parse_chunks r (fixnum 0) cs"
  have a: "canonical_int ?acc" "exact_int ?acc = int (radix_val r cs)"
    using parse_chunks_value [OF fixnum_canonical(1) assms(1-3), of 0] by (simp_all add: fixnum_small)
  have "hd cs \<noteq> CHR ''+''" "hd cs \<noteq> CHR ''-''" using assms(3,4) no_sign_digit by (cases cs; auto)+
  then show ?thesis using a assms(4) wf_not_undef [OF canonical_wf [OF a(1)]]
    by (intro exI [of _ ?acc]) (simp add: parse_integer_radix_def Let_def)
qed

text \<open>The text of an integer that is not zero: its digits, after a sign, if they fit the buffer.\<close>

definition radix_written :: "exnum \<Rightarrow> string \<Rightarrow> string + string" where
  "radix_written v cs =
     (if exact_int v < 0
      then (if length cs < RADIX_BUFFER then Inr (CHR ''-'' # cs) else Inl ''number->string: overflow'')
      else (if length cs \<le> RADIX_BUFFER then Inr cs else Inl ''number->string: overflow''))"

lemma radix_text:
  assumes v: "wf_int v" "exact_int v \<noteq> 0" and r: "2 \<le> r" "r \<le> 36"
  obtains cs where "radix_digits r cs" "int (radix_val r cs) = \<bar>exact_int v\<bar>" "cs \<noteq> []" "the (digit_value (hd cs) r) \<noteq> 0"
    "exact_int_to_radix_string v r = Some (radix_written v cs)"
proof -
  note a = abs_int [OF v(1)]
  obtain cs where cs: "radix_digits r cs" "int (radix_val r cs) = exact_int (ch_bignum_abs v)"
      "cs \<noteq> [] \<longrightarrow> the (digit_value (hd cs) r) \<noteq> 0"
      "radix_loop (fixnum (of_nat r)) (ch_bignum_abs v) [] =
        Some (if length cs + length ([] :: string) \<le> RADIX_BUFFER then Inr (cs @ []) else Inl ''number->string: overflow'')"
    using radix_loop_digits [of "ch_bignum_abs v" r "[]"] a r by auto
  have "cs \<noteq> []" using cs(2) a v(2) by auto
  then show ?thesis using that [of cs] cs a v by (auto simp: exact_int_to_radix_string_def radix_written_def)
qed



text \<open>The least fixnum comes back as a bignum, and a text with more than 511 digits is refused.\<close>

lemma radix_least_fixnum:
  assumes "canonical_int v" "exact_int v = CH_FIXNUM_MIN" "2 \<le> r" "r \<le> 36"
  shows "\<exists>s. exact_int_to_radix_string v r = Some (Inr s) \<and> is_bignum (parse_integer_radix s r) \<and> parse_integer_radix s r \<noteq> v"
proof -
  have neg: "exact_int v < 0" using assms(2) by (simp add: CH_FIXNUM_MIN_def)
  then have nz: "exact_int v \<noteq> 0" by simp
  obtain cs where cs: "radix_digits r cs" "int (radix_val r cs) = \<bar>exact_int v\<bar>" "cs \<noteq> []" "the (digit_value (hd cs) r) \<noteq> 0"
    "exact_int_to_radix_string v r = Some (radix_written v cs)"
    using radix_text [OF canonical_wf [OF assms(1)] nz assms(3,4)] .
  have "int (radix_val r cs) = int (2 ^ 47)" using cs(2) assms(2) by (simp add: CH_FIXNUM_MIN_def)
  also have "\<dots> < int (2 ^ 48)" by simp
  also have "\<dots> \<le> int (r ^ 48)" using assms(3) by (simp only: of_nat_le_iff) (rule power_mono, simp_all)
  finally have "length cs \<le> 48" using radix_digits_length [OF cs(1,3,4) assms(3), of 48] by (simp only: of_nat_less_iff)
  then have text': "exact_int_to_radix_string v r = Some (Inr (CHR ''-'' # cs))" using cs(5) neg by (simp add: RADIX_BUFFER_def radix_written_def)
  obtain acc where acc: "canonical_int acc" "exact_int acc = - CH_FIXNUM_MIN" "parse_integer_radix (CHR ''-'' # cs) r = ch_bignum_negate acc"
    using parse_digits [OF assms(3,4) cs(1,3)] cs(2) assms(2) by (auto simp: CH_FIXNUM_MIN_def)
  note n = negate_not_canonical [OF acc(1,2)]
  then have "ch_bignum_negate acc \<noteq> v" using assms(1) by auto
  then show ?thesis using text' acc(3) n by auto
qed

lemma radix_text_overflow:
  assumes "wf_int v" "2 \<le> r" "r \<le> 36" "int r ^ 511 \<le> \<bar>exact_int v\<bar>"
  shows "exact_int_to_radix_string v r = Some (Inl ''number->string: overflow'')"
proof -
  have "(0 :: int) < int r ^ 511" using assms(2) by simp
  then have v: "exact_int v \<noteq> 0" using assms(4) by linarith
  obtain cs where cs: "radix_digits r cs" "int (radix_val r cs) = \<bar>exact_int v\<bar>" "cs \<noteq> []" "the (digit_value (hd cs) r) \<noteq> 0"
    "exact_int_to_radix_string v r = Some (radix_written v cs)"
    using radix_text [OF assms(1) v assms(2,3)] .
  have "radix_val r cs < r ^ length cs" using radix_val_bound [OF cs(1)] assms(2) by simp
  then have "int (radix_val r cs) < int (r ^ length cs)" by (simp only: of_nat_less_iff)
  then have "int r ^ 511 < int r ^ length cs" using assms(4) cs(2) by simp
  then have "511 < length cs" by (rule power_less_imp_less_exp [rotated]) (use assms(2) in simp)
  then show ?thesis using cs(5) by (simp add: RADIX_BUFFER_def radix_written_def)
qed

end
