(* ===== verification/Spec2Isabelle.thy ===== *)
theory Spec2Isabelle
  imports Chaaya_Ir_Semantics Chaaya_Hashtable Chaaya_String Chaaya_Gc_Properties Chaaya_Fiber_Properties
    Chaaya_Copy_Properties Chaaya_Copy_Visited Chaaya_Math_Text
begin

text \<open>
  Verification development for Chaaya, an R7RS Scheme implementation in C. Paths name the files of
  the repository below \<open>src/\<close>; a definition has the name of the C function it translates where
  Isabelle allows it.

  \<^bold>\<open>The program.\<close> Source text is read into data, expanded, lowered to a tree IR that is analysed and
  optimised, and emitted again as data for a bytecode compiler, whose code a register machine runs.
  Every value is a NaN-boxed 64-bit word; objects live in a heap with a generational mark-sweep
  collector. On top are the numeric tower, strings in UTF-8, hash tables, and cooperative fibers
  that talk through channels. Threads of the operating system have virtual machines of their own and
  exchange values by deep copies. The components interact as follows. The IR folds calls of the
  arithmetic primitives, which use the exact arithmetic; equality reads the object store and the
  exact arithmetic; hash tables use equality, and a key contract connects the two; strings use the
  UTF-8 loops; deep copies build numbers with the exact arithmetic and know the slots of hash tables;
  channels and scheduler share the waiter lists and the ready queue.

  \<^bold>\<open>Values and numbers.\<close> \<open>Chaaya_Prelude\<close> has the machine types and shared lemmas. \<open>Chaaya_Value\<close> is
  \<open>include/chaaya/value.h\<close>: words, their classes, constructors and accessors. \<open>Chaaya_Limbs\<close>,
  \<open>Chaaya_Division\<close> and \<open>Chaaya_Bignum\<close> are \<open>src/bignum.c\<close>: magnitudes as lists of 64-bit limbs with
  the wrap-around and carries of the code, the long division loop with its guard, and the signed
  operations, comparison, and decimal text. \<open>limbs_val\<close> and \<open>exact_int\<close> say what limbs and integers stand
  for. \<open>Chaaya_Rational\<close> is \<open>src/rational.c\<close>, \<open>Chaaya_Double\<close> the binary64 arithmetic and the conversions,
  \<open>Chaaya_Datum\<close> complex numbers and data, \<open>Chaaya_Prims\<close> the primitives of \<open>src/prim_core.c\<close> and
  \<open>Chaaya_Math\<close> with \<open>Chaaya_Math_Text\<close> the exact part of \<open>src/prim_math.c\<close>. The lemmas show that the
  operations compute on integers and rationals, keep canonical forms and lowest terms, that text and
  numbers are inverse, and where long division is wrong or does not return. \<open>None\<close> stands for not
  returning; the hypotheses \<open>exact_division\<close>, \<open>divides_well\<close>, \<open>one_limb\<close> name the divisions that are exact.

  \<^bold>\<open>Compiler IR.\<close> \<open>Chaaya_Ir\<close> is \<open>src/ir.c\<close>, \<open>ir_lower.c\<close>, \<open>ir_analyze.c\<close>, \<open>ir_emit.c\<close>; \<open>Chaaya_Ir_Opt\<close> is \<open>ir_opt.c\<close>.
  \<open>Chaaya_Ir_Fold\<close> compares folding with the primitives at run time, and \<open>Chaaya_Ir_Semantics\<close> gives the
  trees a meaning over an arbitrary machine and shows that the optimiser preserves it, with fuel for
  the evaluation and the same fuel on both sides.

  \<^bold>\<open>Data structures.\<close> \<open>Chaaya_Equality\<close> is the object store with \<open>eqv?\<close> and \<open>equal?\<close> of \<open>src/value.c\<close>; it shows
  that \<open>equal?\<close> returns on cyclic data and decides equality of the unfolded trees. \<open>Chaaya_Hashtable\<close> is
  \<open>src/hashtable.c\<close>, with the interface \<open>key_contract\<close> of hash and equality, interpreted by the hash and the
  equality of the code; it shows that tables refine finite maps. \<open>Chaaya_Utf8\<close> and \<open>Chaaya_String\<close> are
  \<open>src/prim_utf8.c\<close>, \<open>prim_utf8.h\<close> and \<open>src/prim_string.c\<close>: strings are byte lists that stand for the lists
  of their code points, errors are texts in a sum.

  \<^bold>\<open>Collector.\<close> \<open>Chaaya_Gc\<close> is \<open>src/gc.c\<close>: marking of every type of object, ephemerons, sweeping, both
  collections, promotion, remembered set, write barrier, root stack. \<open>Chaaya_Gc_Marking\<close>,
  \<open>Chaaya_Gc_Collect\<close> and \<open>Chaaya_Gc_Mutator\<close> hold the invariant and its proofs, \<open>Chaaya_Gc_Properties\<close> what
  follows: exactly the live objects survive, and no reachable state of a mutator touches freed
  memory. Looking at a freed object is \<open>None\<close>.

  \<^bold>\<open>Fibers.\<close> \<open>Chaaya_Fiber\<close> is \<open>src/fiber.c\<close> and \<open>src/channel.c\<close>: the state of fibers, channels and ready
  queue, and every operation as the code has it. \<open>Chaaya_Ring\<close> has the interface \<open>fifo\<close> of a bounded queue,
  which \<open>Chaaya_Fiber_Queues\<close> interprets with both rings. \<open>Chaaya_Fiber_Steps\<close> makes the operations a
  step relation with its invariant, \<open>Chaaya_Fiber_Operations\<close> and \<open>Chaaya_Fiber_Runs\<close> prove it for all steps and
  runs, and \<open>Chaaya_Fiber_Properties\<close> has order of delivery, bounds, progress and the cases where they end.
  The code that a fiber runs is a parameter.

  \<^bold>\<open>Copies.\<close> \<open>Chaaya_Copy\<close> is \<open>src/gc_deep_copy.c\<close>: what is done with an object is a plan by its tag, and the
  walk follows it, with fuel for the depth of the recursion. \<open>Chaaya_Copy_Image\<close> says what a copy is,
  \<open>Chaaya_Copy_Walk\<close> shows that the walk makes one, \<open>Chaaya_Copy_Returns\<close> that it returns with enough fuel
  and that more fuel changes nothing; \<open>Chaaya_Copy_Properties\<close> has the results for \<open>ch_gc_deep_copy\<close>
  and the sources for which there is none. \<open>Chaaya_Copy_Visited\<close> is the table of visited objects, shown
  to be a map. The promotion of a local channel is a parameter.

  \<^bold>\<open>Bounds.\<close> Loops whose end depends on the state are recursions with a measure, partial functions whose
  return is proved, or have a round for every slot they can look at: probing has the capacity of the table as its
  fuel, which the free slot makes enough. The guards of the code (256 rounds per digit of the
  long division, 8192 of the square root, 256 places in the ready queue, 511 characters of text in a
  radix) are in the model, and the theorems say up to where they suffice.

  \<^bold>\<open>Not modelled.\<close> Allocation does not fail, and the C memory behind an object is not freed by hand. The
  shadow stack pushes of the primitives have no counterpart. Reader, printer, macro expander, bytecode
  compiler and virtual machine, libraries, foreign functions and the LLVM backend are left out: they
  are large and their behaviour rests on each other. Ports, files, processes, threads, the reactor and
  the clock are the operating system's; timers of fibers are steps that may happen at any time. The
  Unicode tables are generated, so case mapping is not modelled. The library procedures over lists,
  vectors and bytevectors, SRFI 1, 13 and 133, and the flonum branches of \<open>src/prim_math.c\<close> are left out, and
  so are the command line, formatter, language server and test runner.
\<close>

end
